(* ===== verification/Prelude.thy ===== *)
theory Prelude
  imports Main "HOL-Library.Sublist" "HOL-Library.Word"
begin

text \<open>
  Shared vocabulary of the development.  A C++ \<open>std::string\<close> or
  \<open>absl::string_view\<close> is a sequence of bytes; it is a HOL \<open>string\<close>, whose
  characters are exactly the 256 byte values.  A \<open>char32_t\<close> code point and a
  \<open>size_t\<close> offset are natural numbers; where the width matters the bound is
  written out.  The named collections below gather the equations that the component
  proofs unfold (\<open>bytes_defs\<close>), the facts that bound lengths (\<open>len_facts\<close>) and
  the invariant-preservation facts (\<open>inv_intros\<close>).
\<close>

named_theorems bytes_defs "definitions of the byte-level routines"
named_theorems len_facts "length facts of the string routines"
named_theorems inv_intros "preservation facts of the component invariants"

type_synonym bytes = string
type_synonym char32 = nat

abbreviation ord_of :: "char \<Rightarrow> nat" where
  "ord_of c \<equiv> of_char c"

abbreviation chr_of :: "nat \<Rightarrow> char" where
  "chr_of n \<equiv> char_of n"

text \<open>
  \<open>std::string_view::find\<close> of a non-empty needle: the first position at or after
  \<open>from\<close> where the needle occurs, or \<open>npos\<close>.
\<close>

fun find_sub :: "bytes \<Rightarrow> bytes \<Rightarrow> nat option" where
  "find_sub needle [] = (if needle = [] then Some 0 else None)"
| "find_sub needle (c # cs) =
     (if prefix needle (c # cs) then Some 0 else map_option Suc (find_sub needle cs))"

definition find_from :: "bytes \<Rightarrow> bytes \<Rightarrow> nat \<Rightarrow> nat option" where
  "find_from s needle from =
     (if from \<le> length s then map_option (\<lambda>n. n + from) (find_sub needle (drop from s)) else None)"

lemma find_sub_Some:
  "find_sub needle s = Some n \<Longrightarrow> n + length needle \<le> length s \<and> prefix needle (drop n s)"
proof (induction s arbitrary: n)
  case Nil
  then show ?case by (auto split: if_splits)
next
  case (Cons c cs)
  then show ?case
    by (auto split: if_splits dest: prefix_length_le)
qed

lemma find_sub_least:
  "find_sub needle s = Some n \<Longrightarrow> m < n \<Longrightarrow> \<not> prefix needle (drop m s)"
proof (induction s arbitrary: n m)
  case Nil
  then show ?case by (auto split: if_splits)
next
  case (Cons c cs)
  show ?case
  proof (cases m)
    case 0
    with Cons.prems show ?thesis by (auto split: if_splits)
  next
    case (Suc m')
    with Cons show ?thesis by (auto split: if_splits)
  qed
qed

lemma find_sub_None: "find_sub needle s = None \<Longrightarrow> \<not> prefix needle (drop m s)"
proof (induction s arbitrary: m)
  case Nil
  then show ?case by (auto split: if_splits)
next
  case (Cons c cs)
  then show ?case by (cases m) (auto split: if_splits)
qed

lemma find_from_Some:
  assumes "find_from s needle from = Some n"
  shows "from \<le> n" and "n + length needle \<le> length s"
  using assms find_sub_Some [of needle "drop from s"]
  by (auto simp: find_from_def split: if_splits)

text \<open>\<open>std::string_view::rfind\<close> of a whole string: the last position where it occurs.\<close>

definition rfind :: "bytes \<Rightarrow> bytes \<Rightarrow> nat option" where
  "rfind s needle =
     map_option (\<lambda>n. length s - length needle - n) (find_sub (rev needle) (rev s))"

lemma rfind_suffix:
  assumes "length needle \<le> length s"
  shows "rfind s needle = Some (length s - length needle) \<longleftrightarrow> suffix needle s"
proof
  assume "suffix needle s"
  then have "prefix (rev needle) (rev s)" by (simp add: suffix_to_prefix)
  then have "find_sub (rev needle) (rev s) = Some 0"
    by (cases "rev s") auto
  then show "rfind s needle = Some (length s - length needle)" by (simp add: rfind_def)
next
  assume r: "rfind s needle = Some (length s - length needle)"
  then obtain n where n: "find_sub (rev needle) (rev s) = Some n"
    and eq: "length s - length needle - n = length s - length needle"
    by (auto simp: rfind_def)
  from find_sub_Some [OF n] have le: "n + length needle \<le> length s"
    and p: "prefix (rev needle) (drop n (rev s))" by simp_all
  from le eq assms have "n = 0" by arith
  with p show "suffix needle s" by (simp add: suffix_to_prefix)
qed

text \<open>A list of answers that all are there.\<close>

lemma those_map_all: "(\<And>x. x \<in> set xs \<Longrightarrow> f x = Some (g x)) \<Longrightarrow> those (map f xs) = Some (map g xs)"
  by (induction xs) auto

end
