(* ===== verification/Utf8.thy ===== *)
theory Utf8
  imports Prelude
begin

text \<open>
  UTF-8 in two flavours, as the repository has them.  \<open>base/strings/internal/utf8_internal\<close>
  decodes one character strictly (Unicode 15.0, table 3-7) and encodes one code point;
  \<open>base/util.cc\<close> keeps an older codec that also accepts five and six byte sequences and
  is the one the composer and its trie use.  The theorems say when each decoder inverts its
  encoder, and how the code-point view of a string relates to the byte view.
\<close>

unbundle bit_operations_syntax

section \<open>utf8_internal: the strict codec\<close>

definition kUtf8LenTbl :: "nat list" where
  "kUtf8LenTbl = replicate 194 1 @ replicate 30 2 @ replicate 16 3 @ replicate 5 4 @ replicate 11 1"

definition one_char_len :: "char \<Rightarrow> nat" where
  "one_char_len c = kUtf8LenTbl ! ord_of c"

definition kReplacementCharacter :: char32 where
  "kReplacementCharacter = 0xfffd"

record decode_result =
  code_point :: char32
  dr_ok :: bool
  bytes_seen :: nat

definition dr_continue :: "char32 \<Rightarrow> nat \<Rightarrow> decode_result" where
  "dr_continue cp n = \<lparr>code_point = cp, dr_ok = True, bytes_seen = n\<rparr>"

definition dr_error :: "nat \<Rightarrow> decode_result" where
  "dr_error n = \<lparr>code_point = kReplacementCharacter, dr_ok = False, bytes_seen = n\<rparr>"

definition dr_sentinel :: decode_result where
  "dr_sentinel = \<lparr>code_point = 0, dr_ok = False, bytes_seen = 0\<rparr>"

definition second_byte_boundary :: "nat \<Rightarrow> nat \<times> nat" where
  "second_byte_boundary n =
     (if n < 0xc2 \<or> 0xf4 < n then (0xff, 0x00)
      else if n = 0xe0 then (0xa0, 0xbf)
      else if n = 0xed then (0x80, 0x9f)
      else if n = 0xf0 then (0x90, 0xbf)
      else if n = 0xf4 then (0x80, 0x8f)
      else (0x80, 0xbf))"

definition is_trailing_byte :: "char \<Rightarrow> bool" where
  "is_trailing_byte c \<longleftrightarrow> ord_of c AND 0xc0 = 0x80"

definition is_valid_second_byte :: "char \<Rightarrow> char \<Rightarrow> bool" where
  "is_valid_second_byte leading second =
     (let (lo, hi) = second_byte_boundary (ord_of leading)
      in lo \<le> ord_of second \<and> ord_of second \<le> hi)"

definition is_valid_second_byte_needed :: "nat \<Rightarrow> char \<Rightarrow> char \<Rightarrow> bool" where
  "is_valid_second_byte_needed needed leading second =
     (if needed = 2 then is_trailing_byte second else is_valid_second_byte leading second)"

fun count_trailing :: "nat \<Rightarrow> bytes \<Rightarrow> nat" where
  "count_trailing seen [] = seen"
| "count_trailing seen (c # cs) =
     (if is_trailing_byte c then count_trailing (Suc seen) cs else seen)"

definition handle_buffer_too_short :: "bytes \<Rightarrow> decode_result" where
  "handle_buffer_too_short s =
     (case s of
        [] \<Rightarrow> dr_error 1
      | [_] \<Rightarrow> dr_error 1
      | leading # second # rest \<Rightarrow>
          if \<not> is_valid_second_byte leading second then dr_error 1
          else dr_error (count_trailing 2 rest))"

definition append_trailing_byte :: "char32 \<Rightarrow> char \<Rightarrow> char32" where
  "append_trailing_byte base c = push_bit 6 base + (ord_of c AND 0x3f)"

fun decode_trailing :: "nat \<Rightarrow> nat \<Rightarrow> char32 \<Rightarrow> bytes \<Rightarrow> decode_result" where
  "decode_trailing needed i base [] = dr_continue base needed"
| "decode_trailing needed i base (c # cs) =
     (if needed \<le> i then dr_continue base needed
      else if \<not> is_trailing_byte c then dr_error i
      else decode_trailing needed (Suc i) (append_trailing_byte base c) cs)"

definition decode_sequence :: "nat \<Rightarrow> bytes \<Rightarrow> nat \<Rightarrow> decode_result" where
  "decode_sequence needed s msk =
     (let leading = s ! 0; second = s ! 1 in
      if \<not> is_valid_second_byte_needed needed leading second then dr_error 1
      else decode_trailing needed 2
             (append_trailing_byte (ord_of leading AND msk) second) (drop 2 s))"

definition decode :: "bytes \<Rightarrow> decode_result" where
  "decode s =
     (case s of
        [] \<Rightarrow> dr_sentinel
      | c # _ \<Rightarrow>
          if ord_of c < 0x80 then dr_continue (ord_of c) 1
          else
            let needed = one_char_len c in
            if length s < needed then handle_buffer_too_short s
            else if needed = 3 then decode_sequence 3 s 0x0f
            else if needed = 2 then decode_sequence 2 s 0x1f
            else if needed = 4 then decode_sequence 4 s 0x07
            else dr_error 1)"

fun encode_tail :: "char32 \<Rightarrow> nat \<Rightarrow> bytes" where
  "encode_tail cp 0 = []"
| "encode_tail cp (Suc count) =
     chr_of (0x80 OR (drop_bit (6 * count) cp AND 0x3f)) # encode_tail cp count"

definition encode_sequence :: "char32 \<Rightarrow> nat \<Rightarrow> nat \<Rightarrow> bytes" where
  "encode_sequence cp count offset = chr_of (drop_bit (6 * count) cp + offset) # encode_tail cp count"

definition encode_valid :: "char32 \<Rightarrow> bytes" where
  "encode_valid cp =
     (if cp \<le> 0x7f then [chr_of cp]
      else if cp \<le> 0x7ff then encode_sequence cp 1 0xc0
      else if cp \<le> 0xffff then encode_sequence cp 2 0xe0
      else encode_sequence cp 3 0xf0)"

definition encode :: "char32 \<Rightarrow> bytes" where
  "encode cp = (if cp \<le> 0x10ffff then encode_valid cp else encode_valid kReplacementCharacter)"

text \<open>\<open>strings::IsValidUtf8\<close>: step by step until an error or the end.\<close>

lemma count_trailing_ge: "seen \<le> count_trailing seen cs"
  by (induction seen cs rule: count_trailing.induct) auto

lemma bytes_seen_simps [simp]:
  "bytes_seen (dr_continue cp n) = n" "bytes_seen (dr_error n) = n" "bytes_seen dr_sentinel = 0"
  by (simp_all add: dr_continue_def dr_error_def dr_sentinel_def)

lemma decode_trailing_pos:
  "0 < needed \<Longrightarrow> 0 < i \<Longrightarrow> 0 < bytes_seen (decode_trailing needed i base cs)"
  by (induction needed i base cs rule: decode_trailing.induct) auto

lemma handle_buffer_too_short_pos: "0 < bytes_seen (handle_buffer_too_short s)"
  using count_trailing_ge [of 2] by (auto simp: handle_buffer_too_short_def split: list.splits)
    (meson less_le_trans zero_less_numeral)

lemma decode_sequence_pos: "0 < needed \<Longrightarrow> 0 < bytes_seen (decode_sequence needed s msk)"
  by (simp add: decode_sequence_def Let_def decode_trailing_pos)

lemma bytes_seen_pos: "s \<noteq> [] \<Longrightarrow> 0 < bytes_seen (decode s)"
  by (auto simp: decode_def Let_def handle_buffer_too_short_pos decode_sequence_pos split: list.splits)

function strict_is_valid_utf8 :: "bytes \<Rightarrow> bool" where
  "strict_is_valid_utf8 s =
     (if s = [] then True
      else if \<not> dr_ok (decode s) then False
      else strict_is_valid_utf8 (drop (bytes_seen (decode s)) s))"
  by pat_completeness auto
termination
  by (relation "measure length") (auto simp: bytes_seen_pos)

declare strict_is_valid_utf8.simps [simp del]

section \<open>Util: the code-point routines of base/util.cc\<close>

definition utf8_fail :: "bool \<times> char32 \<times> bytes" where
  "utf8_fail = (False, 0, [])"

text \<open>The classification of the leading byte: length, smallest and largest value, payload bits.\<close>

definition utf8_leading :: "nat \<Rightarrow> (nat \<times> char32 \<times> char32 \<times> char32) option" where
  "utf8_leading b =
     (if b AND 0xe0 = 0xc0 then Some (2, 0x0080, 0x07ff, b AND 0x1f)
      else if b AND 0xf0 = 0xe0 then Some (3, 0x0800, 0xffff, b AND 0x0f)
      else if b AND 0xf8 = 0xf0 then Some (4, 0x010000, 0x1fffff, b AND 0x07)
      else if b AND 0xfc = 0xf8 then Some (5, 0x0200000, 0x3ffffff, b AND 0x03)
      else if b AND 0xfe = 0xfc then Some (6, 0x4000000, 0x7fffffff, b AND 0x01)
      else None)"

fun accumulate_trailing :: "char32 \<Rightarrow> bytes \<Rightarrow> char32 option" where
  "accumulate_trailing result [] = Some result"
| "accumulate_trailing result (c # cs) =
     (if \<not> is_trailing_byte c then None
      else accumulate_trailing (push_bit 6 result + (ord_of c AND 0x3f)) cs)"

text \<open>
  \<open>Util::SplitFirstChar32\<close>: the returned flag, \<open>*first_char32\<close> and \<open>*rest\<close>.
  On failure the outputs are 0 and the empty string, which callers that ignore the flag see.
\<close>

definition split_first_char32 :: "bytes \<Rightarrow> bool \<times> char32 \<times> bytes" where
  "split_first_char32 s =
     (case s of
        [] \<Rightarrow> utf8_fail
      | c # cs \<Rightarrow>
          if ord_of c < 0x80 then (True, ord_of c, cs)
          else if is_trailing_byte c then utf8_fail
          else
            (case utf8_leading (ord_of c) of
               None \<Rightarrow> utf8_fail
             | Some (len, min_value, max_value, result0) \<Rightarrow>
                 if length s < len then utf8_fail
                 else
                   (case accumulate_trailing result0 (take (len - 1) cs) of
                      None \<Rightarrow> utf8_fail
                    | Some result \<Rightarrow>
                        if result < min_value \<or> max_value < result then utf8_fail
                        else (True, result, drop len s))))"

definition codepoint_to_utf8 :: "char32 \<Rightarrow> bytes" where
  "codepoint_to_utf8 c =
     (if c = 0 then []
      else if c < 0x00080 then [chr_of (c AND 0xFF)]
      else if c < 0x00800 then
        [chr_of (0xC0 + (drop_bit 6 c AND 0x1F)),
         chr_of (0x80 + (c AND 0x3F))]
      else if c < 0x10000 then
        [chr_of (0xE0 + (drop_bit 12 c AND 0x0F)),
         chr_of (0x80 + (drop_bit 6 c AND 0x3F)),
         chr_of (0x80 + (c AND 0x3F))]
      else if c < 0x200000 then
        [chr_of (0xF0 + (drop_bit 18 c AND 0x07)),
         chr_of (0x80 + (drop_bit 12 c AND 0x3F)),
         chr_of (0x80 + (drop_bit 6 c AND 0x3F)),
         chr_of (0x80 + (c AND 0x3F))]
      else if c < 0x8000000 then
        [chr_of (0xF8 + (drop_bit 24 c AND 0x03)),
         chr_of (0x80 + (drop_bit 18 c AND 0x3F)),
         chr_of (0x80 + (drop_bit 12 c AND 0x3F)),
         chr_of (0x80 + (drop_bit 6 c AND 0x3F)),
         chr_of (0x80 + (c AND 0x3F))]
      else
        [chr_of (0xFC + (drop_bit 30 c AND 0x01)),
         chr_of (0x80 + (drop_bit 24 c AND 0x3F)),
         chr_of (0x80 + (drop_bit 18 c AND 0x3F)),
         chr_of (0x80 + (drop_bit 12 c AND 0x3F)),
         chr_of (0x80 + (drop_bit 6 c AND 0x3F)),
         chr_of (0x80 + (c AND 0x3F))])"

subsection \<open>Masks as arithmetic\<close>

lemma and_low_masks:
  "(x::nat) AND 0x01 = x mod 2" "x AND 0x03 = x mod 4" "x AND 0x07 = x mod 8"
  "x AND 0x0f = x mod 16" "x AND 0x1f = x mod 32" "x AND 0x3f = x mod 64" "x AND 0xff = x mod 256"
  using take_bit_eq_mask [of 1 x] take_bit_eq_mask [of 2 x] take_bit_eq_mask [of 3 x]
    take_bit_eq_mask [of 4 x] take_bit_eq_mask [of 5 x] take_bit_eq_mask [of 6 x]
    take_bit_eq_mask [of 8 x]
  by (simp_all add: mask_eq_exp_minus_1 take_bit_eq_mod)

lemma and_block:
  assumes "(b::nat) < 2 ^ n * 2 ^ k"
  shows "b AND (2 ^ n * (2 ^ k - 1)) = 2 ^ n * (b div 2 ^ n)"
proof -
  from assms have "b div 2 ^ n < 2 ^ k"
    by (simp add: less_mult_imp_div_less mult.commute)
  then have "take_bit k (b div 2 ^ n) = b div 2 ^ n"
    by (simp add: take_bit_eq_mod)
  then have small: "drop_bit n b AND (2 ^ k - 1) = b div 2 ^ n"
    by (simp add: drop_bit_eq_div take_bit_eq_mask mask_eq_exp_minus_1)
  have "b AND push_bit n (2 ^ k - 1) = push_bit n (drop_bit n b AND (2 ^ k - 1))"
    by (auto simp: bit_eq_iff bit_simps)
  with small show ?thesis by (simp add: push_bit_eq_mult mult.commute)
qed

lemma div_block_iff: "0 < k \<Longrightarrow> (k::nat) * (b div k) = k * q \<longleftrightarrow> k * q \<le> b \<and> b < k * q + k"
  by (metis div_nat_eqI dividend_less_div_times mult.commute mult_cancel_left mult_Suc_right
      not_gr_zero times_div_less_eq_dividend add.commute)

lemma and_high_masks:
  assumes "b < (256::nat)"
  shows "b AND 0xc0 = 0x80 \<longleftrightarrow> 0x80 \<le> b \<and> b < 0xc0"
    and "b AND 0xe0 = 0xc0 \<longleftrightarrow> 0xc0 \<le> b \<and> b < 0xe0"
    and "b AND 0xf0 = 0xe0 \<longleftrightarrow> 0xe0 \<le> b \<and> b < 0xf0"
    and "b AND 0xf8 = 0xf0 \<longleftrightarrow> 0xf0 \<le> b \<and> b < 0xf8"
    and "b AND 0xfc = 0xf8 \<longleftrightarrow> 0xf8 \<le> b \<and> b < 0xfc"
    and "b AND 0xfe = 0xfc \<longleftrightarrow> 0xfc \<le> b \<and> b < 0xfe"
  using assms and_block [of b 6 2] and_block [of b 5 3] and_block [of b 4 4] and_block [of b 3 5]
    and_block [of b 2 6] and_block [of b 1 7] div_block_iff [of 64 b 2] div_block_iff [of 32 b 6]
    div_block_iff [of 16 b 14] div_block_iff [of 8 b 30] div_block_iff [of 4 b 62]
    div_block_iff [of 2 b 126]
  by simp_all

lemma is_trailing_byte_iff: "is_trailing_byte c \<longleftrightarrow> 0x80 \<le> ord_of c \<and> ord_of c < 0xc0"
  by (simp add: is_trailing_byte_def and_high_masks)

lemmas utf8_arith = and_low_masks and_high_masks is_trailing_byte_iff
  drop_bit_eq_div push_bit_eq_mult

lemma utf8_leading_iff:
  assumes "b < 256"
  shows "utf8_leading b =
     (if b < 0xc0 then None
      else if b < 0xe0 then Some (2, 0x0080, 0x07ff, b mod 32)
      else if b < 0xf0 then Some (3, 0x0800, 0xffff, b mod 16)
      else if b < 0xf8 then Some (4, 0x010000, 0x1fffff, b mod 8)
      else if b < 0xfc then Some (5, 0x0200000, 0x3ffffff, b mod 4)
      else if b < 0xfe then Some (6, 0x4000000, 0x7fffffff, b mod 2)
      else None)"
  using assms by (simp add: utf8_leading_def and_low_masks and_high_masks)

lemma mod_block: "(m::nat) < k \<Longrightarrow> (q * k + m) mod k = m"
  by simp

lemma block_split:
  assumes "q * k \<le> b" and "(b::nat) < q * k + k"
  shows "q * k + b mod k = b" and "b mod k < k"
proof -
  from assms have "b - q * k < k" by arith
  with mod_block [of "b - q * k" k q] assms(1) show "q * k + b mod k = b" by simp
  from assms show "b mod k < k" by (intro mod_less_divisor) arith
qed

subsection \<open>Reference encoding and the exact behaviour of the decoder\<close>

text \<open>The \<open>n\<close> low six-bit groups of a value as trailing bytes.\<close>

fun trail :: "nat \<Rightarrow> char32 \<Rightarrow> bytes" where
  "trail 0 c = []"
| "trail (Suc n) c = trail n (c div 64) @ [chr_of (0x80 + c mod 64)]"

text \<open>The original (RFC 2279) UTF-8 encoding of a 31-bit value.\<close>

definition utf8_spec :: "char32 \<Rightarrow> bytes" where
  "utf8_spec c =
     (if c < 0x80 then [chr_of c]
      else if c < 0x800 then chr_of (0xC0 + c div 64 ^ 1) # trail 1 c
      else if c < 0x10000 then chr_of (0xE0 + c div 64 ^ 2) # trail 2 c
      else if c < 0x200000 then chr_of (0xF0 + c div 64 ^ 3) # trail 3 c
      else if c < 0x4000000 then chr_of (0xF8 + c div 64 ^ 4) # trail 4 c
      else chr_of (0xFC + c div 64 ^ 5) # trail 5 c)"

lemma length_trail [simp]: "length (trail n c) = n"
  by (induction n arbitrary: c) auto

lemma accumulate_append:
  "accumulate_trailing r (xs @ ys) = Option.bind (accumulate_trailing r xs) (\<lambda>r. accumulate_trailing r ys)"
  by (induction r xs rule: accumulate_trailing.induct) auto

lemma trailing_mod [simp]: "(128 + (n::nat) mod 64) mod 64 = n mod 64"
  using mod_mult_self3 [of 2 64 "n mod 64"] by simp

lemma trailing_chr: "is_trailing_byte (chr_of (0x80 + n mod 64))"
  and trailing_ord: "ord_of (chr_of (0x80 + n mod 64)) mod 64 = n mod 64"
proof -
  have "128 + n mod 64 < 192" by simp
  then have e: "(128 + n mod 64) mod 256 = 128 + n mod 64" by simp
  then show "is_trailing_byte (chr_of (0x80 + n mod 64))"
    by (simp add: is_trailing_byte_iff)
  from e show "ord_of (chr_of (0x80 + n mod 64)) mod 64 = n mod 64"
    by simp
qed

lemma accumulate_trailing_chr:
  "accumulate_trailing r (chr_of (0x80 + n mod 64) # cs) = accumulate_trailing (64 * r + n mod 64) cs"
  by (simp add: trailing_chr trailing_ord and_low_masks push_bit_eq_mult mult.commute)

lemma accumulate_trail: "accumulate_trailing (c div 64 ^ n) (trail n c) = Some c"
proof (induction n arbitrary: c)
  case (Suc n)
  have "c div 64 ^ Suc n = c div 64 div 64 ^ n"
    by (simp add: div_mult2_eq)
  with Suc [of "c div 64"] show ?case
    by (simp only: trail.simps accumulate_append accumulate_trailing_chr
        accumulate_trailing.simps(1) Option.bind.simps mult_div_mod_eq)
qed simp

lemma trailing_byte_char: "is_trailing_byte t \<Longrightarrow> t = chr_of (0x80 + ord_of t mod 64)"
proof -
  assume "is_trailing_byte t"
  then have b: "0x80 \<le> ord_of t" "ord_of t < 0xc0" by (simp_all add: is_trailing_byte_iff)
  then have "ord_of t mod 64 = ord_of t - 0x80"
    using mod_block [of "ord_of t - 128" 64 2] by simp
  with b have "0x80 + ord_of t mod 64 = ord_of t" by simp
  then show "t = chr_of (0x80 + ord_of t mod 64)" by (simp only: char_of_char)
qed

lemma trail_accumulate:
  "accumulate_trailing r0 ts = Some c \<Longrightarrow> ts = trail (length ts) c \<and> r0 = c div 64 ^ length ts"
proof (induction ts arbitrary: c rule: rev_induct)
  case Nil
  then show ?case by simp
next
  case (snoc t ts)
  from snoc.prems obtain r where r: "accumulate_trailing r0 ts = Some r"
    and t: "is_trailing_byte t" and c: "c = 64 * r + ord_of t mod 64"
    by (auto simp: accumulate_append bind_eq_Some_conv and_low_masks push_bit_eq_mult mult.commute
      split: if_splits)
  from c have "c div 64 = r" and "c mod 64 = ord_of t mod 64" by simp_all
  with snoc.IH [OF r] trailing_byte_char [OF t] show ?case
    by (simp add: div_mult2_eq)
qed

lemma split_first_ascii: "ord_of c < 0x80 \<Longrightarrow> split_first_char32 (c # cs) = (True, ord_of c, cs)"
  by (simp add: split_first_char32_def)

lemma split_first_multi:
  assumes "utf8_leading (ord_of l) = Some (Suc n, mn, mx, r0)"
  shows "split_first_char32 (l # cs) = (True, c, rest) \<longleftrightarrow>
    (cs = trail n c @ rest \<and> r0 = c div 64 ^ n \<and> mn \<le> c \<and> c \<le> mx)"
proof -
  from assms have l: "0xc0 \<le> ord_of l" by (simp add: utf8_leading_iff split: if_splits)
  show ?thesis
  proof
    assume "split_first_char32 (l # cs) = (True, c, rest)"
    with assms l have len: "n \<le> length cs" and a: "accumulate_trailing r0 (take n cs) = Some c"
      and b: "mn \<le> c" "c \<le> mx" and r: "rest = drop n cs"
      by (auto simp: split_first_char32_def is_trailing_byte_iff utf8_fail_def
          split: if_splits option.splits)
    from len have "length (take n cs) = n" by simp
    with trail_accumulate [OF a] b r show "cs = trail n c @ rest \<and> r0 = c div 64 ^ n \<and> mn \<le> c \<and> c \<le> mx"
      by (metis append_take_drop_id)
  next
    assume "cs = trail n c @ rest \<and> r0 = c div 64 ^ n \<and> mn \<le> c \<and> c \<le> mx"
    with assms l accumulate_trail [of c n] show "split_first_char32 (l # cs) = (True, c, rest)"
      by (simp add: split_first_char32_def is_trailing_byte_iff)
  qed
qed

text \<open>The base of the leading byte of each multi-byte form, with its payload and value range.\<close>

definition utf8_form :: "nat \<Rightarrow> nat \<Rightarrow> nat \<Rightarrow> char32 \<Rightarrow> char32 \<Rightarrow> bool" where
  "utf8_form n base k mn mx \<longleftrightarrow>
     (n, base, k, mn, mx) \<in>
       {(1, 0xC0, 32, 0x80, 0x7ff), (2, 0xE0, 16, 0x800, 0xffff), (3, 0xF0, 8, 0x10000, 0x1fffff),
        (4, 0xF8, 4, 0x200000, 0x3ffffff), (5, 0xFC, 2, 0x4000000, 0x7fffffff)}"

lemma utf8_form_cases:
  assumes "utf8_form n base k mn mx"
  obtains "n = 1" "base = 0xC0" "k = 32" "mn = 0x80" "mx = 0x7ff"
    | "n = 2" "base = 0xE0" "k = 16" "mn = 0x800" "mx = 0xffff"
    | "n = 3" "base = 0xF0" "k = 8" "mn = 0x10000" "mx = 0x1fffff"
    | "n = 4" "base = 0xF8" "k = 4" "mn = 0x200000" "mx = 0x3ffffff"
    | "n = 5" "base = 0xFC" "k = 2" "mn = 0x4000000" "mx = 0x7fffffff"
  using assms by (auto simp: utf8_form_def)

lemma utf8_form_leading:
  assumes "utf8_form n base k mn mx" and "v < k"
  shows "utf8_leading (ord_of (chr_of (base + v))) = Some (Suc n, mn, mx, v)"
  using assms(1)
proof (cases rule: utf8_form_cases)
  case 1
  with assms(2) mod_block [of v 32 6] show ?thesis by (simp add: utf8_leading_iff)
next
  case 2
  with assms(2) mod_block [of v 16 14] show ?thesis by (simp add: utf8_leading_iff)
next
  case 3
  with assms(2) mod_block [of v 8 30] show ?thesis by (simp add: utf8_leading_iff)
next
  case 4
  with assms(2) mod_block [of v 4 62] show ?thesis by (simp add: utf8_leading_iff)
next
  case 5
  with assms(2) mod_block [of v 2 126] show ?thesis by (simp add: utf8_leading_iff)
qed

lemma utf8_form_small:
  assumes "utf8_form n base k mn mx" and "c \<le> mx"
  shows "c div 64 ^ n < k"
  using assms by (auto simp: utf8_form_def)

lemma utf8_form_spec:
  assumes "utf8_form n base k mn mx" and "mn \<le> c" and "c \<le> mx"
  shows "utf8_spec c = chr_of (base + c div 64 ^ n) # trail n c"
  using assms by (auto simp: utf8_form_def utf8_spec_def)

lemma leading_in_block:
  assumes "q * k \<le> ord_of l" and "ord_of l < q * k + k" and "r0 = ord_of l mod k"
  shows "l = chr_of (q * k + r0)" and "r0 < k"
  using block_split [OF assms(1,2)] assms(3) by (simp_all only: char_of_char)

lemma leading_utf8_form:
  assumes "utf8_leading (ord_of l) = Some (len, mn, mx, r0)"
  obtains n base k where "len = Suc n" "utf8_form n base k mn mx" "r0 < k" "l = chr_of (base + r0)"
proof -
  let ?b = "ord_of l"
  from assms consider
      "0xc0 \<le> ?b" "?b < 0xe0" "len = 2" "mn = 0x80" "mx = 0x7ff" "r0 = ?b mod 32"
    | "0xe0 \<le> ?b" "?b < 0xf0" "len = 3" "mn = 0x800" "mx = 0xffff" "r0 = ?b mod 16"
    | "0xf0 \<le> ?b" "?b < 0xf8" "len = 4" "mn = 0x10000" "mx = 0x1fffff" "r0 = ?b mod 8"
    | "0xf8 \<le> ?b" "?b < 0xfc" "len = 5" "mn = 0x200000" "mx = 0x3ffffff" "r0 = ?b mod 4"
    | "0xfc \<le> ?b" "?b < 0xfe" "len = 6" "mn = 0x4000000" "mx = 0x7fffffff" "r0 = ?b mod 2"
    by (auto simp: utf8_leading_iff not_less split: if_splits)
  then show ?thesis
  proof cases
    case 1
    have "l = chr_of (0xC0 + r0)" "r0 < 32"
      using leading_in_block [of 6 32 l r0] 1(1,2,6) by simp_all
    with 1(3-5) show ?thesis by (intro that [of 1 "0xC0" 32]) (simp_all add: utf8_form_def)
  next
    case 2
    have "l = chr_of (0xE0 + r0)" "r0 < 16"
      using leading_in_block [of 14 16 l r0] 2(1,2,6) by simp_all
    with 2(3-5) show ?thesis by (intro that [of 2 "0xE0" 16]) (simp_all add: utf8_form_def)
  next
    case 3
    have "l = chr_of (0xF0 + r0)" "r0 < 8"
      using leading_in_block [of 30 8 l r0] 3(1,2,6) by simp_all
    with 3(3-5) show ?thesis by (intro that [of 3 "0xF0" 8]) (simp_all add: utf8_form_def)
  next
    case 4
    have "l = chr_of (0xF8 + r0)" "r0 < 4"
      using leading_in_block [of 62 4 l r0] 4(1,2,6) by simp_all
    with 4(3-5) show ?thesis by (intro that [of 4 "0xF8" 4]) (simp_all add: utf8_form_def)
  next
    case 5
    have "l = chr_of (0xFC + r0)" "r0 < 2"
      using leading_in_block [of 126 2 l r0] 5(1,2,6) by simp_all
    with 5(3-5) show ?thesis by (intro that [of 5 "0xFC" 2]) (simp_all add: utf8_form_def)
  qed
qed

lemma char32_form:
  assumes "0x80 \<le> c" and "c < 0x80000000"
  obtains n base k mn mx where "utf8_form n base k mn mx" "mn \<le> c" "c \<le> mx"
proof -
  from assms consider "c \<le> 0x7ff" | "0x800 \<le> c" "c \<le> 0xffff" | "0x10000 \<le> c" "c \<le> 0x1fffff"
    | "0x200000 \<le> c" "c \<le> 0x3ffffff" | "0x4000000 \<le> c" "c \<le> 0x7fffffff"
    by linarith
  then show ?thesis
  proof cases
    case 1 with assms that [of 1 "0xC0" 32 "0x80" "0x7ff"] show ?thesis by (simp add: utf8_form_def)
  next
    case 2 with that [of 2 "0xE0" 16 "0x800" "0xffff"] show ?thesis by (simp add: utf8_form_def)
  next
    case 3 with that [of 3 "0xF0" 8 "0x10000" "0x1fffff"] show ?thesis by (simp add: utf8_form_def)
  next
    case 4 with that [of 4 "0xF8" 4 "0x200000" "0x3ffffff"] show ?thesis by (simp add: utf8_form_def)
  next
    case 5 with that [of 5 "0xFC" 2 "0x4000000" "0x7fffffff"] show ?thesis by (simp add: utf8_form_def)
  qed
qed

lemma split_first_spec:
  assumes "c < 0x80000000"
  shows "split_first_char32 (utf8_spec c @ rest) = (True, c, rest)"
proof (cases "c < 0x80")
  case True
  then show ?thesis by (simp add: utf8_spec_def split_first_ascii)
next
  case False
  then have "0x80 \<le> c" by simp
  then obtain n base k mn mx where f: "utf8_form n base k mn mx" and r: "mn \<le> c" "c \<le> mx"
    using char32_form assms by blast
  from split_first_multi [OF utf8_form_leading [OF f utf8_form_small [OF f r(2)]]] r
  show ?thesis by (simp add: utf8_form_spec [OF f r])
qed

lemma split_first_inverse:
  assumes "split_first_char32 s = (True, c, rest)"
  shows "c < 0x80000000 \<and> s = utf8_spec c @ rest"
proof (cases s)
  case Nil
  with assms show ?thesis by (simp add: split_first_char32_def utf8_fail_def)
next
  case (Cons l cs)
  show ?thesis
  proof (cases "ord_of l < 0x80")
    case True
    with assms Cons show ?thesis by (auto simp: split_first_ascii utf8_spec_def)
  next
    case False
    with assms Cons obtain len mn mx r0 where ld: "utf8_leading (ord_of l) = Some (len, mn, mx, r0)"
      by (auto simp: split_first_char32_def utf8_fail_def split: if_splits option.splits)
    then obtain n base k where f: "len = Suc n" "utf8_form n base k mn mx" "l = chr_of (base + r0)"
      by (rule leading_utf8_form) blast
    with assms Cons ld split_first_multi [of l n mn mx r0 cs c rest]
    have c: "cs = trail n c @ rest" "r0 = c div 64 ^ n" "mn \<le> c" "c \<le> mx" by simp_all
    from f(2) c(4) have "c < 0x80000000" by (auto simp: utf8_form_def)
    with utf8_form_spec [OF f(2) c(3,4)] Cons c f(3) show ?thesis by simp
  qed
qed

lemma split_first_iff:
  "split_first_char32 s = (True, c, rest) \<longleftrightarrow> c < 0x80000000 \<and> s = utf8_spec c @ rest"
  using split_first_spec split_first_inverse by blast


lemma split_first_Nil [simp]: "split_first_char32 [] = (False, 0, [])"
  by (simp add: split_first_char32_def utf8_fail_def)

lemma utf8_spec_nonempty [simp]: "utf8_spec c \<noteq> []"
  by (simp add: utf8_spec_def)

lemma split_first_shorter:
  "s \<noteq> [] \<Longrightarrow> split_first_char32 s = (ok, c, rest) \<Longrightarrow> length rest < length s"
proof (cases ok)
  case True
  assume "split_first_char32 s = (ok, c, rest)"
  with True split_first_inverse [of s c rest] show ?thesis
    by (cases "utf8_spec c") auto
next
  case False
  assume "s \<noteq> []" and "split_first_char32 s = (ok, c, rest)"
  with False have "rest = []"
    by (auto simp: split_first_char32_def utf8_fail_def split: list.splits if_splits option.splits)
  with \<open>s \<noteq> []\<close> show ?thesis by simp
qed

lemma split_first_True_shorter:
  "split_first_char32 s = (True, c, rest) \<Longrightarrow> length rest < length s"
  by (cases "s = []") (auto dest: split_first_shorter)

lemma split_first_suffix: "split_first_char32 s = (ok, c, rest) \<Longrightarrow> suffix rest s"
proof (cases ok)
  case True
  assume "split_first_char32 s = (ok, c, rest)"
  with True split_first_inverse [of s c rest] show ?thesis by (auto simp: suffix_def)
next
  case False
  assume "split_first_char32 s = (ok, c, rest)"
  with False have "rest = []"
    by (auto simp: split_first_char32_def utf8_fail_def split: list.splits if_splits option.splits)
  then show ?thesis by simp
qed

text \<open>\<open>Util::Utf8ToUtf32\<close> and \<open>Util::Utf32ToUtf8\<close>.\<close>

function utf8_to_utf32 :: "bytes \<Rightarrow> char32 list" where
  "utf8_to_utf32 s =
     (case split_first_char32 s of (ok, codepoint, rest) \<Rightarrow>
        if ok then codepoint # utf8_to_utf32 rest else [])"
  by pat_completeness auto
termination
  by (relation "measure length") (auto dest: split_first_True_shorter [OF sym])

declare utf8_to_utf32.simps [simp del]

definition utf32_to_utf8 :: "char32 list \<Rightarrow> bytes" where
  "utf32_to_utf8 str = concat (map codepoint_to_utf8 str)"

text \<open>\<open>Util::IsValidUtf8\<close>.\<close>

function is_valid_utf8 :: "bytes \<Rightarrow> bool" where
  "is_valid_utf8 s =
     (if s = [] then True
      else case split_first_char32 s of (ok, first, rest) \<Rightarrow>
        if \<not> ok then False else is_valid_utf8 rest)"
  by pat_completeness auto
termination
  by (relation "measure length") (auto dest: split_first_True_shorter [OF sym])

declare is_valid_utf8.simps [simp del]

text \<open>\<open>Util::CharsLen\<close>, \<open>Util::AppendUtf8Chars\<close> and \<open>strings::FrontChar\<close>: by leading byte only.\<close>

lemma one_char_len_iff:
  "one_char_len c =
     (if ord_of c < 0xc2 then 1 else if ord_of c < 0xe0 then 2 else if ord_of c < 0xf0 then 3
      else if ord_of c < 0xf5 then 4 else 1)"
proof -
  have "ord_of c < 256" by simp
  then show ?thesis by (auto simp: one_char_len_def kUtf8LenTbl_def nth_append simp del: nat_of_char_less_256)
qed

lemma one_char_len_pos [simp]: "0 < one_char_len c"
  by (simp add: one_char_len_iff)

function chars_len :: "bytes \<Rightarrow> nat" where
  "chars_len [] = 0"
| "chars_len (c # cs) = Suc (chars_len (drop (one_char_len c) (c # cs)))"
  by pat_completeness auto
termination
  by (relation "measure length") auto

text \<open>
  \<open>AppendUtf8CharsImpl\<close> and \<open>Util::Utf8SubString\<close> advance a raw pointer by the length
  that the leading byte announces; on a truncated last character the pointer passes the end of
  the buffer.  \<open>None\<close> stands for that overrun.
\<close>

function utf8_chars :: "bytes \<Rightarrow> bytes list option" where
  "utf8_chars [] = Some []"
| "utf8_chars (c # cs) =
     (if length (c # cs) < one_char_len c then None
      else map_option (\<lambda>out. take (one_char_len c) (c # cs) # out)
             (utf8_chars (drop (one_char_len c) (c # cs))))"
  by pat_completeness auto
termination
  by (relation "measure length") auto

definition front_char :: "bytes \<Rightarrow> bytes \<times> bytes" where
  "front_char s =
     (case s of [] \<Rightarrow> ([], [])
      | c # _ \<Rightarrow> (take (one_char_len c) s, drop (one_char_len c) s))"

text \<open>\<open>Util::Utf8SubString\<close> without and with a length.\<close>

fun utf8_substring_from :: "bytes \<Rightarrow> nat \<Rightarrow> bytes option" where
  "utf8_substring_from s 0 = Some s"
| "utf8_substring_from [] (Suc start) = Some []"
| "utf8_substring_from (c # cs) (Suc start) =
     (if length (c # cs) < one_char_len c then None
      else utf8_substring_from (drop (one_char_len c) (c # cs)) start)"

fun utf8_prefix :: "bytes \<Rightarrow> nat \<Rightarrow> bytes option" where
  "utf8_prefix s 0 = Some []"
| "utf8_prefix [] (Suc l) = Some []"
| "utf8_prefix (c # cs) (Suc l) =
     (if length (c # cs) < one_char_len c then None
      else map_option (\<lambda>out. take (one_char_len c) (c # cs) @ out)
             (utf8_prefix (drop (one_char_len c) (c # cs)) l))"

definition utf8_substring :: "bytes \<Rightarrow> nat \<Rightarrow> nat \<Rightarrow> bytes option" where
  "utf8_substring src start len = Option.bind (utf8_substring_from src start) (\<lambda>s. utf8_prefix s len)"

text \<open>\<open>Util::SplitLastChar32\<close>: the flag, \<open>*rest\<close> and \<open>*last_char32\<close>.\<close>

definition split_last_char32 :: "bytes \<Rightarrow> bool \<times> bytes \<times> char32" where
  "split_last_char32 s =
     (if s = [] then (False, [], 0)
      else
        let n = length (takeWhile is_trailing_byte (rev s)) in
        if n = length s then (False, [], 0)
        else
          let len = n + 1; last_piece = drop (length s - len) s in
          (case split_first_char32 last_piece of (ok, last_char32, result_piece) \<Rightarrow>
             if \<not> ok then (False, [], last_char32)
             else if result_piece \<noteq> [] then (False, [], last_char32)
             else (True, take (length s - len) s, last_char32)))"

text \<open>
  \<open>Util::LowerString\<close> and \<open>Util::UpperString\<close>: in place, one character at a time; a
  replacement of another size stops the loop and leaves the rest as it is.
\<close>

function lower_string :: "bytes \<Rightarrow> bytes" where
  "lower_string str =
     (if str = [] then []
      else
        let ch = decode str; size = bytes_seen ch; codepoint = code_point ch in
        if 0x0041 \<le> codepoint \<and> codepoint \<le> 0x005A \<or> 0xFF21 \<le> codepoint \<and> codepoint \<le> 0xFF3A
        then
          let utf8 = codepoint_to_utf8 (codepoint + 0x0020) in
          if length utf8 \<noteq> size then str else utf8 @ lower_string (drop size str)
        else take size str @ lower_string (drop size str))"
  by pat_completeness auto
termination
  by (relation "measure length") (auto simp: bytes_seen_pos)

function upper_string :: "bytes \<Rightarrow> bytes" where
  "upper_string str =
     (if str = [] then []
      else
        let ch = decode str; size = bytes_seen ch; codepoint = code_point ch in
        if 0x0061 \<le> codepoint \<and> codepoint \<le> 0x007A \<or> 0xFF41 \<le> codepoint \<and> codepoint \<le> 0xFF5A
        then
          let utf8 = codepoint_to_utf8 (codepoint - 0x0020) in
          if length utf8 \<noteq> size then str else utf8 @ upper_string (drop size str)
        else take size str @ upper_string (drop size str))"
  by pat_completeness auto
termination
  by (relation "measure length") (auto simp: bytes_seen_pos)

declare lower_string.simps [simp del] upper_string.simps [simp del]

text \<open>\<open>Util::ChopReturns\<close>: the flag and the line without its trailing CR and LF bytes.\<close>

definition is_return :: "char \<Rightarrow> bool" where
  "is_return c \<longleftrightarrow> c = CHR 0x0D \<or> c = CHR 0x0A"

definition chop_returns :: "bytes \<Rightarrow> bool \<times> bytes" where
  "chop_returns line =
     (let chopped = rev (dropWhile is_return (rev line))
      in (length chopped \<noteq> length line, chopped))"

text \<open>\<open>Util::SerializeUint64\<close> and \<open>Util::DeserializeUint64\<close>.\<close>

definition serialize_uint64 :: "64 word \<Rightarrow> bytes" where
  "serialize_uint64 x =
     map (\<lambda>k. chr_of (unat (drop_bit (8 * k) x AND 0xFF))) [7, 6, 5, 4, 3, 2, 1, 0]"

definition deserialize_uint64 :: "bytes \<Rightarrow> 64 word option" where
  "deserialize_uint64 s =
     (if length s \<noteq> 8 then None
      else Some (foldr (\<lambda>(c, k) acc. push_bit (8 * k) (of_nat (ord_of c)) OR acc)
                   (zip s [7, 6, 5, 4, 3, 2, 1, 0]) 0))"

subsection \<open>Valid strings are encodings of code-point lists\<close>

abbreviation utf8_text :: "char32 list \<Rightarrow> bytes" where
  "utf8_text cs \<equiv> concat (map utf8_spec cs)"

lemma utf32_of_text:
  "\<forall>c \<in> set cs. c < 0x80000000 \<Longrightarrow> utf8_to_utf32 (utf8_text cs) = cs \<and> is_valid_utf8 (utf8_text cs)"
proof (induction cs)
  case Nil
  then show ?case by (simp add: utf8_to_utf32.simps is_valid_utf8.simps)
next
  case (Cons c cs)
  then show ?case
    by (simp add: utf8_to_utf32.simps [of "utf8_spec c @ _"] is_valid_utf8.simps [of "utf8_spec c @ _"]
        split_first_spec)
qed

lemma valid_utf8_text:
  "is_valid_utf8 s \<Longrightarrow>
     s = utf8_text (utf8_to_utf32 s) \<and> (\<forall>c \<in> set (utf8_to_utf32 s). c < 0x80000000)"
proof (induction s rule: is_valid_utf8.induct)
  case (1 s)
  show ?case
  proof (cases "s = []")
    case True
    then show ?thesis by (simp add: utf8_to_utf32.simps)
  next
    case False
    obtain ok c rest where sp: "split_first_char32 s = (ok, c, rest)" by (cases "split_first_char32 s")
    with False "1.prems" have ok: "ok" and v: "is_valid_utf8 rest"
      by (auto simp: is_valid_utf8.simps [of s] split: if_splits)
    from sp ok have inv: "c < 0x80000000 \<and> s = utf8_spec c @ rest" by (simp add: split_first_iff)
    from sp ok have u: "utf8_to_utf32 s = c # utf8_to_utf32 rest"
      by (simp add: utf8_to_utf32.simps [of s])
    have "rest = utf8_text (utf8_to_utf32 rest) \<and> (\<forall>c \<in> set (utf8_to_utf32 rest). c < 0x80000000)"
      using "1.IH" [OF False sp [symmetric] refl] ok v by simp
    with inv u show ?thesis by simp
  qed
qed

text \<open>
  The code points that \<open>Util::CodepointToUtf8\<close> encodes correctly.  The gap is the
  threshold \<open>0x8000000\<close> of its five-byte branch: five bytes carry 26 bits, so a value from
  \<open>0x4000000\<close> on needs six.
\<close>

definition encodable :: "char32 \<Rightarrow> bool" where
  "encodable c \<longleftrightarrow> 0 < c \<and> c < 0x80000000 \<and> \<not> (0x4000000 \<le> c \<and> c < 0x8000000)"

lemma trail_numeral:
  "trail (numeral k) c = trail (pred_numeral k) (c div 64) @ [chr_of (0x80 + c mod 64)]"
proof -
  have "trail (Suc (pred_numeral k)) c = trail (pred_numeral k) (c div 64) @ [chr_of (0x80 + c mod 64)]"
    by (rule trail.simps)
  then show ?thesis by (simp only: numeral_eq_Suc [symmetric])
qed

lemma trail_one: "trail (Suc 0) c = [chr_of (0x80 + c mod 64)]"
  by simp

lemma codepoint_to_utf8_eq_spec:
  assumes "encodable c"
  shows "codepoint_to_utf8 c = utf8_spec c"
proof -
  have c: "0 < c" "c < 0x4000000 \<or> 0x8000000 \<le> c" "c < 0x80000000"
    using assms by (auto simp: encodable_def)
  have lead: "c div 64 mod 32 = c div 64" if "c < 0x800" using that by simp
  have lead3: "c div 4096 mod 16 = c div 4096" if "c < 0x10000" using that by simp
  have lead4: "c div 262144 mod 8 = c div 262144" if "c < 0x200000" using that by simp
  have lead5: "c div 16777216 mod 4 = c div 16777216" if "c < 0x4000000" using that by simp
  have lead6: "c div 1073741824 mod 2 = c div 1073741824" using c by simp
  show ?thesis
    unfolding codepoint_to_utf8_def and_low_masks drop_bit_eq_div
    using c lead lead3 lead4 lead5 lead6
    by (auto simp add: utf8_spec_def trail_numeral trail_one simp del: trail.simps(2) simp flip: div_mult2_eq)
qed

lemma codepoint_to_utf8_gap:
  assumes "0x4000000 \<le> c" and "c < 0x8000000"
  shows "length (codepoint_to_utf8 c) = 5" and "length (utf8_spec c) = 6"
  using assms by (simp_all add: codepoint_to_utf8_def utf8_spec_def)

lemma trail_all_trailing: "\<forall>t \<in> set (trail n c). is_trailing_byte t"
  by (induction n arbitrary: c) (auto simp: trailing_chr)

lemma utf8_spec_shape:
  assumes "c < 0x80000000"
  obtains l ts where "utf8_spec c = l # ts" "\<not> is_trailing_byte l" "\<forall>t \<in> set ts. is_trailing_byte t"
proof (cases "c < 0x80")
  case True
  with that [of "chr_of c" "[]"] show ?thesis by (simp add: utf8_spec_def is_trailing_byte_iff)
next
  case False
  then have "0x80 \<le> c" by simp
  then obtain n base k mn mx where f: "utf8_form n base k mn mx" and r: "mn \<le> c" "c \<le> mx"
    using char32_form assms by blast
  have "0xc0 \<le> ord_of (chr_of (base + c div 64 ^ n))"
    using utf8_form_leading [OF f utf8_form_small [OF f r(2)]]
    by (simp add: utf8_leading_iff split: if_splits)
  then have "\<not> is_trailing_byte (chr_of (base + c div 64 ^ n))"
    unfolding is_trailing_byte_iff by linarith
  with that [OF utf8_form_spec [OF f r]] trail_all_trailing [of n c] show ?thesis by blast
qed

lemma split_last_spec:
  assumes "c < 0x80000000"
  shows "split_last_char32 (s @ utf8_spec c) = (True, s, c)"
proof -
  obtain l ts where sh: "utf8_spec c = l # ts" "\<not> is_trailing_byte l" "\<forall>t \<in> set ts. is_trailing_byte t"
    using utf8_spec_shape [OF assms] by blast
  have "takeWhile is_trailing_byte (rev ts @ l # rev s) = rev ts"
    using sh(2,3) takeWhile_append2 [of "rev ts" is_trailing_byte "l # rev s"] by simp
  then have tw: "takeWhile is_trailing_byte (rev (s @ utf8_spec c)) = rev ts"
    using sh(1) by simp
  have "split_first_char32 (l # ts) = (True, c, [])"
    using split_first_spec [OF assms, of "[]"] sh(1) by simp
  with tw sh(1) show ?thesis by (simp add: split_last_char32_def Let_def)
qed

lemma one_char_len_spec:
  assumes "c \<le> 0x10FFFF"
  shows "one_char_len (hd (utf8_spec c)) = length (utf8_spec c)"
proof -
  have "c div 64 < 32" if "c < 0x800" using that by simp
  moreover have "c div 4096 < 16" if "c < 0x10000" using that by simp
  moreover have "c div 262144 < 5" using assms by simp
  moreover have "2 \<le> c div 64" if "0x80 \<le> c" using that by simp
  ultimately show ?thesis using assms
    by (auto simp: utf8_spec_def one_char_len_iff)
qed

lemma chars_len_text: "\<forall>c \<in> set cs. c \<le> 0x10FFFF \<Longrightarrow> chars_len (utf8_text cs) = length cs"
proof (induction cs)
  case (Cons c cs)
  obtain b bs where b: "utf8_spec c = b # bs" by (cases "utf8_spec c") auto
  with one_char_len_spec [of c] Cons.prems have "one_char_len b = length (b # bs)" by simp
  with Cons b show ?case by simp
qed simp

lemma substring_from_text:
  "\<forall>c \<in> set cs. c \<le> 0x10FFFF \<Longrightarrow>
     utf8_substring_from (utf8_text cs) n = Some (utf8_text (drop n cs))"
proof (induction cs arbitrary: n)
  case Nil
  then show ?case by (cases n) auto
next
  case (Cons c cs)
  obtain b bs where b: "utf8_spec c = b # bs" by (cases "utf8_spec c") auto
  with one_char_len_spec [of c] Cons.prems have "one_char_len b = length (b # bs)" by simp
  with Cons b show ?case by (cases n) simp_all
qed

lemma prefix_text:
  "\<forall>c \<in> set cs. c \<le> 0x10FFFF \<Longrightarrow> utf8_prefix (utf8_text cs) n = Some (utf8_text (take n cs))"
proof (induction cs arbitrary: n)
  case Nil
  then show ?case by (cases n) auto
next
  case (Cons c cs)
  obtain b bs where b: "utf8_spec c = b # bs" by (cases "utf8_spec c") auto
  with one_char_len_spec [of c] Cons.prems have "one_char_len b = length (b # bs)" by simp
  with Cons b show ?case by (cases n) simp_all
qed

lemma substring_text:
  assumes "\<forall>c \<in> set cs. c \<le> 0x10FFFF"
  shows "utf8_substring (utf8_text cs) start len = Some (utf8_text (take len (drop start cs)))"
proof -
  from assms have "\<forall>c \<in> set (drop start cs). c \<le> 0x10FFFF" by (auto dest: in_set_dropD)
  with assms show ?thesis by (simp add: utf8_substring_def substring_from_text prefix_text)
qed

lemma utf8_substring_from_suffix: "utf8_substring_from s n = Some t \<Longrightarrow> suffix t s"
  by (induction s n rule: utf8_substring_from.induct)
     (auto split: if_splits dest: suffix_order.trans [OF _ suffix_drop] simp del: drop_Cons')

lemma utf8_prefix_prefix: "utf8_prefix s n = Some t \<Longrightarrow> prefix t s"
proof (induction s n arbitrary: t rule: utf8_prefix.induct)
  case (3 c cs l)
  then obtain u where t: "t = take (one_char_len c) (c # cs) @ u" and "prefix u (drop (one_char_len c) (c # cs))"
    by (auto split: if_splits)
  then have "prefix t (take (one_char_len c) (c # cs) @ drop (one_char_len c) (c # cs))"
    by (simp only: same_prefix_prefix)
  then show ?case by (simp only: append_take_drop_id)
qed auto

text \<open>Lower-casing keeps the length, so byte offsets into the key survive it.\<close>

lemma bytes_seen_le: "bytes_seen (decode s) \<le> length s"
proof -
  have ct: "count_trailing k cs \<le> k + length cs" for k cs
    by (induction k cs rule: count_trailing.induct) auto
  have dt: "i \<le> m \<Longrightarrow> bytes_seen (decode_trailing m i base cs) \<le> m" for m i base cs
    by (induction m i base cs rule: decode_trailing.induct) auto
  have ds: "2 \<le> m \<Longrightarrow> bytes_seen (decode_sequence m s k) \<le> m" for m k
    using dt by (simp add: decode_sequence_def Let_def)
  have hb: "s \<noteq> [] \<Longrightarrow> bytes_seen (handle_buffer_too_short s) \<le> length s"
    using ct [of 2] by (auto simp: handle_buffer_too_short_def split: list.splits)
  show ?thesis
    using hb ds [of 2 "0x1f"] ds [of 3 "0x0f"] ds [of 4 "0x07"]
    by (auto simp: decode_def Let_def not_less neq_Nil_conv split: list.splits)
qed

lemma length_lower_string: "length (lower_string s) = length s"
proof (induction s rule: lower_string.induct)
  case (1 s)
  show ?case
  proof (cases "s = []")
    case False
    with 1 bytes_seen_le [of s] show ?thesis
      by (subst lower_string.simps) (simp add: Let_def)
  qed (simp add: lower_string.simps)
qed

subsection \<open>The strict codec on its own encodings\<close>

lemma exp_and_take_bit: "m \<le> k \<Longrightarrow> (2 ^ k :: nat) AND take_bit m x = 0"
  by (rule bit_eqI) (auto simp: bit_and_iff bit_exp_iff bit_take_bit_iff)

lemma ord_chr: "n < 256 \<Longrightarrow> ord_of (chr_of n) = n"
  by simp

lemma or_trailing: "(0x80::nat) OR (x AND 0x3f) = 0x80 + x mod 64"
proof -
  have "(128::nat) AND take_bit 6 x = 0" using exp_and_take_bit [of 6 7 x] by simp
  then have "128 + take_bit 6 x = 128 OR take_bit 6 x" by (rule disjunctive_add_eq_or)
  then show ?thesis by (simp add: and_low_masks take_bit_eq_mod)
qed

lemma encode_tail_trail: "encode_tail cp n = trail n cp"
proof -
  have snoc: "encode_tail cp (Suc n) = encode_tail (cp div 64) n @ [chr_of (0x80 + cp mod 64)]" for cp n
  proof (induction n)
    case 0
    then show ?case by (simp add: or_trailing)
  next
    case (Suc n)
    have "drop_bit (6 * Suc n) cp = drop_bit (6 * n) (cp div 64)"
      by (simp add: drop_bit_eq_div div_mult2_eq power_add)
    with Suc show ?case by simp
  qed
  show ?thesis by (induction n arbitrary: cp) (simp_all only: snoc trail.simps encode_tail.simps(1))
qed

lemma encode_eq_spec: "cp \<le> 0x10FFFF \<Longrightarrow> encode cp = utf8_spec cp"
  by (simp add: encode_def encode_valid_def utf8_spec_def encode_sequence_def encode_tail_trail
      drop_bit_eq_div add.commute)

lemma decode_trailing_accumulate:
  "accumulate_trailing base ts = Some r \<Longrightarrow>
     decode_trailing (i + length ts) i base (ts @ rest) = dr_continue r (i + length ts)"
proof (induction ts arbitrary: base i)
  case Nil
  then show ?case by (cases rest) auto
next
  case (Cons t ts)
  then have "is_trailing_byte t" and "accumulate_trailing (append_trailing_byte base t) ts = Some r"
    by (auto simp: append_trailing_byte_def split: if_splits)
  with Cons.IH [of "append_trailing_byte base t" "Suc i"] show ?case by simp
qed

lemma decode_sequence_accumulate:
  assumes "accumulate_trailing (ord_of l AND msk) (t # ts) = Some r"
    and "is_valid_second_byte_needed n l t" and "n = Suc (Suc (length ts))"
  shows "decode_sequence n (l # t # ts @ rest) msk = dr_continue r n"
proof -
  have "accumulate_trailing (append_trailing_byte (ord_of l AND msk) t) ts = Some r"
    using assms(1) by (auto simp: append_trailing_byte_def split: if_splits)
  from decode_trailing_accumulate [OF this, of 2] assms(2,3) show ?thesis
    by (simp add: decode_sequence_def)
qed

lemma form3_second:
  assumes "0x800 \<le> c" and "c \<le> 0xffff"
  shows "is_valid_second_byte (chr_of (0xE0 + c div 4096)) (chr_of (0x80 + c div 64 mod 64)) \<longleftrightarrow>
    \<not> (0xD800 \<le> c \<and> c \<le> 0xDFFF)"
proof -
  define d where "d = c div 64"
  have d: "32 \<le> d" "d < 1024" and surr: "0xD800 \<le> c \<and> c \<le> 0xDFFF \<longleftrightarrow> 864 \<le> d \<and> d < 896"
    and q: "c div 4096 = d div 64"
    using assms by (auto simp: d_def div_le_mono simp flip: div_mult2_eq)
  have o1: "ord_of (chr_of (0xE0 + d div 64)) = 0xE0 + d div 64" using d by simp
  have o2: "ord_of (chr_of (0x80 + d mod 64)) = 0x80 + d mod 64"
    by (rule ord_chr) simp
  obtain a b where ab: "d = 64 * a + b" "b < 64" using d by (metis mult_div_mod_eq mod_less_divisor zero_less_numeral)
  have "d div 64 = a" "d mod 64 = b" using ab by simp_all
  then show ?thesis
    unfolding q surr is_valid_second_byte_def second_byte_boundary_def d_def [symmetric] o1 o2
    using d ab by (auto simp: Let_def)
qed

lemma form4_second:
  assumes "0x10000 \<le> c" and "c \<le> 0x10ffff"
  shows "is_valid_second_byte (chr_of (0xF0 + c div 262144)) (chr_of (0x80 + c div 4096 mod 64))"
proof -
  define d where "d = c div 4096"
  have d: "16 \<le> d" "d < 272" and q: "c div 262144 = d div 64"
    using assms by (auto simp: d_def div_le_mono simp flip: div_mult2_eq)
  have o1: "ord_of (chr_of (0xF0 + d div 64)) = 0xF0 + d div 64" using d by simp
  have o2: "ord_of (chr_of (0x80 + d mod 64)) = 0x80 + d mod 64"
    by (rule ord_chr) simp
  obtain a b where ab: "d = 64 * a + b" "b < 64" using d by (metis mult_div_mod_eq mod_less_divisor zero_less_numeral)
  have "d div 64 = a" "d mod 64 = b" using ab by simp_all
  then show ?thesis
    unfolding q is_valid_second_byte_def second_byte_boundary_def d_def [symmetric] o1 o2
    using d ab by (auto simp: Let_def)
qed

definition is_surrogate :: "char32 \<Rightarrow> bool" where
  "is_surrogate c \<longleftrightarrow> 0xD800 \<le> c \<and> c \<le> 0xDFFF"

lemma decode_lead:
  assumes "0x80 \<le> ord_of l" and "one_char_len l = n" and "n \<in> {2, 3, 4}" and "n \<le> length (l # cs)"
  shows "decode (l # cs) = decode_sequence n (l # cs) (if n = 2 then 0x1f else if n = 3 then 0x0f else 0x07)"
  using assms by (auto simp: decode_def Let_def)

lemma decode_spec:
  assumes "c \<le> 0x10FFFF"
  shows "decode (utf8_spec c @ rest) =
    (if is_surrogate c then dr_error 1 else dr_continue c (length (utf8_spec c)))"
proof -
  consider "c < 0x80" | "0x80 \<le> c" "c \<le> 0x7ff" | "0x800 \<le> c" "c \<le> 0xffff" | "0x10000 \<le> c"
    by linarith
  then show ?thesis
  proof cases
    case 1
    then show ?thesis by (simp add: utf8_spec_def decode_def is_surrogate_def)
  next
    case 2
    let ?l = "chr_of (0xC0 + c div 64)" and ?t = "chr_of (0x80 + c mod 64)"
    have s: "utf8_spec c = [?l, ?t]" using 2 by (simp add: utf8_spec_def)
    have b: "2 \<le> c div 64" "c div 64 < 32" using 2 by simp_all
    then have o: "ord_of ?l = 0xC0 + c div 64" by (intro ord_chr) simp
    have len: "one_char_len ?l = 2" using b by (simp add: one_char_len_iff o del: of_char_of)
    have "ord_of ?l AND 0x1f = c div 64"
      using b mod_block [of "c div 64" 32 6] by (simp only: o and_low_masks) simp
    then have "accumulate_trailing (ord_of ?l AND 0x1f) [?t] = Some c"
      using accumulate_trail [of c 1] by simp
    from decode_sequence_accumulate [OF this, of 2 rest] decode_lead [of ?l 2 "?t # rest"] len o s
    show ?thesis
      using 2 by (simp add: is_valid_second_byte_needed_def trailing_chr is_surrogate_def numeral_2_eq_2
          del: of_char_of)
  next
    case 3
    let ?l = "chr_of (0xE0 + c div 4096)" and ?t = "chr_of (0x80 + c div 64 mod 64)"
    let ?u = "chr_of (0x80 + c mod 64)"
    have s: "utf8_spec c = [?l, ?t, ?u]" using 3 by (simp add: utf8_spec_def trail_numeral)
    have b: "c div 4096 < 16" using 3 by simp
    then have o: "ord_of ?l = 0xE0 + c div 4096" by (intro ord_chr) simp
    have len: "one_char_len ?l = 3" using b by (simp add: one_char_len_iff o del: of_char_of)
    have "ord_of ?l AND 0x0f = c div 4096"
      using b mod_block [of "c div 4096" 16 14] by (simp only: o and_low_masks) simp
    then have "accumulate_trailing (ord_of ?l AND 0x0f) [?t, ?u] = Some c"
      using accumulate_trail [of c 2] by (simp add: trail_numeral)
    note acc = this
    have dl: "decode (utf8_spec c @ rest) = decode_sequence 3 (?l # ?t # ?u # rest) 0x0f"
      using decode_lead [of ?l 3 "?t # ?u # rest"] len o s by (simp del: of_char_of)
    show ?thesis
    proof (cases "is_surrogate c")
      case True
      with form3_second [OF 3] have "\<not> is_valid_second_byte ?l ?t"
        by (simp add: is_surrogate_def del: of_char_of)
      with True dl show ?thesis
        by (simp add: decode_sequence_def is_valid_second_byte_needed_def)
    next
      case False
      with form3_second [OF 3] have "is_valid_second_byte ?l ?t"
        by (simp add: is_surrogate_def del: of_char_of)
      then have "is_valid_second_byte_needed 3 ?l ?t" by (simp add: is_valid_second_byte_needed_def)
      from decode_sequence_accumulate [OF acc this, of rest] dl
      have "decode (utf8_spec c @ rest) = dr_continue c 3" by simp
      with False s show ?thesis by (simp add: numeral_3_eq_3)
    qed
  next
    case 4
    let ?l = "chr_of (0xF0 + c div 262144)" and ?t = "chr_of (0x80 + c div 4096 mod 64)"
    let ?u = "chr_of (0x80 + c div 64 mod 64)" and ?v = "chr_of (0x80 + c mod 64)"
    have s: "utf8_spec c = [?l, ?t, ?u, ?v]" using 4 assms by (simp add: utf8_spec_def trail_numeral flip: div_mult2_eq)
    have b: "c div 262144 < 5" using assms by simp
    then have o: "ord_of ?l = 0xF0 + c div 262144" by (intro ord_chr) simp
    have len: "one_char_len ?l = 4" using b by (simp add: one_char_len_iff o del: of_char_of)
    have "ord_of ?l AND 0x07 = c div 262144"
      using b mod_block [of "c div 262144" 8 30] by (simp only: o and_low_masks) simp
    then have "accumulate_trailing (ord_of ?l AND 0x07) [?t, ?u, ?v] = Some c"
      using accumulate_trail [of c 3] by (simp add: trail_numeral flip: div_mult2_eq)
    note acc = this
    have dl: "decode (utf8_spec c @ rest) = decode_sequence 4 (?l # ?t # ?u # ?v # rest) 0x07"
      using decode_lead [of ?l 4 "?t # ?u # ?v # rest"] len o s by (simp del: of_char_of)
    have "\<not> is_surrogate c" using 4 by (simp add: is_surrogate_def)
    have "is_valid_second_byte_needed 4 ?l ?t"
      using form4_second [OF 4 assms] by (simp add: is_valid_second_byte_needed_def)
    from decode_sequence_accumulate [OF acc this, of rest] dl
    have "decode (utf8_spec c @ rest) = dr_continue c 4" by simp
    moreover have "length (utf8_spec c) = 4" using s by simp
    ultimately show ?thesis using \<open>\<not> is_surrogate c\<close> by simp
  qed
qed

definition lower32 :: "char32 \<Rightarrow> char32" where
  "lower32 c = (if 0x0041 \<le> c \<and> c \<le> 0x005A \<or> 0xFF21 \<le> c \<and> c \<le> 0xFF3A then c + 0x0020 else c)"

abbreviation scalar_values :: "char32 list \<Rightarrow> bool" where
  "scalar_values cs \<equiv> \<forall>c \<in> set cs. c \<le> 0x10FFFF \<and> \<not> is_surrogate c"

lemma lower_text_append:
  "scalar_values cs \<Longrightarrow> lower_string (utf8_text cs @ s) = utf8_text (map lower32 cs) @ lower_string s"
proof (induction cs)
  case Nil
  then show ?case by simp
next
  case (Cons c cs)
  then have d: "decode (utf8_spec c @ utf8_text cs @ s) = dr_continue c (length (utf8_spec c))"
    by (simp add: decode_spec)
  have cp: "code_point (dr_continue c n) = c" for n by (simp add: dr_continue_def)
  show ?case
  proof (cases "0x0041 \<le> c \<and> c \<le> 0x005A \<or> 0xFF21 \<le> c \<and> c \<le> 0xFF3A")
    case True
    then have "encodable (c + 32)" by (auto simp: encodable_def)
    then have e: "codepoint_to_utf8 (c + 32) = utf8_spec (c + 32)" by (rule codepoint_to_utf8_eq_spec)
    have l: "length (utf8_spec (c + 32)) = length (utf8_spec c)"
      using True by (auto simp: utf8_spec_def)
    from True Cons e l show ?thesis
      by (simp add: lower_string.simps [of "utf8_spec c @ utf8_text cs @ s"] d cp Let_def lower32_def)
  next
    case False
    then have "lower32 c = c" by (auto simp: lower32_def)
    moreover have "lower_string (utf8_spec c @ utf8_text cs @ s) = utf8_spec c @ lower_string (utf8_text cs @ s)"
      using False by (subst lower_string.simps) (auto simp: d cp Let_def)
    ultimately show ?thesis using Cons by simp
  qed
qed

lemma lower_text: "scalar_values cs \<Longrightarrow> lower_string (utf8_text cs) = utf8_text (map lower32 cs)"
  using lower_text_append [of cs "[]"] by (simp add: lower_string.simps [of "[]"])

lemma take_bit_step:
  "take_bit (n + 8) (x :: 64 word) = push_bit n (take_bit 8 (drop_bit n x)) OR take_bit n x"
  by (rule bit_word_eqI) (auto simp: bit_simps)

lemma byte_of_word: "of_nat (ord_of (chr_of (unat (y AND 0xFF)))) = take_bit 8 (y :: 64 word)"
proof -
  have m: "y AND 0xFF = take_bit 8 y" by (simp add: take_bit_eq_mask mask_eq_exp_minus_1)
  have "y AND 0xFF \<le> 0xFF" by (rule word_and_le1)
  then have "unat (y AND 0xFF) < 256" by (simp add: word_le_nat_alt)
  then show ?thesis unfolding m by simp
qed

lemma serialize_uint64_roundtrip: "deserialize_uint64 (serialize_uint64 x) = Some x"
proof -
  have "take_bit 64 x = x" by (simp add: take_bit_word_eq_self)
  then have "push_bit 56 (take_bit 8 (drop_bit 56 x)) OR (push_bit 48 (take_bit 8 (drop_bit 48 x)) OR
    (push_bit 40 (take_bit 8 (drop_bit 40 x)) OR (push_bit 32 (take_bit 8 (drop_bit 32 x)) OR
    (push_bit 24 (take_bit 8 (drop_bit 24 x)) OR (push_bit 16 (take_bit 8 (drop_bit 16 x)) OR
    (push_bit 8 (take_bit 8 (drop_bit 8 x)) OR take_bit 8 x)))))) = x"
    using take_bit_step [of 56 x] take_bit_step [of 48 x] take_bit_step [of 40 x]
      take_bit_step [of 32 x] take_bit_step [of 24 x] take_bit_step [of 16 x] take_bit_step [of 8 x]
    by simp
  then show ?thesis
    unfolding serialize_uint64_def deserialize_uint64_def by (simp add: byte_of_word del: of_char_of)
qed

section \<open>Properties\<close>

text \<open>
  C30: \<open>Util::CodepointToUtf8\<close> followed by \<open>Util::SplitFirstChar32\<close> gives the code point
  and the rest back, for every non-zero 31-bit value outside
  \<open>[0x4000000, 0x8000000)\<close> and for none inside: there the five-byte branch drops bit 26.
\<close>

theorem codepoint_utf8_roundtrip:
  assumes "0 < c" and "c < 0x80000000"
  shows "split_first_char32 (codepoint_to_utf8 c @ rest) = (True, c, rest) \<longleftrightarrow>
    \<not> (0x4000000 \<le> c \<and> c < 0x8000000)"
proof (cases "0x4000000 \<le> c \<and> c < 0x8000000")
  case True
  then have "codepoint_to_utf8 c @ rest \<noteq> utf8_spec c @ rest"
    using codepoint_to_utf8_gap [of c] by auto
  with True show ?thesis by (simp add: split_first_iff)
next
  case False
  with assms have "codepoint_to_utf8 c = utf8_spec c"
    by (intro codepoint_to_utf8_eq_spec) (simp add: encodable_def)
  with False assms show ?thesis by (simp add: split_first_spec)
qed

theorem codepoint_utf8_roundtrip_witness:
  "split_first_char32 (codepoint_to_utf8 0x3042 @ ''x'') = (True, 0x3042, ''x'') \<and>
   split_first_char32 (codepoint_to_utf8 0x4000000 @ ''x'') \<noteq> (True, 0x4000000, ''x'')"
  using codepoint_utf8_roundtrip [of "0x3042" "''x''"] codepoint_utf8_roundtrip [of "0x4000000" "''x''"]
  by simp

text \<open>
  a valid string is determined by its code points: no two strings that
  \<open>Util::IsValidUtf8\<close> accepts have the same \<open>Util::Utf8ToUtf32\<close>, so a map keyed by
  code points (the rule trie) never confuses two valid keys.
\<close>

theorem utf8_to_utf32_injective:
  assumes "is_valid_utf8 s" and "is_valid_utf8 t" and "utf8_to_utf32 s = utf8_to_utf32 t"
  shows "s = t"
  using assms valid_utf8_text by metis

theorem utf8_to_utf32_injective_witness:
  "codepoint_to_utf8 107 @ codepoint_to_utf8 97 = ''ka''"
proof -
  have "is_valid_utf8 (utf8_text [107, 97]) \<and> utf8_to_utf32 (utf8_text [107, 97]) = [107, 97]"
    using utf32_of_text [of "[107, 97]"] by simp
  moreover have "utf8_text [107, 97] = codepoint_to_utf8 107 @ codepoint_to_utf8 97"
    by (simp add: codepoint_to_utf8_eq_spec encodable_def)
  moreover have "is_valid_utf8 ''ka''" "utf8_to_utf32 ''ka'' = [107, 97]" by code_simp+
  ultimately show ?thesis using utf8_to_utf32_injective by metis
qed

text \<open>
  C31: the strict codec: decoding the encoding of a code point up to U+10FFFF gives the code
  point and the number of bytes it took, except for the surrogates, which are rejected after
  one byte.
\<close>

theorem strict_codec_roundtrip:
  assumes "c \<le> 0x10FFFF"
  shows "decode (encode c @ rest) =
    (if 0xD800 \<le> c \<and> c \<le> 0xDFFF then dr_error 1 else dr_continue c (length (encode c)))"
  using assms decode_spec [of c rest] by (simp add: encode_eq_spec is_surrogate_def)

theorem strict_codec_roundtrip_witness:
  "decode (encode 0x3042 @ ''x'') = dr_continue 0x3042 (length (encode 0x3042)) \<and>
   decode (encode 0xD800 @ ''x'') = dr_error 1"
  using strict_codec_roundtrip [of "0x3042" "''x''"] strict_codec_roundtrip [of "0xD800" "''x''"] by simp

text \<open>
  C32: on valid text of Unicode code points \<open>Util::CharsLen\<close> counts the code points and
  \<open>Util::Utf8SubString\<close> stays inside its buffer and cuts out exactly the requested code points.
\<close>

theorem utf8_substring_code_points:
  assumes "is_valid_utf8 s" and "\<forall>c \<in> set (utf8_to_utf32 s). c \<le> 0x10FFFF"
  shows "chars_len s = length (utf8_to_utf32 s) \<and>
    (\<exists>t. utf8_substring s start len = Some t \<and>
         utf8_to_utf32 t = take len (drop start (utf8_to_utf32 s)))"
proof -
  let ?cs = "utf8_to_utf32 s" and ?ds = "take len (drop start (utf8_to_utf32 s))"
  have s: "s = utf8_text ?cs" using valid_utf8_text assms(1) by blast
  have "\<forall>c \<in> set ?ds. c < 0x80000000"
    using assms(2) by (force dest!: in_set_takeD in_set_dropD)
  then have "utf8_to_utf32 (utf8_text ?ds) = ?ds" using utf32_of_text by blast
  moreover have "utf8_substring s start len = Some (utf8_text ?ds)"
    by (subst s) (rule substring_text [OF assms(2)])
  moreover have "chars_len s = length ?cs"
    by (subst s) (rule chars_len_text [OF assms(2)])
  ultimately show ?thesis by blast
qed

theorem utf8_substring_code_points_witness:
  "chars_len (utf8_text [0x3042, 107]) = 2 \<and>
   (\<exists>t. utf8_substring (utf8_text [0x3042, 107]) 1 1 = Some t \<and> utf8_to_utf32 t = [107])"
proof -
  have "is_valid_utf8 (utf8_text [0x3042, 107]) \<and> utf8_to_utf32 (utf8_text [0x3042, 107]) = [0x3042, 107]"
    using utf32_of_text [of "[0x3042, 107]"] by simp
  then show ?thesis
    using utf8_substring_code_points [of "utf8_text [0x3042, 107]" 1 1] by simp
qed


end
