(* ===== verification/Key_Trie.thy ===== *)
theory Key_Trie
  imports Utf8 "HOL-Library.AList"
begin

text \<open>
  The trie of \<open>base/container/trie.h\<close>: a node holds optional data and a hash map from the
  next code point to a subtrie.  Keys are byte strings cut by \<open>Util::SplitFirstChar32\<close>, whose
  failure flag the code ignores: an undecodable rest of a key is one edge labelled 0.  The hash
  map is an association list; its order, which the code leaves open, is the insertion order.
  The specification is a partial function from code-point paths to data, and every operation
  is shown to be an operation on that function.
\<close>

section \<open>The trie and its operations\<close>

datatype 'a trie = Trie (trie_data: "'a option") (trie_subs: "(char32 \<times> 'a trie) list")

definition empty_trie :: "'a trie" where
  "empty_trie = Trie None []"

text \<open>\<open>FindSubTrie\<close>: the subtrie, the first code point and the rest of the key.\<close>

definition find_sub_trie :: "'a trie \<Rightarrow> bytes \<Rightarrow> 'a trie option \<times> char32 \<times> bytes" where
  "find_sub_trie t key =
     (if key = [] then (None, 0, [])
      else case split_first_char32 key of (ok, first_char, rest) \<Rightarrow>
        (map_of (trie_subs t) first_char, first_char, rest))"

lemma find_sub_trie_shorter:
  "find_sub_trie t key = (sub, c, rest) \<Longrightarrow> key \<noteq> [] \<Longrightarrow> length rest < length key"
  by (auto simp: find_sub_trie_def split: prod.splits dest: split_first_shorter)

lemma find_sub_trie_Some_shorter:
  "find_sub_trie t key = (Some sub, c, rest) \<Longrightarrow> length rest < length key"
  by (rule find_sub_trie_shorter) (auto simp: find_sub_trie_def)

function add_entry :: "'a trie \<Rightarrow> bytes \<Rightarrow> 'a \<Rightarrow> 'a trie" where
  "add_entry t key data =
     (if key = [] then Trie (Some data) (trie_subs t)
      else case find_sub_trie t key of (sub, first_char, rest) \<Rightarrow>
        let child = (case sub of None \<Rightarrow> empty_trie | Some t' \<Rightarrow> t') in
        Trie (trie_data t) (AList.update first_char (add_entry child rest data) (trie_subs t)))"
  by pat_completeness auto
termination
  by (relation "measure (\<lambda>(t, key, data). length key)") (auto dest: find_sub_trie_shorter [OF sym])

text \<open>\<open>DeleteEntry\<close>: the flag tells the parent to drop this node.\<close>

function delete_entry :: "'a trie \<Rightarrow> bytes \<Rightarrow> bool \<times> 'a trie" where
  "delete_entry t key =
     (if key = [] then
        if trie_subs t = [] then (True, t) else (False, Trie None (trie_subs t))
      else case find_sub_trie t key of
        (None, _, _) \<Rightarrow> (False, t)
      | (Some sub, first_char, rest) \<Rightarrow>
          (case delete_entry sub rest of
             (True, _) \<Rightarrow>
               let subs = AList.delete first_char (trie_subs t) in (subs = [], Trie (trie_data t) subs)
           | (False, sub') \<Rightarrow>
               (False, Trie (trie_data t) (AList.update first_char sub' (trie_subs t)))))"
  by pat_completeness auto
termination
  by (relation "measure (\<lambda>(t, key). length key)") (auto dest: find_sub_trie_shorter [OF sym])

function trie_lookup :: "'a trie \<Rightarrow> bytes \<Rightarrow> 'a option" where
  "trie_lookup t key =
     (if key = [] then trie_data t
      else case find_sub_trie t key of
        (None, _, _) \<Rightarrow> None
      | (Some sub, _, rest) \<Rightarrow> trie_lookup sub rest)"
  by pat_completeness auto
termination
  by (relation "measure (\<lambda>(t, key). length key)") (auto dest: find_sub_trie_shorter [OF sym])

text \<open>\<open>LookUpPrefix\<close>: the data found (if any), the length of the key used and \<open>*fixed\<close>.\<close>

function trie_lookup_prefix :: "'a trie \<Rightarrow> bytes \<Rightarrow> 'a option \<times> nat \<times> bool" where
  "trie_lookup_prefix t key =
     (case find_sub_trie t key of
        (None, _, _) \<Rightarrow>
          (case trie_data t of
             Some data \<Rightarrow> (Some data, 0, trie_subs t = [])
           | None \<Rightarrow> (None, 0, True))
      | (Some sub, _, rest) \<Rightarrow>
          (case trie_lookup_prefix sub rest of (found, key_length, fixed) \<Rightarrow>
             (found, key_length + (length key - length rest), fixed)))"
  by pat_completeness auto
termination
  by (relation "measure (\<lambda>(t, key). length key)") (auto dest: find_sub_trie_Some_shorter [OF sym])

function trie_longest_match :: "'a trie \<Rightarrow> bytes \<Rightarrow> 'a option \<times> nat" where
  "trie_longest_match t key =
     (case find_sub_trie t key of
        (None, _, _) \<Rightarrow> (trie_data t, 0)
      | (Some sub, _, rest) \<Rightarrow>
          (case trie_longest_match sub rest of
             (Some data, key_length) \<Rightarrow> (Some data, key_length + (length key - length rest))
           | (None, key_length) \<Rightarrow> (trie_data t, key_length)))"
  by pat_completeness auto
termination
  by (relation "measure (\<lambda>(t, key). length key)") (auto dest: find_sub_trie_Some_shorter [OF sym])

fun trie_all_data :: "'a trie \<Rightarrow> 'a list" where
  "trie_all_data (Trie d subs) =
     (case d of None \<Rightarrow> [] | Some x \<Rightarrow> [x]) @ concat (map (\<lambda>p. trie_all_data (snd p)) subs)"

function trie_lookup_predictive_all :: "'a trie \<Rightarrow> bytes \<Rightarrow> 'a list" where
  "trie_lookup_predictive_all t key =
     (if key \<noteq> [] then
        case find_sub_trie t key of
          (None, _, _) \<Rightarrow> []
        | (Some sub, _, rest) \<Rightarrow> trie_lookup_predictive_all sub rest
      else trie_all_data t)"
  by pat_completeness auto
termination
  by (relation "measure (\<lambda>(t, key). length key)") (auto dest: find_sub_trie_Some_shorter [OF sym])

function has_sub_trie :: "'a trie \<Rightarrow> bytes \<Rightarrow> bool" where
  "has_sub_trie t key =
     (case find_sub_trie t key of
        (None, _, _) \<Rightarrow> False
      | (Some sub, _, rest) \<Rightarrow> rest = [] \<or> has_sub_trie sub rest)"
  by pat_completeness auto
termination
  by (relation "measure (\<lambda>(t, key). length key)") (auto dest: find_sub_trie_Some_shorter [OF sym])

declare add_entry.simps [simp del] delete_entry.simps [simp del] trie_lookup.simps [simp del]
  trie_lookup_prefix.simps [simp del] trie_longest_match.simps [simp del]
  trie_lookup_predictive_all.simps [simp del] has_sub_trie.simps [simp del]

section \<open>Paths\<close>

text \<open>The edges a key walks over, one per \<open>FindSubTrie\<close>.\<close>

function key_path :: "bytes \<Rightarrow> char32 list" where
  "key_path key =
     (if key = [] then []
      else case split_first_char32 key of (ok, c, rest) \<Rightarrow> c # key_path rest)"
  by pat_completeness auto
termination
  by (relation "measure length") (auto dest: split_first_shorter [OF _ sym])

declare key_path.simps [simp del]

lemma key_path_Nil [simp]: "key_path [] = []"
  by (simp add: key_path.simps)

lemma key_path_step:
  "key \<noteq> [] \<Longrightarrow> find_sub_trie t key = (sub, c, rest) \<Longrightarrow>
     key_path key = c # key_path rest \<and> sub = map_of (trie_subs t) c"
  by (auto simp: find_sub_trie_def key_path.simps [of key] split: prod.splits)

lemma key_path_eq_Nil [simp]: "key_path key = [] \<longleftrightarrow> key = []"
  by (cases "key = []") (auto simp: key_path.simps [of key] split: prod.splits)

lemma key_path_valid: "is_valid_utf8 key \<Longrightarrow> key_path key = utf8_to_utf32 key"
proof (induction key rule: key_path.induct)
  case (1 key)
  show ?case
  proof (cases "key = []")
    case False
    obtain ok c rest where sp: "split_first_char32 key = (ok, c, rest)"
      by (cases "split_first_char32 key")
    with False "1.prems" have "ok" "is_valid_utf8 rest"
      by (auto simp: is_valid_utf8.simps [of key] split: if_splits)
    with "1.IH" [OF False sp [symmetric] refl] False sp show ?thesis
      by (simp add: key_path.simps [of key] utf8_to_utf32.simps [of key])
  qed (simp add: utf8_to_utf32.simps)
qed

text \<open>The node a path leads to, and the trie as a partial function on paths.\<close>

fun trie_node :: "'a trie \<Rightarrow> char32 list \<Rightarrow> 'a trie option" where
  "trie_node t [] = Some t"
| "trie_node t (c # cs) = Option.bind (map_of (trie_subs t) c) (\<lambda>t'. trie_node t' cs)"

definition trie_map :: "'a trie \<Rightarrow> char32 list \<Rightarrow> 'a option" where
  "trie_map t p = Option.bind (trie_node t p) trie_data"

lemma trie_map_Nil [simp]: "trie_map t [] = trie_data t"
  by (simp add: trie_map_def)

lemma trie_map_Cons [simp]:
  "trie_map t (c # cs) = Option.bind (map_of (trie_subs t) c) (\<lambda>t'. trie_map t' cs)"
  by (cases "map_of (trie_subs t) c") (simp_all add: trie_map_def)

lemma trie_map_empty [simp]: "trie_map empty_trie p = None"
  by (cases p) (simp_all add: empty_trie_def)

lemma trie_lookup_map: "trie_lookup t key = trie_map t (key_path key)"
proof (induction t key rule: trie_lookup.induct)
  case (1 t key)
  show ?case
  proof (cases "key = []")
    case False
    obtain sub c rest where f: "find_sub_trie t key = (sub, c, rest)" by (cases "find_sub_trie t key")
    show ?thesis
    proof (cases sub)
      case None
      with key_path_step [OF False f] False f show ?thesis by (simp add: trie_lookup.simps [of t key])
    next
      case (Some t')
      from "1.IH" [OF False f [symmetric]] Some have "trie_lookup t' rest = trie_map t' (key_path rest)"
        by auto
      with Some key_path_step [OF False f] False f show ?thesis
        by (metis (no_types, lifting) bind.bind_lunit old.prod.case option.case(2) trie_lookup.simps
            trie_map_Cons)
    qed
  qed (simp add: trie_lookup.simps)
qed

fun child_or_new :: "'a trie option \<Rightarrow> 'a trie" where
  "child_or_new None = empty_trie"
| "child_or_new (Some t) = t"

lemma add_entry_step:
  "key \<noteq> [] \<Longrightarrow> find_sub_trie t key = (sub, c, rest) \<Longrightarrow>
     add_entry t key d = Trie (trie_data t) (AList.update c (add_entry (child_or_new sub) rest d) (trie_subs t))"
  by (cases sub) (simp_all add: add_entry.simps [of t key] Let_def)

lemma trie_map_add: "trie_map (add_entry t key d) = (trie_map t)(key_path key \<mapsto> d)"
proof (induction "length key" arbitrary: t key rule: less_induct)
  case less
  show ?case
  proof (cases "key = []")
    case True
    show ?thesis
    proof
      fix p
      from True show "trie_map (add_entry t key d) p = ((trie_map t)(key_path key \<mapsto> d)) p"
        by (cases p) (simp_all add: add_entry.simps)
    qed
  next
    case False
    obtain sub c rest where f: "find_sub_trie t key = (sub, c, rest)" by (cases "find_sub_trie t key")
    have IH: "trie_map (add_entry t' rest d) = (trie_map t')(key_path rest \<mapsto> d)" for t'
      by (rule less.hyps [OF find_sub_trie_shorter [OF f False]])
    from key_path_step [OF False f] have kp: "key_path key = c # key_path rest"
      and sub: "sub = map_of (trie_subs t) c" by simp_all
    show ?thesis
    proof
      fix p
      show "trie_map (add_entry t key d) p = ((trie_map t)(key_path key \<mapsto> d)) p"
        by (cases p; cases sub)
          (auto simp: add_entry_step [OF False f] kp IH update_conv' sub [symmetric])
    qed
  qed
qed

text \<open>The number of bytes that the first \<open>n\<close> edges of a key take.\<close>

fun key_bytes :: "bytes \<Rightarrow> nat \<Rightarrow> nat" where
  "key_bytes key 0 = 0"
| "key_bytes key (Suc n) =
     (if key = [] then 0
      else case split_first_char32 key of (ok, c, rest) \<Rightarrow> length key - length rest + key_bytes rest n)"

lemma key_bytes_step:
  "find_sub_trie t key = (sub, c, rest) \<Longrightarrow> key \<noteq> [] \<Longrightarrow>
     key_bytes key (Suc n) = length key - length rest + key_bytes rest n"
  by (auto simp: find_sub_trie_def split: prod.splits)

lemma key_bytes_le: "key_bytes key n \<le> length key"
proof (induction n arbitrary: key)
  case (Suc n)
  obtain ok c rest where sp: "split_first_char32 key = (ok, c, rest)" by (cases "split_first_char32 key")
  show ?case
  proof (cases "key = []")
    case False
    with sp have "length rest < length key" using split_first_shorter by blast
    with Suc [of rest] False sp show ?thesis by simp
  qed simp
qed simp

text \<open>How many edges of a path exist in the trie, and the node where the walk stops.\<close>

fun walk :: "'a trie \<Rightarrow> char32 list \<Rightarrow> nat \<times> 'a trie" where
  "walk t [] = (0, t)"
| "walk t (c # cs) =
     (case map_of (trie_subs t) c of
        None \<Rightarrow> (0, t)
      | Some t' \<Rightarrow> map_prod Suc id (walk t' cs))"

lemma walk_node: "walk t p = (n, t') \<Longrightarrow> n \<le> length p \<and> trie_node t (take n p) = Some t'"
  by (induction t p arbitrary: n rule: walk.induct)
    (auto split: option.splits simp: map_prod_def split: prod.splits)

lemma walk_stops:
  "walk t p = (n, t') \<Longrightarrow> n < m \<Longrightarrow> m \<le> length p \<Longrightarrow> trie_node t (take m p) = None"
proof (induction t p arbitrary: n m rule: walk.induct)
  case (2 t c cs)
  then show ?case
    by (cases m) (auto split: option.splits simp: map_prod_def split: prod.splits)
qed simp

lemma find_sub_trie_Nil [simp]: "find_sub_trie t [] = (None, 0, [])"
  by (simp add: find_sub_trie_def)

lemma trie_lookup_prefix_walk:
  "trie_lookup_prefix t key =
     (case walk t (key_path key) of (n, t') \<Rightarrow>
        (trie_data t', key_bytes key n, trie_data t' = None \<or> trie_subs t' = []))"
proof (induction t key rule: trie_lookup_prefix.induct)
  case (1 t key)
  show ?case
  proof (cases "key = []")
    case True
    then show ?thesis by (auto simp: trie_lookup_prefix.simps [of t "[]"] split: option.splits)
  next
    case False
    obtain sub c rest where f: "find_sub_trie t key = (sub, c, rest)" by (cases "find_sub_trie t key")
    note k = key_path_step [OF False f]
    show ?thesis
    proof (cases sub)
      case None
      with k f show ?thesis
        by (auto simp: trie_lookup_prefix.simps [of t key] split: option.splits)
    next
      case (Some t')
      from "1.IH" [OF f [symmetric] Some refl] have IH: "trie_lookup_prefix t' rest =
        (case walk t' (key_path rest) of (n, t'') \<Rightarrow>
          (trie_data t'', key_bytes rest n, trie_data t'' = None \<or> trie_subs t'' = []))" by simp
      obtain n t'' where w: "walk t' (key_path rest) = (n, t'')" by (cases "walk t' (key_path rest)")
      from Some k have m: "map_of (trie_subs t) c = Some t'" by simp
      show ?thesis
        unfolding trie_lookup_prefix.simps [of t key]
        by (simp add: f Some IH w k m key_bytes_step [OF f False] del: key_bytes.simps(2))
    qed
  qed
qed

lemma has_sub_trie_node:
  "has_sub_trie t key \<longleftrightarrow> key \<noteq> [] \<and> trie_node t (key_path key) \<noteq> None"
proof (induction t key rule: has_sub_trie.induct)
  case (1 t key)
  show ?case
  proof (cases "key = []")
    case True
    then show ?thesis by (simp add: has_sub_trie.simps [of t "[]"])
  next
    case False
    obtain sub c rest where f: "find_sub_trie t key = (sub, c, rest)" by (cases "find_sub_trie t key")
    note k = key_path_step [OF False f]
    show ?thesis
    proof (cases sub)
      case None
      with False k f show ?thesis by (simp add: has_sub_trie.simps [of t key])
    next
      case (Some t')
      from k Some have m: "map_of (trie_subs t) c = Some t'" by simp
      from "1.IH" [OF f [symmetric] Some refl] False m k f Some show ?thesis
        by (cases "rest = []") (simp_all add: has_sub_trie.simps [of t key])
    qed
  qed
qed

section \<open>Longest match\<close>

text \<open>The longest prefix of a path that holds data: its number of edges and the data.\<close>

fun longest_data :: "'a trie \<Rightarrow> char32 list \<Rightarrow> (nat \<times> 'a) option" where
  "longest_data t [] = map_option (Pair 0) (trie_data t)"
| "longest_data t (c # cs) =
     (case Option.bind (map_of (trie_subs t) c) (\<lambda>t'. longest_data t' cs) of
        Some (n, d) \<Rightarrow> Some (Suc n, d)
      | None \<Rightarrow> map_option (Pair 0) (trie_data t))"

lemma longest_data_None:
  "longest_data t p = None \<Longrightarrow> trie_map t (take k p) = None"
proof (induction t p arbitrary: k rule: longest_data.induct)
  case (2 t c cs)
  show ?case
  proof (cases "map_of (trie_subs t) c")
    case None
    with "2.prems" show ?thesis by (cases k) auto
  next
    case (Some t')
    with "2.prems" have "longest_data t' cs = None" "trie_data t = None"
      by (auto split: option.splits)
    with Some "2.IH" [OF Some] show ?thesis by (cases k) simp_all
  qed
qed auto

lemma longest_data_Some:
  "longest_data t p = Some (n, d) \<Longrightarrow>
     n \<le> length p \<and> trie_map t (take n p) = Some d \<and>
     (\<forall>m. n < m \<longrightarrow> m \<le> length p \<longrightarrow> trie_map t (take m p) = None)"
proof (induction t p arbitrary: n rule: longest_data.induct)
  case (2 t c cs)
  show ?case
  proof (cases "map_of (trie_subs t) c")
    case None
    with 2 show ?thesis by (auto simp: take_Cons split: nat.splits)
  next
    case m: (Some t')
    show ?thesis
    proof (cases "longest_data t' cs")
      case None
      with m 2 longest_data_None [OF None] show ?thesis by (auto simp: take_Cons split: nat.splits)
    next
      case (Some nd)
      obtain n' d' where nd: "nd = (n', d')" by (cases nd)
      with 2 m Some have "n = Suc n'" "d' = d" by auto
      with "2.IH" [OF m, of n'] Some nd m show ?thesis
        by (auto simp: take_Cons split: nat.splits)
    qed
  qed
qed auto

lemma trie_longest_match_data:
  "trie_longest_match t key =
     (case longest_data t (key_path key) of
        Some (n, d) \<Rightarrow> (Some d, key_bytes key n)
      | None \<Rightarrow> (None, 0))"
proof (induction t key rule: trie_longest_match.induct)
  case (1 t key)
  show ?case
  proof (cases "key = []")
    case True
    then show ?thesis by (cases "trie_data t") (simp_all add: trie_longest_match.simps [of t "[]"])
  next
    case False
    obtain sub c rest where f: "find_sub_trie t key = (sub, c, rest)" by (cases "find_sub_trie t key")
    note k = key_path_step [OF False f]
    show ?thesis
    proof (cases sub)
      case None
      with False k f show ?thesis
        by (cases "trie_data t") (simp_all add: trie_longest_match.simps [of t key])
    next
      case (Some t')
      from k Some have m: "map_of (trie_subs t) c = Some t'" by simp
      note IH = "1.IH" [OF f [symmetric] Some refl]
      show ?thesis
        unfolding trie_longest_match.simps [of t key]
        by (cases "trie_data t")
          (auto simp: f Some IH k m key_bytes_step [OF f False] simp del: key_bytes.simps(2) split: option.splits)
    qed
  qed
qed

section \<open>Well-formed tries and predictive lookup\<close>

text \<open>A hash map has one value per key.\<close>

fun wf_trie :: "'a trie \<Rightarrow> bool" where
  "wf_trie (Trie d subs) \<longleftrightarrow> distinct (map fst subs) \<and> list_all (\<lambda>p. wf_trie (snd p)) subs"

lemma wf_trie_sub: "wf_trie t \<Longrightarrow> map_of (trie_subs t) c = Some t' \<Longrightarrow> wf_trie t'"
  by (cases t) (auto simp: list_all_iff dest: map_of_SomeD)

lemma wf_trie_iff:
  "wf_trie t \<longleftrightarrow> distinct (map fst (trie_subs t)) \<and> (\<forall>p \<in> set (trie_subs t). wf_trie (snd p))"
  by (cases t) (simp add: list_all_iff)

lemma set_update_subset: "set (AList.update k v al) \<subseteq> insert (k, v) (set al)"
  by (induction al) auto

lemma wf_trie_update:
  "wf_trie t \<Longrightarrow> wf_trie t' \<Longrightarrow> wf_trie (Trie d (AList.update c t' (trie_subs t)))"
  using set_update_subset [of c t' "trie_subs t"] distinct_update [of "trie_subs t" c t']
  by (fastforce simp: wf_trie_iff [of t] list_all_iff)

lemma wf_empty_trie [intro, simp]: "wf_trie empty_trie"
  by (simp add: empty_trie_def)

lemma wf_trie_data: "wf_trie t \<Longrightarrow> wf_trie (Trie d (trie_subs t))"
  by (cases t) simp

lemma wf_trie_add [inv_intros]: "wf_trie t \<Longrightarrow> wf_trie (add_entry t key d)"
proof (induction "length key" arbitrary: t key rule: less_induct)
  case less
  show ?case
  proof (cases "key = []")
    case True
    with less.prems show ?thesis by (simp add: add_entry.simps [of t "[]"] wf_trie_data del: wf_trie.simps)
  next
    case False
    obtain sub c rest where f: "find_sub_trie t key = (sub, c, rest)" by (cases "find_sub_trie t key")
    have "wf_trie (child_or_new sub)"
      using key_path_step [OF False f] less.prems
      by (cases sub) (simp_all, metis child_or_new.simps(2) wf_trie_sub)
    then have "wf_trie (add_entry (child_or_new sub) rest d)"
      using less.hyps find_sub_trie_shorter [OF f False] by blast
    with less.prems show ?thesis by (simp add: add_entry_step [OF False f] wf_trie_update del: wf_trie.simps)
  qed
qed

lemma trie_all_data_set:
  "wf_trie t \<Longrightarrow> set (trie_all_data t) = {d. \<exists>p. trie_map t p = Some d}"
proof (induction t rule: trie_all_data.induct)
  case (1 d subs)
  have IH: "set (trie_all_data (snd p)) = {d. \<exists>q. trie_map (snd p) q = Some d}" if "p \<in> set subs" for p
    using 1 that by (auto simp: list_all_iff)
  from 1 have dist: "distinct (map fst subs)" by simp
  have data: "{x. \<exists>p. trie_map (Trie d subs) p = Some x} =
      set_option d \<union> (\<Union>p \<in> set subs. {x. \<exists>q. trie_map (snd p) q = Some x})" (is "?L = ?R")
  proof
    show "?L \<subseteq> ?R"
    proof
      fix x assume "x \<in> ?L"
      then obtain p where "trie_map (Trie d subs) p = Some x" by blast
      then show "x \<in> ?R"
        by (cases p) (fastforce simp: bind_eq_Some_conv dest!: map_of_SomeD)+
    qed
    show "?R \<subseteq> ?L"
    proof
      fix x assume "x \<in> ?R"
      then consider "d = Some x" | c t' q where "(c, t') \<in> set subs" "trie_map t' q = Some x" by auto
      then show "x \<in> ?L"
      proof cases
        case 1
        then have "trie_map (Trie d subs) [] = Some x" by simp
        then show ?thesis by blast
      next
        case 2
        with dist have "trie_map (Trie d subs) (c # q) = Some x" by simp
        then show ?thesis by blast
      qed
    qed
  qed
  have all: "set (trie_all_data (Trie d subs)) =
      set_option d \<union> (\<Union>p \<in> set subs. set (trie_all_data (snd p)))"
    by (auto split: option.splits)
  show ?case
    unfolding data all using IH by simp
qed

lemma trie_predictive_node:
  "trie_lookup_predictive_all t key =
     (case trie_node t (key_path key) of None \<Rightarrow> [] | Some t' \<Rightarrow> trie_all_data t')"
proof (induction t key rule: trie_lookup_predictive_all.induct)
  case (1 t key)
  show ?case
  proof (cases "key = []")
    case True
    then show ?thesis by (simp add: trie_lookup_predictive_all.simps [of t "[]"])
  next
    case False
    obtain sub c rest where f: "find_sub_trie t key = (sub, c, rest)" by (cases "find_sub_trie t key")
    note k = key_path_step [OF False f]
    show ?thesis
    proof (cases sub)
      case None
      with False k f show ?thesis by (simp add: trie_lookup_predictive_all.simps [of t key])
    next
      case (Some t')
      from k Some have m: "map_of (trie_subs t) c = Some t'" by simp
      from "1.IH" [OF False f [symmetric] Some refl] False m k f Some show ?thesis
        by (simp add: trie_lookup_predictive_all.simps [of t key])
    qed
  qed
qed

lemma trie_node_append:
  "trie_node t (p @ q) = Option.bind (trie_node t p) (\<lambda>t'. trie_node t' q)"
  by (induction t p rule: trie_node.induct) (auto simp: bind_assoc split: Option.bind_split)

lemma trie_map_append:
  "trie_map t (p @ q) = Option.bind (trie_node t p) (\<lambda>t'. trie_map t' q)"
  by (simp add: trie_map_def trie_node_append)

lemma wf_trie_node: "wf_trie t \<Longrightarrow> trie_node t p = Some t' \<Longrightarrow> wf_trie t'"
  by (induction t p rule: trie_node.induct)
    (auto simp: bind_eq_Some_conv dest: wf_trie_sub)

section \<open>Deletion\<close>

lemma delete_entry_True: "delete_entry t key = (True, t') \<Longrightarrow> trie_subs t' = []"
  by (subst (asm) delete_entry.simps) (auto split: if_splits prod.splits option.splits bool.splits simp: Let_def)

lemma trie_map_no_subs: "trie_subs t = [] \<Longrightarrow> p \<noteq> [] \<Longrightarrow> trie_map t p = None"
  by (cases p) simp_all

lemma trie_map_delete:
  assumes "key \<noteq> []"
    and "\<And>q. q \<noteq> [] \<Longrightarrow> strict_prefix q (key_path key) \<Longrightarrow> trie_map t q = None"
  shows "trie_map (snd (delete_entry t key)) = (trie_map t)(key_path key := None)"
  using assms
proof (induction "length key" arbitrary: t key rule: less_induct)
  case less
  obtain sub c rest where f: "find_sub_trie t key = (sub, c, rest)" by (cases "find_sub_trie t key")
  note k = key_path_step [OF less.prems(1) f]
  show ?case
  proof (cases sub)
    case None
    with less.prems(1) f k show ?thesis
      by (auto simp: delete_entry.simps [of t key] fun_eq_iff)
  next
    case (Some t')
    with k have m: "map_of (trie_subs t) c = Some t'" by simp
    obtain b t2 where d: "delete_entry t' rest = (b, t2)" by (cases "delete_entry t' rest")
    have data: "rest \<noteq> [] \<Longrightarrow> trie_data t' = None"
      using less.prems(2) [of "[c]"] k m key_path_eq_Nil [of rest]
      by (cases "key_path rest") (auto simp: strict_prefix_def simp del: key_path_eq_Nil)
    have IH: "trie_map t2 = (trie_map t')(key_path rest := None)" if "rest \<noteq> []"
    proof -
      have "trie_map t' q = None" if "q \<noteq> []" "strict_prefix q (key_path rest)" for q
        using less.prems(2) [of "c # q"] k m that by simp
      from less.hyps [OF find_sub_trie_shorter [OF f less.prems(1)] that this] d show ?thesis by simp
    qed
    have sub2: "(if b then None else trie_map t2 q) = (if q = key_path rest then None else trie_map t' q)" for q
    proof (cases "rest = []")
      case True
      with d show ?thesis
        by (cases q) (auto simp: delete_entry.simps [of t' "[]"] split: if_splits)
    next
      case False
      show ?thesis
      proof (cases b)
        case True
        with d have "trie_subs t2 = []" by (simp add: delete_entry_True)
        then have "q \<noteq> [] \<Longrightarrow> trie_map t2 q = None" by (rule trie_map_no_subs)
        with IH [OF False] data [OF False] True show ?thesis
          by (cases q) (auto simp: fun_eq_iff split: if_splits)
      qed (use IH [OF False] in simp)
    qed
    have eq: "snd (delete_entry t key) =
        Trie (trie_data t) (if b then AList.delete c (trie_subs t) else AList.update c t2 (trie_subs t))"
      using f Some d less.prems(1) by (cases b) (simp_all add: delete_entry.simps [of t key] Let_def)
    show ?thesis
    proof
      fix p
      show "trie_map (snd (delete_entry t key)) p = ((trie_map t)(key_path key := None)) p"
      proof (cases p)
        case Nil
        with k eq show ?thesis by simp
      next
        case (Cons a q)
        with k eq m sub2 [of q] show ?thesis
          by (cases b; cases "a = c") (simp_all add: delete_conv update_conv split: if_splits)
      qed
    qed
  qed
qed

text \<open>Whatever \<open>DeleteEntry\<close> drops, it adds nothing, and the key itself is gone.\<close>

lemma trie_map_delete_le:
  assumes "trie_map (snd (delete_entry t key)) p = Some e"
  shows "trie_map t p = Some e \<and> (key \<noteq> [] \<longrightarrow> p \<noteq> key_path key)"
  using assms
proof (induction "length key" arbitrary: t key p rule: less_induct)
  case less
  show ?case
  proof (cases "key = []")
    case True
    with less.prems show ?thesis
      by (cases p) (auto simp: delete_entry.simps [of t "[]"] split: if_splits)
  next
    case False
    obtain sub c rest where f: "find_sub_trie t key = (sub, c, rest)" by (cases "find_sub_trie t key")
    note k = key_path_step [OF False f]
    show ?thesis
    proof (cases sub)
      case None
      with less.prems False f k show ?thesis by (auto simp: delete_entry.simps [of t key])
    next
      case (Some t')
      obtain b t2 where d: "delete_entry t' rest = (b, t2)" by (cases "delete_entry t' rest")
      have eq: "snd (delete_entry t key) =
          Trie (trie_data t) (if b then AList.delete c (trie_subs t) else AList.update c t2 (trie_subs t))"
        using f Some d False by (cases b) (simp_all add: delete_entry.simps [of t key] Let_def)
      show ?thesis
      proof (cases p)
        case Nil
        with less.prems eq k show ?thesis by simp
      next
        case (Cons a q)
        show ?thesis
        proof (cases "a = c \<and> \<not> b")
          case True
          with less.prems eq Cons have q: "trie_map t2 q = Some e" by (simp add: update_conv)
          with less.hyps [OF find_sub_trie_shorter [OF f False], of t' q] d
          have IH: "trie_map t' q = Some e" "rest \<noteq> [] \<longrightarrow> q \<noteq> key_path rest" by simp_all
          have "q \<noteq> []" if "rest = []"
            using that d q True by (auto simp: delete_entry.simps [of t' "[]"] split: if_splits)
          from k Some have "map_of (trie_subs t) c = Some t'" by simp
          with IH \<open>rest = [] \<Longrightarrow> q \<noteq> []\<close> k Cons True show ?thesis by auto
        next
          case False
          with less.prems eq Cons k show ?thesis
            by (auto simp: delete_conv update_conv split: if_splits)
        qed
      qed
    qed
  qed
qed

lemma wf_trie_delete [inv_intros]: "wf_trie t \<Longrightarrow> wf_trie (snd (delete_entry t key))"
proof (induction "length key" arbitrary: t key rule: less_induct)
  case less
  show ?case
  proof (cases "key = []")
    case True
    with less.prems show ?thesis by (simp add: delete_entry.simps [of t "[]"] wf_trie_data del: wf_trie.simps)
  next
    case False
    obtain sub c rest where f: "find_sub_trie t key = (sub, c, rest)" by (cases "find_sub_trie t key")
    note k = key_path_step [OF False f]
    show ?thesis
    proof (cases sub)
      case None
      with less.prems False f show ?thesis by (simp add: delete_entry.simps [of t key])
    next
      case (Some t')
      obtain b t2 where d: "delete_entry t' rest = (b, t2)" by (cases "delete_entry t' rest")
      have "wf_trie t'" using k Some less.prems wf_trie_sub by metis
      then have t2: "wf_trie t2"
        using less.hyps [OF find_sub_trie_shorter [OF f False], of t'] d by simp
      have del: "wf_trie (Trie x (AList.delete c (trie_subs t)))" for x
        using less.prems distinct_delete [of "trie_subs t" c]
        by (auto simp: wf_trie_iff [of t] list_all_iff AList.delete_eq)
      have eq: "snd (delete_entry t key) =
          Trie (trie_data t) (if b then AList.delete c (trie_subs t) else AList.update c t2 (trie_subs t))"
        using f Some d False by (cases b) (simp_all add: delete_entry.simps [of t key] Let_def)
      with del wf_trie_update [OF less.prems t2] show ?thesis by simp
    qed
  qed
qed

lemma key_path_text:
  "\<forall>c \<in> set cs. c < 0x80000000 \<Longrightarrow> key_path (utf8_text cs @ s) = cs @ key_path s"
  by (induction cs) (simp_all add: key_path.simps [of "utf8_spec _ @ _"] split_first_spec)

lemma key_bytes_text:
  "\<forall>c \<in> set cs. c < 0x80000000 \<Longrightarrow>
     key_bytes (utf8_text cs @ s) (length cs + n) = length (utf8_text cs) + key_bytes s n"
  by (induction cs) (simp_all add: split_first_spec)

lemma key_bytes_pos: "s \<noteq> [] \<Longrightarrow> 0 < n \<Longrightarrow> 0 < key_bytes s n"
  by (cases n) (auto split: prod.splits dest!: split_first_shorter)

section \<open>Properties\<close>

definition sample_trie :: "nat trie" where
  "sample_trie = add_entry (add_entry empty_trie ''a'' 1) ''abc'' 2"

text \<open>
  C26: a trie is a partial function on code-point paths.  After \<open>AddEntry\<close>, \<open>LookUp\<close> of a key
  returns the new data exactly when the two keys walk the same path, and its old result otherwise.
\<close>

theorem trie_lookup_after_add:
  "trie_lookup (add_entry t key data) key' =
     (if key_path key' = key_path key then Some data else trie_lookup t key')"
  by (simp add: trie_lookup_map trie_map_add)

text \<open>
  \<open>LookUpPrefix\<close> follows the longest path of the trie that starts the key, and only there
  asks for data: \<open>n\<close> edges exist and one more does not; the data is that node's, the reported
  length is what these edges take of the key, and \<open>fixed\<close> says that no longer key could match.
\<close>

theorem trie_lookup_prefix_deepest:
  assumes "trie_lookup_prefix t key = (found, key_length, fixed)"
  shows "\<exists>n t'. n \<le> length (key_path key) \<and> trie_node t (take n (key_path key)) = Some t' \<and>
    (n = length (key_path key) \<or> trie_node t (take (Suc n) (key_path key)) = None) \<and>
    found = trie_map t (take n (key_path key)) \<and>
    key_length = key_bytes key n \<and> key_length \<le> length key \<and>
    (fixed = (found = None \<or> trie_subs t' = []))"
proof -
  obtain n t' where w: "walk t (key_path key) = (n, t')" by (cases "walk t (key_path key)")
  from walk_node [OF w] have n: "n \<le> length (key_path key)" "trie_node t (take n (key_path key)) = Some t'"
    by simp_all
  moreover have "n = length (key_path key) \<or> trie_node t (take (Suc n) (key_path key)) = None"
    using walk_stops [OF w, of "Suc n"] n by (cases "n = length (key_path key)") auto
  ultimately show ?thesis
    using assms w by (auto simp: trie_lookup_prefix_walk trie_map_def key_bytes_le)
qed

theorem trie_lookup_prefix_deepest_witness:
  "\<exists>n t'. n \<le> length (key_path ''abe'') \<and> trie_node sample_trie (take n (key_path ''abe'')) = Some t' \<and>
    (n = length (key_path ''abe'') \<or> trie_node sample_trie (take (Suc n) (key_path ''abe'')) = None) \<and>
    None = trie_map sample_trie (take n (key_path ''abe'')) \<and>
    2 = key_bytes ''abe'' n \<and> 2 \<le> length ''abe'' \<and>
    (True = (None = (None :: nat option) \<or> trie_subs t' = []))"
  by (rule trie_lookup_prefix_deepest) code_simp

text \<open>
  \<open>LongestMatch\<close> returns the data of the longest key prefix that has any, with the bytes
  this prefix takes; without such a prefix it fails with length 0.
\<close>

theorem trie_longest_match_spec:
  "case trie_longest_match t key of
     (Some d, key_length) \<Rightarrow>
       (\<exists>n. n \<le> length (key_path key) \<and> key_length = key_bytes key n \<and>
          trie_map t (take n (key_path key)) = Some d \<and>
          (\<nexists>m. n < m \<and> m \<le> length (key_path key) \<and> trie_map t (take m (key_path key)) \<noteq> None))
   | (None, key_length) \<Rightarrow>
       key_length = 0 \<and> (\<forall>m. trie_map t (take m (key_path key)) = None)"
proof (cases "longest_data t (key_path key)")
  case None
  with longest_data_None [OF None] show ?thesis by (simp add: trie_longest_match_data)
next
  case (Some nd)
  obtain n d where "nd = (n, d)" by (cases nd)
  with Some longest_data_Some [of t "key_path key" n d] show ?thesis
    by (auto simp: trie_longest_match_data)
qed

text \<open>
  C27: \<open>LookUpPredictiveAll\<close> returns the data of exactly the entries whose path extends the path
  of the key, for every trie that \<open>AddEntry\<close> builds (one child per code point).
\<close>

theorem trie_predictive_all_spec:
  assumes "wf_trie t"
  shows "set (trie_lookup_predictive_all t key) = {d. \<exists>p. trie_map t (key_path key @ p) = Some d} \<and>
    wf_trie (add_entry t key' data)"
proof (cases "trie_node t (key_path key)")
  case (Some t')
  with wf_trie_node [OF assms Some] wf_trie_add [OF assms] show ?thesis
    by (simp add: trie_predictive_node trie_map_append trie_all_data_set)
qed (simp add: trie_predictive_node trie_map_append wf_trie_add assms)

theorem trie_predictive_all_spec_witness:
  "set (trie_lookup_predictive_all sample_trie ''a'') = {d. \<exists>p. trie_map sample_trie (key_path ''a'' @ p) = Some d} \<and>
    wf_trie (add_entry sample_trie ''b'' 3)"
  by (rule trie_predictive_all_spec) code_simp

text \<open>
  C28: \<open>DeleteEntry\<close> removes the entry of the key and nothing else, provided no proper non-empty
  prefix of the key's path holds data.
\<close>

theorem trie_delete_exact:
  assumes "key \<noteq> []"
    and "\<forall>q. q \<noteq> [] \<longrightarrow> strict_prefix q (key_path key) \<longrightarrow> trie_map t q = None"
  shows "trie_lookup (snd (delete_entry t key)) key' =
    (if key_path key' = key_path key then None else trie_lookup t key')"
  using assms by (simp add: trie_lookup_map trie_map_delete)

theorem trie_delete_exact_witness:
  "trie_lookup (snd (delete_entry (add_entry empty_trie ''b'' (1::nat)) ''b'')) ''c'' =
    (if key_path ''c'' = key_path ''b'' then None else trie_lookup (add_entry empty_trie ''b'' (1::nat)) ''c'')"
proof (rule trie_delete_exact)
  have kp: "key_path ''b'' = [98]" by code_simp
  show "\<forall>q. q \<noteq> [] \<longrightarrow> strict_prefix q (key_path ''b'') \<longrightarrow>
      trie_map (add_entry empty_trie ''b'' (1::nat)) q = None"
    by (auto simp: kp strict_prefix_def prefix_Cons)
qed simp

text \<open>
  Without that proviso \<open>DeleteEntry\<close> loses data: it reports an emptied subtrie as removable
  even where the node holds data of its own, so deleting "ab" also deletes the entry of "a".
\<close>

theorem trie_delete_loses_prefix_entry:
  "trie_lookup (add_entry (add_entry empty_trie ''a'' (1::nat)) ''ab'' 2) ''a'' = Some 1 \<and>
   trie_lookup (snd (delete_entry (add_entry (add_entry empty_trie ''a'' (1::nat)) ''ab'' 2) ''ab'')) ''a'' = None"
  by code_simp

end
