(* ===== verification/Special_Key.thy ===== *)
theory Special_Key
  imports Key_Trie
begin

text \<open>
  Special keys of the romaji tables (\<open>composer/special_key.cc\<close>): \<open>{name}\<close> in a rule is
  replaced by a private-use character registered in a map, or, where a name is not registered,
  by the name between the bytes 0x0F and 0x0E.  The map is an association list; its length is
  the size of the hash map.
\<close>

section \<open>Blocks\<close>

definition kSpecialKeyBegin :: char32 where "kSpecialKeyBegin = 0xF000"
definition kSpecialKeyEnd :: char32 where "kSpecialKeyEnd = 0xF8FF"
definition kSpecialKeyOpen :: bytes where "kSpecialKeyOpen = [chr_of 0x0F]"
definition kSpecialKeyClose :: bytes where "kSpecialKeyClose = [chr_of 0x0E]"

definition is_special_key :: "char32 \<Rightarrow> bool" where
  "is_special_key c \<longleftrightarrow> kSpecialKeyBegin \<le> c \<and> c \<le> kSpecialKeyEnd"

definition find_block :: "bytes \<Rightarrow> bytes \<Rightarrow> bytes \<Rightarrow> (nat \<times> nat) option" where
  "find_block input open_s close_s =
     (case find_from input open_s 0 of
        None \<Rightarrow> None
      | Some open_pos \<Rightarrow>
          (case find_from input close_s open_pos of
             None \<Rightarrow> None
           | Some close_pos \<Rightarrow> Some (open_pos, close_pos)))"

lemma find_block_bounds:
  assumes "find_block input open_s close_s = Some (o_pos, c_pos)"
  shows "o_pos \<le> c_pos" and "o_pos + length open_s \<le> length input"
    and "c_pos + length close_s \<le> length input"
  using assms find_from_Some [of input open_s 0 o_pos] find_from_Some [of input close_s o_pos c_pos]
  by (auto simp: find_block_def split: option.splits)

text \<open>
  \<open>ParseBlock\<close>.  The callback may update the state it captures, which is passed along.
  \<open>ClippedSubstr\<close> past the end is empty, as \<open>drop\<close> is.
\<close>

definition block_key :: "bytes \<Rightarrow> nat \<Rightarrow> nat \<Rightarrow> bytes" where
  "block_key input open_pos close_pos = take (close_pos - open_pos - 1) (drop (open_pos + 1) input)"

definition block_text :: "('s \<Rightarrow> bytes \<Rightarrow> bytes \<times> 's) \<Rightarrow> 's \<Rightarrow> bytes \<Rightarrow> bytes \<times> 's" where
  "block_text callback st key = (if key = ''{'' then (''{'', st) else callback st key)"

function parse_block :: "('s \<Rightarrow> bytes \<Rightarrow> bytes \<times> 's) \<Rightarrow> 's \<Rightarrow> bytes \<Rightarrow> bytes \<times> 's" where
  "parse_block callback st input =
     (if input = [] then ([], st)
      else case find_block input ''{'' ''}'' of
        None \<Rightarrow> (input, st)
      | Some (open_pos, close_pos) \<Rightarrow>
          let (text, st') = block_text callback st (block_key input open_pos close_pos);
              (output, st'') = parse_block callback st' (drop (close_pos + 1) input)
          in (take open_pos input @ text @ output, st''))"
  by pat_completeness auto
termination
  by (relation "measure (\<lambda>(callback, st, input). length input)") auto

declare parse_block.simps [simp del]

lemma parse_block_step:
  assumes "input \<noteq> []" and "find_block input ''{'' ''}'' = Some (op, cp)"
    and "block_text cb st (block_key input op cp) = (t, st')"
    and "parse_block cb st' (drop (cp + 1) input) = (out, st'')"
  shows "parse_block cb st input = (take op input @ t @ out, st'')"
  using assms by (simp add: parse_block.simps [of cb st input])

lemma parse_block_stop:
  "input = [] \<or> find_block input ''{'' ''}'' = None \<Longrightarrow> parse_block cb st input = (input, st)"
  by (auto simp: parse_block.simps [of cb st input])

text \<open>Induction along the blocks of an input.\<close>

lemma block_induct [case_names stop step]:
  assumes "\<And>input. input = [] \<or> find_block input ''{'' ''}'' = None \<Longrightarrow> P input"
    and "\<And>input op cp. input \<noteq> [] \<Longrightarrow> find_block input ''{'' ''}'' = Some (op, cp) \<Longrightarrow>
      P (drop (cp + 1) input) \<Longrightarrow> P input"
  shows "P input"
proof (induction "length input" arbitrary: input rule: less_induct)
  case less
  show ?case
  proof (cases "input = [] \<or> find_block input ''{'' ''}'' = None")
    case False
    then obtain op cp where fb: "input \<noteq> []" "find_block input ''{'' ''}'' = Some (op, cp)" by auto
    have "length (drop (cp + 1) input) < length input" using fb(1) by simp
    from assms(2) [OF fb less [OF this]] show ?thesis .
  qed (rule assms(1))
qed

section \<open>The map of special keys\<close>

type_synonym special_key_map = "(bytes \<times> bytes) list"

definition special_key_code :: "special_key_map \<Rightarrow> char32" where
  "special_key_code m =
     (let keycode = kSpecialKeyBegin + length m in
      if kSpecialKeyEnd < keycode then kSpecialKeyEnd else keycode)"

definition register_key :: "special_key_map \<Rightarrow> bytes \<Rightarrow> bytes \<times> special_key_map" where
  "register_key m key =
     (case map_of m key of
        Some special_key \<Rightarrow> (special_key, m)
      | None \<Rightarrow>
          let special_key = codepoint_to_utf8 (special_key_code m)
          in (special_key, m @ [(key, special_key)]))"

definition special_key_register :: "special_key_map \<Rightarrow> bytes \<Rightarrow> bytes \<times> special_key_map" where
  "special_key_register m input = parse_block register_key m input"

definition parse_key :: "special_key_map \<Rightarrow> bytes \<Rightarrow> bytes" where
  "parse_key m key =
     (case map_of m key of
        Some special_key \<Rightarrow> special_key
      | None \<Rightarrow> kSpecialKeyOpen @ key @ kSpecialKeyClose)"

definition special_key_parse :: "special_key_map \<Rightarrow> bytes \<Rightarrow> bytes" where
  "special_key_parse m input = fst (parse_block (\<lambda>_ key. (parse_key m key, ())) () input)"

section \<open>Trimming and deleting\<close>

definition trim_leading_special_key :: "bytes \<Rightarrow> bytes" where
  "trim_leading_special_key input =
     (case split_first_char32 input of (_, first_char, rest) \<Rightarrow>
        if is_special_key first_char then drop (length input - length rest) input
        else if \<not> prefix kSpecialKeyOpen input then input
        else case find_from input kSpecialKeyClose 1 of
          None \<Rightarrow> input
        | Some close_pos \<Rightarrow> drop (close_pos + 1) input)"

function delete_blocks :: "bytes \<Rightarrow> bytes" where
  "delete_blocks input =
     (if input = [] then []
      else case find_block input kSpecialKeyOpen kSpecialKeyClose of
        None \<Rightarrow> input
      | Some (open_pos, close_pos) \<Rightarrow>
          take open_pos input @ delete_blocks (drop (close_pos + 1) input))"
  by pat_completeness auto
termination
  by (relation "measure length") auto

declare delete_blocks.simps [simp del]

definition delete_special_keys :: "bytes \<Rightarrow> bytes" where
  "delete_special_keys input =
     (let output = delete_blocks input; codepoints = utf8_to_utf32 output;
          kept = List.filter (\<lambda>c. \<not> is_special_key c) codepoints in
      if length kept = length codepoints then output else utf32_to_utf8 kept)"

lemma trim_leading_suffix: "suffix (trim_leading_special_key input) input"
  by (auto simp: trim_leading_special_key_def suffix_drop split: prod.splits option.splits)

lemma trim_leading_length [len_facts]:
  "length (trim_leading_special_key input) \<le> length input"
  using trim_leading_suffix suffix_length_le by blast

section \<open>Rendered rules\<close>

text \<open>
  What a rule text means: literal text without an opening brace, names in braces, and the
  escape \<open>{{}\<close> of the opening brace itself.
\<close>

datatype piece = Lit bytes | Key bytes | Brace

fun render :: "piece list \<Rightarrow> bytes" where
  "render [] = []"
| "render (Lit s # ps) = s @ render ps"
| "render (Key k # ps) = ''{'' @ k @ ''}'' @ render ps"
| "render (Brace # ps) = ''{{}'' @ render ps"

fun proper_piece :: "piece \<Rightarrow> bool" where
  "proper_piece (Lit s) = (CHR ''{'' \<notin> set s)"
| "proper_piece (Key k) = (CHR ''}'' \<notin> set k \<and> k \<noteq> ''{'')"
| "proper_piece Brace = True"

fun process :: "('s \<Rightarrow> bytes \<Rightarrow> bytes \<times> 's) \<Rightarrow> 's \<Rightarrow> piece list \<Rightarrow> bytes \<times> 's" where
  "process cb st [] = ([], st)"
| "process cb st (Lit s # ps) = map_prod ((@) s) id (process cb st ps)"
| "process cb st (Key k # ps) =
     (case cb st k of (t, st') \<Rightarrow> map_prod ((@) t) id (process cb st' ps))"
| "process cb st (Brace # ps) = map_prod ((@) ''{'') id (process cb st ps)"

lemma map_prod_append_Nil [simp]: "map_prod ((@) []) id p = p" "map_prod ((@) []) (\<lambda>x. x) p = p"
  by (cases p; simp)+

lemma find_sub_single:
  "find_sub [c] s = (if c \<in> set s then Some (length (takeWhile ((\<noteq>) c) s)) else None)"
  by (induction s) auto

lemma find_from_single_at:
  "c \<notin> set s \<Longrightarrow> from \<le> length p \<Longrightarrow> c \<notin> set (drop from p) \<Longrightarrow>
     find_from (p @ s @ c # u) [c] from = Some (length p + length s)"
proof -
  assume c: "c \<notin> set s" "c \<notin> set (drop from p)" and le: "from \<le> length p"
  have "takeWhile ((\<noteq>) c) (drop from p @ s @ c # u) = drop from p @ s"
    using c by (subst append_assoc [symmetric], subst takeWhile_append2) auto
  with le show ?thesis by (simp add: find_from_def find_sub_single)
qed

lemma find_block_at:
  assumes "o_c \<notin> set s" and "c_c \<notin> set k" and "o_c \<noteq> c_c"
  shows "find_block (s @ o_c # k @ c_c # u) [o_c] [c_c] =
    Some (length s, Suc (length s + length k))"
proof -
  have 1: "find_from (s @ o_c # k @ c_c # u) [o_c] 0 = Some (length s)"
    using find_from_single_at [of o_c s 0 "[]" "k @ c_c # u"] assms by simp
  have 2: "find_from (s @ o_c # k @ c_c # u) [c_c] (length s) = Some (length (s @ [o_c]) + length k)"
    using find_from_single_at [of c_c k "length s" "s @ [o_c]" u] assms by simp
  from 1 2 show ?thesis by (simp add: find_block_def)
qed

lemma find_block_none: "o_c \<notin> set s \<Longrightarrow> find_block s [o_c] cl = None"
  by (simp add: find_block_def find_from_def find_sub_single)

lemma parse_block_key:
  assumes "CHR ''{'' \<notin> set s" and "CHR ''}'' \<notin> set k" and "block_text cb st k = (t, st')"
  shows "parse_block cb st (s @ ''{'' @ k @ ''}'' @ u) = map_prod (\<lambda>out. s @ t @ out) id (parse_block cb st' u)"
proof -
  have fb: "find_block (s @ ''{'' @ k @ ''}'' @ u) ''{'' ''}'' = Some (length s, Suc (length s + length k))"
    using find_block_at [OF assms(1,2)] by simp
  have key: "block_key (s @ ''{'' @ k @ ''}'' @ u) (length s) (Suc (length s + length k)) = k"
    by (simp add: block_key_def)
  obtain out st'' where r: "parse_block cb st' u = (out, st'')" by (cases "parse_block cb st' u")
  have d: "drop (Suc (length s + length k) + 1) (s @ ''{'' @ k @ ''}'' @ u) = u" by simp
  show ?thesis
    by (subst parse_block_step [OF _ fb, unfolded key d, OF _ assms(3) r]) (simp_all add: r)
qed

lemma parse_block_lit: "CHR ''{'' \<notin> set s \<Longrightarrow> parse_block cb st s = (s, st)"
  by (simp add: parse_block.simps [of cb st s] find_block_none)

lemma parse_block_render_lit:
  assumes "list_all proper_piece ps" and "CHR ''{'' \<notin> set s"
  shows "parse_block cb st (s @ render ps) = map_prod ((@) s) id (process cb st ps)"
  using assms
proof (induction ps arbitrary: s st)
  case Nil
  then show ?case by (simp add: parse_block_lit)
next
  case (Cons p ps)
  show ?case
  proof (cases p)
    case (Lit l)
    with Cons.IH [of "s @ l" st] Cons.prems show ?thesis
      by (simp add: prod.map_comp comp_def)
  next
    case (Key k)
    obtain t st' where cb: "cb st k = (t, st')" by (cases "cb st k")
    from Key Cons.prems have k: "CHR ''}'' \<notin> set k" "k \<noteq> ''{''" by simp_all
    from Cons.IH [of "[]" st'] Cons.prems have IH: "parse_block cb st' (render ps) = process cb st' ps"
      by (simp add: prod.map_comp comp_def)
    from k cb have "block_text cb st k = (t, st')" by (simp add: block_text_def)
    from parse_block_key [OF Cons.prems(2) k(1) this, of "render ps"] Key cb IH show ?thesis
      by (simp add: prod.map_comp comp_def id_def)
  next
    case Brace
    from Cons.IH [of "[]" st] Cons.prems have IH: "parse_block cb st (render ps) = process cb st ps"
      by (simp add: prod.map_comp comp_def)
    have "block_text cb st ''{'' = (''{'', st)" by (simp add: block_text_def)
    from parse_block_key [OF Cons.prems(2) _ this, of "render ps"] Brace IH show ?thesis
      by (simp add: prod.map_comp comp_def id_def)
  qed
qed

lemma parse_block_render:
  "list_all proper_piece ps \<Longrightarrow> parse_block cb st (render ps) = process cb st ps"
  using parse_block_render_lit [of ps "[]" cb st] by (simp add: prod.map_comp comp_def)

section \<open>The map stays consistent\<close>

text \<open>The states a map goes through by \<open>Register\<close> only grow, and keep every entry.\<close>

definition map_extends :: "special_key_map \<Rightarrow> special_key_map \<Rightarrow> bool" where
  "map_extends m m' \<longleftrightarrow> map_of m \<subseteq>\<^sub>m map_of m'"

lemma map_extends_refl [simp]: "map_extends m m"
  by (simp add: map_extends_def)

lemma map_extends_trans: "map_extends m m' \<Longrightarrow> map_extends m' m'' \<Longrightarrow> map_extends m m''"
  unfolding map_extends_def by (rule map_le_trans)

lemma map_of_append_new: "map_of m k = None \<Longrightarrow> map_of (m @ [(k, v)]) = (map_of m)(k \<mapsto> v)"
  by (auto simp: fun_eq_iff map_add_def split: option.splits)

lemma register_key_extends: "register_key m key = (t, m') \<Longrightarrow> map_extends m m' \<and> map_of m' key = Some t"
  by (auto simp: register_key_def map_extends_def map_of_append_new map_le_def Let_def
      simp del: map_of_append split: option.splits)

text \<open>
  The invariant: the entries are numbered from \<open>kSpecialKeyBegin\<close> in the order they were
  registered (the last code is shared by the entries that do not fit), one entry per name.
\<close>

definition special_key_value :: "nat \<Rightarrow> bytes" where
  "special_key_value n = codepoint_to_utf8 (min (kSpecialKeyBegin + n) kSpecialKeyEnd)"

definition special_map_ok :: "special_key_map \<Rightarrow> bool" where
  "special_map_ok m \<longleftrightarrow> distinct (map fst m) \<and> map snd m = map special_key_value [0..<length m]"

lemma special_map_ok_Nil [simp]: "special_map_ok []"
  by (simp add: special_map_ok_def)

lemma register_key_ok [inv_intros]:
  "special_map_ok m \<Longrightarrow> register_key m key = (t, m') \<Longrightarrow> special_map_ok m'"
  by (auto simp: register_key_def special_map_ok_def special_key_value_def special_key_code_def
      map_of_eq_None_iff min_def Let_def split: option.splits if_splits)

lemma parse_block_invariant:
  assumes step: "\<And>st k t st'. P st \<Longrightarrow> cb st k = (t, st') \<Longrightarrow> P st'" and "P st"
  shows "P (snd (parse_block cb st input))"
  using assms(2)
proof (induction input arbitrary: st rule: block_induct)
  case (stop input)
  then show ?case by (simp add: parse_block_stop)
next
  case (step input op cp)
  obtain t st' where t: "block_text cb st (block_key input op cp) = (t, st')"
    by (cases "block_text cb st (block_key input op cp)")
  with step.prems assms(1) have "P st'" by (auto simp: block_text_def split: if_splits)
  from step.IH [OF this] show ?case
    by (cases "parse_block cb st' (drop (cp + 1) input)")
      (simp add: parse_block_step [OF step.hyps t])
qed

lemma register_ok [inv_intros]:
  "special_map_ok m \<Longrightarrow> special_map_ok (snd (special_key_register m input))"
  unfolding special_key_register_def
  by (rule parse_block_invariant) (auto intro: register_key_ok)

lemma register_extends: "map_extends m (snd (special_key_register m input))"
  unfolding special_key_register_def
  by (rule parse_block_invariant [where P = "map_extends m"])
    (auto dest: register_key_extends intro: map_extends_trans)

lemma parse_key_known: "map_of m key = Some t \<Longrightarrow> parse_key m key = t"
  by (simp add: parse_key_def)

lemma register_then_parse:
  assumes "parse_block register_key m input = (out, m')" and "map_extends m' m''"
  shows "parse_block (\<lambda>_ key. (parse_key m'' key, ())) () input = (out, ())"
  using assms
proof (induction input arbitrary: m out rule: block_induct)
  case (stop input)
  then show ?case by (simp add: parse_block_stop)
next
  case (step input op cp)
  let ?key = "block_key input op cp"
  obtain t m1 where t: "block_text register_key m ?key = (t, m1)"
    by (cases "block_text register_key m ?key")
  obtain out2 m2 where r: "parse_block register_key m1 (drop (cp + 1) input) = (out2, m2)"
    by (cases "parse_block register_key m1 (drop (cp + 1) input)")
  from parse_block_step [OF step.hyps t r] step.prems(1)
  have out: "out = take op input @ t @ out2" and m2: "m2 = m'" by simp_all
  from step.IH [OF r [unfolded m2] step.prems(2)]
  have IH: "parse_block (\<lambda>_ key. (parse_key m'' key, ())) () (drop (cp + 1) input) = (out2, ())" .
  have "map_extends m1 m'"
    using register_extends [of m1 "drop (cp + 1) input"] r m2 by (simp add: special_key_register_def)
  then have ext: "map_extends m1 m''" using step.prems(2) by (rule map_extends_trans)
  have "block_text (\<lambda>_ key. (parse_key m'' key, ())) () ?key = (t, ())"
  proof (cases "?key = ''{''")
    case False
    with t have "map_of m1 ?key = Some t" by (auto simp: block_text_def dest: register_key_extends)
    then have "map_of m'' ?key = Some t" using ext by (auto simp: map_extends_def map_le_def dom_def)
    with False show ?thesis by (simp add: parse_key_known block_text_def)
  qed (use t in \<open>simp add: block_text_def\<close>)
  from parse_block_step [OF step.hyps this IH] out show ?case by simp
qed

section \<open>Deleting what was registered\<close>

lemma chr_special: "chr_of 0x0F = CHR 0x0F" "chr_of 0x0E = CHR 0x0E"
  by code_simp+

lemma delete_blocks_block:
  assumes "CHR 0x0F \<notin> set s" and "CHR 0x0E \<notin> set k"
  shows "delete_blocks (s @ kSpecialKeyOpen @ k @ kSpecialKeyClose @ u) = s @ delete_blocks u"
  using find_block_at [OF assms, of u]
  by (subst delete_blocks.simps) (simp add: kSpecialKeyOpen_def kSpecialKeyClose_def chr_special)

lemma delete_blocks_plain: "CHR 0x0F \<notin> set s \<Longrightarrow> delete_blocks s = s"
  by (simp add: delete_blocks.simps [of s] find_block_none kSpecialKeyOpen_def chr_special)

text \<open>What is written for the pieces of a rule, by \<open>Register\<close> or \<open>Parse\<close>.\<close>

datatype glyph = Plain "char32 list" | Pua char32 | Fallback bytes

fun glyph_bytes :: "glyph \<Rightarrow> bytes" where
  "glyph_bytes (Plain cs) = utf8_text cs"
| "glyph_bytes (Pua c) = utf8_spec c"
| "glyph_bytes (Fallback k) = kSpecialKeyOpen @ k @ kSpecialKeyClose"

fun proper_glyph :: "glyph \<Rightarrow> bool" where
  "proper_glyph (Plain cs) \<longleftrightarrow> (\<forall>c \<in> set cs. encodable c \<and> \<not> is_special_key c \<and> c \<noteq> 0x0F)"
| "proper_glyph (Pua c) \<longleftrightarrow> is_special_key c"
| "proper_glyph (Fallback k) \<longleftrightarrow> CHR 0x0E \<notin> set k"

fun glyph_text :: "glyph \<Rightarrow> char32 list" where
  "glyph_text (Plain cs) = cs"
| "glyph_text g = []"

fun visible :: "glyph \<Rightarrow> char32 list" where
  "visible (Plain cs) = cs"
| "visible (Pua c) = [c]"
| "visible (Fallback k) = []"

lemma utf8_spec_low:
  assumes "CHR 0x0F \<in> set (utf8_spec c)" and "c < 0x80000000"
  shows "c = 0x0F"
proof (cases "c < 0x80")
  case True
  with assms(1) have "chr_of c = (CHR 0x0F :: char)" by (simp add: utf8_spec_def)
  then have "ord_of (chr_of c) = ord_of (CHR 0x0F)" by simp
  with True show ?thesis by (simp add: of_char_of)
next
  case False
  have tr: "CHR 0x0F \<notin> set (trail n c)" for n
    using trail_all_trailing [of n c] by (auto simp: is_trailing_byte_iff)
  have lead: "chr_of x \<noteq> (CHR 0x0F :: char)" if "0x80 \<le> x" "x < 0x100" for x
  proof
    assume "chr_of x = (CHR 0x0F :: char)"
    then have "ord_of (chr_of x) = ord_of (CHR 0x0F)" by simp
    with that show False by (simp add: of_char_of)
  qed
  have d: "c < 0x800 \<Longrightarrow> c div 64 < 0x20" "c < 0x10000 \<Longrightarrow> c div 4096 < 0x10"
    "c < 0x200000 \<Longrightarrow> c div 262144 < 8" "c < 0x4000000 \<Longrightarrow> c div 16777216 < 4"
    "c < 0x80000000 \<Longrightarrow> c div 1073741824 < 2" by simp_all
  show ?thesis
    using assms False d tr by (auto simp: utf8_spec_def lead split: if_splits dest!: sym [of "CHR 0x0F"])
qed

lemma special_range: "is_special_key c \<longleftrightarrow> 0xF000 \<le> c \<and> c \<le> 0xF8FF"
  by (simp add: is_special_key_def kSpecialKeyBegin_def kSpecialKeyEnd_def)

lemma special_encodable: "is_special_key c \<Longrightarrow> encodable c \<and> c \<noteq> 0x0F"
  by (auto simp: special_range encodable_def)

lemma visible_ok:
  "proper_glyph g \<Longrightarrow> c \<in> set (visible g) \<Longrightarrow> encodable c \<and> c \<noteq> 0x0F"
  by (cases g) (auto dest: special_encodable)

lemma text_no_open: "\<forall>c \<in> set cs. encodable c \<and> c \<noteq> 0x0F \<Longrightarrow> CHR 0x0F \<notin> set (utf8_text cs)"
  using utf8_spec_low by (auto simp: encodable_def)

lemma delete_blocks_glyphs:
  assumes "\<forall>g \<in> set gs. proper_glyph g" and "CHR 0x0F \<notin> set s"
  shows "delete_blocks (s @ concat (map glyph_bytes gs)) = s @ utf8_text (concat (map visible gs))"
  using assms
proof (induction gs arbitrary: s)
  case Nil
  then show ?case by (simp add: delete_blocks_plain)
next
  case (Cons g gs)
  show ?case
  proof (cases "\<exists>k. g = Fallback k")
    case True
    then obtain k where g: "g = Fallback k" by blast
    with Cons.prems Cons.IH [of "[]"] delete_blocks_block [of s k] show ?thesis by simp
  next
    case False
    then have "glyph_bytes g = utf8_text (visible g)" by (cases g) simp_all
    moreover have "CHR 0x0F \<notin> set (s @ utf8_text (visible g))"
      using Cons.prems text_no_open [of "visible g"] visible_ok [of g] by auto
    ultimately show ?thesis using Cons.IH [of "s @ utf8_text (visible g)"] Cons.prems(1) by simp
  qed
qed

lemma visible_filter:
  "proper_glyph g \<Longrightarrow> List.filter (\<lambda>c. \<not> is_special_key c) (visible g) = glyph_text g"
  by (cases g) (auto simp: filter_id_conv)

lemma utf32_to_utf8_spec: "\<forall>c \<in> set cs. encodable c \<Longrightarrow> utf32_to_utf8 cs = utf8_text cs"
  by (induction cs) (simp_all add: utf32_to_utf8_def codepoint_to_utf8_eq_spec)

lemma delete_special_keys_glyphs:
  assumes "\<forall>g \<in> set gs. proper_glyph g"
  shows "delete_special_keys (concat (map glyph_bytes gs)) = utf8_text (concat (map glyph_text gs))"
proof -
  let ?v = "concat (map visible gs)" and ?p = "\<lambda>c. \<not> is_special_key c"
  have v: "\<forall>c \<in> set ?v. encodable c" using assms visible_ok by auto
  then have cps: "utf8_to_utf32 (utf8_text ?v) = ?v"
    using utf32_of_text [of ?v] by (auto simp: encodable_def)
  have f: "List.filter ?p ?v = concat (map glyph_text gs)"
    using assms by (induction gs) (simp_all add: visible_filter)
  have blocks: "delete_blocks (concat (map glyph_bytes gs)) = utf8_text ?v"
    using delete_blocks_glyphs [OF assms, of "[]"] by simp
  have same: "List.filter ?p ?v = ?v" if "length (List.filter ?p ?v) = length ?v"
    using that by (metis filter_id_conv length_filter_less nat_less_le)
  have enc: "\<forall>c \<in> set (List.filter ?p ?v). encodable c" using v by auto
  show ?thesis
    using same enc by (auto simp: delete_special_keys_def Let_def blocks cps f utf32_to_utf8_spec)
qed

text \<open>The glyph each piece of a rule becomes under a map.\<close>

fun piece_glyph :: "special_key_map \<Rightarrow> piece \<Rightarrow> glyph" where
  "piece_glyph m (Lit s) = Plain (utf8_to_utf32 s)"
| "piece_glyph m (Key k) =
     (case map_of m k of
        None \<Rightarrow> Fallback k
      | Some v \<Rightarrow> Pua (hd (utf8_to_utf32 v)))"
| "piece_glyph m Brace = Plain [0x7B]"

fun visible_text :: "piece list \<Rightarrow> bytes" where
  "visible_text [] = []"
| "visible_text (Lit s # ps) = s @ visible_text ps"
| "visible_text (Key k # ps) = visible_text ps"
| "visible_text (Brace # ps) = ''{'' @ visible_text ps"

fun clean_piece :: "piece \<Rightarrow> bool" where
  "clean_piece (Lit s) \<longleftrightarrow> CHR ''{'' \<notin> set s \<and> is_valid_utf8 s \<and>
     (\<forall>c \<in> set (utf8_to_utf32 s). encodable c \<and> \<not> is_special_key c \<and> c \<noteq> 0x0F)"
| "clean_piece (Key k) \<longleftrightarrow> CHR ''}'' \<notin> set k \<and> k \<noteq> ''{'' \<and> CHR 0x0E \<notin> set k"
| "clean_piece Brace \<longleftrightarrow> True"

lemma clean_proper: "clean_piece p \<Longrightarrow> proper_piece p"
  by (cases p) simp_all

lemma special_map_value:
  assumes "special_map_ok m" and "map_of m k = Some v"
  shows "\<exists>c. is_special_key c \<and> v = utf8_spec c"
proof -
  from assms(2) have "v \<in> snd ` set m" by (force dest: map_of_SomeD)
  then have "v \<in> set (map special_key_value [0..<length m])"
    using assms(1) unfolding special_map_ok_def by (metis set_map)
  then obtain n where "v = special_key_value n" by auto
  moreover have "is_special_key (min (kSpecialKeyBegin + n) kSpecialKeyEnd)"
    by (simp add: is_special_key_def kSpecialKeyBegin_def kSpecialKeyEnd_def min_def)
  ultimately show ?thesis
    using codepoint_to_utf8_eq_spec special_encodable unfolding special_key_value_def by blast
qed

lemma piece_glyph_ok:
  assumes "special_map_ok m" and "clean_piece p"
  shows "proper_glyph (piece_glyph m p)"
proof (cases p)
  case (Key k)
  show ?thesis
  proof (cases "map_of m k")
    case (Some v)
    from special_map_value [OF assms(1) this] obtain c where c: "is_special_key c" "v = utf8_spec c" by blast
    with utf32_of_text [of "[c]"] have "utf8_to_utf32 v = [c]" by (simp add: special_range)
    with Key Some c show ?thesis by simp
  qed (use Key assms in simp)
qed (use assms in \<open>auto simp: encodable_def special_range\<close>)

lemma process_parse_glyphs:
  assumes "special_map_ok m" and "list_all clean_piece ps"
  shows "process (\<lambda>_ key. (parse_key m key, ())) () ps =
    (concat (map (\<lambda>p. glyph_bytes (piece_glyph m p)) ps), ())"
  using assms(2)
proof (induction ps)
  case (Cons p ps)
  show ?case
  proof (cases p)
    case (Lit s)
    with Cons show ?thesis using valid_utf8_text [of s] by simp
  next
    case (Key k)
    have "parse_key m k = glyph_bytes (piece_glyph m (Key k))"
    proof (cases "map_of m k")
      case (Some v)
      from special_map_value [OF assms(1) this] obtain c where c: "is_special_key c" "v = utf8_spec c" by blast
      with utf32_of_text [of "[c]"] have "utf8_to_utf32 v = [c]" by (simp add: special_range)
      with Some c show ?thesis by (simp add: parse_key_def)
    qed (simp add: parse_key_def)
    with Key Cons show ?thesis by simp
  next
    case Brace
    have "utf8_spec 0x7B = ''{''" by code_simp
    with Brace Cons show ?thesis by simp
  qed
qed simp

lemma visible_text_glyphs:
  "list_all clean_piece ps \<Longrightarrow>
     utf8_text (concat (map glyph_text (map (piece_glyph m) ps))) = visible_text ps"
proof (induction ps rule: visible_text.induct)
  case (2 s ps)
  then show ?case using valid_utf8_text [of s] by simp
next
  case (4 ps)
  have "utf8_spec 0x7B = ''{''" by code_simp
  with 4 show ?case by simp
qed (simp_all split: option.splits)

lemma delete_parsed:
  assumes "special_map_ok m" and "list_all clean_piece ps"
  shows "delete_special_keys (special_key_parse m (render ps)) = visible_text ps"
proof -
  have "list_all proper_piece ps" using assms(2) clean_proper by (auto simp: list_all_iff)
  then have "special_key_parse m (render ps) = concat (map glyph_bytes (map (piece_glyph m) ps))"
    using process_parse_glyphs [OF assms]
    by (simp add: special_key_parse_def parse_block_render comp_def)
  moreover have "\<forall>g \<in> set (map (piece_glyph m) ps). proper_glyph g"
    using assms piece_glyph_ok by (auto simp: list_all_iff)
  ultimately show ?thesis
    using delete_special_keys_glyphs [of "map (piece_glyph m) ps"] visible_text_glyphs [OF assms(2), of m]
    by metis
qed

lemma codes_distinct:
  assumes "special_map_ok m" and "length m \<le> 0x900"
  shows "distinct (map snd m)"
proof -
  have "inj_on special_key_value {0..<0x900}"
  proof
    fix a b assume ab: "a \<in> {0..<0x900}" "b \<in> {0..<0x900}" and eq: "special_key_value a = special_key_value b"
    have v: "special_key_value n = utf8_spec (0xF000 + n)" if "n \<in> {0..<0x900}" for n
      using that codepoint_to_utf8_eq_spec [of "0xF000 + n"]
      by (simp add: special_key_value_def kSpecialKeyBegin_def kSpecialKeyEnd_def encodable_def min_def)
    have "utf8_to_utf32 (utf8_spec (0xF000 + a)) = utf8_to_utf32 (utf8_spec (0xF000 + b))"
      using eq v [OF ab(1)] v [OF ab(2)] by simp
    then show "a = b"
      using utf32_of_text [of "[0xF000 + a]"] utf32_of_text [of "[0xF000 + b]"] ab by simp
  qed
  then have "distinct (map special_key_value [0..<length m])"
    using assms(2) by (auto simp: distinct_map intro: inj_on_subset)
  with assms(1) show ?thesis by (simp add: special_map_ok_def)
qed

lemma is_special_key_0 [simp]: "\<not> is_special_key 0" "\<not> is_special_key 0x0F"
  by (simp_all add: special_range)

lemma trim_leading_special: "is_special_key c \<Longrightarrow> trim_leading_special_key (utf8_spec c @ s) = s"
  by (simp add: trim_leading_special_key_def split_first_spec special_range)

lemma trim_leading_fallback:
  assumes "CHR 0x0E \<notin> set k"
  shows "trim_leading_special_key (kSpecialKeyOpen @ k @ kSpecialKeyClose @ s) = s"
proof -
  have split: "split_first_char32 (CHR 0x0F # t) = (True, 0x0F, t)" for t
    by (subst split_first_ascii) simp_all
  have "find_from (CHR 0x0F # k @ CHR 0x0E # s) [CHR 0x0E] (Suc 0) = Some (Suc (length k))"
    using find_from_single_at [of "CHR 0x0E" k 1 "[CHR 0x0F]" s] assms by simp
  then show ?thesis
    by (simp add: trim_leading_special_key_def kSpecialKeyOpen_def kSpecialKeyClose_def chr_special split)
qed

section \<open>Properties\<close>

text \<open>
  C29: \<open>Register\<close> and \<open>Parse\<close> agree.  The text \<open>Register\<close> returns for a rule is the text
  \<open>Parse\<close> returns for it under the resulting map and after any further registrations; the map
  keeps its invariant, and while at most 2304 names are registered no two share a character.
\<close>

theorem special_key_register_consistent:
  assumes "special_map_ok m" and "special_key_register m input = (out, m')"
  shows "special_key_parse (snd (special_key_register m' later)) input = out \<and>
    special_key_parse m' input = out \<and> special_map_ok m' \<and>
    (0x900 < length m' \<or> distinct (map snd m'))"
proof -
  have "special_key_parse m'' input = out" if "map_extends m' m''" for m''
    using register_then_parse [OF assms(2) [unfolded special_key_register_def] that]
    by (simp add: special_key_parse_def)
  moreover have "special_map_ok m'" using register_ok [OF assms(1), of input] assms(2) by simp
  ultimately show ?thesis
    using register_extends [of m' later] codes_distinct [of m'] by (cases "length m' \<le> 0x900") auto
qed

theorem special_key_register_consistent_witness:
  "special_key_parse (snd (special_key_register [(''?'', special_key_value 0)] ''{a}'')) ''x{?}'' =
     ''x'' @ special_key_value 0 \<and>
   special_key_parse [(''?'', special_key_value 0)] ''x{?}'' = ''x'' @ special_key_value 0 \<and>
   special_map_ok [(''?'', special_key_value 0)] \<and>
   (0x900 < length [(''?'', special_key_value 0)] \<or> distinct (map snd [(''?'', special_key_value 0)]))"
proof (rule special_key_register_consistent)
  show "special_map_ok [(''?'', special_key_value 0)]" by (simp add: special_map_ok_def)
  show "special_key_register [(''?'', special_key_value 0)] ''x{?}'' =
      (''x'' @ special_key_value 0, [(''?'', special_key_value 0)])"
    using parse_block_render [of "[Lit ''x'', Key ''?'']" register_key "[(''?'', special_key_value 0)]"]
    by (simp add: special_key_register_def register_key_def)
qed

text \<open>
  special keys are invisible.  For a rule made of literal text, \<open>{name}\<close> blocks and escaped
  braces, \<open>DeleteSpecialKeys\<close> of what \<open>Register\<close> returns is the literal text alone, whether or
  not the names had been registered before; and \<open>TrimLeadingSpecialKey\<close> removes exactly the
  leading special key of a parsed rule.
\<close>

theorem special_keys_invisible:
  assumes "special_map_ok m" and "list_all clean_piece ps" and "clean_piece (Key k)"
  shows "delete_special_keys (fst (special_key_register m (render ps))) = visible_text ps \<and>
    delete_special_keys (special_key_parse m (render ps)) = visible_text ps \<and>
    trim_leading_special_key (special_key_parse m (render (Key k # ps))) = special_key_parse m (render ps)"
proof -
  obtain out m' where r: "special_key_register m (render ps) = (out, m')"
    by (cases "special_key_register m (render ps)")
  then have ok: "special_map_ok m'" using register_ok [OF assms(1), of "render ps"] by simp
  have out: "special_key_parse m' (render ps) = out"
    using register_then_parse [OF r [unfolded special_key_register_def] map_extends_refl]
    by (simp add: special_key_parse_def)
  have proper: "list_all proper_piece ps" "list_all proper_piece (Key k # ps)"
    using assms(2,3) clean_proper by (auto simp: list_all_iff)
  have "trim_leading_special_key (parse_key m k @ s) = s" for s
  proof (cases "map_of m k")
    case None
    with assms(3) trim_leading_fallback [of k s] show ?thesis by (simp add: parse_key_def)
  next
    case (Some v)
    with special_map_value [OF assms(1) Some] trim_leading_special show ?thesis by (auto simp: parse_key_def)
  qed
  then have "trim_leading_special_key (special_key_parse m (render (Key k # ps))) = special_key_parse m (render ps)"
    unfolding special_key_parse_def parse_block_render [OF proper(1)] parse_block_render [OF proper(2)]
    by simp
  with delete_parsed [OF ok assms(2)] delete_parsed [OF assms(1,2)] out r show ?thesis by simp
qed

theorem special_keys_invisible_witness:
  "delete_special_keys (fst (special_key_register [] (render [Lit ''a'', Key ''?'', Brace]))) =
     visible_text [Lit ''a'', Key ''?'', Brace] \<and>
   delete_special_keys (special_key_parse [] (render [Lit ''a'', Key ''?'', Brace])) =
     visible_text [Lit ''a'', Key ''?'', Brace] \<and>
   trim_leading_special_key (special_key_parse [] (render (Key ''!'' # [Lit ''a'', Key ''?'', Brace]))) =
     special_key_parse [] (render [Lit ''a'', Key ''?'', Brace])"
proof (rule special_keys_invisible)
  have "is_valid_utf8 ''a''" "utf8_to_utf32 ''a'' = [97]" by code_simp+
  then show "list_all clean_piece [Lit ''a'', Key ''?'', Brace]"
    by (simp add: encodable_def special_range)
qed simp_all

end
