(* ===== verification/Rule_Table.thy ===== *)
theory Rule_Table
  imports Special_Key
begin

text \<open>
  The romaji table (\<open>composer/table.h\<close>, \<open>composer/table.cc\<close>): rules from an input to a
  result and a pending text, kept in the rule trie, with the loader of table files, the
  initialisation from a request and a config, and the cache of tables.  An \<open>Entry*\<close> of the trie
  is the entry itself; \<open>entry_set\<close> lists the live entries.  A result \<open>None\<close> of an operation
  says that it does not return.
\<close>

unbundle bit_operations_syntax

section \<open>Entries and tables\<close>

type_synonym table_attributes = "32 word"

definition NO_TABLE_ATTRIBUTE :: table_attributes where "NO_TABLE_ATTRIBUTE = 0"
definition NEW_CHUNK :: table_attributes where "NEW_CHUNK = 1"
definition NO_TRANSLITERATION :: table_attributes where "NO_TRANSLITERATION = 2"
definition DIRECT_INPUT :: table_attributes where "DIRECT_INPUT = 4"
definition END_CHUNK :: table_attributes where "END_CHUNK = 8"
definition DISPLAY_AMBIGUOUS_RESULT :: table_attributes where "DISPLAY_AMBIGUOUS_RESULT = 16"

lemmas attribute_defs = NO_TABLE_ATTRIBUTE_def NEW_CHUNK_def NO_TRANSLITERATION_def
  DIRECT_INPUT_def END_CHUNK_def DISPLAY_AMBIGUOUS_RESULT_def

definition has_attribute :: "table_attributes \<Rightarrow> table_attributes \<Rightarrow> bool" where
  "has_attribute attributes flag \<longleftrightarrow> attributes AND flag \<noteq> 0"

record entry =
  e_input :: bytes
  e_result :: bytes
  e_pending :: bytes
  e_attributes :: table_attributes

record table =
  entries :: "entry trie"
  entry_set :: "entry list"
  special_keys :: special_key_map
  case_sensitive :: bool

definition kNewChunkPrefix :: bytes where "kNewChunkPrefix = [chr_of 0x09]"
definition kMaxSize :: nat where "kMaxSize = 300"

definition register_in_table :: "table \<Rightarrow> bytes \<Rightarrow> bytes \<times> table" where
  "register_in_table t text =
     (case special_key_register (special_keys t) text of (out, m) \<Rightarrow> (out, t\<lparr>special_keys := m\<rparr>))"

definition new_table :: table where
  "new_table =
     (let t0 = \<lparr>entries = empty_trie, entry_set = [], special_keys = [], case_sensitive = False\<rparr>;
          t1 = snd (register_in_table t0 ''{?}'');
          t2 = snd (register_in_table t1 ''{*}'');
          t3 = snd (register_in_table t2 ''{<}'')
      in snd (register_in_table t3 ''{!}''))"

section \<open>Lookup\<close>

definition normalize_input :: "table \<Rightarrow> bytes \<Rightarrow> bytes" where
  "normalize_input t input = (if case_sensitive t then input else lower_string input)"

definition table_lookup :: "table \<Rightarrow> bytes \<Rightarrow> entry option" where
  "table_lookup t input = trie_lookup (entries t) (normalize_input t input)"

definition table_lookup_prefix :: "table \<Rightarrow> bytes \<Rightarrow> entry option \<times> nat \<times> bool" where
  "table_lookup_prefix t input = trie_lookup_prefix (entries t) (normalize_input t input)"

definition table_lookup_predictive_all :: "table \<Rightarrow> bytes \<Rightarrow> entry list" where
  "table_lookup_predictive_all t input = trie_lookup_predictive_all (entries t) (normalize_input t input)"

definition has_sub_rules :: "table \<Rightarrow> bytes \<Rightarrow> bool" where
  "has_sub_rules t input = has_sub_trie (entries t) (normalize_input t input)"

definition has_new_chunk_entry :: "table \<Rightarrow> bytes \<Rightarrow> bool" where
  "has_new_chunk_entry t input =
     (if input = [] then False
      else case table_lookup_prefix t (kNewChunkPrefix @ input) of (_, key_length, _) \<Rightarrow> 1 < key_length)"

section \<open>Adding and deleting rules\<close>

text \<open>The loop of \<open>IsLoopingEntry\<close>; it need not end.\<close>

partial_function (option) is_looping_loop :: "table \<Rightarrow> bytes \<Rightarrow> bytes \<Rightarrow> bool option" where
  "is_looping_loop t input key =
     (if prefix input key then Some True
      else case table_lookup_prefix t key of (found, key_length, _) \<Rightarrow>
        (case found of
           None \<Rightarrow> Some False
         | Some e \<Rightarrow>
             let key' = e_pending e @ drop key_length key in
             if key' \<noteq> [] then is_looping_loop t input key' else Some False))"

definition is_looping_entry :: "table \<Rightarrow> bytes \<Rightarrow> bytes \<Rightarrow> bool option" where
  "is_looping_entry t input pending =
     (if input = [] \<or> pending = [] then Some False else is_looping_loop t input pending)"

definition table_delete_entry :: "table \<Rightarrow> entry \<Rightarrow> table" where
  "table_delete_entry t e = t\<lparr>entry_set := remove1 e (entry_set t)\<rparr>"

definition has_large_capital :: "bytes \<Rightarrow> bool" where
  "has_large_capital input =
     list_ex (\<lambda>codepoint. 0x41 \<le> codepoint \<and> codepoint \<le> 0x5A) (utf8_to_utf32 (delete_special_keys input))"

text \<open>The part of \<open>AddRuleWithAttributes\<close> after the loop check.\<close>

definition insert_rule :: "table \<Rightarrow> bytes \<Rightarrow> bytes \<Rightarrow> bytes \<Rightarrow> table_attributes \<Rightarrow> entry \<times> table" where
  "insert_rule t input output pending attributes =
     (let t1 = (case trie_lookup (entries t) input of
                  None \<Rightarrow> t
                | Some old_entry \<Rightarrow> table_delete_entry t old_entry);
          e = \<lparr>e_input = input, e_result = output, e_pending = pending, e_attributes = attributes\<rparr>;
          t2 = t1\<lparr>entries := add_entry (entries t1) input e, entry_set := entry_set t1 @ [e]\<rparr>
      in (e, if \<not> case_sensitive t2 \<and> has_large_capital input then t2\<lparr>case_sensitive := True\<rparr> else t2))"

function add_rule_with_attributes ::
  "table \<Rightarrow> bytes \<Rightarrow> bytes \<Rightarrow> bytes \<Rightarrow> table_attributes \<Rightarrow> (entry option \<times> table) option" where
  "add_rule_with_attributes t escaped_input output escaped_pending attributes =
     Option.bind
       (if has_attribute attributes NEW_CHUNK
        then map_option snd (add_rule_with_attributes t (kNewChunkPrefix @ escaped_input) output
               escaped_pending NO_TABLE_ATTRIBUTE)
        else Some t)
       (\<lambda>t1.
          if kMaxSize \<le> length escaped_input \<or> kMaxSize \<le> length output \<or> kMaxSize \<le> length escaped_pending
          then Some (None, t1)
          else
            let (input, t2) = register_in_table t1 escaped_input;
                (pending, t3) = register_in_table t2 escaped_pending
            in Option.bind (is_looping_entry t3 input pending)
                 (\<lambda>looping. if looping then Some (None, t3)
                    else case insert_rule t3 input output pending attributes of (e, t4) \<Rightarrow> Some (Some e, t4)))"
  by pat_completeness auto
termination
  by (relation "measure (\<lambda>(t, i, out, p, attributes). if has_attribute attributes NEW_CHUNK then 1 else 0)")
    (auto simp: has_attribute_def NO_TABLE_ATTRIBUTE_def)

declare add_rule_with_attributes.simps [simp del]

definition add_rule :: "table \<Rightarrow> bytes \<Rightarrow> bytes \<Rightarrow> bytes \<Rightarrow> (entry option \<times> table) option" where
  "add_rule t input output pending = add_rule_with_attributes t input output pending NO_TABLE_ATTRIBUTE"

definition delete_rule :: "table \<Rightarrow> bytes \<Rightarrow> table" where
  "delete_rule t input =
     (let t1 = (case trie_lookup (entries t) input of
                  None \<Rightarrow> t
                | Some old_entry \<Rightarrow> table_delete_entry t old_entry)
      in t1\<lparr>entries := snd (delete_entry (entries t1) input)\<rparr>)"

section \<open>Loading\<close>

text \<open>\<open>absl::StrSplit\<close> with a one-character delimiter and \<open>AllowEmpty\<close>: never empty.\<close>

fun str_split :: "char \<Rightarrow> bytes \<Rightarrow> bytes list" where
  "str_split d [] = [[]]"
| "str_split d (c # cs) =
     (if c = d then [] # str_split d cs
      else case str_split d cs of [] \<Rightarrow> [[c]] | w # ws \<Rightarrow> (c # w) # ws)"

definition attribute_of_name :: "bytes \<Rightarrow> table_attributes" where
  "attribute_of_name s =
     (if s = ''NewChunk'' then NEW_CHUNK
      else if s = ''NoTransliteration'' then NO_TRANSLITERATION
      else if s = ''DirectInput'' then DIRECT_INPUT
      else if s = ''EndChunk'' then END_CHUNK
      else if s = ''DisplayAmbiguousResult'' then DISPLAY_AMBIGUOUS_RESULT
      else NO_TABLE_ATTRIBUTE)"

definition parse_attributes :: "bytes \<Rightarrow> table_attributes" where
  "parse_attributes input =
     fold (\<lambda>s attributes. attributes OR attribute_of_name s) (str_split (CHR '' '') input) NO_TABLE_ATTRIBUTE"

text \<open>One line of a table file; a line of the wrong shape is skipped (and logged).\<close>

definition load_line :: "bytes \<Rightarrow> table \<Rightarrow> table option" where
  "load_line raw t =
     (let line = snd (chop_returns raw) in
      if line = [] then Some t
      else case str_split (chr_of 0x09) line of
        [input, output, pending, attributes] \<Rightarrow>
          map_option snd (add_rule_with_attributes t input output pending (parse_attributes attributes))
      | [input, output, pending] \<Rightarrow> map_option snd (add_rule t input output pending)
      | [input, output] \<Rightarrow> map_option snd (add_rule t input output [])
      | _ \<Rightarrow> Some t)"

fun load_lines :: "bytes list \<Rightarrow> table \<Rightarrow> table option" where
  "load_lines [] t = Some t"
| "load_lines (l # ls) t = Option.bind (load_line l t) (load_lines ls)"

text \<open>
  \<open>LoadFromStream\<close> reads lines up to and including the one that meets the end of the stream,
  which is the part after the last newline, possibly empty.
\<close>

definition load_from_string :: "table \<Rightarrow> bytes \<Rightarrow> table option" where
  "load_from_string t str = load_lines (str_split (chr_of 0x0A) str) t"

text \<open>\<open>LoadFromFile\<close>: the files that \<open>ConfigFileStream\<close> opens are a parameter.\<close>

type_synonym files = "bytes \<Rightarrow> bytes option"

definition load_from_file :: "files \<Rightarrow> table \<Rightarrow> bytes \<Rightarrow> (bool \<times> table) option" where
  "load_from_file files t filepath =
     (case files filepath of
        None \<Rightarrow> Some (False, t)
      | Some content \<Rightarrow> map_option (Pair True) (load_from_string t content))"

section \<open>Initialisation\<close>

datatype special_romanji_table =
    DEFAULT_TABLE
  | TWELVE_KEYS_TO_HIRAGANA
  | TWELVE_KEYS_TO_HIRAGANA_INTUITIVE
  | TWELVE_KEYS_TO_HALFWIDTHASCII
  | FLICK_TO_HIRAGANA
  | FLICK_TO_HIRAGANA_INTUITIVE
  | FLICK_TO_HALFWIDTHASCII
  | FLICK_TO_HALFWIDTHASCII_IOS
  | FLICK_TO_NUMBER
  | TOGGLE_FLICK_TO_HIRAGANA
  | TOGGLE_FLICK_TO_HIRAGANA_INTUITIVE
  | TOGGLE_FLICK_TO_NUMBER
  | TOGGLE_FLICK_TO_HALFWIDTHASCII_IOS
  | TOGGLE_FLICK_TO_HALFWIDTHASCII
  | QWERTY_MOBILE_TO_HIRAGANA
  | QWERTY_MOBILE_TO_HALFWIDTHASCII
  | GODAN_TO_HIRAGANA
  | GODAN_TO_HALFWIDTHASCII
  | NOTOUCH_TO_HIRAGANA
  | NOTOUCH_TO_HALFWIDTHASCII
  | FIFTY_KEYS_TO_HIRAGANA

datatype preedit_method = ROMAN | KANA
datatype punctuation_method = TOUTEN_KUTEN | COMMA_PERIOD | TOUTEN_PERIOD | COMMA_KUTEN
datatype symbol_method =
  CORNER_BRACKET_MIDDLE_DOT | SQUARE_BRACKET_SLASH | CORNER_BRACKET_SLASH | SQUARE_BRACKET_MIDDLE_DOT

text \<open>The fields of the request and the config that the table reads.\<close>

record table_config =
  special_romanji :: special_romanji_table
  preedit :: preedit_method
  punctuation :: punctuation_method
  symbols :: symbol_method
  custom_roman_table :: "bytes option"

definition kDefaultPreeditTableFile :: bytes where "kDefaultPreeditTableFile = ''system://romanji-hiragana.tsv''"
definition kRomajiPreeditTableFile :: bytes where "kRomajiPreeditTableFile = ''system://romanji-hiragana.tsv''"
definition kKanaCombinationTableFile :: bytes where "kKanaCombinationTableFile = ''system://kana.tsv''"

text \<open>The switch over the special tables; \<open>None\<close> is its default branch.\<close>

fun special_table_file :: "special_romanji_table \<Rightarrow> bytes option" where
  "special_table_file TWELVE_KEYS_TO_HIRAGANA = Some ''system://12keys-hiragana.tsv''"
| "special_table_file TWELVE_KEYS_TO_HIRAGANA_INTUITIVE = Some ''system://12keys-hiragana_intuitive.tsv''"
| "special_table_file TWELVE_KEYS_TO_HALFWIDTHASCII = Some ''system://12keys-halfwidthascii.tsv''"
| "special_table_file FLICK_TO_HIRAGANA = Some ''system://flick-hiragana.tsv''"
| "special_table_file FLICK_TO_HIRAGANA_INTUITIVE = Some ''system://flick-hiragana_intuitive.tsv''"
| "special_table_file FLICK_TO_HALFWIDTHASCII = Some ''system://flick-halfwidthascii.tsv''"
| "special_table_file FLICK_TO_HALFWIDTHASCII_IOS = Some ''system://flick-halfwidthascii_ios.tsv''"
| "special_table_file FLICK_TO_NUMBER = Some ''system://flick-number.tsv''"
| "special_table_file TOGGLE_FLICK_TO_HIRAGANA = Some ''system://toggle_flick-hiragana.tsv''"
| "special_table_file TOGGLE_FLICK_TO_HIRAGANA_INTUITIVE = Some ''system://toggle_flick-hiragana_intuitive.tsv''"
| "special_table_file TOGGLE_FLICK_TO_NUMBER = Some ''system://toggle_flick-number.tsv''"
| "special_table_file TOGGLE_FLICK_TO_HALFWIDTHASCII_IOS = Some ''system://toggle_flick-halfwidthascii_ios.tsv''"
| "special_table_file TOGGLE_FLICK_TO_HALFWIDTHASCII = Some ''system://toggle_flick-halfwidthascii.tsv''"
| "special_table_file QWERTY_MOBILE_TO_HIRAGANA = Some ''system://qwerty_mobile-hiragana.tsv''"
| "special_table_file QWERTY_MOBILE_TO_HALFWIDTHASCII = Some ''system://qwerty_mobile-halfwidthascii.tsv''"
| "special_table_file GODAN_TO_HIRAGANA = Some ''system://godan-hiragana.tsv''"
| "special_table_file NOTOUCH_TO_HIRAGANA = Some ''system://notouch-hiragana.tsv''"
| "special_table_file NOTOUCH_TO_HALFWIDTHASCII = Some ''system://qwerty_mobile-halfwidthascii.tsv''"
| "special_table_file FIFTY_KEYS_TO_HIRAGANA = Some ''system://50keys-hiragana.tsv''"
| "special_table_file _ = None"

definition kKuten :: bytes where "kKuten = map chr_of [0xE3, 0x80, 0x81]"
definition kTouten :: bytes where "kTouten = map chr_of [0xE3, 0x80, 0x82]"
definition kComma :: bytes where "kComma = map chr_of [0xEF, 0xBC, 0x8C]"
definition kPeriod :: bytes where "kPeriod = map chr_of [0xEF, 0xBC, 0x8E]"
definition kCornerOpen :: bytes where "kCornerOpen = map chr_of [0xE3, 0x80, 0x8C]"
definition kCornerClose :: bytes where "kCornerClose = map chr_of [0xE3, 0x80, 0x8D]"
definition kSlash :: bytes where "kSlash = map chr_of [0xEF, 0xBC, 0x8F]"
definition kSquareOpen :: bytes where "kSquareOpen = ''[''"
definition kSquareClose :: bytes where "kSquareClose = '']''"
definition kMiddleDot :: bytes where "kMiddleDot = map chr_of [0xE3, 0x83, 0xBB]"

text \<open>One of the five punctuation and symbol rules: replaced only when absent or the default.\<close>

definition init_symbol :: "bytes \<Rightarrow> bytes \<Rightarrow> bytes \<Rightarrow> table \<Rightarrow> table option" where
  "init_symbol key guard output t =
     (let replace = (case table_lookup t key of
                       None \<Rightarrow> True
                     | Some e \<Rightarrow> e_result e = guard \<and> e_pending e = [])
      in if replace then map_option snd (add_rule t key output []) else Some t)"

definition init_symbols :: "punctuation_method \<Rightarrow> symbol_method \<Rightarrow> table \<Rightarrow> table option" where
  "init_symbols punct symbol t =
     Option.bind (init_symbol '','' kKuten
       (if punct = COMMA_PERIOD \<or> punct = COMMA_KUTEN then kComma else kKuten) t) (\<lambda>t.
     Option.bind (init_symbol ''.'' kTouten
       (if punct = COMMA_PERIOD \<or> punct = TOUTEN_PERIOD then kPeriod else kTouten) t) (\<lambda>t.
     Option.bind (init_symbol ''/'' kMiddleDot
       (if symbol = SQUARE_BRACKET_SLASH \<or> symbol = CORNER_BRACKET_SLASH then kSlash else kMiddleDot) t) (\<lambda>t.
     Option.bind (init_symbol ''['' kCornerOpen
       (if symbol = CORNER_BRACKET_MIDDLE_DOT \<or> symbol = CORNER_BRACKET_SLASH then kCornerOpen else kSquareOpen) t)
     (init_symbol '']'' kCornerClose
       (if symbol = CORNER_BRACKET_MIDDLE_DOT \<or> symbol = CORNER_BRACKET_SLASH then kCornerClose else kSquareClose)))))"

text \<open>The table of the preedit method: the custom table, or the romaji table file.\<close>

definition load_preedit :: "files \<Rightarrow> table_config \<Rightarrow> table \<Rightarrow> (bool \<times> table) option" where
  "load_preedit files config t =
     (case preedit config of
        ROMAN \<Rightarrow>
          (case custom_roman_table config of
             Some (c # cs) \<Rightarrow> map_option (Pair True) (load_from_string t (c # cs))
           | _ \<Rightarrow> load_from_file files t kRomajiPreeditTableFile)
      | KANA \<Rightarrow> load_from_file files t kRomajiPreeditTableFile)"

definition initialize_rest :: "files \<Rightarrow> table_config \<Rightarrow> table \<Rightarrow> (bool \<times> table) option" where
  "initialize_rest files config t =
     Option.bind (load_preedit files config t) (\<lambda>(result, t).
     Option.bind (if result then Some (True, t) else load_from_file files t kDefaultPreeditTableFile)
       (\<lambda>(result, t).
     if \<not> result then Some (False, t)
     else Option.bind (init_symbols (punctuation config) (symbols config) t)
       (\<lambda>t. load_from_file files t kKanaCombinationTableFile)))"

definition initialize_with_request_and_config :: "files \<Rightarrow> table_config \<Rightarrow> table \<Rightarrow> (bool \<times> table) option" where
  "initialize_with_request_and_config files config t0 =
     (let t = t0\<lparr>case_sensitive := False\<rparr> in
      case special_table_file (special_romanji config) of
        None \<Rightarrow> initialize_rest files config t
      | Some table_file_name \<Rightarrow>
          Option.bind (load_from_file files t table_file_name)
            (\<lambda>(loaded, t). if loaded then Some (True, t) else initialize_rest files config t))"

section \<open>The cache of tables\<close>

text \<open>
  \<open>CityFingerprint\<close> and \<open>absl::HashOf\<close> are parameters.  The cache maps hashes to tables; a call
  returns the table (\<open>nullptr\<close> as \<open>None\<close>) and the new cache.
\<close>

type_synonym table_key =
  "special_romanji_table \<times> preedit_method \<times> punctuation_method \<times> symbol_method \<times> 64 word"

definition custom_roman_table_fingerprint :: "(bytes \<Rightarrow> 64 word) \<Rightarrow> table_config \<Rightarrow> 64 word" where
  "custom_roman_table_fingerprint city config =
     (if special_romanji config \<noteq> DEFAULT_TABLE \<or> preedit config \<noteq> ROMAN then 0
      else case custom_roman_table config of
        Some (c # cs) \<Rightarrow> city (c # cs)
      | _ \<Rightarrow> 0)"

definition table_key :: "(bytes \<Rightarrow> 64 word) \<Rightarrow> table_config \<Rightarrow> table_key" where
  "table_key city config =
     (special_romanji config, preedit config, punctuation config, symbols config,
      custom_roman_table_fingerprint city config)"

type_synonym table_manager = "(64 word \<times> table) list"

definition get_table ::
  "files \<Rightarrow> (bytes \<Rightarrow> 64 word) \<Rightarrow> (table_key \<Rightarrow> 64 word) \<Rightarrow> table_manager \<Rightarrow> table_config \<Rightarrow>
     (table option \<times> table_manager) option" where
  "get_table files city hash_of table_map config =
     (let hash = hash_of (table_key city config) in
      case map_of table_map hash of
        Some t \<Rightarrow> Some (Some t, table_map)
      | None \<Rightarrow>
          map_option
            (\<lambda>(ok, t). if \<not> ok then (None, table_map) else (Some t, (hash, t) # table_map))
            (initialize_with_request_and_config files config new_table))"


section \<open>The invariant of a table\<close>

text \<open>
  The rules as a function from input paths to entries; every entry the trie points to is alive
  and stored under its own input.
\<close>

definition rule_map :: "table \<Rightarrow> char32 list \<Rightarrow> entry option" where
  "rule_map t = trie_map (entries t)"

definition table_ok :: "table \<Rightarrow> bool" where
  "table_ok t \<longleftrightarrow> wf_trie (entries t) \<and> special_map_ok (special_keys t) \<and>
     (\<forall>p e. rule_map t p = Some e \<longrightarrow> e \<in> set (entry_set t) \<and> key_path (e_input e) = p)"

lemma table_okD:
  assumes "table_ok t"
  shows "wf_trie (entries t)" and "special_map_ok (special_keys t)"
    and "rule_map t p = Some e \<Longrightarrow> e \<in> set (entry_set t)"
    and "rule_map t p = Some e \<Longrightarrow> key_path (e_input e) = p"
  using assms by (auto simp: table_ok_def)

lemma register_in_table_simps:
  assumes "register_in_table t text = (out, t')"
  shows "entries t' = entries t" and "entry_set t' = entry_set t" and "case_sensitive t' = case_sensitive t"
    and "special_key_register (special_keys t) text = (out, special_keys t')"
  using assms by (auto simp: register_in_table_def split: prod.splits)

lemma register_in_table_ok [inv_intros]:
  assumes "table_ok t" and "register_in_table t text = (out, t')"
  shows "table_ok t'"
  using assms register_ok [of "special_keys t" "text"]
  by (simp add: table_ok_def rule_map_def register_in_table_simps [OF assms(2)])

lemma register_plain: "CHR ''{'' \<notin> set text \<Longrightarrow> register_in_table t text = (text, t)"
  by (simp add: register_in_table_def special_key_register_def parse_block_lit)

lemma new_table_simps [simp]:
  "entries new_table = empty_trie" "entry_set new_table = []" "case_sensitive new_table = False"
  by (simp_all add: new_table_def register_in_table_def Let_def split: prod.splits)

lemma new_table_ok [simp]: "table_ok new_table"
proof -
  let ?t = "\<lparr>entries = empty_trie, entry_set = [], special_keys = [], case_sensitive = False\<rparr>"
  have "table_ok ?t" by (simp add: table_ok_def rule_map_def)
  moreover have "table_ok t \<Longrightarrow> table_ok (snd (register_in_table t s))" for t s
    by (cases "register_in_table t s") (simp add: register_in_table_ok)
  ultimately show ?thesis by (simp add: new_table_def Let_def)
qed

lemma delete_old_entry_simps [simp]:
  "entries (case x of None \<Rightarrow> t | Some old \<Rightarrow> table_delete_entry t old) = entries t"
  "special_keys (case x of None \<Rightarrow> t | Some old \<Rightarrow> table_delete_entry t old) = special_keys t"
  "case_sensitive (case x of None \<Rightarrow> t | Some old \<Rightarrow> table_delete_entry t old) = case_sensitive t"
  by (simp_all add: table_delete_entry_def split: option.splits)

lemma old_entry_removed:
  assumes "table_ok t" and "rule_map t p = Some e" and "p \<noteq> key_path input"
  shows "e \<in> set (entry_set (case trie_lookup (entries t) input of
      None \<Rightarrow> t | Some old \<Rightarrow> table_delete_entry t old))"
proof (cases "trie_lookup (entries t) input")
  case None
  with assms show ?thesis by (simp add: table_okD)
next
  case (Some old)
  then have "rule_map t (key_path input) = Some old" by (simp add: rule_map_def trie_lookup_map)
  with assms have "old \<noteq> e" using table_okD(4) by blast
  with assms Some show ?thesis by (simp add: table_delete_entry_def table_okD)
qed

lemma insert_rule_simps:
  assumes "insert_rule t input output pending attributes = (e, t')"
  shows "rule_map t' = (rule_map t)(key_path input \<mapsto> e)"
    and "e = \<lparr>e_input = input, e_result = output, e_pending = pending, e_attributes = attributes\<rparr>"
    and "special_keys t' = special_keys t"
    and "entries t' = add_entry (entries t) input e"
    and "case_sensitive t' = (case_sensitive t \<or> has_large_capital input)"
  using assms by (auto simp: insert_rule_def rule_map_def trie_map_add Let_def split: if_splits)

lemma insert_rule_ok [inv_intros]:
  assumes "table_ok t" and "insert_rule t input output pending attributes = (e, t')"
  shows "table_ok t'"
proof -
  have set: "set (entry_set t') =
      insert e (set (entry_set (case trie_lookup (entries t) input of
        None \<Rightarrow> t | Some old \<Rightarrow> table_delete_entry t old)))"
    using assms(2) by (auto simp: insert_rule_def Let_def split: if_splits)
  have "x \<in> set (entry_set t') \<and> key_path (e_input x) = p" if "rule_map t' p = Some x" for p x
  proof (cases "p = key_path input")
    case True
    with that insert_rule_simps(1) [OF assms(2)] have "x = e" by simp
    with set True insert_rule_simps(2) [OF assms(2)] show ?thesis by simp
  next
    case False
    with that insert_rule_simps(1) [OF assms(2)] have r: "rule_map t p = Some x" by simp
    with set old_entry_removed [OF assms(1) r False] table_okD(4) [OF assms(1) r] show ?thesis by simp
  qed
  with table_okD(1,2) [OF assms(1)] show ?thesis
    by (simp add: table_ok_def insert_rule_simps(3,4) [OF assms(2)] wf_trie_add)
qed

text \<open>The ways \<open>AddRuleWithAttributes\<close> can return.\<close>

lemma add_rule_cases:
  assumes "add_rule_with_attributes t i out p attributes = Some (r, t')"
  obtains (too_long) t1 where "r = None" "t' = t1"
      "(if has_attribute attributes NEW_CHUNK
        then map_option snd (add_rule_with_attributes t (kNewChunkPrefix @ i) out p NO_TABLE_ATTRIBUTE)
        else Some t) = Some t1"
      "kMaxSize \<le> length i \<or> kMaxSize \<le> length out \<or> kMaxSize \<le> length p"
  | (looping) t1 input t2 pending where "r = None"
      "(if has_attribute attributes NEW_CHUNK
        then map_option snd (add_rule_with_attributes t (kNewChunkPrefix @ i) out p NO_TABLE_ATTRIBUTE)
        else Some t) = Some t1"
      "register_in_table t1 i = (input, t2)" "register_in_table t2 p = (pending, t')"
      "is_looping_entry t' input pending = Some True"
  | (added) t1 input t2 pending t3 e where "r = Some e"
      "(if has_attribute attributes NEW_CHUNK
        then map_option snd (add_rule_with_attributes t (kNewChunkPrefix @ i) out p NO_TABLE_ATTRIBUTE)
        else Some t) = Some t1"
      "register_in_table t1 i = (input, t2)" "register_in_table t2 p = (pending, t3)"
      "is_looping_entry t3 input pending = Some False"
      "insert_rule t3 input out pending attributes = (e, t')"
proof -
  let ?pre = "if has_attribute attributes NEW_CHUNK
    then map_option snd (add_rule_with_attributes t (kNewChunkPrefix @ i) out p NO_TABLE_ATTRIBUTE)
    else Some t"
  from assms obtain t1 where t1: "?pre = Some t1"
    by (subst (asm) add_rule_with_attributes.simps) (auto simp: bind_eq_Some_conv)
  obtain input t2 where r2: "register_in_table t1 i = (input, t2)" by (cases "register_in_table t1 i")
  obtain pending t3 where r3: "register_in_table t2 p = (pending, t3)" by (cases "register_in_table t2 p")
  have eq: "add_rule_with_attributes t i out p attributes =
      (if kMaxSize \<le> length i \<or> kMaxSize \<le> length out \<or> kMaxSize \<le> length p then Some (None, t1)
       else Option.bind (is_looping_entry t3 input pending)
         (\<lambda>looping. if looping then Some (None, t3)
            else case insert_rule t3 input out pending attributes of (e, t4) \<Rightarrow> Some (Some e, t4)))"
    by (subst add_rule_with_attributes.simps) (simp only: t1 r2 r3 Let_def bind.bind_lunit prod.case)
  show thesis
  proof (cases "kMaxSize \<le> length i \<or> kMaxSize \<le> length out \<or> kMaxSize \<le> length p")
    case True
    with eq assms t1 too_long show thesis by auto
  next
    case False
    with eq assms obtain b where b: "is_looping_entry t3 input pending = Some b"
      by (cases "is_looping_entry t3 input pending") auto
    show thesis
    proof (cases b)
      case True
      with eq assms False b have "r = None" "t' = t3" by auto
      with looping [OF _ t1 r2] r3 b True show thesis by simp
    next
      case F: False
      obtain e t4 where ins: "insert_rule t3 input out pending attributes = (e, t4)"
        by (cases "insert_rule t3 input out pending attributes")
      with eq assms False b F have "r = Some e" "t' = t4" by auto
      with added [OF _ t1 r2 r3] b F ins show thesis by simp
    qed
  qed
qed

lemma add_rule_with_attributes_ok:
  "table_ok t \<Longrightarrow> add_rule_with_attributes t i out p attributes = Some (r, t') \<Longrightarrow> table_ok t'"
proof (induction t i out p attributes arbitrary: r t' rule: add_rule_with_attributes.induct)
  case (1 t i out p attributes)
  have pre: "table_ok t1" if "(if has_attribute attributes NEW_CHUNK
    then map_option snd (add_rule_with_attributes t (kNewChunkPrefix @ i) out p NO_TABLE_ATTRIBUTE)
    else Some t) = Some t1" for t1
    using that 1 by (auto split: if_splits)
  from 1(3) show ?case
    by (cases rule: add_rule_cases) (metis pre register_in_table_ok insert_rule_ok)+
qed

lemma add_rule_ok: "table_ok t \<Longrightarrow> add_rule t i out p = Some (r, t') \<Longrightarrow> table_ok t'"
  unfolding add_rule_def by (rule add_rule_with_attributes_ok)

lemma load_line_ok: "table_ok t \<Longrightarrow> load_line l t = Some t' \<Longrightarrow> table_ok t'"
  by (auto simp: load_line_def Let_def split: if_splits list.splits
      dest: add_rule_ok add_rule_with_attributes_ok)

lemma load_lines_ok: "table_ok t \<Longrightarrow> load_lines ls t = Some t' \<Longrightarrow> table_ok t'"
  by (induction ls arbitrary: t) (auto simp: bind_eq_Some_conv dest: load_line_ok)

lemma load_from_string_ok: "table_ok t \<Longrightarrow> load_from_string t s = Some t' \<Longrightarrow> table_ok t'"
  unfolding load_from_string_def by (rule load_lines_ok)

lemma load_from_file_ok: "table_ok t \<Longrightarrow> load_from_file files t path = Some (b, t') \<Longrightarrow> table_ok t'"
  by (auto simp: load_from_file_def split: option.splits dest: load_from_string_ok)

lemma delete_rule_ok:
  assumes "table_ok t" and "input \<noteq> [] \<or> rule_map t [] = None \<or> trie_subs (entries t) \<noteq> []"
  shows "table_ok (delete_rule t input)"
proof -
  have rm: "rule_map t p = Some e \<and> p \<noteq> key_path input"
    if "rule_map (delete_rule t input) p = Some e" for p e
    using that trie_map_delete_le [of "entries t" input p e] assms(2)
    by (cases "input = []"; cases p)
      (auto simp: rule_map_def delete_rule_def Let_def delete_entry.simps [of _ "[]"] split: if_splits)
  have "e \<in> set (entry_set (delete_rule t input)) \<and> key_path (e_input e) = p"
    if "rule_map (delete_rule t input) p = Some e" for p e
    using rm [OF that] old_entry_removed [OF assms(1), of p e input] table_okD(4) [OF assms(1), of p e]
    by (auto simp: delete_rule_def Let_def)
  with table_okD(1,2) [OF assms(1)] show ?thesis
    unfolding table_ok_def by (simp add: delete_rule_def Let_def wf_trie_delete)
qed

lemma init_symbol_ok: "table_ok t \<Longrightarrow> init_symbol key guard out t = Some t' \<Longrightarrow> table_ok t'"
  by (auto simp: init_symbol_def Let_def split: if_splits dest: add_rule_ok)

lemma init_symbols_ok: "table_ok t \<Longrightarrow> init_symbols p s t = Some t' \<Longrightarrow> table_ok t'"
  unfolding init_symbols_def bind_eq_Some_conv by (elim exE conjE) (drule (1) init_symbol_ok)+

lemma load_preedit_ok: "table_ok t \<Longrightarrow> load_preedit files config t = Some (b, t') \<Longrightarrow> table_ok t'"
  by (auto simp: load_preedit_def split: preedit_method.splits option.splits list.splits
      dest: load_from_string_ok load_from_file_ok)

lemma initialize_rest_ok:
  assumes "table_ok t" and "initialize_rest files config t = Some (b, t')"
  shows "table_ok t'"
proof -
  from assms(2) obtain r t1 where t1: "load_preedit files config t = Some (r, t1)"
    by (auto simp: initialize_rest_def bind_eq_Some_conv)
  with assms(2) obtain r' t2 where t2: "(if r then Some (True, t1) else load_from_file files t1 kDefaultPreeditTableFile) = Some (r', t2)"
    by (auto simp: initialize_rest_def bind_eq_Some_conv split: if_splits)
  have ok: "table_ok t2"
    using t2 load_from_file_ok load_preedit_ok [OF assms(1) t1] by (auto split: if_splits)
  show ?thesis
  proof (cases r')
    case True
    with assms(2) t1 t2 obtain t3 where "init_symbols (punctuation config) (symbols config) t2 = Some t3"
      "load_from_file files t3 kKanaCombinationTableFile = Some (b, t')"
      by (auto simp: initialize_rest_def bind_eq_Some_conv)
    with ok show ?thesis by (blast intro: init_symbols_ok load_from_file_ok)
  next
    case False
    with assms(2) t1 t2 ok show ?thesis by (simp add: initialize_rest_def)
  qed
qed

lemma initialize_ok:
  assumes "table_ok t" and "initialize_with_request_and_config files config t = Some (b, t')"
  shows "table_ok t'"
proof -
  have "table_ok (t\<lparr>case_sensitive := False\<rparr>)" using assms(1) by (simp add: table_ok_def rule_map_def)
  then show ?thesis
    using assms(2) by (auto simp: initialize_with_request_and_config_def Let_def bind_eq_Some_conv
        split: option.splits if_splits dest: initialize_rest_ok load_from_file_ok)
qed

text \<open>
  The operations that change a table.  \<open>DeleteRule\<close> is called with any input, the empty one only if the table
  has no rule of empty input or has other rules: \<open>Trie::DeleteEntry\<close> does not clear the entry of a root without children.
\<close>

inductive table_step :: "files \<Rightarrow> table \<Rightarrow> table \<Rightarrow> bool" for files where
  add: "add_rule_with_attributes t i out p attributes = Some (r, t') \<Longrightarrow> table_step files t t'"
| load_string: "load_from_string t str = Some t' \<Longrightarrow> table_step files t t'"
| load_file: "load_from_file files t path = Some (b, t') \<Longrightarrow> table_step files t t'"
| initialize: "initialize_with_request_and_config files config t = Some (b, t') \<Longrightarrow> table_step files t t'"
| delete: "input \<noteq> [] \<or> rule_map t [] = None \<or> trie_subs (entries t) \<noteq> [] \<Longrightarrow>
    table_step files t (delete_rule t input)"

lemma table_step_ok: "table_step files t t' \<Longrightarrow> table_ok t \<Longrightarrow> table_ok t'"
  by (induction rule: table_step.induct)
    (auto dest: add_rule_with_attributes_ok load_from_string_ok load_from_file_ok initialize_ok intro: delete_rule_ok)

lemma table_steps_ok: "(table_step files)\<^sup>*\<^sup>* t t' \<Longrightarrow> table_ok t \<Longrightarrow> table_ok t'"
  by (induction rule: rtranclp_induct) (auto dest: table_step_ok)

text \<open>In a table that has only a rule of empty input, the entry is freed and stays in the trie.\<close>

lemma delete_root_rule_dangles:
  assumes "\<not> case_sensitive t" and "entries t = Trie (Some e) []" and "entry_set t = [e]"
  shows "rule_map (delete_rule t []) [] = Some e \<and> entry_set (delete_rule t []) = []"
  using assms trie_lookup_map [of "entries t" "[]"]
  by (simp add: delete_rule_def table_delete_entry_def rule_map_def Let_def delete_entry.simps [of _ "[]"])

section \<open>What IsLoopingEntry decides\<close>

text \<open>One rewriting step of a pending text: the rule found at its start is applied.\<close>

inductive pending_step :: "table \<Rightarrow> bytes \<Rightarrow> bytes \<Rightarrow> bool" for t where
  "key \<noteq> [] \<Longrightarrow> table_lookup_prefix t key = (Some e, n, f) \<Longrightarrow>
     pending_step t key (e_pending e @ drop n key)"

inductive_cases pending_stepE: "pending_step t key key'"
inductive_simps pending_step_Nil: "pending_step t [] key'"
inductive_simps pending_step_iff: "pending_step t key key'"

lemma pending_step_deterministic: "pending_step t k a \<Longrightarrow> pending_step t k b \<Longrightarrow> a = b"
  by (auto elim!: pending_stepE)

lemma pending_steps_Nil: "(pending_step t)\<^sup>*\<^sup>* [] k \<longleftrightarrow> k = []"
  by (auto elim: converse_rtranclpE simp: pending_step_Nil)

lemma pending_steps_unfold:
  assumes "pending_step t a b"
  shows "(pending_step t)\<^sup>*\<^sup>* a k \<longleftrightarrow> k = a \<or> (pending_step t)\<^sup>*\<^sup>* b k"
proof
  assume "(pending_step t)\<^sup>*\<^sup>* a k"
  then show "k = a \<or> (pending_step t)\<^sup>*\<^sup>* b k"
    by (rule converse_rtranclpE) (use pending_step_deterministic [OF assms] in auto)
next
  assume "k = a \<or> (pending_step t)\<^sup>*\<^sup>* b k"
  then show "(pending_step t)\<^sup>*\<^sup>* a k"
    using assms by (auto intro: converse_rtranclp_into_rtranclp)
qed

lemma is_looping_loop_spec:
  assumes "is_looping_loop t input key = Some b"
  shows "input \<noteq> [] \<longrightarrow> key \<noteq> [] \<longrightarrow> b = (\<exists>k. (pending_step t)\<^sup>*\<^sup>* key k \<and> prefix input k)"
proof (rule is_looping_loop.raw_induct [OF _ assms, where P = "\<lambda>t input key b.
    input \<noteq> [] \<longrightarrow> key \<noteq> [] \<longrightarrow> b = (\<exists>k. (pending_step t)\<^sup>*\<^sup>* key k \<and> prefix input k)"], intro impI,
    goal_cases step)
  case (step loop t input key b)
  note IH = step(1) and body = step(2) and nonempty = step(3,4)
  show ?case
  proof (cases "prefix input key")
    case True
    with body show ?thesis by auto
  next
    case False
    obtain found n f where lk: "table_lookup_prefix t key = (found, n, f)"
      by (cases "table_lookup_prefix t key")
    show ?thesis
    proof (cases found)
      case None
      with lk have "\<not> pending_step t key k" for k by (auto simp: pending_step_iff)
      then have "(pending_step t)\<^sup>*\<^sup>* key k \<longleftrightarrow> k = key" for k
        by (auto elim: converse_rtranclpE)
      with None lk False body show ?thesis by auto
    next
      case (Some e)
      let ?key' = "e_pending e @ drop n key"
      from Some lk nonempty(2) have "pending_step t key ?key'" by (auto intro: pending_step.intros)
      then have unf: "(pending_step t)\<^sup>*\<^sup>* key k \<longleftrightarrow> k = key \<or> (pending_step t)\<^sup>*\<^sup>* ?key' k" for k
        by (rule pending_steps_unfold)
      have reach: "(\<exists>k. (pending_step t)\<^sup>*\<^sup>* key k \<and> prefix input k) \<longleftrightarrow>
          (\<exists>k. (pending_step t)\<^sup>*\<^sup>* ?key' k \<and> prefix input k)"
        by (simp only: unf) (use False in blast)
      show ?thesis
      proof (cases "?key' = []")
        case True
        with Some lk False body nonempty reach show ?thesis by (simp add: pending_steps_Nil)
      next
        case more: False
        with Some lk False more body have "loop t input ?key' = Some b" by (simp add: Let_def)
        from IH [OF this] nonempty(1) more reach show ?thesis by simp
      qed
    qed
  qed
qed

text \<open>
  A table is quiet when no rule applies inside a pending text of its rules: no path of a rule is a proper prefix of
  the (normalised) code points of a pending text, no rule has an empty input, and a rule for a whole pending text
  leaves a shorter pending text.  The last part is for rules as in the romaji table that is shipped
  (\<open>data/preedit/romanji-hiragana.tsv\<close>): "www" has the pending text "ww", for which there is a rule with the pending text "w".
\<close>

definition norm_path :: "table \<Rightarrow> char32 list \<Rightarrow> char32 list" where
  "norm_path t cs = (if case_sensitive t then cs else map lower32 cs)"

definition quiet_table :: "table \<Rightarrow> bool" where
  "quiet_table t \<longleftrightarrow> rule_map t [] = None \<and>
     (\<forall>p e. rule_map t p = Some e \<longrightarrow>
        (\<exists>cs. e_pending e = utf8_text cs \<and> scalar_values cs \<and>
           (\<forall>q. strict_prefix q (norm_path t cs) \<longrightarrow> rule_map t q = None) \<and>
           (\<forall>e'. rule_map t (norm_path t cs) = Some e' \<longrightarrow> length (e_pending e') < length (e_pending e))))"

lemma quiet_no_empty_rule: "quiet_table t \<Longrightarrow> rule_map t [] = None"
  by (simp add: quiet_table_def)

lemma lower32_small: "c \<le> 0x10FFFF \<Longrightarrow> lower32 c < 0x80000000"
  by (simp add: lower32_def)

lemma normalize_text:
  "scalar_values cs \<Longrightarrow> normalize_input t (utf8_text cs @ s) = utf8_text (norm_path t cs) @ normalize_input t s"
  by (simp add: normalize_input_def norm_path_def lower_text_append del: map_map)

lemma length_normalize [simp]: "length (normalize_input t s) = length s"
  by (simp add: normalize_input_def length_lower_string)

lemma length_norm_text: "scalar_values cs \<Longrightarrow> length (utf8_text (norm_path t cs)) = length (utf8_text cs)"
  using normalize_text [of cs t "[]"] length_normalize [of t "utf8_text cs"]
  by (simp add: normalize_input_def lower_string.simps [of "[]"] split: if_splits)

lemma norm_path_small: "scalar_values cs \<Longrightarrow> \<forall>c \<in> set (norm_path t cs). c < 0x80000000"
  by (auto simp: norm_path_def lower32_small)

lemma table_lookup_prefix_found:
  assumes "table_lookup_prefix t key = (Some e, k, f)"
  obtains n where "n \<le> length (key_path (normalize_input t key))"
    and "rule_map t (take n (key_path (normalize_input t key))) = Some e"
    and "k = key_bytes (normalize_input t key) n"
proof -
  let ?key = "normalize_input t key"
  obtain n t' where w: "walk (entries t) (key_path ?key) = (n, t')" by (cases "walk (entries t) (key_path ?key)")
  from walk_node [OF w] assms w that show thesis
    by (fastforce simp: table_lookup_prefix_def trie_lookup_prefix_walk rule_map_def trie_map_def)
qed

lemma lookup_prefix_length_le:
  "table_lookup_prefix t key = (found, k, f) \<Longrightarrow> k \<le> length key"
  using key_bytes_le [of "normalize_input t key"]
  by (auto simp: table_lookup_prefix_def trie_lookup_prefix_walk split: prod.splits)

lemma quiet_lookup_beyond:
  assumes "quiet_table t" and "rule_map t p = Some e"
    and "table_lookup_prefix t (e_pending e @ rest) = (Some e', k, f)"
  shows "length (e_pending e) < k \<or> k = length (e_pending e) \<and> length (e_pending e') < length (e_pending e)"
proof -
  from assms(1,2) obtain cs where cs: "e_pending e = utf8_text cs" "scalar_values cs"
    and quiet: "\<And>q. strict_prefix q (norm_path t cs) \<Longrightarrow> rule_map t q = None"
    and shorter: "\<And>e'. rule_map t (norm_path t cs) = Some e' \<Longrightarrow> length (e_pending e') < length (e_pending e)"
    unfolding quiet_table_def by blast
  let ?ncs = "norm_path t cs" and ?rest = "normalize_input t rest"
  have norm: "normalize_input t (e_pending e @ rest) = utf8_text ?ncs @ ?rest"
    using cs normalize_text by simp
  have path: "key_path (utf8_text ?ncs @ ?rest) = ?ncs @ key_path ?rest"
    using key_path_text norm_path_small [OF cs(2)] by blast
  from table_lookup_prefix_found [OF assms(3)] obtain n where
    n: "n \<le> length (?ncs @ key_path ?rest)"
    and e': "rule_map t (take n (?ncs @ key_path ?rest)) = Some e'"
    and k: "k = key_bytes (utf8_text ?ncs @ ?rest) n"
    unfolding norm path by blast
  have "length ?ncs \<le> n"
  proof (rule ccontr)
    assume less: "\<not> length ?ncs \<le> n"
    then have "strict_prefix (take n (?ncs @ key_path ?rest)) ?ncs" by (auto simp: strict_prefix_def take_is_prefix)
    with quiet e' show False by simp
  qed
  then obtain m where m: "n = length ?ncs + m" using le_Suc_ex by blast
  have kl: "k = length (utf8_text ?ncs) + key_bytes ?rest m"
    unfolding k m by (rule key_bytes_text [OF norm_path_small [OF cs(2)]])
  have len: "length (utf8_text ?ncs) = length (e_pending e)" using cs length_norm_text [OF cs(2)] by simp
  show ?thesis
  proof (cases m)
    case 0
    then have "rule_map t ?ncs = Some e'" using e' m by simp
    from shorter [OF this] show ?thesis using kl len 0 by simp
  next
    case (Suc j)
    with n m have "?rest \<noteq> []" by auto
    then have "0 < key_bytes ?rest m" by (rule key_bytes_pos) (simp add: Suc)
    then show ?thesis using kl len by simp
  qed
qed

lemma is_looping_loop_quiet:
  assumes "quiet_table t" and "rule_map t p = Some e"
  shows "\<exists>b. is_looping_loop t input (e_pending e @ rest) = Some b"
  using assms(2)
proof (induction "(rest, e)" arbitrary: rest e p
    rule: wf_induct_rule [OF wf_measures [of "[\<lambda>(rest, e). length rest, \<lambda>(rest, e). length (e_pending e)]"], case_names less])
  case less
  let ?key = "e_pending e @ rest"
  obtain found k f where lk: "table_lookup_prefix t ?key = (found, k, f)"
    by (cases "table_lookup_prefix t ?key")
  show ?case
  proof (cases "prefix input ?key \<or> found = None")
    case True
    with lk show ?thesis by (subst is_looping_loop.simps) auto
  next
    case False
    then obtain e' where e': "found = Some e'" by auto
    from quiet_lookup_beyond [OF assms(1) less.prems lk [unfolded e']]
    have k: "length (e_pending e) < k \<or> k = length (e_pending e) \<and> length (e_pending e') < length (e_pending e)" .
    then have drop: "drop k ?key = drop (k - length (e_pending e)) rest" by auto
    from lookup_prefix_length_le [OF lk] k
    have shorter: "((drop (k - length (e_pending e)) rest, e'), (rest, e)) \<in>
        measures [\<lambda>(rest, e). length rest, \<lambda>(rest, e). length (e_pending e)]" by auto
    from table_lookup_prefix_found [OF lk [unfolded e']] obtain p' where "rule_map t p' = Some e'" by blast
    from less.hyps [OF shorter this] False lk e' drop show ?thesis
      by (subst is_looping_loop.simps) (auto simp: Let_def)
  qed
qed

lemma is_looping_entry_quiet:
  assumes "quiet_table t"
  shows "\<exists>b. is_looping_entry t input pending = Some b"
proof -
  obtain found k f where lk: "table_lookup_prefix t pending = (found, k, f)"
    by (cases "table_lookup_prefix t pending")
  have "\<exists>b. is_looping_loop t input pending = Some b"
  proof (cases "prefix input pending \<or> found = None")
    case True
    with lk show ?thesis by (subst is_looping_loop.simps) auto
  next
    case False
    then obtain e where e: "found = Some e" by auto
    from table_lookup_prefix_found [OF lk [unfolded e]] obtain p where "rule_map t p = Some e" by blast
    from is_looping_loop_quiet [OF assms this, of input "drop k pending"] False lk e show ?thesis
      by (subst is_looping_loop.simps) (auto simp: Let_def)
  qed
  then show ?thesis by (auto simp: is_looping_entry_def)
qed

section \<open>A rule that was added is found\<close>

text \<open>Code points on which the case normalisation and the deletion of special keys agree.\<close>

definition plain_codepoint :: "char32 \<Rightarrow> bool" where
  "plain_codepoint c \<longleftrightarrow> 0 < c \<and> c \<le> 0x10FFFF \<and> \<not> is_surrogate c \<and> c \<noteq> 0x0F \<and> \<not> (0xFF21 \<le> c \<and> c \<le> 0xFF3A)"

lemma plain_encodable: "plain_codepoint c \<Longrightarrow> encodable c \<and> c \<noteq> 0x0F \<and> c \<le> 0x10FFFF \<and> \<not> is_surrogate c"
  by (auto simp: plain_codepoint_def encodable_def)

lemma delete_special_keys_text:
  assumes "\<forall>c \<in> set cs. encodable c \<and> c \<noteq> 0x0F"
  shows "delete_special_keys (utf8_text cs) = utf8_text (List.filter (\<lambda>c. \<not> is_special_key c) cs)"
proof -
  let ?p = "\<lambda>c. \<not> is_special_key c"
  have "delete_blocks (utf8_text cs) = utf8_text cs"
    by (rule delete_blocks_plain) (rule text_no_open [OF assms])
  moreover have "utf8_to_utf32 (utf8_text cs) = cs"
    using utf32_of_text [of cs] assms by (auto simp: encodable_def)
  moreover have "List.filter ?p cs = cs" if "length (List.filter ?p cs) = length cs"
    using that by (metis filter_id_conv length_filter_less nat_less_le)
  moreover have "utf32_to_utf8 (List.filter ?p cs) = utf8_text (List.filter ?p cs)"
    using assms by (intro utf32_to_utf8_spec) auto
  ultimately show ?thesis by (auto simp: delete_special_keys_def Let_def)
qed

lemma has_large_capital_text:
  assumes "\<forall>c \<in> set cs. encodable c \<and> c \<noteq> 0x0F"
  shows "has_large_capital (utf8_text cs) \<longleftrightarrow> (\<exists>c \<in> set cs. 0x41 \<le> c \<and> c \<le> 0x5A)"
proof -
  let ?f = "List.filter (\<lambda>c. \<not> is_special_key c) cs"
  have "utf8_to_utf32 (utf8_text ?f) = ?f"
    using utf32_of_text [of ?f] assms by (auto simp: encodable_def)
  then have "has_large_capital (utf8_text cs) \<longleftrightarrow> (\<exists>c \<in> set ?f. 0x41 \<le> c \<and> c \<le> 0x5A)"
    by (simp add: has_large_capital_def delete_special_keys_text [OF assms] list_ex_iff)
  then show ?thesis by (auto simp: special_range)
qed

lemma normalize_stored:
  assumes "insert_rule t (utf8_text cs) out p attributes = (e, t')" and "\<forall>c \<in> set cs. plain_codepoint c"
  shows "normalize_input t' (utf8_text cs) = utf8_text cs"
proof (cases "case_sensitive t'")
  case False
  have enc: "\<forall>c \<in> set cs. encodable c \<and> c \<noteq> 0x0F" using assms(2) plain_encodable by blast
  have "\<not> has_large_capital (utf8_text cs)" using False insert_rule_simps(5) [OF assms(1)] by simp
  with has_large_capital_text [OF enc] have "\<forall>c \<in> set cs. lower32 c = c"
    using assms(2) by (auto simp: lower32_def plain_codepoint_def)
  then have "map lower32 cs = cs" by (simp add: map_idI)
  moreover have "scalar_values cs" using assms(2) plain_encodable by blast
  ultimately show ?thesis using False lower_text [of cs] by (simp add: normalize_input_def del: map_map)
qed (simp add: normalize_input_def)

section \<open>Tables of plain rules\<close>

abbreviation ascii :: "bytes \<Rightarrow> bool" where
  "ascii s \<equiv> list_all (\<lambda>c. ord_of c < 0x80) s"

lemma ascii_text: "ascii s \<Longrightarrow> s = utf8_text (map of_char s)"
  by (induction s) (auto simp: utf8_spec_def)

lemma ascii_key_path: "ascii s \<Longrightarrow> key_path s = map of_char s"
proof -
  assume a: "ascii s"
  then have "\<forall>c \<in> set (map of_char s :: char32 list). c < 0x80000000" by (fastforce simp: list_all_iff)
  from key_path_text [OF this, of "[]"] ascii_text [OF a] show ?thesis by simp
qed

lemma ascii_lower: "ascii s \<Longrightarrow> \<forall>c \<in> set s. \<not> (0x41 \<le> ord_of c \<and> ord_of c \<le> 0x5A) \<Longrightarrow> lower_string s = s"
proof -
  assume a: "ascii s" and nc: "\<forall>c \<in> set s. \<not> (0x41 \<le> ord_of c \<and> ord_of c \<le> 0x5A)"
  have "scalar_values (map of_char s)" using a by (auto simp: list_all_iff is_surrogate_def)
  from lower_text [OF this] ascii_text [OF a]
  have "lower_string s = utf8_text (map lower32 (map of_char s))" by simp
  moreover have "map lower32 (map of_char s) = map of_char s"
    using a nc by (auto simp: lower32_def list_all_iff)
  ultimately show ?thesis using ascii_text [OF a] by metis
qed

lemma ascii_capital:
  assumes "ascii s" and "\<forall>c \<in> set s. 0x20 \<le> ord_of c"
  shows "has_large_capital s \<longleftrightarrow> (\<exists>c \<in> set s. 0x41 \<le> ord_of c \<and> ord_of c \<le> 0x5A)"
proof -
  have "\<forall>c \<in> set (map of_char s). encodable c \<and> c \<noteq> 0x0F"
    using assms by (fastforce simp: encodable_def list_all_iff)
  from has_large_capital_text [OF this] ascii_text [OF assms(1)] show ?thesis by simp
qed

lemma add_rule_plain:
  assumes "CHR ''{'' \<notin> set i" and "CHR ''{'' \<notin> set p" and "is_looping_entry t i p = Some False"
    and "length i < 300" and "length out < 300" and "length p < 300"
  shows "add_rule t i out p = (case insert_rule t i out p NO_TABLE_ATTRIBUTE of (e, t') \<Rightarrow> Some (Some e, t'))"
  unfolding add_rule_def using assms
  by (subst add_rule_with_attributes.simps)
    (simp add: register_plain has_attribute_def NO_TABLE_ATTRIBUTE_def kMaxSize_def)

lemma is_looping_entry_trivial [simp]:
  "is_looping_entry t i [] = Some False" "is_looping_entry t [] p = Some False"
  by (simp_all add: is_looping_entry_def)

lemma is_looping_loop_diverges:
  assumes "\<And>k. k \<in> S \<Longrightarrow> k \<noteq> [] \<and> \<not> prefix input k \<and>
      (\<exists>e n f. table_lookup_prefix t k = (Some e, n, f) \<and> e_pending e @ drop n k \<in> S)"
    and "key \<in> S"
  shows "is_looping_loop t input key = None"
proof (rule ccontr)
  assume "is_looping_loop t input key \<noteq> None"
  then obtain b where b: "is_looping_loop t input key = Some b" by auto
  have "t = t \<longrightarrow> input = input \<longrightarrow> key \<notin> S"
  proof (rule is_looping_loop.raw_induct [OF _ b, where P = "\<lambda>t' i k b. t' = t \<longrightarrow> i = input \<longrightarrow> k \<notin> S"],
      intro impI notI, goal_cases step)
    case (step loop t' i k b)
    from assms(1) [OF step(5)] obtain e n f where
      "table_lookup_prefix t k = (Some e, n, f)" "e_pending e @ drop n k \<in> S" "\<not> prefix input k" by blast
    moreover from assms(1) [OF this(2)] have "e_pending e @ drop n k \<noteq> []" by blast
    ultimately have "loop t input (e_pending e @ drop n k) = Some b"
      using step(2-4) by (simp add: Let_def)
    from step(1) [OF this] \<open>e_pending e @ drop n k \<in> S\<close> show False by simp
  qed
  with assms(2) show False by simp
qed

lemma load_two_fields:
  assumes "CHR ''{'' \<notin> set i" and "length i < 300" and "length out < 300"
  shows "add_rule t i out [] = Some (map_prod Some id (insert_rule t i out [] NO_TABLE_ATTRIBUTE))"
  by (subst add_rule_plain) (use assms in \<open>simp_all add: map_prod_def split: prod.splits\<close>)

lemma chr_control: "chr_of 0x09 = CHR 0x09" "chr_of 0x0A = CHR 0x0A"
  by code_simp+

section \<open>A part of the shipped romaji table\<close>

text \<open>
  Lines 46, 47 and 192 of \<open>data/preedit/romanji-hiragana.tsv\<close>, the first two with the pending texts "w" and "ww".
\<close>

definition romaji_lines :: bytes where
  "romaji_lines = ''ww'' @ chr_of 0x09 # map chr_of [0xE3, 0x81, 0xA3] @ chr_of 0x09 # ''w'' @ chr_of 0x0A #
     ''www'' @ chr_of 0x09 # ''w'' @ chr_of 0x09 # ''ww'' @ chr_of 0x0A #
     ''ka'' @ chr_of 0x09 # map chr_of [0xE3, 0x81, 0x8B] @ [chr_of 0x0A]"

definition ww_entry :: entry where
  "ww_entry = \<lparr>e_input = ''ww'', e_result = map chr_of [0xE3, 0x81, 0xA3], e_pending = ''w'', e_attributes = 0\<rparr>"

definition www_entry :: entry where
  "www_entry = \<lparr>e_input = ''www'', e_result = ''w'', e_pending = ''ww'', e_attributes = 0\<rparr>"

definition ka_entry :: entry where
  "ka_entry = \<lparr>e_input = ''ka'', e_result = map chr_of [0xE3, 0x81, 0x8B], e_pending = [], e_attributes = 0\<rparr>"

lemmas romaji_entry_defs = ww_entry_def www_entry_def ka_entry_def

definition romaji_excerpt :: table where
  "romaji_excerpt = new_table
     \<lparr>entries := add_entry (add_entry (add_entry empty_trie ''ww'' ww_entry) ''www'' www_entry) ''ka'' ka_entry,
      entry_set := [ww_entry, www_entry, ka_entry]\<rparr>"

lemma insert_plain:
  assumes "trie_lookup (entries t) i = None" and "\<not> case_sensitive t"
    and "list_all (\<lambda>c. 0x61 \<le> ord_of c \<and> ord_of c \<le> 0x7A) i"
  shows "insert_rule t i out p attributes =
    (\<lparr>e_input = i, e_result = out, e_pending = p, e_attributes = attributes\<rparr>,
     t\<lparr>entries := add_entry (entries t) i \<lparr>e_input = i, e_result = out, e_pending = p, e_attributes = attributes\<rparr>,
       entry_set := entry_set t @ [\<lparr>e_input = i, e_result = out, e_pending = p, e_attributes = attributes\<rparr>]\<rparr>)"
proof -
  have "ascii i" "\<forall>c \<in> set i. 0x20 \<le> ord_of c" "\<not> (\<exists>c \<in> set i. 0x41 \<le> ord_of c \<and> ord_of c \<le> 0x5A)"
    using assms(3) by (fastforce simp: list_all_iff)+
  with ascii_capital [of i] have "\<not> has_large_capital i" by simp
  with assms(1,2) show ?thesis by (simp add: insert_rule_def Let_def)
qed

lemma small_letters:
  assumes "list_all (\<lambda>c. 0x61 \<le> ord_of c \<and> ord_of c \<le> 0x7A) s"
  shows "normalize_input t s = s"
proof -
  have "ascii s" "\<forall>c \<in> set s. \<not> (0x41 \<le> ord_of c \<and> ord_of c \<le> 0x5A)"
    using assms by (fastforce simp: list_all_iff)+
  from ascii_lower [OF this] show ?thesis by (simp add: normalize_input_def)
qed

lemma ww_trie:
  "trie_lookup_prefix (add_entry empty_trie ''ww'' e) ''ww'' = (Some (e :: entry), 2, True)"
  "trie_lookup_prefix (add_entry empty_trie ''ww'' e) ''w'' = (None :: entry option, 1, True)"
  "trie_lookup (add_entry empty_trie ''ww'' e) ''www'' = (None :: entry option)"
  "trie_lookup (add_entry (add_entry empty_trie ''ww'' e) ''www'' e') ''ka'' = (None :: entry option)"
  by code_simp+

lemma romaji_excerpt_loads: "load_from_string new_table romaji_lines = Some romaji_excerpt"
proof -
  let ?l1 = "''ww'' @ chr_of 0x09 # map chr_of [0xE3, 0x81, 0xA3] @ chr_of 0x09 # ''w''"
    and ?l2 = "''www'' @ chr_of 0x09 # ''w'' @ chr_of 0x09 # ''ww''"
    and ?l3 = "''ka'' @ chr_of 0x09 # map chr_of [0xE3, 0x81, 0x8B]"
  let ?t1 = "new_table\<lparr>entries := add_entry empty_trie ''ww'' ww_entry, entry_set := [ww_entry]\<rparr>"
  have lines: "str_split (chr_of 0x0A) romaji_lines = [?l1, ?l2, ?l3, []]"
    and chop: "snd (chop_returns ?l1) = ?l1" "snd (chop_returns ?l2) = ?l2" "snd (chop_returns ?l3) = ?l3"
      "snd (chop_returns []) = []"
    and fields: "str_split (chr_of 0x09) ?l1 = [''ww'', map chr_of [0xE3, 0x81, 0xA3], ''w'']"
      "str_split (chr_of 0x09) ?l2 = [''www'', ''w'', ''ww'']"
      "str_split (chr_of 0x09) ?l3 = [''ka'', map chr_of [0xE3, 0x81, 0x8B]]"
    by code_simp+
  let ?t2 = "?t1\<lparr>entries := add_entry (entries ?t1) ''www'' www_entry, entry_set := [ww_entry, www_entry]\<rparr>"
  have "trie_lookup_prefix (empty_trie :: entry trie) ''w'' = (None, 0, True)" "trie_lookup (empty_trie :: entry trie) ''ww'' = None"
    by code_simp+
  then have "is_looping_entry new_table ''ww'' ''w'' = Some False" "trie_lookup (empty_trie :: entry trie) ''ww'' = None"
    by (simp_all add: is_looping_entry_def is_looping_loop.simps table_lookup_prefix_def small_letters)
  then have r1: "add_rule new_table ''ww'' (map chr_of [0xE3, 0x81, 0xA3]) ''w'' = Some (Some ww_entry, ?t1)"
    by (subst add_rule_plain) (simp_all add: insert_plain NO_TABLE_ATTRIBUTE_def romaji_entry_defs)
  have "trie_lookup_prefix (entries ?t1) ''ww'' = (Some ww_entry, 2, True)"
    "trie_lookup_prefix (entries ?t1) ''w'' = (None, 1, True)" "trie_lookup (entries ?t1) ''www'' = None"
    using ww_trie by simp_all
  then have "is_looping_entry ?t1 ''www'' ''ww'' = Some False" "trie_lookup (entries ?t1) ''www'' = None"
    by (simp_all add: is_looping_entry_def is_looping_loop.simps table_lookup_prefix_def small_letters ww_entry_def)
  then have r2: "add_rule ?t1 ''www'' ''w'' ''ww'' = Some (Some www_entry, ?t2)"
    by (subst add_rule_plain) (simp_all add: insert_plain NO_TABLE_ATTRIBUTE_def romaji_entry_defs)
  have "trie_lookup (entries ?t2) ''ka'' = None" using ww_trie by simp
  then have r3: "add_rule ?t2 ''ka'' (map chr_of [0xE3, 0x81, 0x8B]) [] = Some (Some ka_entry, romaji_excerpt)"
    by (subst add_rule_plain) (simp_all add: insert_plain NO_TABLE_ATTRIBUTE_def romaji_excerpt_def romaji_entry_defs)
  have "load_line ?l1 new_table = Some ?t1" using r1 unfolding load_line_def Let_def chop fields by simp
  moreover have "load_line ?l2 ?t1 = Some ?t2" using r2 unfolding load_line_def Let_def chop fields by simp
  moreover have "load_line ?l3 ?t2 = Some romaji_excerpt" using r3 unfolding load_line_def Let_def chop fields by simp
  moreover have "load_line [] romaji_excerpt = Some romaji_excerpt" unfolding load_line_def Let_def chop by simp
  ultimately show ?thesis unfolding load_from_string_def lines load_lines.simps by simp
qed

lemma romaji_excerpt_rules:
  "rule_map romaji_excerpt = [[119, 119] \<mapsto> ww_entry, [119, 119, 119] \<mapsto> www_entry, [107, 97] \<mapsto> ka_entry]"
proof -
  have "key_path ''ww'' = [119, 119]" "key_path ''www'' = [119, 119, 119]" "key_path ''ka'' = [107, 97]"
    by code_simp+
  then show ?thesis by (intro ext) (simp add: rule_map_def romaji_excerpt_def trie_map_add)
qed

lemma romaji_excerpt_quiet: "quiet_table romaji_excerpt"
proof -
  have insensitive: "\<not> case_sensitive romaji_excerpt" by (simp add: romaji_excerpt_def)
  have w: "utf8_text [119] = ''w''" "utf8_text [119, 119] = ''ww''" by code_simp+
  show ?thesis
    unfolding quiet_table_def
  proof (intro conjI allI impI)
    show "rule_map romaji_excerpt [] = None" by (simp add: romaji_excerpt_rules)
    fix p e
    assume "rule_map romaji_excerpt p = Some e"
    then consider "e = ww_entry" | "e = www_entry" | "e = ka_entry"
      by (auto simp: romaji_excerpt_rules split: if_splits)
    then show "\<exists>cs. e_pending e = utf8_text cs \<and> scalar_values cs \<and>
        (\<forall>q. strict_prefix q (norm_path romaji_excerpt cs) \<longrightarrow> rule_map romaji_excerpt q = None) \<and>
        (\<forall>e'. rule_map romaji_excerpt (norm_path romaji_excerpt cs) = Some e' \<longrightarrow>
           length (e_pending e') < length (e_pending e))"
    proof cases
      case 1
      with w insensitive show ?thesis
        by (intro exI [of _ "[119]"])
          (auto simp: norm_path_def lower32_def is_surrogate_def romaji_excerpt_rules romaji_entry_defs strict_prefix_def prefix_Cons)
    next
      case 2
      with w insensitive show ?thesis
        by (intro exI [of _ "[119, 119]"])
          (auto simp: norm_path_def lower32_def is_surrogate_def romaji_excerpt_rules romaji_entry_defs strict_prefix_def prefix_Cons)
    next
      case 3
      then show ?thesis by (intro exI [of _ "[]"]) (auto simp: romaji_excerpt_rules romaji_entry_defs norm_path_def)
    qed
  qed
qed

section \<open>Properties\<close>

text \<open>
  C22: the table invariant (one child per code point, registered special keys numbered in order,
  every entry reachable in the trie alive and filed under its own input) holds of a new table and
  is kept by every sequence of operations that returns: adding rules, loading them from strings and files,
  initialising for a configuration, and \<open>DeleteRule\<close> (with one condition: in a table that only has a rule of empty input,
  deleting this rule frees its entry and leaves it in the trie, \<open>delete_root_rule_dangles\<close>).
\<close>

theorem table_invariant:
  assumes "table_ok t" and "(table_step files)\<^sup>*\<^sup>* t t'"
  shows "table_ok new_table \<and> table_ok t'"
  using table_steps_ok [OF assms(2,1)] by simp

theorem table_invariant_witness:
  "table_ok new_table \<and> table_ok (delete_rule romaji_excerpt ''ka'') \<and>
   rule_map romaji_excerpt [107, 97] = Some ka_entry \<and> rule_map romaji_excerpt [119, 119, 119] = Some www_entry"
proof -
  let ?files = "\<lambda>f. if f = ''romaji.tsv'' then Some romaji_lines else None"
  have "load_from_file ?files new_table ''romaji.tsv'' = Some (True, romaji_excerpt)"
    by (simp add: load_from_file_def romaji_excerpt_loads)
  then have "table_step ?files new_table romaji_excerpt" by (rule table_step.load_file)
  moreover have "table_step ?files romaji_excerpt (delete_rule romaji_excerpt ''ka'')"
    by (rule table_step.delete) simp
  ultimately have "(table_step ?files)\<^sup>*\<^sup>* new_table (delete_rule romaji_excerpt ''ka'')" by simp
  from table_invariant [OF new_table_ok this] show ?thesis by (simp add: romaji_excerpt_rules)
qed

text \<open>
  C23: an added rule is found.  When \<open>AddRule\<close> returns an entry whose input is ordinary text
  (no control character 0x0F and no full-width capital), \<open>LookUp\<close> of that input returns exactly
  this entry, in a case-sensitive table or not, and the rules of all other inputs are untouched.
\<close>

theorem added_rule_is_found:
  assumes "add_rule t i out p = Some (Some e, t')" and "e_input e = utf8_text cs"
    and "\<forall>c \<in> set cs. plain_codepoint c"
  shows "table_lookup t' (e_input e) = Some e \<and> e_result e = out \<and>
    rule_map t' = (rule_map t)(cs \<mapsto> e)"
  using assms(1) unfolding add_rule_def
proof (cases rule: add_rule_cases)
  case (added t1 input t2 pending t3 e')
  have "t1 = t" using added(2) by (simp add: has_attribute_def NO_TABLE_ATTRIBUTE_def)
  then have rm: "rule_map t3 = rule_map t"
    using register_in_table_simps [OF added(3)] register_in_table_simps [OF added(4)] by (simp add: rule_map_def)
  note ins = insert_rule_simps [OF added(6)]
  from added(1) ins(2) assms(2) have e: "e' = e" "input = utf8_text cs" "e_result e = out" by simp_all
  have kp: "key_path input = cs"
    using key_path_text [of cs "[]"] assms(3) e(2) plain_encodable
    by (force simp: encodable_def)
  have "normalize_input t' input = input"
    using normalize_stored [OF added(6) [unfolded e(2)] assms(3)] e(2) by simp
  then have "table_lookup t' (e_input e) = rule_map t' cs"
    using assms(2) e(2) kp by (simp add: table_lookup_def trie_lookup_map rule_map_def)
  with ins(1) kp rm e show ?thesis by simp
qed simp_all

text \<open>
  C24: what \<open>IsLoopingEntry\<close> decides.  In a table where no rule applies inside a pending text (and a rule for a
  whole pending text shortens it) it always returns, and it returns true exactly if rewriting the pending text by the rules of the
  table reaches a text that starts with the input.
\<close>

theorem is_looping_entry_decides:
  assumes "quiet_table t" and "input \<noteq> []" and "pending \<noteq> []"
  shows "is_looping_entry t input pending =
    Some (\<exists>k. (pending_step t)\<^sup>*\<^sup>* pending k \<and> prefix input k)"
proof -
  from is_looping_entry_quiet [OF assms(1)] obtain b where
    b: "is_looping_entry t input pending = Some b" by blast
  with assms(2,3) have "is_looping_loop t input pending = Some b" by (simp add: is_looping_entry_def)
  from is_looping_loop_spec [OF this] assms(2,3) b show ?thesis by simp
qed

theorem added_rule_is_found_witness:
  "table_lookup (snd (insert_rule new_table ''a'' ''x'' [] 0)) (e_input (fst (insert_rule new_table ''a'' ''x'' [] 0))) =
     Some (fst (insert_rule new_table ''a'' ''x'' [] 0)) \<and>
   e_result (fst (insert_rule new_table ''a'' ''x'' [] 0)) = ''x'' \<and>
   rule_map (snd (insert_rule new_table ''a'' ''x'' [] 0)) =
     (rule_map new_table)([97] \<mapsto> fst (insert_rule new_table ''a'' ''x'' [] 0))"
proof (rule added_rule_is_found)
  show "add_rule new_table ''a'' ''x'' [] =
      Some (Some (fst (insert_rule new_table ''a'' ''x'' [] 0)), snd (insert_rule new_table ''a'' ''x'' [] 0))"
    by (subst load_two_fields) (simp_all add: NO_TABLE_ATTRIBUTE_def map_prod_def split: prod.splits)
  have "utf8_text [97] = ''a''" by code_simp
  then show "e_input (fst (insert_rule new_table ''a'' ''x'' [] 0)) = utf8_text [97]"
    by (simp add: insert_rule_def Let_def)
qed (simp add: plain_codepoint_def is_surrogate_def)

theorem is_looping_entry_decides_witness:
  "quiet_table romaji_excerpt \<and> is_looping_entry romaji_excerpt ''ka'' ''wwww'' =
    Some (\<exists>k. (pending_step romaji_excerpt)\<^sup>*\<^sup>* ''wwww'' k \<and> prefix ''ka'' k)"
  using is_looping_entry_decides [of romaji_excerpt "''ka''" "''wwww''"] romaji_excerpt_quiet by simp

text \<open>
  C39: a table file with a rule of empty input is accepted, and hangs the loader.  Its entry sits
  at the root of the trie and matches every text with length 0, so the loop check of the next rule
  that has a pending text never ends.
\<close>

theorem empty_rule_hangs_loader:
  "load_from_string new_table (kNewChunkPrefix @ ''x'' @ [chr_of 0x0A] @ ''a'' @ kNewChunkPrefix @ kNewChunkPrefix @ ''b'') = None"
proof -
  let ?file = "kNewChunkPrefix @ ''x'' @ [chr_of 0x0A] @ ''a'' @ kNewChunkPrefix @ kNewChunkPrefix @ ''b''"
  have lines: "str_split (chr_of 0x0A) ?file = [kNewChunkPrefix @ ''x'', ''a'' @ kNewChunkPrefix @ kNewChunkPrefix @ ''b'']"
    and chop: "snd (chop_returns (kNewChunkPrefix @ ''x'')) = kNewChunkPrefix @ ''x''"
      "snd (chop_returns (''a'' @ kNewChunkPrefix @ kNewChunkPrefix @ ''b'')) = ''a'' @ kNewChunkPrefix @ kNewChunkPrefix @ ''b''"
    and fields: "str_split (chr_of 0x09) (kNewChunkPrefix @ ''x'') = [[], ''x'']"
      "str_split (chr_of 0x09) (''a'' @ kNewChunkPrefix @ kNewChunkPrefix @ ''b'') = [''a'', [], ''b'']"
    by code_simp+
  obtain e t where i: "insert_rule new_table [] ''x'' [] NO_TABLE_ATTRIBUTE = (e, t)"
    by (cases "insert_rule new_table [] ''x'' [] NO_TABLE_ATTRIBUTE")
  have first: "add_rule new_table [] ''x'' [] = Some (Some e, t)"
    using load_two_fields [of "[]" "''x''" new_table] i by simp
  have entries: "entries t = Trie (Some e) []" and pending: "e_pending e = []"
    using insert_rule_simps [OF i] by (simp_all add: add_entry.simps empty_trie_def)
  have "table_lookup_prefix t ''b'' = (Some e, 0, True)"
    by (cases "normalize_input t ''b'' = []")
      (auto simp: table_lookup_prefix_def entries trie_lookup_prefix.simps find_sub_trie_def split: prod.splits)
  then have "is_looping_loop t ''a'' ''b'' = None"
    by (intro is_looping_loop_diverges [of "{''b''}"]) (auto simp: pending)
  then have second: "add_rule t ''a'' [] ''b'' = None"
    unfolding add_rule_def
    by (subst add_rule_with_attributes.simps)
      (simp add: register_plain has_attribute_def NO_TABLE_ATTRIBUTE_def kMaxSize_def is_looping_entry_def)
  have "load_line (kNewChunkPrefix @ ''x'') new_table = Some t"
    using first by (simp add: load_line_def chop fields Let_def)
  moreover have "load_line (''a'' @ kNewChunkPrefix @ kNewChunkPrefix @ ''b'') t = None"
    using second unfolding load_line_def Let_def chop fields by simp
  ultimately show ?thesis unfolding load_from_string_def lines by simp
qed

text \<open>
  C40: the loop check is incomplete.  The rules "bc" to pending "ac" and "a" to pending "b" are
  both accepted, although together they rewrite "ac" to "bc" and back; the loop check of any
  further rule whose pending text is "ac" does not return.
\<close>

theorem accepted_rules_can_loop:
  "\<exists>e1 t1 e2 t2. add_rule new_table ''bc'' [] ''ac'' = Some (Some e1, t1) \<and>
     add_rule t1 ''a'' [] ''b'' = Some (Some e2, t2) \<and> is_looping_entry t2 ''z'' ''ac'' = None"
proof -
  have kp: "key_path ''a'' = [97]" "key_path ''b'' = [98]" "key_path ''ac'' = [97, 99]" "key_path ''bc'' = [98, 99]"
    by (simp_all add: ascii_key_path)
  have kb: "key_bytes ''ac'' 1 = 1" "key_bytes ''bc'' 2 = 2"
    by (simp_all add: split_first_ascii numeral_2_eq_2)
  have low: "lower_string ''ac'' = ''ac''" "lower_string ''bc'' = ''bc''" "lower_string ''b'' = ''b''"
    by (simp_all add: ascii_lower)
  have cap: "\<not> has_large_capital ''bc''" "\<not> has_large_capital ''a''"
    by (simp_all add: ascii_capital)
  obtain e1 t1 where i1: "insert_rule new_table ''bc'' [] ''ac'' NO_TABLE_ATTRIBUTE = (e1, t1)"
    by (cases "insert_rule new_table ''bc'' [] ''ac'' NO_TABLE_ATTRIBUTE")
  obtain e2 t2 where i2: "insert_rule t1 ''a'' [] ''b'' NO_TABLE_ATTRIBUTE = (e2, t2)"
    by (cases "insert_rule t1 ''a'' [] ''b'' NO_TABLE_ATTRIBUTE")
  note s1 = insert_rule_simps [OF i1] and s2 = insert_rule_simps [OF i2]
  have cs: "\<not> case_sensitive t1" "\<not> case_sensitive t2" using s1(5) s2(5) cap by simp_all
  have e1: "e_pending e1 = ''ac''" and e2: "e_pending e2 = ''b''" using s1(2) s2(2) by simp_all
  have t1: "entries t1 = Trie None [(98, Trie None [(99, Trie (Some e1) [])])]"
    using s1(4) by (simp add: add_entry.simps find_sub_trie_def empty_trie_def split_first_ascii Let_def)
  then have t2: "entries t2 = Trie None [(98, Trie None [(99, Trie (Some e1) [])]), (97, Trie (Some e2) [])]"
    using s2(4) by (simp add: add_entry.simps find_sub_trie_def empty_trie_def split_first_ascii Let_def)
  have l0: "table_lookup_prefix new_table ''ac'' = (None, 0, True)"
    by (simp add: table_lookup_prefix_def trie_lookup_prefix_walk normalize_input_def low kp empty_trie_def)
  have "is_looping_entry new_table ''bc'' ''ac'' = Some False"
    by (simp add: is_looping_entry_def is_looping_loop.simps l0)
  then have r1: "add_rule new_table ''bc'' [] ''ac'' = Some (Some e1, t1)"
    using add_rule_plain [of "''bc''" "''ac''" new_table "[]"] i1 by simp
  have l1: "table_lookup_prefix t1 ''b'' = (None, key_bytes ''b'' 1, True)"
    by (simp add: table_lookup_prefix_def trie_lookup_prefix_walk normalize_input_def low kp cs t1)
  have "is_looping_entry t1 ''a'' ''b'' = Some False"
    by (simp add: is_looping_entry_def is_looping_loop.simps l1)
  then have r2: "add_rule t1 ''a'' [] ''b'' = Some (Some e2, t2)"
    using add_rule_plain [of "''a''" "''b''" t1 "[]"] i2 by simp
  have la: "table_lookup_prefix t2 ''ac'' = (Some e2, 1, True)" and lb: "table_lookup_prefix t2 ''bc'' = (Some e1, 2, True)"
    using kb by (simp_all add: table_lookup_prefix_def trie_lookup_prefix_walk normalize_input_def low kp cs t2 numeral_2_eq_2)
  have "is_looping_loop t2 ''z'' ''ac'' = None"
    by (rule is_looping_loop_diverges [of "{''ac'', ''bc''}"]) (auto simp: la lb e1 e2)
  then have "is_looping_entry t2 ''z'' ''ac'' = None" by (simp add: is_looping_entry_def)
  with r1 r2 show ?thesis by blast
qed

text \<open>
  \<open>LookUp\<close> lowers full-width capitals, but only ASCII capitals make a table case-sensitive:
  a rule for the full-width letter A is added and cannot be found.
\<close>

theorem fullwidth_capital_rule_lost:
  "\<exists>e t. add_rule new_table (utf8_text [0xFF21]) ''x'' [] = Some (Some e, t) \<and>
     e_input e = utf8_text [0xFF21] \<and> table_lookup t (utf8_text [0xFF21]) = None"
proof -
  let ?i = "utf8_text [0xFF21]"
  obtain e t where i: "insert_rule new_table ?i ''x'' [] NO_TABLE_ATTRIBUTE = (e, t)"
    by (cases "insert_rule new_table ?i ''x'' [] NO_TABLE_ATTRIBUTE")
  have len: "length ?i < 300" by (simp add: utf8_spec_def)
  have plain: "CHR ''{'' \<notin> set ?i" by (simp add: utf8_spec_def trail_numeral trail_one) code_simp
  have enc: "\<forall>c \<in> set [0xFF21]. encodable c \<and> c \<noteq> 0x0F" by (simp add: encodable_def)
  have cs: "\<not> case_sensitive t"
    using insert_rule_simps(5) [OF i] has_large_capital_text [OF enc] by simp
  have kp: "key_path (utf8_text [c]) = [c]" if "c < 0x80000000" for c
    using key_path_text [of "[c]" "[]"] that by simp
  have low: "lower_string ?i = utf8_text [0xFF41]"
    using lower_text [of "[0xFF21]"] by (simp add: is_surrogate_def lower32_def)
  have "table_lookup t ?i = rule_map t [0xFF41]"
    using cs low kp [of "0xFF41"] by (simp add: table_lookup_def normalize_input_def trie_lookup_map rule_map_def)
  also have "\<dots> = None"
    using insert_rule_simps(1) [OF i] kp [of "0xFF21"] by (simp add: rule_map_def empty_trie_def)
  finally have "table_lookup t ?i = None" .
  moreover have "add_rule new_table ?i ''x'' [] = Some (Some e, t)"
    using load_two_fields [OF plain len, of "''x''" new_table] i by simp
  ultimately show ?thesis using insert_rule_simps(2) [OF i] by auto
qed

section \<open>The cache\<close>





















text \<open>
  If the special table has no file that opens, the cache is stale.  \<open>GODAN_TO_HALFWIDTHASCII\<close> is a special table
  without a file, so a table is built from the custom rules, but the cache key leaves them out:
  after one config was served, a config without the custom rules still gets them.
\<close>

definition godan_config :: "bytes option \<Rightarrow> table_config" where
  "godan_config custom = \<lparr>special_romanji = GODAN_TO_HALFWIDTHASCII, preedit = ROMAN,
     punctuation = TOUTEN_KUTEN, symbols = CORNER_BRACKET_MIDDLE_DOT, custom_roman_table = custom\<rparr>"

lemma init_symbol_frame:
  assumes "ascii key" and "\<forall>c \<in> set key. 0x20 \<le> ord_of c \<and> ord_of c < 0x41 \<or> 0x5B \<le> ord_of c \<and> ord_of c < 0x60"
    and "length key < 300" and "length output < 300"
  shows "\<exists>t'. init_symbol key guard output t = Some t' \<and> case_sensitive t' = case_sensitive t \<and>
    (\<forall>p. p \<noteq> map of_char key \<longrightarrow> rule_map t' p = rule_map t p)"
proof -
  have cap: "\<not> has_large_capital key" using assms(1,2) by (subst ascii_capital) auto
  have brace: "CHR ''{'' \<notin> set key" using assms(2) by auto
  obtain e t' where i: "insert_rule t key output [] NO_TABLE_ATTRIBUTE = (e, t')"
    by (cases "insert_rule t key output [] NO_TABLE_ATTRIBUTE")
  have "add_rule t key output [] = Some (Some e, t')"
    using load_two_fields [OF brace assms(3,4)] i by simp
  then show ?thesis
    using insert_rule_simps [OF i] cap ascii_key_path [OF assms(1)]
    by (auto simp: init_symbol_def Let_def split: option.splits)
qed

lemma init_symbols_frame:
  assumes "p \<notin> {[44], [46], [47], [91], [93]}"
  shows "\<exists>t'. init_symbols punct sy t = Some t' \<and> case_sensitive t' = case_sensitive t \<and>
    rule_map t' p = rule_map t p"
proof -
  have len: "length (if b then x else y) < 300" if "length x < 300" "length y < 300" for b and x y :: bytes
    using that by simp
  have lens: "length kComma < 300" "length kKuten < 300" "length kPeriod < 300" "length kTouten < 300"
    "length kSlash < 300" "length kMiddleDot < 300" "length kCornerOpen < 300" "length kSquareOpen < 300"
    "length kCornerClose < 300" "length kSquareClose < 300"
    by (simp_all add: kComma_def kKuten_def kPeriod_def kTouten_def kSlash_def kMiddleDot_def
        kCornerOpen_def kSquareOpen_def kCornerClose_def kSquareClose_def)
  have frame: "\<exists>t'. init_symbol key guard (if b then x else y) t = Some t' \<and>
      case_sensitive t' = case_sensitive t \<and> rule_map t' p = rule_map t p"
    if "key \<in> {'','', ''.'', ''/'', ''['', '']''}" "length x < 300" "length y < 300" for key guard b x y t
    using that assms init_symbol_frame [of key "if b then x else y" guard t] len [OF that(2,3), of b]
    by auto
  let ?cp = "punct = COMMA_PERIOD" and ?ss = "sy = SQUARE_BRACKET_SLASH"
    and ?cs = "sy = CORNER_BRACKET_SLASH" and ?cm = "sy = CORNER_BRACKET_MIDDLE_DOT"
  from frame [of "'',''" kComma kKuten kKuten "?cp \<or> punct = COMMA_KUTEN" t] lens obtain t1 where
    t1: "init_symbol '','' kKuten (if ?cp \<or> punct = COMMA_KUTEN then kComma else kKuten) t = Some t1"
      "case_sensitive t1 = case_sensitive t" "rule_map t1 p = rule_map t p" by auto
  from frame [of "''.''" kPeriod kTouten kTouten "?cp \<or> punct = TOUTEN_PERIOD" t1] lens obtain t2 where
    t2: "init_symbol ''.'' kTouten (if ?cp \<or> punct = TOUTEN_PERIOD then kPeriod else kTouten) t1 = Some t2"
      "case_sensitive t2 = case_sensitive t1" "rule_map t2 p = rule_map t1 p" by auto
  from frame [of "''/''" kSlash kMiddleDot kMiddleDot "?ss \<or> ?cs" t2] lens obtain t3 where
    t3: "init_symbol ''/'' kMiddleDot (if ?ss \<or> ?cs then kSlash else kMiddleDot) t2 = Some t3"
      "case_sensitive t3 = case_sensitive t2" "rule_map t3 p = rule_map t2 p" by auto
  from frame [of "''[''" kCornerOpen kSquareOpen kCornerOpen "?cm \<or> ?cs" t3] lens obtain t4 where
    t4: "init_symbol ''['' kCornerOpen (if ?cm \<or> ?cs then kCornerOpen else kSquareOpen) t3 = Some t4"
      "case_sensitive t4 = case_sensitive t3" "rule_map t4 p = rule_map t3 p" by auto
  from frame [of "'']''" kCornerClose kSquareClose kCornerClose "?cm \<or> ?cs" t4] lens obtain t5 where
    t5: "init_symbol '']'' kCornerClose (if ?cm \<or> ?cs then kCornerClose else kSquareClose) t4 = Some t5"
      "case_sensitive t5 = case_sensitive t4" "rule_map t5 p = rule_map t4 p" by auto
  have "init_symbols punct sy t = Some t5"
    unfolding init_symbols_def t1(1) bind.bind_lunit t2(1) t3(1) t4(1) t5(1) by (rule refl)
  with t1 t2 t3 t4 t5 show ?thesis by auto
qed

lemma load_empty_file: "load_from_file (\<lambda>_. Some []) t f = Some (True, t)"
  by (simp add: load_from_file_def load_from_string_def load_line_def chop_returns_def)

lemma initialize_godan:
  assumes "load_preedit (\<lambda>_. Some []) (godan_config c) new_table = Some (True, t)" and "\<not> case_sensitive t"
  shows "\<exists>t'. initialize_with_request_and_config (\<lambda>_. Some []) (godan_config c) new_table = Some (True, t') \<and>
    table_lookup t' ''a'' = rule_map t [97]"
proof -
  have new: "new_table\<lparr>case_sensitive := False\<rparr> = new_table" by (rule table.equality) simp_all
  obtain t' where t': "init_symbols TOUTEN_KUTEN CORNER_BRACKET_MIDDLE_DOT t = Some t'"
      "case_sensitive t' = case_sensitive t" "rule_map t' [97] = rule_map t [97]"
    using init_symbols_frame [of "[97]" TOUTEN_KUTEN CORNER_BRACKET_MIDDLE_DOT t] by auto
  have sp: "special_romanji (godan_config c) = GODAN_TO_HALFWIDTHASCII"
    "punctuation (godan_config c) = TOUTEN_KUTEN" "symbols (godan_config c) = CORNER_BRACKET_MIDDLE_DOT"
    by (simp_all add: godan_config_def)
  have "initialize_with_request_and_config (\<lambda>_. Some []) (godan_config c) new_table = Some (True, t')"
    by (simp add: initialize_with_request_and_config_def initialize_rest_def new sp assms(1) t'(1) load_empty_file)
  moreover have "table_lookup t' ''a'' = rule_map t [97]"
    using t' assms(2)
    by (simp add: table_lookup_def normalize_input_def ascii_lower trie_lookup_map ascii_key_path rule_map_def)
  ultimately show ?thesis by blast
qed

theorem get_table_serves_stale_rules:
  "\<exists>t t' table_map. get_table (\<lambda>_. Some []) city hash_of [] (godan_config (Some (''a'' @ kNewChunkPrefix @ ''x''))) =
       Some (Some t, table_map) \<and>
     get_table (\<lambda>_. Some []) city hash_of table_map (godan_config None) = Some (Some t, table_map) \<and>
     initialize_with_request_and_config (\<lambda>_. Some []) (godan_config None) new_table = Some (True, t') \<and>
     map_option e_result (table_lookup t ''a'') = Some ''x'' \<and> table_lookup t' ''a'' = None"
proof -
  let ?custom = "''a'' @ kNewChunkPrefix @ ''x''"
  have parse: "str_split (chr_of 0x0A) ?custom = [?custom]" "snd (chop_returns ?custom) = ?custom"
    "str_split (chr_of 0x09) ?custom = [''a'', ''x'']"
    by code_simp+
  obtain e t1 where i: "insert_rule new_table ''a'' ''x'' [] NO_TABLE_ATTRIBUTE = (e, t1)"
    by (cases "insert_rule new_table ''a'' ''x'' [] NO_TABLE_ATTRIBUTE")
  have "load_line ?custom new_table = Some t1"
    using load_two_fields [of "''a''" "''x''" new_table] i
    unfolding load_line_def Let_def parse by simp
  then have load: "load_from_string new_table ?custom = Some t1"
    unfolding load_from_string_def parse by simp
  have cs1: "\<not> case_sensitive t1" and r1: "rule_map t1 [97] = Some e" "e_result e = ''x''"
    using insert_rule_simps [OF i] by (simp_all add: ascii_capital ascii_key_path)
  have p1: "load_preedit (\<lambda>_. Some []) (godan_config (Some ?custom)) new_table = Some (True, t1)"
    using load by (simp add: load_preedit_def godan_config_def)
  have p2: "load_preedit (\<lambda>_. Some []) (godan_config None) new_table = Some (True, new_table)"
    by (simp add: load_preedit_def godan_config_def load_empty_file)
  from initialize_godan [OF p1 cs1] obtain t where
    t: "initialize_with_request_and_config (\<lambda>_. Some []) (godan_config (Some ?custom)) new_table = Some (True, t)"
      "table_lookup t ''a'' = Some e" using r1 by auto
  from initialize_godan [OF p2] obtain t' where
    t': "initialize_with_request_and_config (\<lambda>_. Some []) (godan_config None) new_table = Some (True, t')"
      "table_lookup t' ''a'' = None" by (auto simp: rule_map_def empty_trie_def)
  have key: "table_key city (godan_config (Some ?custom)) = table_key city (godan_config None)"
    by (simp add: table_key_def custom_roman_table_fingerprint_def godan_config_def)
  let ?m = "[(hash_of (table_key city (godan_config None)), t)]"
  have "get_table (\<lambda>_. Some []) city hash_of [] (godan_config (Some ?custom)) = Some (Some t, ?m)"
    unfolding get_table_def Let_def key by (simp add: t(1) [simplified])
  moreover have "get_table (\<lambda>_. Some []) city hash_of ?m (godan_config None) = Some (Some t, ?m)"
    by (simp add: get_table_def)
  ultimately show ?thesis using t(2) t' r1(2) by fastforce
qed

end
