(* ===== verification/Transliterators.thy ===== *)
theory Transliterators
  imports Utf8
begin

text \<open>
  Transliterators (\<open>composer/transliterators.cc\<close>): how the raw and the converted text of a chunk
  are shown, and how both are split at a character position of the shown text.  The character
  conversions of \<open>base/strings/japanese.cc\<close> and of the character form manager are functions of
  an environment record.
  A split that reads past a truncated last character does not return (\<open>None\<close>).
\<close>

section \<open>Environment and interface\<close>

record japanese_env =
  half_width_to_full_width :: "bytes \<Rightarrow> bytes"
  full_width_to_half_width :: "bytes \<Rightarrow> bytes"
  hiragana_to_katakana :: "bytes \<Rightarrow> bytes"
  katakana_to_hiragana :: "bytes \<Rightarrow> bytes"
  half_katakana_to_full_katakana :: "bytes \<Rightarrow> bytes"
  full_ascii_to_half_ascii :: "bytes \<Rightarrow> bytes"
  half_ascii_to_full_ascii :: "bytes \<Rightarrow> bytes"
  convert_preedit_string :: "bytes \<Rightarrow> bytes"

text \<open>The flag and the four parts (raw left and right, converted left and right).\<close>

type_synonym split_parts = "bool \<times> bytes \<times> bytes \<times> bytes \<times> bytes"

record transliterator_interface =
  Transliterate :: "bytes \<Rightarrow> bytes \<Rightarrow> bytes"
  Split :: "nat \<Rightarrow> bytes \<Rightarrow> bytes \<Rightarrow> split_parts option"

datatype transliterator =
  CONVERSION_STRING | RAW_STRING | HIRAGANA | FULL_KATAKANA | HALF_KATAKANA | FULL_ASCII | HALF_ASCII
  | LOCAL

section \<open>Splitting\<close>

text \<open>
  \<open>Utf8SubString(s, start, npos)\<close>: the loop is bounded by the end of the text alone, which takes
  at most one step per byte.
\<close>

definition utf8_substring_to_end :: "bytes \<Rightarrow> nat \<Rightarrow> bytes option" where
  "utf8_substring_to_end s start = Option.bind (utf8_substring_from s start) (\<lambda>t. utf8_prefix t (length t))"

text \<open>\<open>SplitPrimaryString\<close>: the flag and the primary and secondary parts.\<close>

definition split_primary_string :: "nat \<Rightarrow> bytes \<Rightarrow> bytes \<Rightarrow> split_parts option" where
  "split_primary_string position primary secondary =
     Option.bind (utf8_substring primary 0 position) (\<lambda>primary_lhs.
     Option.bind (utf8_substring_to_end primary position) (\<lambda>primary_rhs.
       Some
         (if length secondary < length primary_rhs
          then (False, primary_lhs, primary_rhs, primary_lhs, primary_rhs)
          else
            let secondary_position = length secondary - length primary_rhs in
            if rfind secondary primary_rhs \<noteq> Some secondary_position
            then (False, primary_lhs, primary_rhs, primary_lhs, primary_rhs)
            else (True, primary_lhs, primary_rhs, take secondary_position secondary, primary_rhs))))"

definition split_raw :: "nat \<Rightarrow> bytes \<Rightarrow> bytes \<Rightarrow> split_parts option" where
  "split_raw position raw converted = split_primary_string position raw converted"

definition split_converted :: "nat \<Rightarrow> bytes \<Rightarrow> bytes \<Rightarrow> split_parts option" where
  "split_converted position raw converted =
     map_option (\<lambda>(ok, converted_lhs, converted_rhs, raw_lhs, raw_rhs).
         (ok, raw_lhs, raw_rhs, converted_lhs, converted_rhs))
       (split_primary_string position converted raw)"

section \<open>The transliterators\<close>

definition conversion_string :: transliterator_interface where
  "conversion_string = \<lparr>Transliterate = (\<lambda>raw converted. converted), Split = split_converted\<rparr>"

definition raw_string :: transliterator_interface where
  "raw_string = \<lparr>Transliterate = (\<lambda>raw converted. raw), Split = split_raw\<rparr>"

definition hiragana :: "japanese_env \<Rightarrow> transliterator_interface" where
  "hiragana env = \<lparr>Transliterate = (\<lambda>raw converted.
       convert_preedit_string env (half_width_to_full_width env converted)),
     Split = split_converted\<rparr>"

definition full_katakana :: "japanese_env \<Rightarrow> transliterator_interface" where
  "full_katakana env = \<lparr>Transliterate = (\<lambda>raw converted.
       convert_preedit_string env (half_width_to_full_width env (hiragana_to_katakana env converted))),
     Split = split_converted\<rparr>"

definition half_katakana_to_hiragana :: "japanese_env \<Rightarrow> bytes \<Rightarrow> bytes" where
  "half_katakana_to_hiragana env s = katakana_to_hiragana env (half_katakana_to_full_katakana env s)"

definition half_katakana_transliterate :: "japanese_env \<Rightarrow> bytes \<Rightarrow> bytes \<Rightarrow> bytes" where
  "half_katakana_transliterate env raw converted =
     full_width_to_half_width env (hiragana_to_katakana env converted)"

definition half_katakana_split :: "japanese_env \<Rightarrow> nat \<Rightarrow> bytes \<Rightarrow> bytes \<Rightarrow> split_parts option" where
  "half_katakana_split env position raw converted =
     (let half_katakana = half_katakana_transliterate env raw converted; h = half_katakana_to_hiragana env in
      map_option (\<lambda>(result, hk_raw_lhs, hk_raw_rhs, hk_converted_lhs, hk_converted_rhs).
          if result then (True, hk_raw_lhs, hk_raw_rhs, h hk_converted_lhs, h hk_converted_rhs)
          else (False, h hk_raw_lhs, h hk_raw_rhs, h hk_converted_lhs, h hk_converted_rhs))
        (split_converted position raw half_katakana))"

definition half_katakana :: "japanese_env \<Rightarrow> transliterator_interface" where
  "half_katakana env = \<lparr>Transliterate = half_katakana_transliterate env, Split = half_katakana_split env\<rparr>"

definition half_ascii :: "japanese_env \<Rightarrow> transliterator_interface" where
  "half_ascii env = \<lparr>Transliterate = (\<lambda>raw converted.
       full_ascii_to_half_ascii env (if raw = [] then converted else raw)),
     Split = split_raw\<rparr>"

definition full_ascii :: "japanese_env \<Rightarrow> transliterator_interface" where
  "full_ascii env = \<lparr>Transliterate = (\<lambda>raw converted.
       half_ascii_to_full_ascii env (if raw = [] then converted else raw)),
     Split = split_raw\<rparr>"

fun get_transliterator :: "japanese_env \<Rightarrow> transliterator \<Rightarrow> transliterator_interface" where
  "get_transliterator env CONVERSION_STRING = conversion_string"
| "get_transliterator env RAW_STRING = raw_string"
| "get_transliterator env HIRAGANA = hiragana env"
| "get_transliterator env FULL_KATAKANA = full_katakana env"
| "get_transliterator env HALF_KATAKANA = half_katakana env"
| "get_transliterator env FULL_ASCII = full_ascii env"
| "get_transliterator env HALF_ASCII = half_ascii env"
| "get_transliterator env LOCAL = conversion_string"

section \<open>The contract of a split\<close>

lemma utf8_prefix_rest:
  "utf8_prefix s n = Some a \<Longrightarrow> utf8_substring_from s n = Some b \<Longrightarrow> a @ b = s"
proof (induction s n arbitrary: a rule: utf8_prefix.induct)
  case (3 c cs l)
  then obtain u where a: "a = take (one_char_len c) (c # cs) @ u"
    and u: "utf8_prefix (drop (one_char_len c) (c # cs)) l = Some u"
    and b: "utf8_substring_from (drop (one_char_len c) (c # cs)) l = Some b"
    and le: "\<not> length (c # cs) < one_char_len c"
    by (auto split: if_splits)
  from "3.IH" [OF le u b] a show ?case by (simp only: append_assoc append_take_drop_id)
qed auto

lemma utf8_prefix_all: "length s \<le> n \<Longrightarrow> utf8_prefix s n = Some a \<Longrightarrow> a = s"
proof (induction s n arbitrary: a rule: utf8_prefix.induct)
  case (3 c cs l)
  then obtain u where a: "a = take (one_char_len c) (c # cs) @ u"
    and u: "utf8_prefix (drop (one_char_len c) (c # cs)) l = Some u"
    and le: "\<not> length (c # cs) < one_char_len c"
    by (auto split: if_splits)
  have "length (drop (one_char_len c) (c # cs)) \<le> l"
    using "3.prems"(1) one_char_len_pos [of c] by (simp del: one_char_len_pos)
  from "3.IH" [OF le this u] a show ?case by (simp only: append_take_drop_id)
qed auto

lemma substring_to_end_Some:
  "utf8_substring_to_end s n = Some t \<Longrightarrow> utf8_substring_from s n = Some t"
  by (auto simp: utf8_substring_to_end_def bind_eq_Some_conv dest: utf8_prefix_all [rotated])

lemma substring_to_end_text:
  assumes "\<forall>c \<in> set cs. c \<le> 0x10FFFF"
  shows "utf8_substring_to_end (utf8_text cs) n = Some (utf8_text (drop n cs))"
proof -
  let ?ds = "drop n cs"
  have ds: "\<forall>c \<in> set ?ds. c \<le> 0x10FFFF" using assms by (auto dest: in_set_dropD)
  obtain a where a: "utf8_prefix (utf8_text ?ds) (length (utf8_text ?ds)) = Some a"
    using prefix_text [OF ds] by blast
  with utf8_prefix_all [OF order_refl a] show ?thesis
    by (simp add: utf8_substring_to_end_def substring_from_text [OF assms])
qed

lemma rfind_take_drop:
  assumes "length r \<le> length s" and "rfind s r = Some (length s - length r)"
  shows "take (length s - length r) s @ r = s"
  using assms rfind_suffix [OF assms(1)] by (auto elim: suffixE)

lemma split_primary_cut:
  assumes "split_primary_string pos p s = Some (ok, pl, pr, sl, sr)"
  shows "pl @ pr = p" and "utf8_prefix p pos = Some pl" and "ok \<longleftrightarrow> suffix pr s"
    and "ok \<Longrightarrow> sl @ sr = s \<and> sr = pr" and "\<not> ok \<Longrightarrow> sl = pl \<and> sr = pr"
proof -
  from assms have pl: "utf8_prefix p pos = Some pl" and pr: "utf8_substring_from p pos = Some pr"
    and res: "(ok, pl, pr, sl, sr) =
      (if length s < length pr then (False, pl, pr, pl, pr)
       else let sp = length s - length pr in
         if rfind s pr \<noteq> Some sp then (False, pl, pr, pl, pr) else (True, pl, pr, take sp s, pr))"
    by (auto simp: split_primary_string_def utf8_substring_def bind_eq_Some_conv Let_def
        dest!: substring_to_end_Some split: if_splits)
  from pl pr show "pl @ pr = p" by (rule utf8_prefix_rest)
  from pl show "utf8_prefix p pos = Some pl" .
  from res show "ok \<longleftrightarrow> suffix pr s"
    using rfind_suffix [of pr s] suffix_length_le [of pr s] by (auto simp: Let_def split: if_splits)
  from res show "ok \<Longrightarrow> sl @ sr = s \<and> sr = pr"
    using rfind_take_drop [of pr s] by (auto simp: Let_def split: if_splits)
  from res show "\<not> ok \<Longrightarrow> sl = pl \<and> sr = pr" by (auto simp: Let_def split: if_splits)
qed

lemma split_primary_text:
  "\<forall>c \<in> set cs. c \<le> 0x10FFFF \<Longrightarrow> split_primary_string pos (utf8_text cs) s \<noteq> None"
  by (simp add: split_primary_string_def substring_text substring_to_end_text)

text \<open>
  What the composer relies on: one of the two texts, the shown one, is always cut at the character
  position, and if the flag is set the other one is cut consistently, with the same right part.
\<close>

definition chosen :: "bool \<Rightarrow> bytes \<Rightarrow> bytes \<Rightarrow> bytes" where
  "chosen by_conv raw conv = (if by_conv then conv else raw)"

locale text_splitter =
  fixes split :: "nat \<Rightarrow> bytes \<Rightarrow> bytes \<Rightarrow> split_parts option" and by_conv :: bool
  assumes returns: "\<lbrakk>chosen by_conv raw conv = utf8_text cs; \<forall>c \<in> set cs. c \<le> 0x10FFFF\<rbrakk> \<Longrightarrow>
      split pos raw conv \<noteq> None"
    and cuts: "split pos raw conv = Some (ok, rl, rr, cl, cr) \<Longrightarrow>
      chosen by_conv rl cl @ chosen by_conv rr cr = chosen by_conv raw conv \<and>
      utf8_prefix (chosen by_conv raw conv) pos = Some (chosen by_conv rl cl)"
    and cuts_other: "split pos raw conv = Some (True, rl, rr, cl, cr) \<Longrightarrow>
      chosen (\<not> by_conv) rl cl @ chosen (\<not> by_conv) rr cr = chosen (\<not> by_conv) raw conv"
    and same_right: "split pos raw conv = Some (ok, rl, rr, cl, cr) \<Longrightarrow> rr = cr"
    and flag: "split pos raw conv = Some (ok, rl, rr, cl, cr) \<Longrightarrow>
      ok \<longleftrightarrow> suffix (chosen by_conv rr cr) (chosen (\<not> by_conv) raw conv)"
begin

lemma concat_both:
  "split pos raw conv = Some (True, rl, rr, cl, cr) \<Longrightarrow> rl @ rr = raw \<and> cl @ cr = conv"
  using cuts [of pos raw conv True] cuts_other [of pos raw conv] by (cases by_conv) (auto simp: chosen_def)

lemma concat_chosen:
  "split pos raw conv = Some (ok, rl, rr, cl, cr) \<Longrightarrow>
     if by_conv then cl @ cr = conv else rl @ rr = raw"
  using cuts [of pos raw conv ok] by (cases by_conv) (auto simp: chosen_def)

lemma left_length:
  assumes "split pos raw conv = Some (ok, rl, rr, cl, cr)"
    and "chosen by_conv raw conv = utf8_text cs" and "\<forall>c \<in> set cs. c \<le> 0x10FFFF"
  shows "chosen by_conv rl cl = utf8_text (take pos cs) \<and> chosen by_conv rr cr = utf8_text (drop pos cs)"
proof -
  from cuts [OF assms(1)] have whole: "chosen by_conv rl cl @ chosen by_conv rr cr = utf8_text cs"
    and p: "utf8_prefix (utf8_text cs) pos = Some (chosen by_conv rl cl)" using assms(2) by simp_all
  from p prefix_text [OF assms(3)] have l: "chosen by_conv rl cl = utf8_text (take pos cs)" by simp
  with whole have "utf8_text (take pos cs) @ chosen by_conv rr cr = utf8_text (take pos cs @ drop pos cs)"
    by (simp only: append_take_drop_id)
  with l show ?thesis by (simp del: append_take_drop_id)
qed

end

interpretation raw_splitter: text_splitter split_raw False
proof unfold_locales
  show "split_raw pos raw conv \<noteq> None"
    if "chosen False raw conv = utf8_text cs" "\<forall>c \<in> set cs. c \<le> 0x10FFFF" for raw conv cs pos
    using that split_primary_text [OF that(2)] by (simp add: chosen_def split_raw_def)
qed (auto simp: chosen_def split_raw_def dest: split_primary_cut)

interpretation conversion_splitter: text_splitter split_converted True
proof unfold_locales
  show "split_converted pos raw conv \<noteq> None"
    if "chosen True raw conv = utf8_text cs" "\<forall>c \<in> set cs. c \<le> 0x10FFFF" for raw conv cs pos
    using that split_primary_text [OF that(2)] by (simp add: chosen_def split_converted_def)
qed (auto simp: chosen_def split_converted_def dest: split_primary_cut)

section \<open>Properties\<close>

definition shows_raw :: "transliterator \<Rightarrow> bool" where
  "shows_raw t \<longleftrightarrow> t \<in> {RAW_STRING, FULL_ASCII, HALF_ASCII}"

lemma split_of_transliterator:
  "t \<noteq> HALF_KATAKANA \<Longrightarrow>
     Split (get_transliterator env t) = (if shows_raw t then split_raw else split_converted)"
  by (cases t) (simp_all add: shows_raw_def conversion_string_def raw_string_def hiragana_def
      full_katakana_def half_ascii_def full_ascii_def)

text \<open>An environment whose conversions change nothing, for concrete runs.\<close>

definition identity_env :: japanese_env where
  "identity_env = \<lparr>half_width_to_full_width = id, full_width_to_half_width = id, hiragana_to_katakana = id,
     katakana_to_hiragana = id, half_katakana_to_full_katakana = id, full_ascii_to_half_ascii = id,
     half_ascii_to_full_ascii = id, convert_preedit_string = id\<rparr>"

text \<open>
  The split of a transliterator (other than half-width katakana) on valid text returns, cuts the
  shown text (the raw one for the raw and ASCII transliterators, else the converted one) exactly at
  the character position, and when it reports success both texts are the concatenation of their parts.
\<close>

theorem transliterator_split_cuts:
  assumes "t \<noteq> HALF_KATAKANA" and "(if shows_raw t then raw else converted) = utf8_text cs"
    and "\<forall>c \<in> set cs. c \<le> 0x10FFFF"
  shows "\<exists>ok rl rr cl cr. Split (get_transliterator env t) pos raw converted = Some (ok, rl, rr, cl, cr) \<and>
    (if shows_raw t then rl else cl) = utf8_text (take pos cs) \<and> rr = utf8_text (drop pos cs) \<and> cr = rr \<and>
    (if ok then rl @ rr = raw \<and> cl @ cr = converted else rl = cl)"
proof (cases "shows_raw t")
  case True
  with assms(2) have c: "chosen False raw converted = utf8_text cs" by (simp add: chosen_def)
  from raw_splitter.returns [OF c assms(3), of pos] obtain ok rl rr cl cr where
    s: "split_raw pos raw converted = Some (ok, rl, rr, cl, cr)" by (cases "split_raw pos raw converted") auto
  have "\<not> ok \<Longrightarrow> rl = cl" using split_primary_cut(5) [OF s [unfolded split_raw_def]] by simp
  with raw_splitter.left_length [OF s c assms(3)] raw_splitter.same_right [OF s]
    raw_splitter.concat_both [of pos raw converted rl rr cl cr] s True
  show ?thesis by (auto simp: split_of_transliterator [OF assms(1)] chosen_def)
next
  case False
  with assms(2) have c: "chosen True raw converted = utf8_text cs" by (simp add: chosen_def)
  from conversion_splitter.returns [OF c assms(3), of pos] obtain ok rl rr cl cr where
    s: "split_converted pos raw converted = Some (ok, rl, rr, cl, cr)" by (cases "split_converted pos raw converted") auto
  have "split_primary_string pos converted raw = Some (ok, cl, cr, rl, rr)"
    using s by (auto simp: split_converted_def)
  from split_primary_cut(5) [OF this] have "\<not> ok \<Longrightarrow> rl = cl" by simp
  with conversion_splitter.left_length [OF s c assms(3)] conversion_splitter.same_right [OF s]
    conversion_splitter.concat_both [of pos raw converted rl rr cl cr] s False
  show ?thesis by (auto simp: split_of_transliterator [OF assms(1)] chosen_def)
qed

theorem transliterator_split_cuts_witness:
  "\<exists>ok rl rr cl cr. Split (get_transliterator identity_env HIRAGANA) 1 ''kk'' (utf8_text [0x3063, 107]) = Some (ok, rl, rr, cl, cr) \<and>
    (if shows_raw HIRAGANA then rl else cl) = utf8_text (take 1 [0x3063, 107]) \<and>
    rr = utf8_text (drop 1 [0x3063, 107]) \<and> cr = rr \<and>
    (if ok then rl @ rr = ''kk'' \<and> cl @ cr = utf8_text [0x3063, 107] else rl = cl)"
  by (rule transliterator_split_cuts) (simp_all add: shows_raw_def)

end
