(* ===== verification/Char_Chunk.thy ===== *)
theory Char_Chunk
  imports Rule_Table Transliterators
begin

text \<open>
  The unit of a composition (\<open>composer/char_chunk.h\<close>, \<open>composer/char_chunk.cc\<close>) and its input
  (\<open>composer/composition_input.h\<close>).  A shared table is an address with the table it points to:
  \<open>IsAppendable\<close> compares addresses.  An operation that throws \<open>std::out_of_range\<close>, reads past a
  buffer or loops returns \<open>None\<close>.  \<open>local_length_cache_\<close> is left out: every operation that changes a text resets it.
\<close>

section \<open>State\<close>

type_synonym shared_table = "nat \<times> table"

record char_chunk =
  cc_table :: shared_table
  raw :: bytes
  conversion :: bytes
  pending :: bytes
  ambiguous :: bytes
  display_ambiguous_as_result :: bool
  dar_raw :: bytes
  dar_conversion :: bytes
  dar_ambiguous :: bytes
  dar_attributes :: table_attributes
  cc_transliterator :: transliterator
  attributes :: table_attributes

record composition_input =
  ci_raw :: bytes
  ci_conversion :: bytes
  ci_is_new_input :: bool
  ci_is_asis :: bool

definition new_chunk :: "transliterator \<Rightarrow> shared_table \<Rightarrow> char_chunk" where
  "new_chunk t12r table =
     \<lparr>cc_table = table, raw = [], conversion = [], pending = [], ambiguous = [],
      display_ambiguous_as_result = False, dar_raw = [], dar_conversion = [], dar_ambiguous = [],
      dar_attributes = NO_TABLE_ATTRIBUTE, cc_transliterator = t12r, attributes = NO_TABLE_ATTRIBUTE\<rparr>"

abbreviation chunk_table :: "char_chunk \<Rightarrow> table" where
  "chunk_table c \<equiv> snd (cc_table c)"

section \<open>Composition input\<close>

definition ci_default :: composition_input where
  "ci_default = \<lparr>ci_raw = [], ci_conversion = [], ci_is_new_input = False, ci_is_asis = False\<rparr>"

definition ci_init_from_raw :: "bytes \<Rightarrow> bool \<Rightarrow> composition_input \<Rightarrow> composition_input" where
  "ci_init_from_raw r is_new_input i = i\<lparr>ci_raw := r, ci_is_new_input := is_new_input\<rparr>"

definition ci_init_from_raw_and_conv :: "bytes \<Rightarrow> bytes \<Rightarrow> bool \<Rightarrow> composition_input \<Rightarrow> composition_input" where
  "ci_init_from_raw_and_conv r conv is_new_input i =
     i\<lparr>ci_raw := r, ci_conversion := conv, ci_is_new_input := is_new_input\<rparr>"

definition ci_clear :: "composition_input \<Rightarrow> composition_input" where
  "ci_clear i = i\<lparr>ci_raw := [], ci_conversion := [], ci_is_new_input := False, ci_is_asis := False\<rparr>"

definition ci_empty :: "composition_input \<Rightarrow> bool" where
  "ci_empty i \<longleftrightarrow> ci_raw i = [] \<and> ci_conversion i = []"

section \<open>Display\<close>

definition clear_fallback :: "char_chunk \<Rightarrow> char_chunk" where
  "clear_fallback c = c\<lparr>dar_raw := [], dar_conversion := [], dar_ambiguous := [], dar_attributes := NO_TABLE_ATTRIBUTE\<rparr>"

definition save_fallback :: "char_chunk \<Rightarrow> char_chunk" where
  "save_fallback c = c\<lparr>dar_raw := raw c, dar_conversion := conversion c, dar_ambiguous := ambiguous c,
     dar_attributes := attributes c\<rparr>"

definition has_fallback :: "char_chunk \<Rightarrow> bool" where
  "has_fallback c \<longleftrightarrow> dar_raw c \<noteq> [] \<and> length (dar_raw c) < length (raw c) \<and> prefix (dar_raw c) (raw c)"

definition restore_fallback :: "char_chunk \<Rightarrow> bytes \<Rightarrow> bytes \<times> char_chunk" where
  "restore_fallback c input =
     (drop (length (dar_raw c)) (raw c) @ input,
      clear_fallback (c\<lparr>raw := dar_raw c, conversion := dar_conversion c @ dar_ambiguous c,
        pending := [], ambiguous := [], display_ambiguous_as_result := False,
        attributes := dar_attributes c\<rparr>))"

definition chunk_clear :: "char_chunk \<Rightarrow> char_chunk" where
  "chunk_clear c = clear_fallback (c\<lparr>raw := [], conversion := [], pending := [], ambiguous := [],
     display_ambiguous_as_result := False\<rparr>)"

definition get_display_converted :: "char_chunk \<Rightarrow> bytes" where
  "get_display_converted c =
     (if display_ambiguous_as_result c \<and> ambiguous c \<noteq> [] then conversion c @ ambiguous c
      else conversion c @ pending c)"

text \<open>\<open>CharChunk::GetTransliterator\<close> and \<open>Transliterate\<close>.\<close>

definition chunk_transliterator :: "char_chunk \<Rightarrow> transliterator \<Rightarrow> transliterator" where
  "chunk_transliterator c t12r =
     (if has_attribute (attributes c) NO_TRANSLITERATION
      then if t12r = LOCAL \<or> t12r = HALF_ASCII \<or> t12r = FULL_ASCII then CONVERSION_STRING else t12r
      else if t12r = LOCAL then cc_transliterator c else t12r)"

definition chunk_transliterate :: "japanese_env \<Rightarrow> char_chunk \<Rightarrow> transliterator \<Rightarrow> bytes \<Rightarrow> bytes \<Rightarrow> bytes" where
  "chunk_transliterate env c t12r r conv =
     Transliterate (get_transliterator env (chunk_transliterator c t12r)) r conv"

definition result_text :: "japanese_env \<Rightarrow> transliterator \<Rightarrow> char_chunk \<Rightarrow> bytes" where
  "result_text env t12r c =
     chunk_transliterate env c t12r (delete_special_keys (raw c)) (delete_special_keys (get_display_converted c))"

definition append_result :: "japanese_env \<Rightarrow> transliterator \<Rightarrow> char_chunk \<Rightarrow> bytes \<Rightarrow> bytes" where
  "append_result env t12r c result = result @ result_text env t12r c"

text \<open>\<open>CharChunk::GetLength\<close> without its cache.\<close>

definition get_length :: "japanese_env \<Rightarrow> transliterator \<Rightarrow> char_chunk \<Rightarrow> nat" where
  "get_length env t12r c = chars_len (result_text env t12r c)"

definition append_trimed_result :: "japanese_env \<Rightarrow> transliterator \<Rightarrow> char_chunk \<Rightarrow> bytes \<Rightarrow> bytes" where
  "append_trimed_result env t12r c result =
     (let converted =
        (if pending c \<noteq> [] then
           case table_lookup_prefix (chunk_table c) (pending c) of
             (Some e, _, _) \<Rightarrow> if e_input e = e_result e then conversion c @ e_result e else conversion c
           | (None, _, _) \<Rightarrow> conversion c
         else conversion c)
      in result @ chunk_transliterate env c t12r (delete_special_keys (raw c)) (delete_special_keys converted))"

definition append_fixed_result :: "japanese_env \<Rightarrow> transliterator \<Rightarrow> char_chunk \<Rightarrow> bytes \<Rightarrow> bytes" where
  "append_fixed_result env t12r c result =
     (let converted = (if ambiguous c \<noteq> [] then conversion c @ ambiguous c else conversion c @ pending c)
      in result @ chunk_transliterate env c t12r (delete_special_keys (raw c)) (delete_special_keys converted))"

section \<open>Expansion\<close>

definition kMaxRecursion :: nat where "kMaxRecursion = 4"

text \<open>The loop of \<open>GetFromPending\<close> over the entries, with the recursive call as \<open>f\<close>.\<close>

fun pending_loop :: "(bytes \<Rightarrow> bytes set \<Rightarrow> bool \<times> bytes set) \<Rightarrow> entry list \<Rightarrow> bytes set \<Rightarrow> bool \<times> bytes set" where
  "pending_loop f [] result = (True, result)"
| "pending_loop f (e # es) result =
     (if e_result e \<noteq> [] then (False, result)
      else case f (e_pending e) result of
        (False, result') \<Rightarrow> (False, result')
      | (True, result') \<Rightarrow> pending_loop f es result')"

fun get_from_pending :: "table \<Rightarrow> nat \<Rightarrow> bytes \<Rightarrow> bytes set \<Rightarrow> bool \<times> bytes set" where
  "get_from_pending t 0 key result = (False, result)"
| "get_from_pending t (Suc recursion_count) key result =
     (if key \<in> result then (True, result)
      else pending_loop (get_from_pending t recursion_count) (table_lookup_predictive_all t key)
             (insert key result))"

definition expand_entry :: "table \<Rightarrow> entry \<Rightarrow> bytes set" where
  "expand_entry t e =
     (if e_result e \<noteq> [] then {delete_special_keys (e_result e)} else {}) \<union>
     (if e_pending e = [] then {}
      else case get_from_pending t kMaxRecursion (e_pending e) {} of
        (False, _) \<Rightarrow> {}
      | (True, loop_result) \<Rightarrow> delete_special_keys ` loop_result)"

definition get_expanded_results :: "char_chunk \<Rightarrow> bytes set" where
  "get_expanded_results c =
     (if pending c = [] then {}
      else (if conversion c = [] then {delete_special_keys (pending c)} else {}) \<union>
        \<Union> (set (map (expand_entry (chunk_table c))
                 (table_lookup_predictive_all (chunk_table c) (pending c)))))"

section \<open>Appending\<close>

definition is_fixed :: "char_chunk \<Rightarrow> bool" where
  "is_fixed c \<longleftrightarrow> pending c = []"

definition is_appendable :: "char_chunk \<Rightarrow> transliterator \<Rightarrow> shared_table \<Rightarrow> bool" where
  "is_appendable c t12r table \<longleftrightarrow>
     pending c \<noteq> [] \<and> (t12r = LOCAL \<or> t12r = cc_transliterator c) \<and> fst table = fst (cc_table c)"

definition is_convertible :: "char_chunk \<Rightarrow> transliterator \<Rightarrow> shared_table \<Rightarrow> bytes \<Rightarrow> bool" where
  "is_convertible c t12r table input =
     (if \<not> is_appendable c t12r table then False
      else case table_lookup_prefix (snd table) (pending c @ input) of (found, key_length, fixed) \<Rightarrow>
        found \<noteq> None \<and> length (pending c @ input) = key_length \<and> fixed)"

definition combine :: "char_chunk \<Rightarrow> char_chunk \<Rightarrow> char_chunk" where
  "combine c left =
     c\<lparr>conversion := conversion left @ conversion c,
       raw := raw left @ raw c,
       ambiguous := (if ambiguous left = [] then []
                     else if ambiguous c = [] then ambiguous left @ pending c
                     else ambiguous left @ ambiguous c),
       pending := pending left @ pending c\<rparr>"

text \<open>
  \<open>AddInputInternal\<close> when no entry was found.  The result is the loop flag with the rest of the
  input, and the chunk.
\<close>

definition add_input_no_entry :: "char_chunk \<Rightarrow> bytes \<Rightarrow> nat \<Rightarrow> (bool \<times> bytes) \<times> char_chunk" where
  "add_input_no_entry c input used_key_length =
     (if used_key_length \<le> length (pending c) \<and> has_fallback c then
        (case restore_fallback c input of (replay, c') \<Rightarrow> ((False, replay), c'))
      else if used_key_length = 0 then
        (let trimmed = trim_leading_special_key input in
         if length trimmed < length input then ((True, trimmed), c)
         else if pending c = [] then
           (case front_char input of (front, rest) \<Rightarrow>
              ((False, rest), c\<lparr>raw := raw c @ front, conversion := conversion c @ front\<rparr>))
         else ((False, input), c))
      else if used_key_length = length (pending c) then
        (case table_lookup_prefix (chunk_table c) input of (next_entry, used_length, _) \<Rightarrow>
           let no_entry = (next_entry = None \<and> used_length = 0);
               trimmed = trim_leading_special_key input in
           if no_entry \<and> length trimmed < length input then ((True, trimmed), c)
           else ((False, input), c))
      else if used_key_length < length (pending c) then ((False, input), c)
      else
        (let used_input_length = used_key_length - length (pending c);
             used_input_chars = take used_input_length input in
         ((False, drop used_input_length input),
          c\<lparr>raw := raw c @ used_input_chars, pending := pending c @ used_input_chars, ambiguous := [],
            display_ambiguous_as_result := False\<rparr>)))"

text \<open>
  \<open>AddInputInternal\<close> when an entry was found.  \<open>used_key_length - pending_.size()\<close> is computed in
  \<open>size_t\<close>: when it wraps around, the second \<open>substr\<close> throws.
\<close>

definition entry_result :: "char_chunk \<Rightarrow> bytes \<Rightarrow> entry \<Rightarrow> nat \<Rightarrow> bool \<Rightarrow> char_chunk" where
  "entry_result c input e used_key_length fixed =
     (let key = pending c @ input;
          is_first_entry = (conversion c = [] \<and> (raw c = [] \<or> pending c = [] \<or> raw c = pending c));
          c1 = (if is_first_entry then c\<lparr>attributes := e_attributes e\<rparr> else c);
          c2 = c1\<lparr>raw := raw c @ take (used_key_length - length (pending c)) input\<rparr>
      in if fixed \<or> used_key_length < length key
         then clear_fallback (c2\<lparr>conversion := conversion c @ e_result e, pending := e_pending e,
                ambiguous := [], display_ambiguous_as_result := False\<rparr>)
         else
           let display = has_attribute (e_attributes e) DISPLAY_AMBIGUOUS_RESULT;
               c' = c2\<lparr>pending := key, ambiguous := e_result e, display_ambiguous_as_result := display\<rparr>
           in if display then save_fallback c' else clear_fallback c')"

definition add_input_entry ::
  "char_chunk \<Rightarrow> bytes \<Rightarrow> entry \<Rightarrow> nat \<Rightarrow> bool \<Rightarrow> ((bool \<times> bytes) \<times> char_chunk) option" where
  "add_input_entry c input0 e used_key_length fixed =
     (if used_key_length < length (pending c) then None
      else
        let input = drop (used_key_length - length (pending c)) input0;
            c' = entry_result c input0 e used_key_length fixed
        in Some
          (if fixed \<and> input = [] \<and> conversion c' = [] \<and> pending c' = [] \<and>
              has_attribute (attributes c') NO_TRANSLITERATION
           then ((False, input), c'\<lparr>raw := []\<rparr>)
           else if input = [] \<or> pending c' = [] then ((False, input), c')
           else ((True, input), c')))"

definition add_input_internal :: "char_chunk \<Rightarrow> bytes \<Rightarrow> ((bool \<times> bytes) \<times> char_chunk) option" where
  "add_input_internal c input =
     (case table_lookup_prefix (chunk_table c) (pending c @ input) of (found, used_key_length, fixed) \<Rightarrow>
        (case found of
           None \<Rightarrow> Some (add_input_no_entry c input used_key_length)
         | Some e \<Rightarrow> add_input_entry c input e used_key_length fixed))"

partial_function (option) add_input :: "char_chunk \<Rightarrow> bytes \<Rightarrow> (bytes \<times> char_chunk) option" where
  "add_input c input =
     Option.bind (add_input_internal c input) (\<lambda>r.
       if fst (fst r) then add_input (snd r) (snd (fst r)) else Some (snd (fst r), snd r))"

text \<open>\<open>AddInputAndConvertedChar\<close>: the chunk and what is left of the input.\<close>

definition chunk_is_empty :: "char_chunk \<Rightarrow> bool" where
  "chunk_is_empty c \<longleftrightarrow> raw c = [] \<and> pending c = [] \<and> conversion c = []"

definition add_input_and_converted_char ::
  "char_chunk \<Rightarrow> composition_input \<Rightarrow> composition_input \<times> char_chunk" where
  "add_input_and_converted_char c input =
     (if ci_is_asis input then
        if chunk_is_empty c then (ci_clear input, c\<lparr>raw := ci_raw input, conversion := ci_conversion input\<rparr>)
        else (input, c)
      else if chunk_is_empty c then
        (input\<lparr>ci_raw := [], ci_conversion := []\<rparr>,
         let c' = c\<lparr>raw := ci_raw input, pending := ci_conversion input, ambiguous := ci_conversion input\<rparr> in
         case table_lookup (chunk_table c) (ci_conversion input) of
           Some e \<Rightarrow> c'\<lparr>attributes := e_attributes e\<rparr>
         | None \<Rightarrow> c')
      else
        let key_input = pending c @ ci_conversion input in
        case table_lookup_prefix (chunk_table c) key_input of
          (None, _, _) \<Rightarrow> (input, c)
        | (Some e, key_length, fixed) \<Rightarrow>
            if key_length = length key_input then
              (input\<lparr>ci_raw := [], ci_conversion := []\<rparr>,
               if fixed
               then c\<lparr>raw := raw c @ ci_raw input, conversion := conversion c @ e_result e,
                      pending := e_pending e, ambiguous := []\<rparr>
               else c\<lparr>raw := raw c @ ci_raw input, pending := e_result e, ambiguous := e_result e\<rparr>)
            else if key_length = length (pending c) then (input, c)
            else
              (input\<lparr>ci_raw := [], ci_conversion := drop key_length key_input\<rparr>,
               c\<lparr>raw := raw c @ ci_raw input, conversion := conversion c @ e_result e,
                 pending := e_pending e\<rparr>))"

definition chunk_should_commit :: "char_chunk \<Rightarrow> bool" where
  "chunk_should_commit c \<longleftrightarrow> has_attribute (attributes c) DIRECT_INPUT \<and> pending c = []"

definition should_insert_new_chunk :: "char_chunk \<Rightarrow> composition_input \<Rightarrow> bool" where
  "should_insert_new_chunk c input =
     (if chunk_is_empty c then False
      else
        let is_new_input = (ci_is_new_input input \<or> (has_attribute (attributes c) END_CHUNK \<and> pending c = [])) in
        is_new_input \<and>
        (has_new_chunk_entry (chunk_table c) (ci_raw input) \<or> \<not> has_sub_rules (chunk_table c) (ci_raw input)))"

definition add_composition_input ::
  "char_chunk \<Rightarrow> composition_input \<Rightarrow> (composition_input \<times> char_chunk) option" where
  "add_composition_input c input =
     (if ci_conversion input \<noteq> [] then Some (add_input_and_converted_char c input)
      else if should_insert_new_chunk c input then Some (input, c)
      else map_option (\<lambda>(rest, c'). (input\<lparr>ci_raw := rest\<rparr>, c')) (add_input c (ci_raw input)))"

definition set_transliterator :: "transliterator \<Rightarrow> char_chunk \<Rightarrow> char_chunk" where
  "set_transliterator t12r c = (if t12r = LOCAL then c else c\<lparr>cc_transliterator := t12r\<rparr>)"

definition set_attributes :: "table_attributes \<Rightarrow> char_chunk \<Rightarrow> char_chunk" where
  "set_attributes a c = c\<lparr>attributes := a\<rparr>"

section \<open>Splitting\<close>

datatype split_error = InvalidPosition

text \<open>
  \<open>SplitChunk\<close>: \<open>None\<close> if the transliterator's split overruns; else an error, or the left chunk
  and this chunk.  \<open>converted_rhs.size() - pending_.size()\<close> wraps around in \<open>size_t\<close>; \<open>assign\<close>
  with the huge length takes all of \<open>converted_rhs\<close>.
\<close>

definition split_chunk ::
  "japanese_env \<Rightarrow> transliterator \<Rightarrow> nat \<Rightarrow> char_chunk \<Rightarrow> (split_error + char_chunk \<times> char_chunk) option" where
  "split_chunk env t12r position c =
     (if position = 0 \<or> get_length env t12r c \<le> position then Some (Inl InvalidPosition)
      else
        map_option
          (\<lambda>(_, raw_lhs, raw_rhs, converted_lhs, converted_rhs).
             let left = (new_chunk (cc_transliterator c) (cc_table c))\<lparr>raw := raw_lhs\<rparr>;
                 c' = c\<lparr>raw := raw_rhs\<rparr> in
             if length (conversion c) < length converted_lhs then
               Inr (left\<lparr>conversion := conversion c, pending := drop (length (conversion c)) converted_lhs\<rparr>,
                    c'\<lparr>conversion := [], pending := converted_rhs, ambiguous := []\<rparr>)
             else
               Inr (left\<lparr>conversion := converted_lhs\<rparr>,
                    c'\<lparr>conversion :=
                      (if length converted_rhs < length (pending c) then converted_rhs
                       else take (length converted_rhs - length (pending c)) converted_rhs)\<rparr>))
          (Split (get_transliterator env (chunk_transliterator c t12r)) position
             (delete_special_keys (raw c)) (delete_special_keys (conversion c @ pending c))))"

end
