(* ===== verification/Chunk_Input.thy ===== *)
theory Chunk_Input
  imports Char_Chunk
begin

text \<open>
  What typing into a chunk guarantees.  \<open>AddInput\<close> keeps every typed byte (apart from special keys
  and the chunks that a rule without transliteration empties); on tables in which no rule applies
  inside a pending text it returns, does not throw, and re-establishes the chunk invariant.  The
  table is seen through the locale \<open>prefix_rules\<close>, the contract of \<open>Table::LookUpPrefix\<close>.
\<close>

section \<open>No typed byte is lost\<close>

lemma front_char_concat: "front_char s = (f, r) \<Longrightarrow> f @ r = s"
  by (auto simp: front_char_def split: list.splits)

lemma clear_fallback_simps [simp]:
  "raw (clear_fallback c) = raw c" "conversion (clear_fallback c) = conversion c"
  "pending (clear_fallback c) = pending c" "ambiguous (clear_fallback c) = ambiguous c"
  "cc_table (clear_fallback c) = cc_table c" "attributes (clear_fallback c) = attributes c"
  "dar_raw (clear_fallback c) = []" "cc_transliterator (clear_fallback c) = cc_transliterator c"
  by (simp_all add: clear_fallback_def)

lemma save_fallback_simps [simp]:
  "raw (save_fallback c) = raw c" "conversion (save_fallback c) = conversion c"
  "pending (save_fallback c) = pending c" "ambiguous (save_fallback c) = ambiguous c"
  "cc_table (save_fallback c) = cc_table c" "attributes (save_fallback c) = attributes c"
  "dar_raw (save_fallback c) = raw c" "cc_transliterator (save_fallback c) = cc_transliterator c"
  by (simp_all add: save_fallback_def)

text \<open>\<open>trimmed s t\<close>: \<open>t\<close> is \<open>s\<close> with some special keys deleted.\<close>

inductive trimmed :: "bytes \<Rightarrow> bytes \<Rightarrow> bool" where
  trimmed_refl: "trimmed s s"
| trimmed_in: "length (trim_leading_special_key s) < length s \<Longrightarrow>
    trimmed (p @ trim_leading_special_key s @ q) t \<Longrightarrow> trimmed (p @ s @ q) t"

lemma trimmed_step:
  "length (trim_leading_special_key s) < length s \<Longrightarrow>
     trimmed (p @ trim_leading_special_key s) t \<Longrightarrow> trimmed (p @ s) t"
  using trimmed_in [of s p "[]" t] by simp

lemma trimmed_length: "trimmed s t \<Longrightarrow> length t \<le> length s"
  by (induction rule: trimmed.induct) auto

lemma trimmed_context: "trimmed s t \<Longrightarrow> trimmed (x @ s @ y) (x @ t @ y)"
proof (induction rule: trimmed.induct)
  case (trimmed_in s p q t)
  then show ?case using trimmed.trimmed_in [of s "x @ p" "q @ y" "x @ t @ y"] by simp
qed (rule trimmed_refl)

lemma trimmed_append: "trimmed s t \<Longrightarrow> trimmed (x @ s) (x @ t)"
  using trimmed_context [of s t x "[]"] by simp

lemma trimmed_trans: "trimmed s t \<Longrightarrow> trimmed t u \<Longrightarrow> trimmed s u"
  by (induction rule: trimmed.induct) (auto intro: trimmed_in)

text \<open>The ways \<open>AddInputInternal\<close> returns when no entry was found.\<close>

lemma no_entry_cases:
  assumes "add_input_no_entry c input used = ((loop, rest), c')"
  obtains (restore) "has_fallback c" "restore_fallback c input = (rest, c')" "\<not> loop" "used \<le> length (pending c)"
  | (trim) "loop" "c' = c" "rest = trim_leading_special_key input" "length rest < length input"
  | (front) fr where "pending c = []" "front_char input = (fr, rest)" "\<not> loop" "used = 0"
      "c' = c\<lparr>raw := raw c @ fr, conversion := conversion c @ fr\<rparr>"
  | (same) "c' = c" "rest = input" "\<not> loop" "pending c \<noteq> []" "used \<le> length (pending c)"
  | (used) "length (pending c) < used" "\<not> loop" "rest = drop (used - length (pending c)) input"
      "c' = c\<lparr>raw := raw c @ take (used - length (pending c)) input,
        pending := pending c @ take (used - length (pending c)) input, ambiguous := [],
        display_ambiguous_as_result := False\<rparr>"
proof (cases "used \<le> length (pending c) \<and> has_fallback c")
  case True
  with assms restore show thesis by (simp add: add_input_no_entry_def split: prod.splits)
next
  case no_restore: False
  let ?trim = "trim_leading_special_key input"
  consider (zero) "used = 0" | (equal) "0 < used" "used = length (pending c)"
    | (less) "0 < used" "used < length (pending c)" | (more) "length (pending c) < used" "0 < used" by linarith
  then show thesis
  proof cases
    case zero
    show thesis
    proof (cases "length ?trim < length input")
      case True
      with assms no_restore zero trim show thesis by (simp add: add_input_no_entry_def Let_def)
    next
      case False
      with assms no_restore zero front same show thesis
        by (cases "pending c = []") (simp_all add: add_input_no_entry_def Let_def split: prod.splits)
    qed
  next
    case equal
    obtain n ul f where lk: "table_lookup_prefix (chunk_table c) input = (n, ul, f)"
      by (cases "table_lookup_prefix (chunk_table c) input")
    from equal have "pending c \<noteq> []" by auto
    with assms no_restore equal lk trim same show thesis
      by (cases "n = None \<and> ul = 0 \<and> length ?trim < length input") (auto simp: add_input_no_entry_def Let_def)
  next
    case less
    then have "pending c \<noteq> []" by auto
    with assms no_restore less same show thesis by (simp add: add_input_no_entry_def)
  next
    case more
    with assms no_restore used show thesis by (simp add: add_input_no_entry_def Let_def)
  qed
qed

lemma no_entry_keeps_raw:
  assumes "add_input_no_entry c input used = ((loop, rest), c')"
  shows "raw c' @ rest = raw c @ input \<or>
    c' = c \<and> loop \<and> rest = trim_leading_special_key input \<and> length rest < length input"
  using assms
proof (cases rule: no_entry_cases)
  case restore
  then obtain x where x: "raw c = dar_raw c @ x" by (auto simp: has_fallback_def elim: prefixE)
  with restore(2) have "rest = x @ input" "raw c' = dar_raw c" by (auto simp: restore_fallback_def)
  with x show ?thesis by simp
next
  case (front fr)
  with front_char_concat [OF front(2)] show ?thesis by simp
qed simp_all

text \<open>The ways \<open>AddInputInternal\<close> returns after it found an entry.\<close>

lemma add_input_entry_cases:
  assumes "add_input_entry c input e used fixed = Some ((loop, rest), c')"
  obtains (emptied) "\<not> loop" "rest = []" "chunk_is_empty c'" "c' = entry_result c input e used fixed\<lparr>raw := []\<rparr>"
      "fixed" "drop (used - length (pending c)) input = []" "length (pending c) \<le> used"
      "has_attribute (attributes c') NO_TRANSLITERATION"
  | (result) "c' = entry_result c input e used fixed" "rest = drop (used - length (pending c)) input"
      "loop \<longleftrightarrow> rest \<noteq> [] \<and> pending c' \<noteq> []" "length (pending c) \<le> used"
proof -
  let ?r = "entry_result c input e used fixed" and ?rest = "drop (used - length (pending c)) input"
  have le: "length (pending c) \<le> used" using assms by (auto simp: add_input_entry_def split: if_splits)
  show thesis
  proof (cases "fixed \<and> ?rest = [] \<and> conversion ?r = [] \<and> pending ?r = [] \<and>
      has_attribute (attributes ?r) NO_TRANSLITERATION")
    case True
    then have "((loop, rest), c') = ((False, ?rest), ?r\<lparr>raw := []\<rparr>)"
      using assms unfolding add_input_entry_def Let_def if_not_P [OF leD [OF le]] if_P [OF True] by simp
    then have "loop = False" "rest = []" "c' = ?r\<lparr>raw := []\<rparr>" using True by simp_all
    moreover from True have "conversion ?r = []" "pending ?r = []" by blast+
    with \<open>c' = ?r\<lparr>raw := []\<rparr>\<close> have "chunk_is_empty c'" by (simp add: chunk_is_empty_def)
    moreover from True have fixed "?rest = []" "has_attribute (attributes ?r) NO_TRANSLITERATION" by blast+
    moreover from this(3) \<open>c' = ?r\<lparr>raw := []\<rparr>\<close> have "has_attribute (attributes c') NO_TRANSLITERATION" by simp
    ultimately show thesis using le emptied by blast
  next
    case False
    then have "((loop, rest), c') = (if ?rest = [] \<or> pending ?r = [] then ((False, ?rest), ?r) else ((True, ?rest), ?r))"
      using assms unfolding add_input_entry_def Let_def if_not_P [OF leD [OF le]] if_not_P [OF False] by simp
    with le result show thesis by (cases "?rest = [] \<or> pending ?r = []") simp_all
  qed
qed

lemma entry_result_simps [simp]:
  "raw (entry_result c input e used fixed) = raw c @ take (used - length (pending c)) input"
  "cc_table (entry_result c input e used fixed) = cc_table c"
  "pending (entry_result c input e used fixed) =
     (if fixed \<or> used < length (pending c @ input) then e_pending e else pending c @ input)"
  by (simp_all add: entry_result_def Let_def)

lemma entry_result_dar:
  "dar_raw (entry_result c input e used fixed) \<in> {[], raw (entry_result c input e used fixed)}"
  by (simp add: entry_result_def Let_def)

text \<open>A chunk that a rule without transliteration emptied.\<close>

definition silenced :: "char_chunk \<Rightarrow> bool" where
  "silenced c \<longleftrightarrow> chunk_is_empty c \<and> has_attribute (attributes c) NO_TRANSLITERATION"

lemma entry_keeps_raw:
  assumes "add_input_entry c input e used fixed = Some ((loop, rest), c')"
  shows "raw c' @ rest = raw c @ input \<or> \<not> loop \<and> rest = [] \<and> silenced c'"
  using assms by (cases rule: add_input_entry_cases) (simp_all add: silenced_def)

lemma add_input_internal_keeps_raw:
  assumes "add_input_internal c input = Some ((loop, rest), c')"
  shows "raw c' @ rest = raw c @ input \<or>
    c' = c \<and> loop \<and> rest = trim_leading_special_key input \<and> length rest < length input \<or>
    \<not> loop \<and> rest = [] \<and> silenced c'"
  using assms no_entry_keeps_raw [of c input _ loop rest c'] entry_keeps_raw [of c input _ _ _ loop rest c']
  by (auto simp: add_input_internal_def split: prod.splits option.splits)

lemma add_input_step:
  "add_input_internal c input = Some ((True, rest), c') \<Longrightarrow> add_input c input = add_input c' rest"
  by (subst add_input.simps) simp

lemma add_input_stop:
  "add_input_internal c input = Some ((False, rest), c') \<Longrightarrow> add_input c input = Some (rest, c')"
  by (subst add_input.simps) simp

text \<open>Induction along the calls of a loop that returned.\<close>

lemma add_input_induct [consumes 1, case_names stop step]:
  assumes "add_input c input = Some (rest, c')"
    and stop: "\<And>c input rest c'. add_input_internal c input = Some ((False, rest), c') \<Longrightarrow> P c input rest c'"
    and step: "\<And>c input r d rest c'. add_input_internal c input = Some ((True, r), d) \<Longrightarrow>
      P d r rest c' \<Longrightarrow> P c input rest c'"
  shows "P c input rest c'"
proof -
  have "P c input (fst (rest, c')) (snd (rest, c'))"
  proof (rule add_input.raw_induct [OF _ assms(1), where P = "\<lambda>c input y. P c input (fst y) (snd y)"], goal_cases step)
    case (step loop c input y)
    then obtain b r d where i: "add_input_internal c input = Some ((b, r), d)"
      by (auto simp: bind_eq_Some_conv)
    show ?case
    proof (cases b)
      case True
      with step(2) i have "loop d r = Some y" by simp
      from i True have "add_input_internal c input = Some ((True, r), d)" by simp
      from assms(3) [OF this step(1) [OF \<open>loop d r = Some y\<close>]] show ?thesis .
    next
      case False
      with step(2) i have "y = (r, d)" by simp
      with stop i False show ?thesis by simp
    qed
  qed
  then show ?thesis by simp
qed

lemma add_input_trimmed:
  "add_input c input = Some (rest, c') \<Longrightarrow>
     \<exists>lost. trimmed (raw c @ input) (raw c' @ lost @ rest) \<and> (lost = [] \<or> rest = [] \<and> silenced c')"
proof (induction rule: add_input_induct)
  case (stop c input rest c')
  from add_input_internal_keeps_raw [OF this]
  have "raw c' @ rest = raw c @ input \<or> rest = [] \<and> silenced c'" by simp
  then show ?case
  proof
    assume "raw c' @ rest = raw c @ input"
    then have "trimmed (raw c @ input) (raw c' @ [] @ rest)" by (simp add: trimmed_refl)
    then show ?thesis by blast
  next
    assume s: "rest = [] \<and> silenced c'"
    then have "raw c' = []" by (simp add: silenced_def chunk_is_empty_def)
    with s have "trimmed (raw c @ input) (raw c' @ (raw c @ input) @ rest)" by (simp add: trimmed_refl)
    with s show ?thesis by blast
  qed
next
  case (step c input r d rest c')
  from add_input_internal_keeps_raw [OF step(1)]
  have "trimmed (raw c @ input) (raw d @ r)"
    by (auto intro: trimmed_step trimmed_refl)
  with step.IH trimmed_trans show ?case by blast
qed

lemma trim_plain:
  assumes "ascii s" and "CHR 0x0F \<notin> set s"
  shows "trim_leading_special_key s = s"
proof (cases s)
  case (Cons c cs)
  with assms have "split_first_char32 s = (True, ord_of c, cs)" "ord_of c < 0x80" "c \<noteq> CHR 0x0F"
    by (auto simp: split_first_ascii)
  with Cons show ?thesis
    by (simp add: trim_leading_special_key_def special_range kSpecialKeyOpen_def chr_special)
qed (simp add: trim_leading_special_key_def kSpecialKeyOpen_def)

lemma trimmed_plain: "trimmed s t \<Longrightarrow> ascii s \<Longrightarrow> CHR 0x0F \<notin> set s \<Longrightarrow> t = s"
proof (induction rule: trimmed.induct)
  case (trimmed_in s p q t)
  then have "trim_leading_special_key s = s" by (intro trim_plain) auto
  with trimmed_in.hyps(1) show ?case by simp
qed simp

section \<open>The contract of LookUpPrefix\<close>

text \<open>
  What the chunk needs of a table: lookups consume whole characters and no more than the key; a key
  that is used up stays used when more is typed; no rule has an empty input; and no rule applies
  inside the pending text of a rule, where a rule for the whole pending text leaves a shorter one.  \<open>good\<close> texts are those that can be cut at characters.
\<close>

locale prefix_rules =
  fixes t :: table and good :: "bytes \<Rightarrow> bool"
  assumes length_le: "table_lookup_prefix t key = (r, k, f) \<Longrightarrow> k \<le> length key"
    and extend: "\<lbrakk>good key; table_lookup_prefix t key = (r, length key, f);
      table_lookup_prefix t (key @ rest) = (r', k, f')\<rbrakk> \<Longrightarrow> length key \<le> k"
    and used_prefix: "\<lbrakk>good a; good b; table_lookup_prefix t (a @ b) = (r, k, f); length a \<le> k\<rbrakk> \<Longrightarrow>
      \<exists>r' f'. table_lookup_prefix t a = (r', length a, f')"
    and no_empty_rule: "table_lookup_prefix t key = (Some e, k, f) \<Longrightarrow> 0 < k"
    and quiet: "\<lbrakk>table_lookup_prefix t key = (Some e, k, f);
      table_lookup_prefix t (e_pending e @ rest) = (Some e', k', f')\<rbrakk> \<Longrightarrow>
      length (e_pending e) < k' \<or> k' = length (e_pending e) \<and> length (e_pending e') < length (e_pending e)"
    and good_pending: "table_lookup_prefix t key = (Some e, k, f) \<Longrightarrow> good (e_pending e)"
    and good_Nil: "good []"
    and good_append: "\<lbrakk>good a; good b\<rbrakk> \<Longrightarrow> good (a @ b)"
    and good_cancel: "\<lbrakk>good (a @ b); good a\<rbrakk> \<Longrightarrow> good b"
    and good_used: "\<lbrakk>good key; table_lookup_prefix t key = (r, k, f)\<rbrakk> \<Longrightarrow> good (take k key)"
    and good_trim: "good s \<Longrightarrow> good (trim_leading_special_key s)"
    and good_front: "\<lbrakk>good s; front_char s = (fr, rest)\<rbrakk> \<Longrightarrow> good fr"

text \<open>
  The chunk invariant: its texts are good, and a rule that applies to the pending text and what
  follows uses at least the pending text.  It is strict when such a rule uses more or leaves a shorter
  pending text.
\<close>

definition chunk_fits :: "(bytes \<Rightarrow> bool) \<Rightarrow> char_chunk \<Rightarrow> bool" where
  "chunk_fits good c \<longleftrightarrow> good (pending c) \<and> good (raw c) \<and> good (dar_raw c) \<and>
     (\<forall>rest e k f. table_lookup_prefix (chunk_table c) (pending c @ rest) = (Some e, k, f) \<longrightarrow>
        length (pending c) \<le> k)"

definition chunk_strict :: "char_chunk \<Rightarrow> bool" where
  "chunk_strict c \<longleftrightarrow>
     (\<forall>rest e k f. table_lookup_prefix (chunk_table c) (pending c @ rest) = (Some e, k, f) \<longrightarrow>
        length (pending c) < k \<or> length (e_pending e) < length (pending c))"

lemma chunk_fits_cong:
  "\<lbrakk>chunk_fits good c; pending c' = pending c; cc_table c' = cc_table c; good (raw c'); good (dar_raw c')\<rbrakk> \<Longrightarrow>
     chunk_fits good c'"
  by (simp add: chunk_fits_def)

context prefix_rules
begin

lemma good_rest: "\<lbrakk>good key; table_lookup_prefix t key = (r, k, f)\<rbrakk> \<Longrightarrow> good (drop k key)"
  using good_used good_cancel by (metis append_take_drop_id)

lemma used_again:
  assumes "good key" and "table_lookup_prefix t key = (r, k, f)"
  shows "\<exists>r' f'. table_lookup_prefix t (take k key) = (r', k, f')"
  using used_prefix [OF good_used [OF assms] good_rest [OF assms], of r k f] assms(2) length_le [OF assms(2)]
  by simp

lemma good_used_input:
  assumes "good p" and "good input" and "table_lookup_prefix t (p @ input) = (r, k, f)" and "length p \<le> k"
  shows "good (take (k - length p) input)" and "good (drop (k - length p) input)"
proof -
  from good_used [OF good_append [OF assms(1,2)] assms(3)] assms(4)
  have "good (p @ take (k - length p) input)" by simp
  from good_cancel [OF this assms(1)] show "good (take (k - length p) input)" .
  from good_rest [OF good_append [OF assms(1,2)] assms(3)] assms(4)
  show "good (drop (k - length p) input)" by simp
qed

lemma fits_new: "snd table = t \<Longrightarrow> chunk_fits good (new_chunk t12r table)"
  by (simp add: chunk_fits_def new_chunk_def good_Nil)

lemma fits_pending_rule:
  assumes "chunk_table c = t" and "table_lookup_prefix t key = (Some e, k, f)"
    and "pending c = e_pending e" and "good (raw c)" and "good (dar_raw c)"
  shows "chunk_fits good c \<and> chunk_strict c"
proof
  have q: "length (pending c) \<le> k' \<and> (length (pending c) < k' \<or> length (e_pending e') < length (pending c))"
    if "table_lookup_prefix (chunk_table c) (pending c @ rest) = (Some e', k', f')" for rest e' k' f'
    using quiet [OF assms(2), of rest e' k' f'] that assms(1,3) by auto
  with assms good_pending [OF assms(2)] show "chunk_fits good c" by (auto simp: chunk_fits_def)
  from q show "chunk_strict c" by (simp add: chunk_strict_def)
qed

lemma fits_used:
  assumes "chunk_table c = t" and "good (pending c)" and "table_lookup_prefix t (pending c) = (r, length (pending c), f)"
    and "good (raw c)" and "good (dar_raw c)"
  shows "chunk_fits good c"
  using assms extend [OF assms(2,3)] by (auto simp: chunk_fits_def)

lemma fits_taken:
  assumes "chunk_table c = t" and "good key" and "table_lookup_prefix t key = (r, k, f)"
    and "pending c = take k key" and "good (raw c)" and "good (dar_raw c)"
  shows "chunk_fits good c"
proof -
  from used_again [OF assms(2,3)] obtain r' f' where
    "table_lookup_prefix t (take k key) = (r', k, f')" by blast
  moreover have "length (take k key) = k" using length_le [OF assms(3)] by simp
  ultimately show ?thesis
    using fits_used [OF assms(1), of r' f'] good_used [OF assms(2,3)] assms(4-6) by simp
qed

lemma fits_restore:
  assumes "chunk_fits good c" and "good input" and "has_fallback c" and "restore_fallback c input = (rest, c')"
  shows "chunk_fits good c' \<and> good rest"
proof -
  from assms(3) obtain x where x: "raw c = dar_raw c @ x" by (auto simp: has_fallback_def elim: prefixE)
  from assms(1) have g: "good (raw c)" "good (dar_raw c)" by (simp_all add: chunk_fits_def)
  with x good_cancel have "good x" by metis
  with assms g x good_append good_Nil show ?thesis
    by (auto simp: restore_fallback_def chunk_fits_def)
qed

lemma fits_no_entry:
  assumes c: "chunk_table c = t" "chunk_fits good c" "good input"
    and lk: "table_lookup_prefix t (pending c @ input) = (None, used, f)"
    and res: "add_input_no_entry c input used = ((loop, rest), c')"
  shows "chunk_fits good c' \<and> good rest \<and> (loop \<longrightarrow> length rest < length input)"
proof -
  have gp: "good (pending c)" and gr: "good (raw c)" and gd: "good (dar_raw c)"
    using c by (simp_all add: chunk_fits_def)
  from res show ?thesis
  proof (cases rule: no_entry_cases)
    case restore
    with fits_restore [OF c(2,3) restore(1,2)] show ?thesis by simp
  next
    case trim
    with c good_trim show ?thesis by simp
  next
    case (front fr)
    from good_front [OF c(3) front(2)] have "good fr" .
    moreover have "good rest"
      using good_cancel [of fr rest] \<open>good fr\<close> front_char_concat [OF front(2)] c(3) by simp
    moreover have "chunk_fits good c'"
      by (rule chunk_fits_cong [OF c(2)]) (simp_all add: front gr gd good_append \<open>good fr\<close>)
    ultimately show ?thesis using front by simp
  next
    case same
    with c show ?thesis by simp
  next
    case used
    have le: "length (pending c) \<le> used" using used by simp
    note g = good_used_input [OF gp c(3) lk le]
    have "pending c' = take used (pending c @ input)" using used le by simp
    then have "chunk_fits good c'"
      using fits_taken [OF _ good_append [OF gp c(3)] lk, of c'] used g c gr gd good_append by simp
    with used g show ?thesis by simp
  qed
qed

lemma fits_entry:
  assumes c: "chunk_table c = t" "chunk_fits good c" "good input"
    and lk: "table_lookup_prefix t (pending c @ input) = (Some e, used, fixed)"
  obtains loop rest c' where "add_input_entry c input e used fixed = Some ((loop, rest), c')"
    and "chunk_fits good c'" and "good rest" and "cc_table c' = cc_table c"
    and "rest = drop (used - length (pending c)) input"
    and "loop \<Longrightarrow> chunk_strict c' \<and> pending c' = e_pending e"
proof -
  have gp: "good (pending c)" and gr: "good (raw c)" and gd: "good (dar_raw c)"
    and le: "length (pending c) \<le> used"
    using c lk by (auto simp: chunk_fits_def)
  note g = good_used_input [OF gp c(3) lk le] and key = good_append [OF gp c(3)]
  let ?n = "used - length (pending c)" and ?r = "entry_result c input e used fixed"
  have "add_input_entry c input e used fixed \<noteq> None"
    using le unfolding add_input_entry_def Let_def by simp
  then obtain loop rest c' where res: "add_input_entry c input e used fixed = Some ((loop, rest), c')"
    by (cases "add_input_entry c input e used fixed") auto
  have graw: "good (raw ?r)" using g(1) gr good_append by simp
  with entry_result_dar [of c input e used fixed] good_Nil have gdar: "good (dar_raw ?r)" by auto
  have tab: "chunk_table ?r = t" using c(1) by simp
  have fit: "chunk_fits good ?r"
  proof (cases "fixed \<or> used < length (pending c @ input)")
    case True
    then have "pending ?r = e_pending e" by simp
    from fits_pending_rule [OF tab lk this graw gdar] show ?thesis by simp
  next
    case False
    then have pend: "pending ?r = pending c @ input" by simp
    have "used = length (pending c @ input)" using False length_le [OF lk] by simp
    with lk pend have "table_lookup_prefix t (pending ?r) = (Some e, length (pending ?r), fixed)" by simp
    from fits_used [OF tab _ this graw gdar] pend key \<open>used = _\<close> show ?thesis by simp
  qed
  from res show thesis
  proof (cases rule: add_input_entry_cases)
    case emptied
    have "chunk_fits good c'"
      by (rule chunk_fits_cong [OF fit]) (use emptied(4) good_Nil gdar in simp_all)
    with that [OF res] emptied good_Nil show thesis by simp
  next
    case result
    have "chunk_strict c' \<and> pending c' = e_pending e" if loop
    proof -
      from result(2,3) that have "drop ?n input \<noteq> []" by simp
      then have "used < length (pending c @ input)" using le by simp
      then have "pending ?r = e_pending e" by simp
      from fits_pending_rule [OF tab lk this graw gdar] \<open>pending ?r = e_pending e\<close> result(1) show ?thesis by simp
    qed
    with that [OF res] result fit g show thesis by simp
  qed
qed

lemma internal_fits:
  assumes c: "chunk_table c = t" "chunk_fits good c" "good input"
  obtains loop rest c' where "add_input_internal c input = Some ((loop, rest), c')"
    and "chunk_fits good c'" and "good rest" and "cc_table c' = cc_table c"
    and "loop \<Longrightarrow> length rest < length input \<or> length rest = length input \<and> chunk_strict c' \<and>
      (chunk_strict c \<longrightarrow> length (pending c') < length (pending c))"
proof -
  obtain found used f where lk: "table_lookup_prefix t (pending c @ input) = (found, used, f)"
    by (cases "table_lookup_prefix t (pending c @ input)")
  show thesis
  proof (cases found)
    case None
    obtain loop rest c' where res: "add_input_no_entry c input used = ((loop, rest), c')"
      by (cases "add_input_no_entry c input used") auto
    then have int: "add_input_internal c input = Some ((loop, rest), c')"
      using lk None c(1) by (simp add: add_input_internal_def)
    have "cc_table c' = cc_table c"
      using res by (cases rule: no_entry_cases) (auto simp: restore_fallback_def)
    with that [OF int] fits_no_entry [OF c lk [unfolded None] res] show thesis by simp
  next
    case (Some e)
    from fits_entry [OF c lk [unfolded Some]] obtain loop rest c' where
      res: "add_input_entry c input e used f = Some ((loop, rest), c')"
      and fit: "chunk_fits good c'" "good rest" "cc_table c' = cc_table c"
      and rest: "rest = drop (used - length (pending c)) input" and strict: "loop \<Longrightarrow> chunk_strict c' \<and> pending c' = e_pending e"
      by blast
    have int: "add_input_internal c input = Some ((loop, rest), c')"
      using lk Some c(1) res by (simp add: add_input_internal_def)
    have nonempty: "loop \<Longrightarrow> rest \<noteq> []"
      using res by (cases rule: add_input_entry_cases) simp_all
    have "length rest < length input \<or> length rest = length input \<and> (chunk_strict c \<longrightarrow> length (e_pending e) < length (pending c))"
      if loop
    proof (cases "used = length (pending c)")
      case True
      with rest lk Some c(1) show ?thesis by (fastforce simp: chunk_strict_def)
    next
      case False
      with c lk Some have "length (pending c) < used" by (fastforce simp: chunk_fits_def)
      with rest nonempty [OF that] show ?thesis by (cases input) auto
    qed
    with strict show thesis by (intro that [OF int fit]) auto
  qed
qed

lemma add_input_returns:
  assumes "chunk_table c = t" and "chunk_fits good c" and "good input"
  shows "\<exists>rest c'. add_input c input = Some (rest, c') \<and> chunk_fits good c' \<and> good rest \<and>
    cc_table c' = cc_table c"
  using assms
proof (induction "(c, input)" arbitrary: c input rule: wf_induct_rule [OF wf_measures [of
    "[\<lambda>(c, input). length input, \<lambda>(c, input). if chunk_strict c then 0 else 1, \<lambda>(c, input). length (pending c)]"],
    case_names less])
  case less
  from internal_fits [OF less.prems] obtain loop r d where
    int: "add_input_internal c input = Some ((loop, r), d)" and fit: "chunk_fits good d" "good r"
    and tab: "cc_table d = cc_table c"
    and dec: "loop \<Longrightarrow> length r < length input \<or> length r = length input \<and> chunk_strict d \<and>
      (chunk_strict c \<longrightarrow> length (pending d) < length (pending c))"
    by blast
  show ?case
  proof (cases loop)
    case True
    with dec have "((d, r), (c, input)) \<in> measures
        [\<lambda>(c, input). length input, \<lambda>(c, input). if chunk_strict c then 0 else 1, \<lambda>(c, input). length (pending c)]"
      by auto
    from less.hyps [OF this _ fit] less.prems(1) tab add_input_step [of c input r d] int True
    show ?thesis by simp
  next
    case False
    with int fit tab add_input_stop [of c input r d] show ?thesis by simp
  qed
qed

end

lemma internal_cases:
  assumes "add_input_internal c input = Some ((loop, rest), c')"
  obtains (no_entry) used f where "table_lookup_prefix (chunk_table c) (pending c @ input) = (None, used, f)"
      "add_input_no_entry c input used = ((loop, rest), c')"
  | (entry) e used fixed where "table_lookup_prefix (chunk_table c) (pending c @ input) = (Some e, used, fixed)"
      "add_input_entry c input e used fixed = Some ((loop, rest), c')"
  using assms by (auto simp: add_input_internal_def split: prod.splits option.splits)

section \<open>Chunks that transliterate\<close>

definition audible :: "transliterator \<Rightarrow> char_chunk \<Rightarrow> bool" where
  "audible tr c \<longleftrightarrow> cc_transliterator c = tr \<and> \<not> has_attribute (attributes c) NO_TRANSLITERATION \<and>
     \<not> has_attribute (dar_attributes c) NO_TRANSLITERATION"

definition audible_table :: "table \<Rightarrow> bool" where
  "audible_table t \<longleftrightarrow> (\<forall>p e. rule_map t p = Some e \<longrightarrow> \<not> has_attribute (e_attributes e) NO_TRANSLITERATION)"

lemma no_attribute [simp]: "\<not> has_attribute NO_TABLE_ATTRIBUTE f"
  by (simp add: has_attribute_def NO_TABLE_ATTRIBUTE_def)

lemma audible_new [simp]: "audible t12r (new_chunk t12r table)"
  by (simp add: audible_def new_chunk_def)

lemma audible_not_silenced: "audible tr c \<Longrightarrow> \<not> silenced c"
  by (simp add: audible_def silenced_def)

lemma internal_table:
  assumes "add_input_internal c input = Some ((loop, rest), c')"
  shows "cc_table c' = cc_table c"
  using assms
proof (cases rule: internal_cases)
  case (no_entry used f)
  from no_entry(2) show ?thesis by (cases rule: no_entry_cases) (auto simp: restore_fallback_def)
next
  case (entry e used fixed)
  from entry(2) show ?thesis by (cases rule: add_input_entry_cases) auto
qed

lemma internal_audible:
  assumes "add_input_internal c input = Some ((loop, rest), c')" and "audible tr c" and "audible_table (chunk_table c)"
  shows "audible tr c'"
  using assms(1)
proof (cases rule: internal_cases)
  case (no_entry used f)
  from no_entry(2) assms(2) show ?thesis
    by (cases rule: no_entry_cases) (auto simp: audible_def restore_fallback_def clear_fallback_def)
next
  case (entry e used fixed)
  from table_lookup_prefix_found [OF entry(1)] assms(3)
  have e: "\<not> has_attribute (e_attributes e) NO_TRANSLITERATION" by (auto simp: audible_table_def)
  have r: "audible tr (entry_result c input e used fixed)"
    using assms(2) e by (auto simp: audible_def entry_result_def Let_def clear_fallback_def save_fallback_def)
  from entry(2) r show ?thesis by (cases rule: add_input_entry_cases) (auto simp: audible_def)
qed

lemma add_input_audible:
  "add_input c input = Some (rest, c') \<Longrightarrow> audible tr c \<Longrightarrow> audible_table (chunk_table c) \<Longrightarrow> audible tr c'"
proof (induction rule: add_input_induct)
  case (stop c input rest c')
  then show ?case by (rule internal_audible)
next
  case (step c input r d rest c')
  with internal_audible [OF step(1)] internal_table [OF step(1)] show ?case by simp
qed

section \<open>Tables that meet the contract\<close>

definition scalar_text :: "bytes \<Rightarrow> bool" where
  "scalar_text s \<longleftrightarrow> (\<exists>cs. s = utf8_text cs \<and> scalar_values cs)"

lemma scalar_textI: "scalar_values cs \<Longrightarrow> scalar_text (utf8_text cs)"
  by (auto simp: scalar_text_def)

lemma scalar_small: "scalar_values cs \<Longrightarrow> \<forall>c \<in> set cs. c < 0x80000000"
  by auto

lemma scalar_cancel:
  assumes "scalar_text (a @ b)" and "scalar_text a"
  shows "scalar_text b"
proof -
  obtain cs ds where c: "a @ b = utf8_text cs" "scalar_values cs" and d: "a = utf8_text ds" "scalar_values ds"
    using assms by (auto simp: scalar_text_def)
  have "key_path (a @ b) = cs" using key_path_text [OF scalar_small [OF c(2)], of "[]"] c(1) by simp
  moreover have "key_path (a @ b) = ds @ key_path b"
    using key_path_text [OF scalar_small [OF d(2)], of b] d(1) by simp
  ultimately have cs: "cs = ds @ key_path b" by simp
  with c(1) d(1) have "b = utf8_text (key_path b)" by simp
  with cs c(2) show ?thesis by (metis Un_iff scalar_text_def set_append)
qed

lemma utf8_spec_ascii_byte:
  assumes "x \<in> set (utf8_spec c)" and "ord_of x < 0x80" and "c < 0x80000000"
  shows "utf8_spec c = [x]"
proof (cases "c < 0x80")
  case True
  with assms(1) show ?thesis by (simp add: utf8_spec_def)
next
  case False
  have tr: "x \<notin> set (trail n c)" for n
    using trail_all_trailing [of n c] assms(2) by (auto simp: is_trailing_byte_iff)
  have lead: "x \<noteq> chr_of y" if "0x80 \<le> y" "y < 0x100" for y
  proof
    assume "x = chr_of y"
    then have "ord_of x = y" using that by (simp add: of_char_of)
    with that assms(2) show False by simp
  qed
  have d: "c < 0x800 \<Longrightarrow> c div 64 < 0x20" "c < 0x10000 \<Longrightarrow> c div 4096 < 0x10"
    "c < 0x200000 \<Longrightarrow> c div 262144 < 8" "c < 0x4000000 \<Longrightarrow> c div 16777216 < 4"
    "c < 0x80000000 \<Longrightarrow> c div 1073741824 < 2" by simp_all
  show ?thesis
    using assms(1,3) False d tr by (auto simp: utf8_spec_def lead split: if_splits)
qed

text \<open>An ASCII byte of a text is a character of its own.\<close>

lemma cut_at_ascii:
  assumes "utf8_text cs = a @ x # b" and "ord_of x < 0x80" and "scalar_values cs"
  shows "scalar_text b"
  using assms
proof (induction cs arbitrary: a)
  case (Cons c cs)
  show ?case
  proof (cases "length a < length (utf8_spec c)")
    case True
    have split: "utf8_spec c @ utf8_text cs = a @ x # b" using Cons.prems(1) by simp
    then have "utf8_spec c ! length a = x" using True by (metis nth_append nth_append_length)
    with True have "x \<in> set (utf8_spec c)" by (metis nth_mem)
    with Cons.prems utf8_spec_ascii_byte have one: "utf8_spec c = [x]" by simp
    with True have "a = []" by simp
    with split one have "b = utf8_text cs" by simp
    with Cons.prems(3) show ?thesis by (auto intro: scalar_textI)
  next
    case False
    then obtain a' where "a = utf8_spec c @ a'"
      using Cons.prems(1) by (metis append_eq_append_conv_if append_take_drop_id concat.simps(2) leI list.simps(9))
    with Cons show ?thesis by simp
  qed
qed simp

lemma scalar_split_first:
  assumes "scalar_values (c # cs)"
  shows "split_first_char32 (utf8_text (c # cs)) = (True, c, utf8_text cs)"
  using assms split_first_spec [of c "utf8_text cs"] by simp

lemma scalar_trim:
  assumes "scalar_text s"
  shows "scalar_text (trim_leading_special_key s)"
proof -
  obtain cs where s: "s = utf8_text cs" and v: "scalar_values cs" using assms by (auto simp: scalar_text_def)
  show ?thesis
  proof (cases cs)
    case Nil
    with s show ?thesis using assms by (simp add: trim_leading_special_key_def kSpecialKeyOpen_def)
  next
    case (Cons c ds)
    with v have first: "split_first_char32 s = (True, c, utf8_text ds)" using s scalar_split_first by blast
    have rest: "scalar_text (utf8_text ds)" using v Cons by (auto intro: scalar_textI)
    have "drop (length s - length (utf8_text ds)) s = utf8_text ds" using s Cons by simp
    moreover have "scalar_text (drop (n + 1) s)" if "find_from s kSpecialKeyClose 1 = Some n" for n
    proof -
      from that have "find_sub kSpecialKeyClose (drop 1 s) = Some (n - 1)" "1 \<le> n"
        by (auto simp: find_from_def split: if_splits)
      with find_sub_Some have "prefix [CHR 0x0E] (drop n s)"
        by (fastforce simp: kSpecialKeyClose_def chr_special)
      then obtain b where b: "drop n s = CHR 0x0E # b" by (auto elim: prefixE)
      then have "s = take n s @ CHR 0x0E # b" by (metis append_take_drop_id)
      with cut_at_ascii [of cs "take n s" "CHR 0x0E" b] s v have "scalar_text b" by simp
      moreover have "drop (n + 1) s = b" using b by (metis add.commute drop_drop drop0 drop_Suc_Cons plus_1_eq_Suc)
      ultimately show ?thesis by simp
    qed
    ultimately show ?thesis
      using rest assms first by (auto simp: trim_leading_special_key_def split: option.splits)
  qed
qed

lemma scalar_front:
  assumes "scalar_text s" and "front_char s = (f, r)"
  shows "scalar_text f"
proof -
  obtain cs where s: "s = utf8_text cs" and v: "scalar_values cs" using assms by (auto simp: scalar_text_def)
  show ?thesis
  proof (cases cs)
    case Nil
    with s assms show ?thesis by (simp add: front_char_def)
  next
    case (Cons c ds)
    obtain b bs where b: "utf8_spec c = b # bs" by (cases "utf8_spec c") auto
    with one_char_len_spec [of c] v Cons have "one_char_len b = length (utf8_spec c)" by simp
    with assms(2) s Cons b have "f = utf8_text [c]" by (auto simp: front_char_def)
    moreover have "scalar_values [c]" using v Cons by simp
    ultimately show ?thesis using scalar_textI by blast
  qed
qed

lemma utf8_text_length_mono:
  "map (\<lambda>c. length (utf8_spec c)) cs = map (\<lambda>c. length (utf8_spec c)) ds \<Longrightarrow>
     length (utf8_text (take n cs)) = length (utf8_text (take n ds))"
proof -
  assume eq: "map (\<lambda>c. length (utf8_spec c)) cs = map (\<lambda>c. length (utf8_spec c)) ds"
  have len: "length (utf8_text xs) = sum_list (map (\<lambda>c. length (utf8_spec c)) xs)" for xs :: "char32 list"
    by (induction xs) simp_all
  have "map (\<lambda>c. length (utf8_spec c)) (take n cs) = map (\<lambda>c. length (utf8_spec c)) (take n ds)"
    using eq by (metis take_map)
  with len [of "take n cs"] len [of "take n ds"] show ?thesis by (simp only:)
qed

lemma norm_path_lengths:
  "scalar_values cs \<Longrightarrow> map (\<lambda>c. length (utf8_spec c)) (norm_path t cs) = map (\<lambda>c. length (utf8_spec c)) cs"
  by (auto simp: norm_path_def lower32_def utf8_spec_def)

text \<open>A lookup of a text, in terms of its code points.\<close>

lemma lookup_text:
  assumes "scalar_values cs"
  shows "table_lookup_prefix t (utf8_text cs @ rest) =
    (case walk (entries t) (norm_path t cs @ key_path (normalize_input t rest)) of (n, t') \<Rightarrow>
       (trie_data t', key_bytes (utf8_text (norm_path t cs) @ normalize_input t rest) n,
        trie_data t' = None \<or> trie_subs t' = []))"
  by (simp add: table_lookup_prefix_def normalize_text [OF assms] trie_lookup_prefix_walk
      key_path_text [OF norm_path_small [OF assms]])

lemma key_bytes_inside:
  assumes "scalar_values cs" and "n \<le> length cs"
  shows "key_bytes (utf8_text (norm_path t cs) @ s) n = length (utf8_text (take n cs))"
proof -
  let ?ncs = "norm_path t cs"
  have halves: "utf8_text ?ncs = utf8_text (take n ?ncs) @ utf8_text (drop n ?ncs)"
    by (metis append_take_drop_id concat_append map_append)
  have small: "\<forall>c \<in> set (take n ?ncs). c < 0x80000000"
    using norm_path_small [OF assms(1)] by (auto dest: in_set_takeD)
  have "length (take n ?ncs) = n" using assms(2) by (simp add: norm_path_def)
  with key_bytes_text [OF small, of "utf8_text (drop n ?ncs) @ s" 0]
  have "key_bytes (utf8_text ?ncs @ s) n = length (utf8_text (take n ?ncs))"
    by (simp add: halves del: append_take_drop_id)
  with utf8_text_length_mono [OF norm_path_lengths [OF assms(1)]] show ?thesis by simp
qed

lemma lookup_text_used:
  assumes "scalar_values cs" and "table_lookup_prefix t (utf8_text cs) = (r, k, f)"
  obtains n where "n \<le> length cs" and "k = length (utf8_text (take n cs))"
    and "trie_node (entries t) (take n (norm_path t cs)) \<noteq> None"
proof -
  obtain n t' where w: "walk (entries t) (norm_path t cs) = (n, t')"
    by (cases "walk (entries t) (norm_path t cs)")
  from walk_node [OF w] have n: "n \<le> length cs" "trie_node (entries t) (take n (norm_path t cs)) = Some t'"
    by (simp_all add: norm_path_def split: if_splits)
  have "normalize_input t [] = []" by (simp add: normalize_input_def lower_string.simps)
  then have "k = length (utf8_text (take n cs))"
    using lookup_text [OF assms(1), of t "[]"] assms(2) w key_bytes_inside [OF assms(1) n(1), of t "[]"] by simp
  with that n show thesis by simp
qed

lemma trie_node_prefix: "trie_node t (p @ q) \<noteq> None \<Longrightarrow> trie_node t p \<noteq> None"
  by (auto simp: trie_node_append bind_eq_Some_conv)

lemma walk_at_least:
  assumes "trie_node t p \<noteq> None" and "walk t (p @ q) = (n, t')"
  shows "length p \<le> n"
proof (rule ccontr)
  assume "\<not> length p \<le> n"
  then have "n < length p" by simp
  with walk_stops [OF assms(2), of "length p"] assms(1) show False by simp
qed

lemma lookup_text_node:
  assumes "scalar_values cs" and "trie_node (entries t) (norm_path t cs) \<noteq> None"
  shows "\<exists>r f. table_lookup_prefix t (utf8_text cs) = (r, length (utf8_text cs), f)"
proof -
  obtain m t' where w: "walk (entries t) (norm_path t cs) = (m, t')" by (cases "walk (entries t) (norm_path t cs)")
  have m: "m = length cs"
    using walk_at_least [of "entries t" "norm_path t cs" "[]" m t'] assms(2) w walk_node [OF w]
    by (simp add: norm_path_def split: if_splits)
  have nil: "normalize_input t [] = []" by (simp add: normalize_input_def lower_string.simps)
  have "key_bytes (utf8_text (norm_path t cs) @ []) (length cs) = length (utf8_text (take (length cs) cs))"
    by (rule key_bytes_inside [OF assms(1)]) simp
  then have "table_lookup_prefix t (utf8_text cs) =
      (trie_data t', length (utf8_text cs), trie_data t' = None \<or> trie_subs t' = [])"
    using lookup_text [OF assms(1), of t "[]"] w m nil by simp
  then show ?thesis by blast
qed

lemma quiet_prefix_rules:
  assumes "quiet_table t"
  shows "prefix_rules t scalar_text"
proof unfold_locales
  fix key r k f assume "table_lookup_prefix t key = (r, k, f)"
  then show "k \<le> length key" by (rule lookup_prefix_length_le)
next
  fix key rest r k f r' f'
  assume g: "scalar_text key" and all: "table_lookup_prefix t key = (r, length key, f)"
    and more: "table_lookup_prefix t (key @ rest) = (r', k, f')"
  obtain cs where cs: "key = utf8_text cs" "scalar_values cs" using g by (auto simp: scalar_text_def)
  from lookup_text_used [OF cs(2) all [unfolded cs(1)]] obtain n where n: "n \<le> length cs"
    and len: "length (utf8_text cs) = length (utf8_text (take n cs))"
    and node: "trie_node (entries t) (take n (norm_path t cs)) \<noteq> None" by blast
  have "utf8_text cs = utf8_text (take n cs) @ utf8_text (drop n cs)"
    by (metis append_take_drop_id concat_append map_append)
  with len have "utf8_text (drop n cs) = []" by simp
  then have "n = length cs" using n by (cases "drop n cs") auto
  with node have node: "trie_node (entries t) (norm_path t cs) \<noteq> None" by (simp add: norm_path_def)
  obtain m t' where w: "walk (entries t) (norm_path t cs @ key_path (normalize_input t rest)) = (m, t')"
    by (cases "walk (entries t) (norm_path t cs @ key_path (normalize_input t rest))")
  from walk_at_least [OF node w] have "length (norm_path t cs) \<le> m" .
  then obtain d where m: "m = length (norm_path t cs) + d" using le_Suc_ex by blast
  have "k = key_bytes (utf8_text (norm_path t cs) @ normalize_input t rest) m"
    using more lookup_text [OF cs(2), of t rest] w cs(1) by simp
  also have "\<dots> = length (utf8_text (norm_path t cs)) + key_bytes (normalize_input t rest) d"
    unfolding m by (rule key_bytes_text [OF norm_path_small [OF cs(2)]])
  finally show "length key \<le> k" using length_norm_text [OF cs(2)] cs(1) by simp
next
  fix a b r k f
  assume g: "scalar_text a" "scalar_text b" and lk: "table_lookup_prefix t (a @ b) = (r, k, f)" and le: "length a \<le> k"
  obtain cs ds where cs: "a = utf8_text cs" "scalar_values cs" and ds: "b = utf8_text ds" "scalar_values ds"
    using g by (auto simp: scalar_text_def)
  have v: "scalar_values (cs @ ds)" using cs ds by auto
  have lk': "table_lookup_prefix t (utf8_text (cs @ ds)) = (r, k, f)" using lk cs ds by simp
  from lookup_text_used [OF v lk'] obtain n where n: "n \<le> length (cs @ ds)"
    and k: "k = length (utf8_text (take n (cs @ ds)))"
    and node: "trie_node (entries t) (take n (norm_path t (cs @ ds))) \<noteq> None" by blast
  have "length cs \<le> n"
  proof (rule ccontr)
    assume "\<not> length cs \<le> n"
    then have short: "n < length cs" by simp
    have "length (utf8_text cs) = length (utf8_text (take n cs)) + length (utf8_text (drop n cs))"
      by (metis append_take_drop_id concat_append length_append map_append)
    moreover have "length (utf8_text (drop n cs)) > 0" using short by (cases "drop n cs") auto
    moreover have "k = length (utf8_text (take n cs))" using k short by (simp del: length_concat map_map)
    moreover have "length (utf8_text cs) \<le> k" using le unfolding cs(1) .
    ultimately show False by linarith
  qed
  then obtain d where "n = length cs + d" using le_Suc_ex by blast
  then have "take n (norm_path t (cs @ ds)) = norm_path t cs @ take d (norm_path t ds)"
    by (simp add: norm_path_def)
  with node have "trie_node (entries t) (norm_path t cs @ take d (norm_path t ds)) \<noteq> None" by simp
  from lookup_text_node [OF cs(2) trie_node_prefix [OF this]]
  show "\<exists>r' f'. table_lookup_prefix t a = (r', length a, f')" unfolding cs(1) .
next
  fix key r k f
  assume g: "scalar_text key" and lk: "table_lookup_prefix t key = (r, k, f)"
  obtain cs where cs: "key = utf8_text cs" "scalar_values cs" using g by (auto simp: scalar_text_def)
  from lookup_text_used [OF cs(2) lk [unfolded cs(1)]] obtain n where
    k: "k = length (utf8_text (take n cs))" by blast
  have "utf8_text cs = utf8_text (take n cs) @ utf8_text (drop n cs)"
    by (metis append_take_drop_id concat_append map_append)
  then have take: "take k key = utf8_text (take n cs)" unfolding cs(1) k by (metis append_eq_conv_conj)
  have "scalar_values (take n cs)" using cs(2) by (auto dest: in_set_takeD)
  then show "scalar_text (take k key)" unfolding take by (rule scalar_textI)
next
  fix key e k f assume lk: "table_lookup_prefix t key = (Some e, k, f)"
  from table_lookup_prefix_found [OF lk] obtain n where
    n: "n \<le> length (key_path (normalize_input t key))"
      "rule_map t (take n (key_path (normalize_input t key))) = Some e"
      "k = key_bytes (normalize_input t key) n" by blast
  with quiet_no_empty_rule [OF assms] have "0 < n" by (cases n) auto
  moreover from this n(1) have "normalize_input t key \<noteq> []" by (cases "normalize_input t key = []") auto
  ultimately show "0 < k" using key_bytes_pos n(3) by simp
  show "scalar_text (e_pending e)"
    using n(2) assms unfolding quiet_table_def scalar_text_def by blast
  fix rest e' k' f' assume "table_lookup_prefix t (e_pending e @ rest) = (Some e', k', f')"
  with quiet_lookup_beyond [OF assms n(2)]
  show "length (e_pending e) < k' \<or> k' = length (e_pending e) \<and> length (e_pending e') < length (e_pending e)" by blast
next
  show "scalar_text []" using scalar_textI [of "[]"] by simp
next
  fix a b assume "scalar_text a" "scalar_text b"
  then obtain cs ds where "a = utf8_text cs" "scalar_values cs" "b = utf8_text ds" "scalar_values ds"
    by (auto simp: scalar_text_def)
  with scalar_textI [of "cs @ ds"] show "scalar_text (a @ b)" by auto
qed (auto intro: scalar_cancel scalar_trim scalar_front)

lemma new_table_quiet: "quiet_table new_table"
proof -
  have "rule_map new_table p = None" for p by (simp add: rule_map_def)
  then show ?thesis by (simp add: quiet_table_def)
qed

lemma romaji_excerpt_audible: "audible_table romaji_excerpt"
  by (simp add: audible_table_def romaji_excerpt_rules romaji_entry_defs has_attribute_def)

lemma romaji_text: "scalar_text ''wwwka''"
proof -
  have "''wwwka'' = utf8_text [119, 119, 119, 107, 97]" by code_simp
  then show ?thesis using scalar_textI [of "[119, 119, 119, 107, 97]"] by (simp add: is_surrogate_def)
qed

interpretation romaji_table: prefix_rules romaji_excerpt scalar_text
  by (rule quiet_prefix_rules [OF romaji_excerpt_quiet])

interpretation default_table: prefix_rules new_table scalar_text
  by (rule quiet_prefix_rules [OF new_table_quiet])

section \<open>Inputs that do not return\<close>

lemma add_input_diverges:
  assumes "\<And>c input. (c, input) \<in> S \<Longrightarrow>
      \<exists>rest c'. add_input_internal c input = Some ((True, rest), c') \<and> (c', rest) \<in> S"
    and "(c, input) \<in> S"
  shows "add_input c input = None"
proof (rule ccontr)
  assume "add_input c input \<noteq> None"
  then obtain rest c' where "add_input c input = Some (rest, c')" by auto
  then have "(c, input) \<notin> S"
  proof (induction rule: add_input_induct)
    case (stop c input rest c')
    with assms(1) [of c input] show ?case by auto
  next
    case (step c input r d rest c')
    with assms(1) [of c input] show ?case by auto
  qed
  with assms(2) show False by blast
qed

lemma ascii_normalize:
  "ascii s \<Longrightarrow> \<forall>c \<in> set s. \<not> (0x41 \<le> ord_of c \<and> ord_of c \<le> 0x5A) \<Longrightarrow> normalize_input t s = s"
  by (simp add: normalize_input_def ascii_lower)


section \<open>Properties\<close>

text \<open>
  C17: typing loses no byte.  When \<open>AddInput\<close> returns, the raw text of the chunk followed by what is
  left of the input is the old raw text followed by the input with some special keys deleted, and
  nothing is deleted from ASCII text without the byte 0x0F.  There is one exception: the attribute \<open>NO_TRANSLITERATION\<close>, of
  the chunk or of a rule of its table, with which a rule that leaves no text empties the chunk; then the raw text
  and all of the input are dropped.
\<close>

theorem add_input_keeps_typed_text:
  assumes "add_input c input = Some (rest, c')"
  shows "trimmed (raw c @ input) (raw c' @ rest) \<and>
      (ascii (raw c @ input) \<and> CHR 0x0F \<notin> set (raw c @ input) \<longrightarrow> raw c' @ rest = raw c @ input) \<or>
    rest = [] \<and> chunk_is_empty c' \<and> has_attribute (attributes c') NO_TRANSLITERATION \<and>
      \<not> (audible (cc_transliterator c) c \<and> audible_table (chunk_table c))"
proof -
  from add_input_trimmed [OF assms] obtain lost where t: "trimmed (raw c @ input) (raw c' @ lost @ rest)"
    and lost: "lost = [] \<or> rest = [] \<and> silenced c'" by blast
  show ?thesis
  proof (cases "lost = []")
    case True
    with t trimmed_plain [of "raw c @ input"] show ?thesis by auto
  next
    case False
    with lost have s: "rest = []" "silenced c'" by auto
    with add_input_audible [OF assms] audible_not_silenced
    have "\<not> (audible (cc_transliterator c) c \<and> audible_table (chunk_table c))" by blast
    with s show ?thesis by (simp add: silenced_def)
  qed
qed

theorem add_input_keeps_typed_text_witness:
  "\<exists>rest c'. add_input (new_chunk RAW_STRING (0, romaji_excerpt)) ''wwwka'' = Some (rest, c') \<and>
     raw c' @ rest = ''wwwka''"
proof -
  let ?c = "new_chunk RAW_STRING (0, romaji_excerpt)"
  have c: "audible (cc_transliterator ?c) ?c" "chunk_table ?c = romaji_excerpt" "raw ?c = []"
    using audible_new [of RAW_STRING] by (simp_all add: new_chunk_def)
  have "chunk_fits scalar_text ?c" by (rule romaji_table.fits_new) simp
  from romaji_table.add_input_returns [OF c(2) this romaji_text] obtain rest c' where
    r: "add_input ?c ''wwwka'' = Some (rest, c')" by blast
  with c add_input_keeps_typed_text [OF r] romaji_excerpt_audible show ?thesis by auto
qed

text \<open>
  C16: typing returns.  On a table in which no rule applies inside a pending text and a rule for a whole pending text
  leaves a shorter one (as for "ww" and "www" of the romaji table), \<open>AddInput\<close> on a
  chunk that satisfies the invariant and valid text neither throws nor loops, and the invariant
  holds again for the chunk it leaves; a new chunk satisfies it.
\<close>

theorem add_input_total:
  assumes "quiet_table (snd table)" and "scalar_text input"
    and "chunk_fits scalar_text c" and "cc_table c = table"
  shows "(\<exists>rest c'. add_input c input = Some (rest, c') \<and> scalar_text rest \<and>
      chunk_fits scalar_text c' \<and> cc_table c' = table) \<and>
    chunk_fits scalar_text (new_chunk t12r table)"
  using prefix_rules.add_input_returns [OF quiet_prefix_rules [OF assms(1)] _ assms(3,2)]
    prefix_rules.fits_new [OF quiet_prefix_rules [OF assms(1)] refl] assms(4) by auto

theorem add_input_total_witness:
  "rule_map romaji_excerpt [119, 119, 119] = Some www_entry \<and>
   (\<exists>rest c'. add_input (new_chunk HIRAGANA (0, romaji_excerpt)) ''wwwka'' = Some (rest, c') \<and> scalar_text rest \<and>
      chunk_fits scalar_text c' \<and> cc_table c' = (0, romaji_excerpt))"
proof -
  let ?c = "new_chunk HIRAGANA (0, romaji_excerpt)"
  have "chunk_fits scalar_text ?c" "cc_table ?c = (0, romaji_excerpt)"
    using romaji_table.fits_new [of "(0, romaji_excerpt)"] by (simp_all add: new_chunk_def)
  from add_input_total [OF _ romaji_text this] romaji_excerpt_quiet show ?thesis by (simp add: romaji_excerpt_rules)
qed

text \<open>
  C37: without that condition \<open>AddInput\<close> throws.  The rules "x" to "X" and "a" to "A" with the pending
  text "xyz" are accepted; after "a" the next character computes the length of the used input as
  1 - 3 in \<open>size_t\<close> and calls \<open>substr\<close> past the end.
\<close>

theorem add_input_throws:
  "\<exists>e1 t1 e2 t2 c1. add_rule new_table ''x'' ''X'' [] = Some (Some e1, t1) \<and>
     add_rule t1 ''a'' ''A'' ''xyz'' = Some (Some e2, t2) \<and>
     add_input (new_chunk CONVERSION_STRING (0, t2)) ''a'' = Some ([], c1) \<and>
     raw c1 = ''a'' \<and> conversion c1 = ''A'' \<and> pending c1 = ''xyz'' \<and> add_input c1 ''b'' = None"
proof -
  obtain e1 t1 where i1: "insert_rule new_table ''x'' ''X'' [] NO_TABLE_ATTRIBUTE = (e1, t1)"
    by (cases "insert_rule new_table ''x'' ''X'' [] NO_TABLE_ATTRIBUTE")
  obtain e2 t2 where i2: "insert_rule t1 ''a'' ''A'' ''xyz'' NO_TABLE_ATTRIBUTE = (e2, t2)"
    by (cases "insert_rule t1 ''a'' ''A'' ''xyz'' NO_TABLE_ATTRIBUTE")
  note s1 = insert_rule_simps [OF i1] and s2 = insert_rule_simps [OF i2]
  have e: "e_pending e1 = []" "e_pending e2 = ''xyz''" "e_result e2 = ''A''" using s1(2) s2(2) by simp_all
  have t1: "entries t1 = Trie None [(120, Trie (Some e1) [])]"
    using s1(4) by (simp add: add_entry.simps find_sub_trie_def empty_trie_def split_first_ascii Let_def)
  then have t2: "entries t2 = Trie None [(120, Trie (Some e1) []), (97, Trie (Some e2) [])]"
    using s2(4) by (simp add: add_entry.simps find_sub_trie_def empty_trie_def split_first_ascii Let_def)
  have lk: "table_lookup_prefix t1 ''xyz'' = (Some e1, 1, True)" "table_lookup_prefix t1 ''yz'' = (None, 0, True)"
    "table_lookup_prefix t2 ''a'' = (Some e2, 1, True)" "table_lookup_prefix t2 ''xyzb'' = (Some e1, 1, True)"
    by (simp_all add: table_lookup_prefix_def trie_lookup_prefix_walk ascii_normalize ascii_key_path t1 t2 split_first_ascii)
  have r1: "add_rule new_table ''x'' ''X'' [] = Some (Some e1, t1)"
    using add_rule_plain [of "''x''" "[]" new_table "''X''"] i1 by simp
  have "is_looping_entry t1 ''a'' ''xyz'' = Some False"
    by (simp add: is_looping_entry_def is_looping_loop.simps lk e Let_def)
  then have r2: "add_rule t1 ''a'' ''A'' ''xyz'' = Some (Some e2, t2)"
    using add_rule_plain [of "''a''" "''xyz''" t1 "''A''"] i2 by simp
  let ?c = "new_chunk CONVERSION_STRING (0, t2)" and ?c1 = "entry_result (new_chunk CONVERSION_STRING (0, t2)) ''a'' e2 1 True"
  have fields: "raw ?c1 = ''a''" "conversion ?c1 = ''A''" "pending ?c1 = ''xyz''" "chunk_table ?c1 = t2"
    by (simp_all add: entry_result_def new_chunk_def Let_def e)
  have "add_input_internal ?c ''a'' = Some ((False, []), ?c1)"
    using fields by (simp add: add_input_internal_def add_input_entry_def new_chunk_def lk Let_def)
  from add_input_stop [OF this] have first: "add_input ?c ''a'' = Some ([], ?c1)" .
  have "add_input_internal ?c1 ''b'' = None"
    using fields by (simp add: add_input_internal_def lk add_input_entry_def)
  then have "add_input ?c1 ''b'' = None" by (subst add_input.simps) simp
  with r1 r2 first fields show ?thesis by blast
qed

text \<open>
  C38: and it can loop forever.  In a case-insensitive table the loop check accepts "a" to the pending
  text "A", which the lookup lowers to "a" again; typing "a" and then "b" never returns.
\<close>

theorem add_input_loops:
  "\<exists>e t c1. add_rule new_table ''a'' [] ''A'' = Some (Some e, t) \<and>
     add_input (new_chunk CONVERSION_STRING (0, t)) ''a'' = Some ([], c1) \<and> add_input c1 ''b'' = None"
proof -
  obtain e t where i: "insert_rule new_table ''a'' [] ''A'' NO_TABLE_ATTRIBUTE = (e, t)"
    by (cases "insert_rule new_table ''a'' [] ''A'' NO_TABLE_ATTRIBUTE")
  note s = insert_rule_simps [OF i]
  have e: "e_pending e = ''A''" "e_result e = []" "e_attributes e = NO_TABLE_ATTRIBUTE" using s(2) by simp_all
  have cs: "\<not> case_sensitive t" using s(5) by (simp add: ascii_capital)
  have t: "entries t = Trie None [(97, Trie (Some e) [])]"
    using s(4) by (simp add: add_entry.simps find_sub_trie_def empty_trie_def split_first_ascii Let_def)
  have sc: "scalar_values [65]" "scalar_values [65, 98]" by (simp_all add: is_surrogate_def)
  have u: "''A'' = utf8_text [65]" "''Ab'' = utf8_text [65, 98]" "''a'' = utf8_text [97]" "''ab'' = utf8_text [97, 98]"
    by code_simp+
  have low: "lower_string ''A'' = ''a''" "lower_string ''Ab'' = ''ab''"
    unfolding u using lower_text [OF sc(1)] lower_text [OF sc(2)] by (simp_all add: lower32_def)
  have lk: "table_lookup_prefix new_table ''A'' = (None, 0, True)"
    "table_lookup_prefix t ''a'' = (Some e, 1, True)" "table_lookup_prefix t ''Ab'' = (Some e, 1, True)"
    by (simp_all add: table_lookup_prefix_def trie_lookup_prefix_walk normalize_input_def low cs ascii_lower
        ascii_key_path t empty_trie_def split_first_ascii)
  have "is_looping_entry new_table ''a'' ''A'' = Some False"
    by (simp add: is_looping_entry_def is_looping_loop.simps lk)
  then have r: "add_rule new_table ''a'' [] ''A'' = Some (Some e, t)"
    using add_rule_plain [of "''a''" "''A''" new_table "[]"] i by simp
  let ?c = "new_chunk CONVERSION_STRING (0, t)" and ?c1 = "entry_result (new_chunk CONVERSION_STRING (0, t)) ''a'' e 1 True"
  have fields: "pending ?c1 = ''A''" "chunk_table ?c1 = t" by (simp_all add: new_chunk_def e)
  have "add_input_internal ?c ''a'' = Some ((False, []), ?c1)"
    using fields by (simp add: add_input_internal_def add_input_entry_def new_chunk_def lk Let_def)
  from add_input_stop [OF this] have first: "add_input ?c ''a'' = Some ([], ?c1)" .
  have "add_input ?c1 ''b'' = None"
  proof (rule add_input_diverges [of "{(c, input). chunk_table c = t \<and> pending c = ''A'' \<and> input = ''b''}"])
    fix c input assume "(c, input) \<in> {(c, input). chunk_table c = t \<and> pending c = ''A'' \<and> input = ''b''}"
    then show "\<exists>rest c'. add_input_internal c input = Some ((True, rest), c') \<and>
        (c', rest) \<in> {(c, input). chunk_table c = t \<and> pending c = ''A'' \<and> input = ''b''}"
      by (simp add: add_input_internal_def lk add_input_entry_def Let_def e)
  qed (simp add: new_chunk_def e)
  with r first show ?thesis by blast
qed

end
