(* ===== verification/Composition_Chunks.thy ===== *)
theory Composition_Chunks
  imports Chunk_Input
begin

text \<open>
  The composition (\<open>composer/composition.h\<close>, \<open>composer/composition.cc\<close>): a list of chunks, the table
  and the transliterator for new input.  A \<open>std::list\<close> iterator is the index of its element, the end
  iterator the length of the list; an operation that inserts or erases returns the index its iterator
  has afterwards.  \<open>None\<close> is an operation that does not return: it throws, reads past a buffer,
  dereferences the end iterator, fails a \<open>CHECK\<close> or loops.
\<close>

section \<open>State and cursor arithmetic\<close>

record composition =
  comp_table :: shared_table
  chunks :: "char_chunk list"
  input_t12r :: transliterator

definition new_composition :: "shared_table \<Rightarrow> composition" where
  "new_composition table = \<lparr>comp_table = table, chunks = [], input_t12r = CONVERSION_STRING\<rparr>"

definition erase_composition :: "composition \<Rightarrow> composition" where
  "erase_composition cm = cm\<lparr>chunks := []\<rparr>"

text \<open>\<open>GetChunkAt\<close>: the index of the chunk and the position inside it.\<close>

fun chunk_at_loop ::
  "japanese_env \<Rightarrow> transliterator \<Rightarrow> nat \<Rightarrow> nat \<Rightarrow> nat \<Rightarrow> nat \<Rightarrow> char_chunk list \<Rightarrow> nat \<times> nat" where
  "chunk_at_loop env t12r position chunk_offset i chunk_length [] = (i - 1, chunk_length)"
| "chunk_at_loop env t12r position chunk_offset i chunk_length (c # cs) =
     (let len = get_length env t12r c in
      if chunk_offset + len < position
      then chunk_at_loop env t12r position (chunk_offset + len) (Suc i) len cs
      else (i, position - chunk_offset))"

definition get_chunk_at :: "japanese_env \<Rightarrow> nat \<Rightarrow> transliterator \<Rightarrow> char_chunk list \<Rightarrow> nat \<times> nat" where
  "get_chunk_at env position t12r cs = (if cs = [] then (0, 0) else chunk_at_loop env t12r position 0 0 0 cs)"

text \<open>\<open>GetPosition\<close> of the iterator \<open>cur\<close>.\<close>

fun position_loop :: "japanese_env \<Rightarrow> transliterator \<Rightarrow> nat \<Rightarrow> char_chunk list \<Rightarrow> nat" where
  "position_loop env t12r position [] = position"
| "position_loop env t12r position (c # cs) = position_loop env t12r (position + get_length env t12r c) cs"

definition get_position :: "japanese_env \<Rightarrow> transliterator \<Rightarrow> nat \<Rightarrow> char_chunk list \<Rightarrow> nat" where
  "get_position env t12r cur cs = position_loop env t12r 0 (take cur cs)"

definition composition_length :: "japanese_env \<Rightarrow> char_chunk list \<Rightarrow> nat" where
  "composition_length env cs = get_position env LOCAL (length cs) cs"

text \<open>\<open>ConvertPosition\<close>; the \<open>CHECK\<close> on the inner position aborts.\<close>

definition convert_position ::
  "japanese_env \<Rightarrow> nat \<Rightarrow> transliterator \<Rightarrow> transliterator \<Rightarrow> char_chunk list \<Rightarrow> nat option" where
  "convert_position env position_from t12r_from t12r_to cs =
     (if t12r_from = t12r_to then Some position_from
      else case get_chunk_at env position_from t12r_from cs of (i, inner) \<Rightarrow>
        if i = length cs then Some 0
        else
          let chunk_length_from = get_length env t12r_from (cs ! i) in
          if chunk_length_from < inner then None
          else
            let position_to = get_position env t12r_to i cs in
            if inner = 0 then Some position_to
            else
              let chunk_length_to = get_length env t12r_to (cs ! i) in
              if inner = chunk_length_from then Some (position_to + chunk_length_to)
              else if chunk_length_to < inner then Some (position_to + chunk_length_to)
              else Some (position_to + inner))"

section \<open>Display\<close>

definition composition_transliterator :: "japanese_env \<Rightarrow> nat \<Rightarrow> char_chunk list \<Rightarrow> transliterator option" where
  "composition_transliterator env position cs =
     (let i = fst (get_chunk_at env position LOCAL cs) in
      if i = length cs then None else Some (chunk_transliterator (cs ! i) LOCAL))"

text \<open>
  \<open>SetTransliterator\<close> walks from the first to the last chunk of the range; if the last one came before
  the first, the walk would run past the end.
\<close>

definition composition_set_transliterator ::
  "japanese_env \<Rightarrow> nat \<Rightarrow> nat \<Rightarrow> transliterator \<Rightarrow> char_chunk list \<Rightarrow> char_chunk list option" where
  "composition_set_transliterator env position_from position_to t12r cs =
     (if position_to < position_from \<or> cs = [] then Some cs
      else
        let i = fst (get_chunk_at env position_from LOCAL cs);
            j = fst (get_chunk_at env position_to LOCAL cs) in
        if j < i then None
        else Some (take i cs @ map (set_transliterator t12r) (take (Suc j - i) (drop i cs)) @ drop (Suc j) cs))"

definition set_display_mode ::
  "japanese_env \<Rightarrow> transliterator \<Rightarrow> composition \<Rightarrow> (nat \<times> composition) option" where
  "set_display_mode env t12r cm =
     map_option
       (\<lambda>cs. (composition_length env cs, cm\<lparr>chunks := cs, input_t12r := t12r\<rparr>))
       (composition_set_transliterator env 0 (composition_length env (chunks cm)) t12r (chunks cm))"

datatype trim_mode = TRIM | ASIS | FIX

fun append_results :: "japanese_env \<Rightarrow> transliterator \<Rightarrow> char_chunk list \<Rightarrow> bytes \<Rightarrow> bytes" where
  "append_results env t12r [] result = result"
| "append_results env t12r (c # cs) result = append_results env t12r cs (append_result env t12r c result)"

definition get_string_with_modes :: "japanese_env \<Rightarrow> transliterator \<Rightarrow> trim_mode \<Rightarrow> char_chunk list \<Rightarrow> bytes" where
  "get_string_with_modes env t12r mode cs =
     (if cs = [] then []
      else
        let composition = append_results env t12r (butlast cs) []; it = last cs in
        case mode of
          TRIM \<Rightarrow> append_trimed_result env t12r it composition
        | ASIS \<Rightarrow> append_result env t12r it composition
        | FIX \<Rightarrow> append_fixed_result env t12r it composition)"

definition get_expanded_strings :: "japanese_env \<Rightarrow> char_chunk list \<Rightarrow> bytes \<times> bytes set" where
  "get_expanded_strings env cs =
     (if cs = [] then ([], {})
      else
        let base = append_results env LOCAL (butlast cs) [] in
        (append_trimed_result env LOCAL (last cs) base, get_expanded_results (last cs)))"

definition get_string :: "japanese_env \<Rightarrow> char_chunk list \<Rightarrow> bytes" where
  "get_string env cs = (if cs = [] then [] else append_results env LOCAL cs [])"

definition get_string_with_transliterator :: "japanese_env \<Rightarrow> transliterator \<Rightarrow> char_chunk list \<Rightarrow> bytes" where
  "get_string_with_transliterator env t12r cs = get_string_with_modes env t12r FIX cs"

definition get_string_with_trim_mode :: "japanese_env \<Rightarrow> trim_mode \<Rightarrow> char_chunk list \<Rightarrow> bytes" where
  "get_string_with_trim_mode env mode cs = get_string_with_modes env LOCAL mode cs"

text \<open>\<open>GetPreedit\<close>: the texts left of, at and right of the cursor.\<close>

definition get_preedit :: "japanese_env \<Rightarrow> nat \<Rightarrow> char_chunk list \<Rightarrow> (bytes \<times> bytes \<times> bytes) option" where
  "get_preedit env position cs =
     (let composition = get_string env cs in
      Option.bind (utf8_substring composition 0 position) (\<lambda>left.
      Option.bind (utf8_substring composition position 1) (\<lambda>focused.
      Option.bind (utf8_substring_to_end composition (position + 1)) (\<lambda>right.
        Some (left, focused, right)))))"

definition composition_should_commit :: "char_chunk list \<Rightarrow> bool" where
  "composition_should_commit cs = list_all chunk_should_commit cs"

definition is_toggleable :: "japanese_env \<Rightarrow> nat \<Rightarrow> composition \<Rightarrow> bool" where
  "is_toggleable env position cm =
     (let i = fst (get_chunk_at env position LOCAL (chunks cm)) in
      if i = length (chunks cm) then False
      else prefix (special_key_parse (special_keys (snd (comp_table cm))) ''{?}'') (pending (chunks cm ! i)))"

definition set_input_mode :: "transliterator \<Rightarrow> composition \<Rightarrow> composition" where
  "set_input_mode t12r cm = cm\<lparr>input_t12r := t12r\<rparr>"

definition set_table :: "shared_table \<Rightarrow> composition \<Rightarrow> composition" where
  "set_table table cm = cm\<lparr>comp_table := table\<rparr>"

section \<open>Editing\<close>

text \<open>\<open>MaybeSplitChunkAt\<close>: the chunks and the index of the chunk right of the position.\<close>

definition maybe_split_chunk_at :: "japanese_env \<Rightarrow> nat \<Rightarrow> char_chunk list \<Rightarrow> (char_chunk list \<times> nat) option" where
  "maybe_split_chunk_at env position cs =
     (case get_chunk_at env position LOCAL cs of (i, inner) \<Rightarrow>
        if i = 0 \<and> inner = 0 then Some (cs, i)
        else if inner = get_length env LOCAL (cs ! i) then Some (cs, Suc i)
        else
          map_option
            (\<lambda>r. case r of
                Inl _ \<Rightarrow> (cs, i)
              | Inr (left, right) \<Rightarrow> (take i cs @ left # right # drop (Suc i) cs, Suc i))
            (split_chunk env LOCAL inner (cs ! i)))"

text \<open>\<open>InsertChunk\<close> puts a new chunk before the iterator, which then is one further right.\<close>

definition insert_chunk :: "composition \<Rightarrow> nat \<Rightarrow> composition" where
  "insert_chunk cm i =
     cm\<lparr>chunks := take i (chunks cm) @ new_chunk (input_t12r cm) (comp_table cm) # drop i (chunks cm)\<rparr>"

text \<open>\<open>GetInsertionChunk\<close>: the index of the chunk to type into; the right chunk follows it.\<close>

definition get_insertion_chunk :: "composition \<Rightarrow> nat \<Rightarrow> composition \<times> nat" where
  "get_insertion_chunk cm i =
     (if i = 0 then (insert_chunk cm i, i)
      else if is_appendable (chunks cm ! (i - 1)) (input_t12r cm) (comp_table cm) then (cm, i - 1)
      else (insert_chunk cm i, i))"

fun combine_loop :: "transliterator \<Rightarrow> shared_table \<Rightarrow> bytes \<Rightarrow> nat \<Rightarrow> char_chunk list \<Rightarrow> char_chunk list \<times> nat" where
  "combine_loop t12r table next_input 0 cs = (cs, 0)"
| "combine_loop t12r table next_input (Suc left_it) cs =
     (let it = cs ! Suc left_it; left = cs ! left_it in
      if \<not> is_convertible left t12r table (pending it @ next_input) then (cs, Suc left_it)
      else combine_loop t12r table next_input left_it
             (take left_it cs @ combine it left # drop (Suc (Suc left_it)) cs))"

definition combine_pending_chunks :: "composition \<Rightarrow> nat \<Rightarrow> composition_input \<Rightarrow> composition \<times> nat" where
  "combine_pending_chunks cm it input =
     (if ci_is_asis input then (cm, it)
      else
        let next_input = (if ci_conversion input = [] then ci_raw input else ci_conversion input) in
        case combine_loop (input_t12r cm) (comp_table cm) next_input it (chunks cm) of
          (cs, it') \<Rightarrow> (cm\<lparr>chunks := cs\<rparr>, it'))"

text \<open>The loop of \<open>InsertInput\<close>: the composition and the index of the last chunk typed into.\<close>

partial_function (option) insert_loop :: "composition \<Rightarrow> nat \<Rightarrow> composition_input \<Rightarrow> (composition \<times> nat) option" where
  "insert_loop cm left_chunk input =
     Option.bind (add_composition_input (chunks cm ! left_chunk) input) (\<lambda>r.
       let cm1 = cm\<lparr>chunks := (chunks cm)[left_chunk := snd r]\<rparr> in
       if ci_empty (fst r) then Some (cm1, left_chunk)
       else insert_loop (insert_chunk cm1 (Suc left_chunk)) (Suc left_chunk)
              (fst r\<lparr>ci_is_new_input := False\<rparr>))"

fun skip_invisible :: "japanese_env \<Rightarrow> transliterator \<Rightarrow> char_chunk list \<Rightarrow> nat" where
  "skip_invisible env t12r [] = 0"
| "skip_invisible env t12r (c # cs) =
     (if get_length env t12r c = 0 then Suc (skip_invisible env t12r cs) else 0)"

definition insert_input :: "japanese_env \<Rightarrow> nat \<Rightarrow> composition_input \<Rightarrow> composition \<Rightarrow> (nat \<times> composition) option" where
  "insert_input env pos input cm =
     (if ci_empty input then Some (pos, cm)
      else
        Option.bind (maybe_split_chunk_at env pos (chunks cm)) (\<lambda>(cs, right_chunk0).
          let right_chunk = right_chunk0 + skip_invisible env (input_t12r cm) (drop right_chunk0 cs);
              (cm1, left0) = get_insertion_chunk (cm\<lparr>chunks := cs\<rparr>) right_chunk;
              (cm2, left1) = combine_pending_chunks cm1 left0 input
          in map_option
               (\<lambda>(cm3, left2).
                  if chunk_is_empty (chunks cm3 ! left2)
                  then let cs' = take left2 (chunks cm3) @ drop (Suc left2) (chunks cm3)
                       in (get_position env LOCAL left2 cs', cm3\<lparr>chunks := cs'\<rparr>)
                  else (get_position env LOCAL (Suc left2) (chunks cm3), cm3))
               (insert_loop cm2 left1 input)))"

definition insert_at :: "japanese_env \<Rightarrow> nat \<Rightarrow> bytes \<Rightarrow> composition \<Rightarrow> (nat \<times> composition) option" where
  "insert_at env pos input cm = insert_input env pos (ci_default\<lparr>ci_raw := input\<rparr>) cm"

definition insert_key_and_preedit_at ::
  "japanese_env \<Rightarrow> nat \<Rightarrow> bytes \<Rightarrow> bytes \<Rightarrow> composition \<Rightarrow> (nat \<times> composition) option" where
  "insert_key_and_preedit_at env pos key preedit_text cm =
     insert_input env pos (ci_default\<lparr>ci_raw := key, ci_conversion := preedit_text\<rparr>) cm"

text \<open>\<open>DeleteAt\<close>; a failed split is logged and the loop goes on.\<close>

partial_function (option) delete_loop ::
  "japanese_env \<Rightarrow> nat \<Rightarrow> nat \<Rightarrow> nat \<Rightarrow> char_chunk list \<Rightarrow> (nat \<times> char_chunk list) option" where
  "delete_loop env position original_size new_position cs =
     (if cs = [] \<or> composition_length env cs \<noteq> original_size then Some (new_position, cs)
      else
        Option.bind (maybe_split_chunk_at env position cs) (\<lambda>split.
          let cs1 = fst split; i = snd split; np = get_position env LOCAL i cs1 in
          if i = length cs1 then Some (np, cs1)
          else if get_length env LOCAL (cs1 ! i) \<le> 1
          then delete_loop env position original_size np (take i cs1 @ drop (Suc i) cs1)
          else
            Option.bind (split_chunk env LOCAL 1 (cs1 ! i)) (\<lambda>r.
              delete_loop env position original_size np
                (case r of Inl _ \<Rightarrow> cs1 | Inr (_, right) \<Rightarrow> cs1[i := right]))))"

definition delete_at :: "japanese_env \<Rightarrow> nat \<Rightarrow> composition \<Rightarrow> (nat \<times> composition) option" where
  "delete_at env position cm =
     map_option (\<lambda>(new_position, cs). (new_position, cm\<lparr>chunks := cs\<rparr>))
       (delete_loop env position (composition_length env (chunks cm)) position (chunks cm))"

section \<open>Cursor arithmetic\<close>

lemma position_loop_sum: "position_loop env t p cs = p + sum_list (map (get_length env t) cs)"
  by (induction env t p cs rule: position_loop.induct) simp_all

lemma get_position_sum: "get_position env t i cs = sum_list (map (get_length env t) (take i cs))"
  by (simp add: get_position_def position_loop_sum)

lemma get_position_simps [simp]:
  "get_position env t 0 cs = 0" "get_position env t i [] = 0"
  "get_position env t (Suc i) (c # cs) = get_length env t c + get_position env t i cs"
  by (simp_all add: get_position_sum)

lemma get_position_Suc:
  "i < length cs \<Longrightarrow> get_position env t (Suc i) cs = get_position env t i cs + get_length env t (cs ! i)"
  by (simp add: get_position_sum take_Suc_conv_app_nth)

lemma get_position_mono: "i \<le> j \<Longrightarrow> get_position env t i cs \<le> get_position env t j cs"
  by (auto simp: get_position_sum take_add dest!: le_Suc_ex)

lemma get_position_past: "length cs \<le> i \<Longrightarrow> get_position env t i cs = get_position env t (length cs) cs"
  by (simp add: get_position_sum)

lemma get_position_le: "get_position env t i cs \<le> get_position env t (length cs) cs"
  using get_position_mono [of i "length cs" env t cs] get_position_past [of cs i env t] by (cases "i \<le> length cs") auto

lemma chunk_at_loop_past:
  "off + get_position env t (length cs) cs < p \<Longrightarrow>
     chunk_at_loop env t p off i len cs = (i + length cs - 1, if cs = [] then len else get_length env t (last cs))"
  by (induction cs arbitrary: off i len) (simp_all add: Let_def)

lemma chunk_at_loop_inside:
  "\<lbrakk>p \<le> off + get_position env t (length cs) cs; cs \<noteq> []\<rbrakk> \<Longrightarrow>
     \<exists>j < length cs. chunk_at_loop env t p off i len cs = (i + j, p - off - get_position env t j cs) \<and>
       p \<le> off + get_position env t (Suc j) cs \<and> (j = 0 \<or> off + get_position env t j cs < p)"
proof (induction cs arbitrary: off i len)
  case (Cons c cs)
  show ?case
  proof (cases "off + get_length env t c < p")
    case True
    with Cons.prems have "cs \<noteq> []" by auto
    from Cons.IH [OF _ this, of "off + get_length env t c" "Suc i" "get_length env t c"] Cons.prems
    obtain j where j: "j < length cs"
      "chunk_at_loop env t p (off + get_length env t c) (Suc i) (get_length env t c) cs =
         (Suc i + j, p - (off + get_length env t c) - get_position env t j cs)"
      "p \<le> off + get_length env t c + get_position env t (Suc j) cs"
      "j = 0 \<or> off + get_length env t c + get_position env t j cs < p" by auto
    with True show ?thesis by (intro exI [of _ "Suc j"]) (auto simp: Let_def)
  next
    case False
    then show ?thesis by (intro exI [of _ 0]) (simp add: Let_def)
  qed
qed simp

text \<open>
  The focused chunk is the first one whose end reaches the position; past the end of the text it is
  the end of the last chunk.
\<close>

lemma get_chunk_atE:
  assumes "cs \<noteq> []" and "get_chunk_at env p t cs = (i, inner)"
  obtains "i < length cs" and "inner \<le> get_length env t (cs ! i)"
    and "get_position env t i cs + inner = min p (get_position env t (length cs) cs)"
    and "i = 0 \<or> get_position env t i cs < p"
    and "p \<le> get_position env t (Suc i) cs \<or> Suc i = length cs"
proof (cases "p \<le> get_position env t (length cs) cs")
  case True
  with chunk_at_loop_inside [of p 0 env t cs 0 0] assms obtain
    "i < length cs" "inner = p - get_position env t i cs" "p \<le> get_position env t (Suc i) cs"
    "i = 0 \<or> get_position env t i cs < p" by (auto simp: get_chunk_at_def)
  with True show thesis by (intro that) (auto simp: get_position_Suc min_def)
next
  case False
  with chunk_at_loop_past [of 0 env t cs p 0 0] assms
  have i: "i = length cs - 1" "inner = get_length env t (last cs)" by (simp_all add: get_chunk_at_def)
  have "get_position env t (length cs) cs = get_position env t i cs + get_length env t (last cs)"
    using assms(1) i get_position_Suc [of i cs env t] by (simp add: last_conv_nth)
  with i False assms(1) show thesis by (intro that) (auto simp: last_conv_nth)
qed

lemma get_chunk_at_mono:
  assumes "p \<le> p'" and "get_chunk_at env p t cs = (i, inner)" and "get_chunk_at env p' t cs = (i', inner')"
  shows "i \<le> i'" and "i = i' \<Longrightarrow> inner \<le> inner'"
proof -
  show "i \<le> i'"
  proof (cases "cs = []")
    case False
    show ?thesis
    proof (rule ccontr)
      assume "\<not> i \<le> i'"
      then have "Suc i' \<le> i" by simp
      from get_chunk_atE [OF False assms(2)] this
      have "get_position env t i cs < p" "i < length cs" by auto
      moreover from get_chunk_atE [OF False assms(3)] \<open>Suc i' \<le> i\<close> \<open>i < length cs\<close>
      have "p' \<le> get_position env t (Suc i') cs" by auto
      moreover have "get_position env t (Suc i') cs \<le> get_position env t i cs"
        by (rule get_position_mono [OF \<open>Suc i' \<le> i\<close>])
      ultimately show False using assms(1) by simp
    qed
  qed (use assms in \<open>auto simp: get_chunk_at_def\<close>)
  show "inner \<le> inner'" if "i = i'"
  proof (cases "cs = []")
    case False
    from get_chunk_atE [OF False assms(2)] get_chunk_atE [OF False assms(3)]
    have "get_position env t i cs + inner = min p (get_position env t (length cs) cs)"
      "get_position env t i' cs + inner' = min p' (get_position env t (length cs) cs)" by blast+
    moreover from assms(1) have "min p n \<le> min p' n" for n by simp
    ultimately show ?thesis using that by (metis add_le_cancel_left)
  qed (use assms in \<open>auto simp: get_chunk_at_def\<close>)
qed

lemma get_chunk_at_boundary:
  assumes "\<forall>c \<in> set cs. 0 < get_length env t c" and "0 < j" and "j \<le> length cs"
  shows "get_chunk_at env (get_position env t j cs) t cs = (j - 1, get_length env t (cs ! (j - 1)))"
proof -
  obtain i inner where g: "get_chunk_at env (get_position env t j cs) t cs = (i, inner)" by fastforce
  have ne: "cs \<noteq> []" using assms(2,3) by auto
  have strict: "get_position env t a cs < get_position env t b cs" if "a < b" "b \<le> length cs" for a b
  proof -
    have "get_position env t a cs < get_position env t (Suc a) cs"
      using that assms(1) by (simp add: get_position_Suc)
    also have "\<dots> \<le> get_position env t b cs" using that by (intro get_position_mono) simp
    finally show ?thesis .
  qed
  from get_chunk_atE [OF ne g] have i: "i < length cs" "i = 0 \<or> get_position env t i cs < get_position env t j cs"
    "get_position env t j cs \<le> get_position env t (Suc i) cs \<or> Suc i = length cs"
    "get_position env t i cs + inner = get_position env t j cs"
    using get_position_le [of env t j cs] by (auto simp: min_def)
  have "j \<le> Suc i" using strict [of "Suc i" j] i assms(3) by (metis leD leI)
  moreover have "i < j" using strict [of j i] i assms(2) by (metis leD leI le_neq_implies_less less_imp_le_nat not_less_iff_gr_or_eq)
  ultimately have j: "j = Suc i" by simp
  with i have "inner = get_length env t (cs ! i)" by (simp add: get_position_Suc)
  with g j show ?thesis by simp
qed

section \<open>Converting positions\<close>

lemma convert_position_in_chunk:
  assumes "cs \<noteq> []" and "t \<noteq> t'" and "get_chunk_at env p t cs = (i, inner)"
  shows "convert_position env p t t' cs =
    Some (get_position env t' i cs +
      (if inner = get_length env t (cs ! i) \<and> inner \<noteq> 0 then get_length env t' (cs ! i)
       else min inner (get_length env t' (cs ! i))))"
proof -
  from get_chunk_atE [OF assms(1,3)] have "i < length cs" "inner \<le> get_length env t (cs ! i)" by blast+
  with assms show ?thesis by (simp add: convert_position_def Let_def min_def)
qed

lemma convert_position_le_end:
  assumes "cs \<noteq> []" and "t \<noteq> t'" and "get_chunk_at env p t cs = (i, inner)"
  obtains q where "convert_position env p t t' cs = Some q"
    and "get_position env t' i cs \<le> q" and "q \<le> get_position env t' (Suc i) cs" and "Suc i \<le> length cs"
proof -
  from get_chunk_atE [OF assms(1,3)] have "i < length cs" by blast
  with that convert_position_in_chunk [OF assms] show thesis by (auto simp: get_position_Suc min_def)
qed

lemma convert_position_mono:
  assumes "t \<noteq> t'" and "p \<le> p'"
  shows "\<exists>q q'. convert_position env p t t' cs = Some q \<and> convert_position env p' t t' cs = Some q' \<and>
    q \<le> q' \<and> q' \<le> get_position env t' (length cs) cs"
proof (cases "cs = []")
  case False
  obtain i inner i' inner' where g: "get_chunk_at env p t cs = (i, inner)" and g': "get_chunk_at env p' t cs = (i', inner')"
    by fastforce
  from convert_position_le_end [OF False assms(1) g] obtain q where
    q: "convert_position env p t t' cs = Some q" "q \<le> get_position env t' (Suc i) cs" by blast
  from convert_position_le_end [OF False assms(1) g'] obtain q' where
    q': "convert_position env p' t t' cs = Some q'" "get_position env t' i' cs \<le> q'"
      "q' \<le> get_position env t' (Suc i') cs" "Suc i' \<le> length cs" by blast
  have top: "q' \<le> get_position env t' (length cs) cs"
    using q'(3) get_position_le [of env t' "Suc i'" cs] by simp
  have "q \<le> q'"
  proof (cases "i = i'")
    case True
    note le = get_chunk_at_mono(2) [OF assms(2) g g' True]
    from get_chunk_atE [OF False g'] have "inner' \<le> get_length env t (cs ! i')" by blast
    with True le q(1) q'(1) convert_position_in_chunk [OF False assms(1) g]
      convert_position_in_chunk [OF False assms(1) g'] show ?thesis by (auto simp: min_def split: if_splits)
  next
    case False
    with get_chunk_at_mono(1) [OF assms(2) g g'] have "get_position env t' (Suc i) cs \<le> get_position env t' i' cs"
      by (intro get_position_mono) simp
    with q q' show ?thesis by simp
  qed
  with q q' top show ?thesis by blast
qed (simp add: convert_position_def get_chunk_at_def assms(1))

lemma convert_position_boundary:
  assumes "t \<noteq> t'" and "\<forall>c \<in> set cs. 0 < get_length env t c" and "j \<le> length cs"
  shows "convert_position env (get_position env t j cs) t t' cs = Some (get_position env t' j cs)"
proof (cases "j = 0 \<or> cs = []")
  case True
  then show ?thesis
  proof (cases "cs = []")
    case False
    with True have j: "j = 0" by simp
    obtain i inner where g: "get_chunk_at env 0 t cs = (i, inner)" by fastforce
    from get_chunk_atE [OF False g] have "i = 0" "inner = 0" by auto
    with convert_position_in_chunk [OF False assms(1) g] j show ?thesis by simp
  qed (simp add: convert_position_def get_chunk_at_def assms(1))
next
  case False
  then have j: "0 < j" and ne: "cs \<noteq> []" by simp_all
  from convert_position_in_chunk [OF ne assms(1) get_chunk_at_boundary [OF assms(2) j assms(3)]]
    assms(2,3) j get_position_Suc [of "j - 1" cs env t'] show ?thesis by simp
qed

section \<open>Properties\<close>

text \<open>
  C15: \<open>ConvertPosition\<close> between two different views never fails its \<open>CHECK\<close>, never moves a cursor
  past the end of the target view or over another cursor, and, where every chunk is visible in the
  source view, maps chunk boundaries to chunk boundaries.
\<close>

theorem convert_position_monotone:
  assumes "t \<noteq> t'" and "p \<le> p'"
  shows "(\<exists>q q'. convert_position env p t t' cs = Some q \<and> convert_position env p' t t' cs = Some q' \<and>
      q \<le> q' \<and> q' \<le> get_position env t' (length cs) cs) \<and>
    ((\<forall>c \<in> set cs. 0 < get_length env t c) \<longrightarrow>
      (\<forall>j \<le> length cs. convert_position env (get_position env t j cs) t t' cs = Some (get_position env t' j cs)))"
  using convert_position_mono [OF assms] convert_position_boundary [OF assms(1)] by blast

theorem convert_position_monotone_witness:
  "\<exists>q q'. convert_position identity_env 0 RAW_STRING HIRAGANA [new_chunk HIRAGANA (0, new_table)] = Some q \<and>
     convert_position identity_env 1 RAW_STRING HIRAGANA [new_chunk HIRAGANA (0, new_table)] = Some q' \<and>
     q \<le> q' \<and> q' \<le> get_position identity_env HIRAGANA 1 [new_chunk HIRAGANA (0, new_table)]"
  using convert_position_monotone [of RAW_STRING HIRAGANA 0 1 identity_env "[new_chunk HIRAGANA (0, new_table)]"]
  by simp

text \<open>
  The range of \<open>SetTransliterator\<close> is ordered: for positions in order the walk from the first to
  the last chunk ends, changes nothing but the transliterators, and the chunks outside stay.
\<close>

theorem set_transliterator_range:
  assumes "position_from \<le> position_to" and "cs \<noteq> []" and "t12r \<noteq> LOCAL"
  shows "\<exists>i j. i \<le> j \<and> j < length cs \<and>
    fst (get_chunk_at env position_from LOCAL cs) = i \<and> fst (get_chunk_at env position_to LOCAL cs) = j \<and>
    composition_set_transliterator env position_from position_to t12r cs =
      Some (map (\<lambda>k. if i \<le> k \<and> k \<le> j then (cs ! k)\<lparr>cc_transliterator := t12r\<rparr> else cs ! k) [0..<length cs])"
proof -
  obtain i inner j inner' where g: "get_chunk_at env position_from LOCAL cs = (i, inner)"
    and g': "get_chunk_at env position_to LOCAL cs = (j, inner')" by fastforce
  have ij: "i \<le> j" by (rule get_chunk_at_mono(1) [OF assms(1) g g'])
  from get_chunk_atE [OF assms(2) g'] have j: "j < length cs" by blast
  have "take i cs @ map (set_transliterator t12r) (take (Suc j - i) (drop i cs)) @ drop (Suc j) cs =
      map (\<lambda>k. if i \<le> k \<and> k \<le> j then (cs ! k)\<lparr>cc_transliterator := t12r\<rparr> else cs ! k) [0..<length cs]"
    using ij j assms(3) by (intro nth_equalityI) (auto simp: nth_append set_transliterator_def)
  with ij j g g' assms show ?thesis
    by (intro exI [of _ i] exI [of _ j]) (simp add: composition_set_transliterator_def Let_def)
qed

theorem set_transliterator_range_witness:
  "\<exists>i j. i \<le> j \<and> j < length [new_chunk HIRAGANA (0, new_table)] \<and>
    fst (get_chunk_at identity_env 0 LOCAL [new_chunk HIRAGANA (0, new_table)]) = i \<and>
    fst (get_chunk_at identity_env 1 LOCAL [new_chunk HIRAGANA (0, new_table)]) = j \<and>
    composition_set_transliterator identity_env 0 1 RAW_STRING [new_chunk HIRAGANA (0, new_table)] =
      Some (map (\<lambda>k. if i \<le> k \<and> k \<le> j then ([new_chunk HIRAGANA (0, new_table)] ! k)\<lparr>cc_transliterator := RAW_STRING\<rparr>
        else [new_chunk HIRAGANA (0, new_table)] ! k) [0..<length [new_chunk HIRAGANA (0, new_table)]])"
  by (rule set_transliterator_range) simp_all


end
