(* ===== verification/Composition_Edit.thy ===== *)
theory Composition_Edit
  imports Composition_Chunks
begin

text \<open>
  What editing a composition guarantees: \<open>CombinePendingChunks\<close>, the insertion loop and \<open>InsertInput\<close>
  at a chunk boundary return, keep the chunk invariant, the typed text and everything right of the
  cursor; a session of key strokes never gets stuck.
\<close>

section \<open>Progress of AddInput\<close>

lemma entry_result_no_fallback:
  "fixed \<or> used < length (pending c @ input) \<Longrightarrow> dar_raw (entry_result c input e used fixed) = []"
  by (simp add: entry_result_def Let_def)

lemma loop_no_fallback:
  assumes "add_input_internal c input = Some ((True, r), d)"
  shows "(d = c \<or> dar_raw d = []) \<and> length r \<le> length input"
  using assms
proof (cases rule: internal_cases)
  case (no_entry used f)
  from no_entry(2) show ?thesis by (cases rule: no_entry_cases) simp_all
next
  case (entry e used fixed)
  from entry(2) show ?thesis
  proof (cases rule: add_input_entry_cases)
    case result
    then have "used < length (pending c @ input)" by auto
    with result entry_result_no_fallback [of fixed used c input e] show ?thesis by simp
  qed simp
qed

lemma add_input_no_longer:
  "add_input c input = Some (rest, c') \<Longrightarrow> dar_raw c = [] \<Longrightarrow> length rest \<le> length input"
proof (induction rule: add_input_induct)
  case (stop c input rest c')
  from stop(1) show ?case
  proof (cases rule: internal_cases)
    case (no_entry used f)
    from no_entry(2) stop(2) show ?thesis
      by (cases rule: no_entry_cases) (auto simp: has_fallback_def dest: front_char_concat)
  next
    case (entry e used fixed)
    from entry(2) show ?thesis by (cases rule: add_input_entry_cases) auto
  qed
next
  case (step c input r d rest c')
  from loop_no_fallback [OF step(1)] step.prems have "dar_raw d = []" "length r \<le> length input" by auto
  with step.IH show ?case by simp
qed

lemma front_char_shorter: "front_char s = (f, r) \<Longrightarrow> s \<noteq> [] \<Longrightarrow> length r < length s"
  by (cases s) (auto simp: front_char_def one_char_len_pos Let_def split: list.splits)

lemma new_chunk_simps [simp]:
  "raw (new_chunk t12r table) = []" "pending (new_chunk t12r table) = []" "conversion (new_chunk t12r table) = []"
  "dar_raw (new_chunk t12r table) = []" "cc_table (new_chunk t12r table) = table"
  "attributes (new_chunk t12r table) = NO_TABLE_ATTRIBUTE"
  "dar_attributes (new_chunk t12r table) = NO_TABLE_ATTRIBUTE"
  "cc_transliterator (new_chunk t12r table) = t12r" "chunk_is_empty (new_chunk t12r table)"
  by (simp_all add: new_chunk_def chunk_is_empty_def)

context prefix_rules
begin

text \<open>A new chunk uses up at least one character.\<close>

lemma new_chunk_progress:
  assumes "add_input (new_chunk t12r table) input = Some (rest, c')" and "snd table = t" and "input \<noteq> []"
  shows "length rest < length input"
proof -
  let ?c = "new_chunk t12r table"
  obtain loop r d where i: "add_input_internal ?c input = Some ((loop, r), d)"
    using assms(1) by (subst (asm) add_input.simps) (auto simp: bind_eq_Some_conv)
  have dec: "length r < length input \<and> (loop \<longrightarrow> dar_raw d = [])"
    using i
  proof (cases rule: internal_cases)
    case (no_entry used f)
    from no_entry(2) show ?thesis
    proof (cases rule: no_entry_cases)
      case (front fr)
      with front_char_shorter [OF front(2) assms(3)] show ?thesis by simp
    next
      case used
      with assms(3) show ?thesis by (cases input) auto
    qed (simp_all add: has_fallback_def)
  next
    case (entry e used fixed)
    then have "0 < used" using no_empty_rule [of "pending ?c @ input" e used fixed] assms(2) by simp
    moreover have "loop \<longrightarrow> dar_raw d = []" using loop_no_fallback [of ?c input r d] i by auto
    moreover have "r = drop used input"
      using entry(2) by (cases rule: add_input_entry_cases) simp_all
    ultimately show ?thesis using assms(3) by (cases input) auto
  qed
  show ?thesis
  proof (cases loop)
    case True
    with i have "add_input ?c input = add_input d r" by (simp add: add_input_step)
    with assms(1) add_input_no_longer [of d r rest c'] dec True show ?thesis by simp
  next
    case False
    with i add_input_stop assms(1) dec show ?thesis by fastforce
  qed
qed

end
section \<open>Combining\<close>

abbreviation raw_text :: "char_chunk list \<Rightarrow> bytes" where
  "raw_text cs \<equiv> concat (map raw cs)"

lemma combine_simps [simp]:
  "raw (combine c l) = raw l @ raw c" "pending (combine c l) = pending l @ pending c"
  "cc_transliterator (combine c l) = cc_transliterator c"
  "cc_table (combine c l) = cc_table c" "dar_raw (combine c l) = dar_raw c"
  "attributes (combine c l) = attributes c" "dar_attributes (combine c l) = dar_attributes c"
  by (simp_all add: combine_def)

text \<open>\<open>CombinePendingChunks\<close> takes chunks from the end of the left part; the right part stays.\<close>

lemma combine_loop_rel:
  assumes "combine_loop t12r table next_input (length A) (A @ c # B) = (cs, i)"
  obtains A' L c' where "A = A' @ L" "cs = A' @ c' # B" "i = length A'" "raw c' = raw_text L @ raw c"
    and "cc_table c' = cc_table c" "attributes c' = attributes c" "dar_attributes c' = dar_attributes c"
      "cc_transliterator c' = cc_transliterator c"
proof -
  have "\<exists>A' L c'. A = A' @ L \<and> cs = A' @ c' # B \<and> i = length A' \<and> raw c' = raw_text L @ raw c \<and>
      cc_table c' = cc_table c \<and> attributes c' = attributes c \<and> dar_attributes c' = dar_attributes c \<and>
      cc_transliterator c' = cc_transliterator c"
    using assms
  proof (induction A arbitrary: c rule: rev_induct)
    case (snoc l A)
    show ?case
    proof (cases "is_convertible l t12r table (pending c @ next_input)")
      case True
      with snoc.prems have "combine_loop t12r table next_input (length A) (A @ combine c l # B) = (cs, i)"
        by (simp add: Let_def nth_append)
      from snoc.IH [OF this] obtain A' L c' where "A = A' @ L" "cs = A' @ c' # B" "i = length A'"
        "raw c' = raw_text L @ raw l @ raw c" "cc_table c' = cc_table c" "attributes c' = attributes c"
        "dar_attributes c' = dar_attributes c" "cc_transliterator c' = cc_transliterator c" by auto
      then show ?thesis by (intro exI [of _ A'] exI [of _ "L @ [l]"] exI [of _ c']) simp
    next
      case False
      with snoc.prems have "cs = (A @ [l]) @ c # B \<and> i = length (A @ [l])" by (simp add: Let_def nth_append)
      then show ?thesis by (intro exI [of _ "A @ [l]"] exI [of _ "[]"] exI [of _ c]) simp
    qed
  qed auto
  then show thesis using that by blast
qed

text \<open>The chunk invariant for chunks of one table.\<close>

definition chunk_ok :: "(bytes \<Rightarrow> bool) \<Rightarrow> table \<Rightarrow> char_chunk \<Rightarrow> bool" where
  "chunk_ok good t c \<longleftrightarrow> chunk_fits good c \<and> chunk_table c = t"

context prefix_rules
begin

lemma combine_fits:
  assumes "chunk_ok good t c" and "chunk_ok good t l" and "good nxt" and "snd table = t"
    and "is_convertible l t12r table (pending c @ nxt)"
  shows "chunk_ok good t (combine c l)"
proof -
  let ?p = "pending l @ pending c"
  have g: "good (pending c)" "good (pending l)" "good (raw c)" "good (raw l)" "good (dar_raw c)"
    using assms(1,2) by (simp_all add: chunk_ok_def chunk_fits_def)
  obtain r k f where lk: "table_lookup_prefix t (pending l @ pending c @ nxt) = (r, k, f)"
    by (cases "table_lookup_prefix t (pending l @ pending c @ nxt)")
  with assms(4,5) have "length ?p \<le> k" by (auto simp: is_convertible_def split: if_splits)
  with used_prefix [of ?p nxt r k f] lk g good_append assms(3) obtain r' f' where
    "table_lookup_prefix t ?p = (r', length ?p, f')" by auto
  then show ?thesis
    using fits_used [of "combine c l" r' f'] g good_append assms(1) by (simp add: chunk_ok_def)
qed

lemma combine_loop_fits:
  assumes "combine_loop t12r table nxt (length A) (A @ c # B) = (cs, i)"
    and "good nxt" and "snd table = t" and "chunk_ok good t c" and "\<forall>a \<in> set A. chunk_ok good t a"
  shows "\<forall>a \<in> set (take (Suc i) cs). chunk_ok good t a"
  using assms
proof (induction A arbitrary: c rule: rev_induct)
  case (snoc l A)
  show ?case
  proof (cases "is_convertible l t12r table (pending c @ nxt)")
    case True
    with snoc.prems have "combine_loop t12r table nxt (length A) (A @ combine c l # B) = (cs, i)"
      by (simp add: Let_def nth_append)
    from snoc.IH [OF this] snoc.prems combine_fits True show ?thesis by simp
  next
    case False
    with snoc.prems show ?thesis by (auto simp: Let_def nth_append)
  qed
qed auto

end

section \<open>The insertion loop\<close>

lemma insert_loop_stop:
  "\<lbrakk>chunks cm = A @ c # B; add_composition_input c input = Some (i', c'); ci_empty i'\<rbrakk> \<Longrightarrow>
     insert_loop cm (length A) input = Some (cm\<lparr>chunks := A @ c' # B\<rparr>, length A)"
  by (subst insert_loop.simps) (simp add: Let_def)

lemma insert_loop_step:
  "\<lbrakk>chunks cm = A @ c # B; add_composition_input c input = Some (i', c'); \<not> ci_empty i'\<rbrakk> \<Longrightarrow>
     insert_loop cm (length A) input =
       insert_loop (cm\<lparr>chunks := (A @ [c']) @ new_chunk (input_t12r cm) (comp_table cm) # B\<rparr>) (length (A @ [c']))
         (i'\<lparr>ci_is_new_input := False\<rparr>)"
  by (subst insert_loop.simps) (simp add: Let_def insert_chunk_def)

text \<open>
  What a run of the loop leaves: the chunk typed into is replaced by a non-empty list of chunks,
  all else stays.
\<close>

definition loop_result :: "composition \<Rightarrow> char_chunk list \<Rightarrow> char_chunk list \<Rightarrow> composition_input \<Rightarrow>
    char_chunk list \<Rightarrow> bool" where
  "loop_result cm A B input mid \<longleftrightarrow> mid \<noteq> [] \<and>
     insert_loop cm (length A) input = Some (cm\<lparr>chunks := A @ mid @ B\<rparr>, length A + length mid - 1)"

lemma loop_result_stop:
  "\<lbrakk>chunks cm = A @ c # B; add_composition_input c input = Some (i', c'); ci_empty i'\<rbrakk> \<Longrightarrow>
     loop_result cm A B input [c']"
  by (simp add: loop_result_def insert_loop_stop)

lemma loop_result_step:
  assumes "chunks cm = A @ c # B" and "add_composition_input c input = Some (i', c')" and "\<not> ci_empty i'"
    and "loop_result (cm\<lparr>chunks := (A @ [c']) @ new_chunk (input_t12r cm) (comp_table cm) # B\<rparr>) (A @ [c']) B
      (i'\<lparr>ci_is_new_input := False\<rparr>) mid"
  shows "loop_result cm A B input (c' # mid)"
  using assms(4) insert_loop_step [OF assms(1-3)] by (auto simp: loop_result_def)

text \<open>An input that carries its own conversion needs at most one more chunk.\<close>

lemma empty_chunk_takes_conversion:
  assumes "ci_conversion input \<noteq> []" and "chunk_is_empty c"
  shows "\<exists>i' c'. add_composition_input c input = Some (i', c') \<and> ci_empty i' \<and>
    raw c' = ci_raw input \<and> cc_table c' = cc_table c"
  using assms by (auto simp: add_composition_input_def add_input_and_converted_char_def ci_clear_def
      ci_empty_def chunk_is_empty_def Let_def split: option.splits)

lemma conversion_input_cases:
  assumes "ci_conversion input \<noteq> []"
  obtains i' c' where "add_composition_input c input = Some (i', c')" "cc_table c' = cc_table c"
    and "ci_empty i' \<or> ci_conversion i' \<noteq> []" and "raw c' @ ci_raw i' = raw c @ ci_raw input"
proof (cases "chunk_is_empty c")
  case True
  with empty_chunk_takes_conversion [OF assms True] that show thesis
    by (auto simp: ci_empty_def chunk_is_empty_def)
next
  case False
  obtain r k f where lk: "table_lookup_prefix (chunk_table c) (pending c @ ci_conversion input) = (r, k, f)"
    by (cases "table_lookup_prefix (chunk_table c) (pending c @ ci_conversion input)")
  obtain i' c' where a: "add_composition_input c input = Some (i', c')"
    using assms by (cases "add_composition_input c input") (auto simp: add_composition_input_def)
  have le: "k \<le> length (pending c @ ci_conversion input)" by (rule lookup_prefix_length_le [OF lk])
  have "cc_table c' = cc_table c \<and> (ci_empty i' \<or> ci_conversion i' \<noteq> []) \<and> raw c' @ ci_raw i' = raw c @ ci_raw input"
  proof (cases "ci_is_asis input")
    case True
    with a assms False show ?thesis by (auto simp: add_composition_input_def add_input_and_converted_char_def)
  next
    case no_asis: False
    show ?thesis
    proof (cases r)
      case None
      with a assms False no_asis lk show ?thesis
        by (auto simp: add_composition_input_def add_input_and_converted_char_def Let_def)
    next
      case (Some e)
      note d = add_composition_input_def add_input_and_converted_char_def
      consider "k = length (pending c @ ci_conversion input)"
        | "k \<noteq> length (pending c @ ci_conversion input)" "k = length (pending c)"
        | "k < length (pending c @ ci_conversion input)" "k \<noteq> length (pending c)"
        using le by linarith
      then show ?thesis
      proof cases
        case 1
        with a assms False no_asis lk Some show ?thesis by (auto simp: d ci_empty_def)
      next
        case 2
        with a assms False no_asis lk Some show ?thesis by (auto simp: d)
      next
        case 3
        with a assms False no_asis lk Some show ?thesis by (auto simp: d)
      qed
    qed
  qed
  with a that show thesis by blast
qed

lemma insert_loop_conversion:
  assumes "chunks cm = A @ c # B" and "ci_conversion input \<noteq> []"
  shows "\<exists>mid. loop_result cm A B input mid \<and> raw_text mid = raw c @ ci_raw input"
proof -
  obtain i' c' where s: "add_composition_input c input = Some (i', c')"
    and i': "ci_empty i' \<or> ci_conversion i' \<noteq> []" and raw: "raw c' @ ci_raw i' = raw c @ ci_raw input"
    by (rule conversion_input_cases [OF assms(2)])
  show ?thesis
  proof (cases "ci_empty i'")
    case True
    with loop_result_stop [OF assms(1) s] raw show ?thesis by (intro exI [of _ "[c']"]) (simp add: ci_empty_def)
  next
    case False
    let ?n = "new_chunk (input_t12r cm) (comp_table cm)" and ?i = "i'\<lparr>ci_is_new_input := False\<rparr>"
    let ?cm = "cm\<lparr>chunks := (A @ [c']) @ ?n # B\<rparr>"
    from empty_chunk_takes_conversion [of ?i ?n] False i' obtain j d where
      d: "add_composition_input ?n ?i = Some (j, d)" "ci_empty j" "raw d = ci_raw i'" by auto
    have "loop_result ?cm (A @ [c']) B ?i [d]" by (rule loop_result_stop [OF _ d(1,2)]) simp
    from loop_result_step [OF assms(1) s False this] raw d(3) show ?thesis
      by (intro exI [of _ "[c', d]"]) simp
  qed
qed

section \<open>Typed input\<close>

lemma add_raw_composition_input:
  assumes "ci_conversion input = []"
  shows "add_composition_input c input =
    (if should_insert_new_chunk c input then Some (input, c)
     else map_option (\<lambda>(rest, c'). (input\<lparr>ci_raw := rest\<rparr>, c')) (add_input c (ci_raw input)))"
  using assms by (simp add: add_composition_input_def)

lemma raw_input_keeps_text:
  assumes "add_composition_input c input = Some (i', c')" and "ci_conversion input = []"
  shows "ci_conversion i' = [] \<and>
    (\<exists>lost. trimmed (raw c @ ci_raw input) (raw c' @ lost @ ci_raw i') \<and> (lost = [] \<or> ci_raw i' = [] \<and> silenced c'))"
proof (cases "should_insert_new_chunk c input")
  case True
  with assms have "i' = input" "c' = c" by (simp_all add: add_raw_composition_input)
  with assms(2) show ?thesis by (intro conjI exI [of _ "[]"]) (simp_all add: trimmed_refl)
next
  case False
  with assms obtain rest where a: "add_input c (ci_raw input) = Some (rest, c')" and i': "i' = input\<lparr>ci_raw := rest\<rparr>"
    by (auto simp: add_raw_composition_input)
  from add_input_trimmed [OF a] i' assms(2) show ?thesis by simp
qed

lemma raw_input_audible:
  assumes "add_composition_input c input = Some (i', c')" and "ci_conversion input = []"
    and "audible tr c" and "audible_table (chunk_table c)"
  shows "audible tr c'"
  using assms add_input_audible [of c "ci_raw input"]
  by (auto simp: add_raw_composition_input split: if_splits)

text \<open>\<open>mid\<close> is what typing \<open>input\<close> into \<open>c\<close> gives.\<close>

definition typed_result :: "transliterator \<Rightarrow> (bytes \<Rightarrow> bool) \<Rightarrow> table \<Rightarrow> char_chunk \<Rightarrow> bytes \<Rightarrow> char_chunk list \<Rightarrow> bool" where
  "typed_result tr good t c input mid \<longleftrightarrow> (\<forall>m \<in> set mid. chunk_ok good t m) \<and>
     (\<exists>lost. trimmed (raw c @ input) (raw_text mid @ lost) \<and> (lost = [] \<or> silenced (last mid))) \<and>
     (audible tr c \<and> audible_table t \<longrightarrow> (\<forall>m \<in> set mid. audible tr m))"

context prefix_rules
begin

lemma raw_input_returns:
  assumes "chunk_ok good t c" and "ci_conversion input = []" and "good (ci_raw input)"
  obtains i' c' where "add_composition_input c input = Some (i', c')" "chunk_ok good t c'"
    and "cc_table c' = cc_table c" and "ci_conversion i' = []" and "good (ci_raw i')"
proof (cases "should_insert_new_chunk c input")
  case True
  with that assms show thesis by (simp add: add_raw_composition_input)
next
  case False
  from assms add_input_returns [of c "ci_raw input"] obtain rest c' where
    "add_input c (ci_raw input) = Some (rest, c')" "chunk_fits good c'" "good rest" "cc_table c' = cc_table c"
    by (auto simp: chunk_ok_def)
  with that [of "input\<lparr>ci_raw := rest\<rparr>" c'] False assms show thesis
    by (simp add: add_raw_composition_input chunk_ok_def)
qed

end

lemma typed_result_step:
  assumes "add_composition_input c input = Some (i', c')" and "ci_conversion input = []"
    and "chunk_ok good t c'" and "chunk_table c = t" and "ci_raw i' \<noteq> []"
    and "typed_result tr good t n (ci_raw i') mid" and "raw n = []" and "audible tr n" and "mid \<noteq> []"
  shows "typed_result tr good t c (ci_raw input) (c' # mid)"
proof -
  from raw_input_keeps_text [OF assms(1,2)] assms(5)
  have t1: "trimmed (raw c @ ci_raw input) (raw c' @ ci_raw i')" by auto
  from assms(6,7) obtain lost where
    t2: "trimmed (ci_raw i') (raw_text mid @ lost)" "lost = [] \<or> silenced (last mid)"
    by (auto simp: typed_result_def)
  from trimmed_trans [OF t1 trimmed_append [OF t2(1)]]
  have "trimmed (raw c @ ci_raw input) (raw_text (c' # mid) @ lost)" by simp
  moreover have "audible tr c \<and> audible_table t \<longrightarrow> (\<forall>m \<in> set (c' # mid). audible tr m)"
    using raw_input_audible [OF assms(1,2)] assms(4,6,8) by (auto simp: typed_result_def)
  moreover have "\<forall>m \<in> set (c' # mid). chunk_ok good t m"
    using assms(3,6) by (simp add: typed_result_def)
  moreover have "lost = [] \<or> silenced (last (c' # mid))" using t2(2) assms(9) by simp
  ultimately show ?thesis unfolding typed_result_def by blast
qed

lemma typed_result_stop:
  assumes "add_composition_input c input = Some (i', c')" and "ci_conversion input = []"
    and "chunk_ok good t c'" and "chunk_table c = t" and "ci_raw i' = []"
  shows "typed_result tr good t c (ci_raw input) [c']"
  using raw_input_keeps_text [OF assms(1,2)] raw_input_audible [OF assms(1,2)] assms(3-5)
  by (auto simp: typed_result_def)

context prefix_rules
begin

lemma insert_loop_new:
  assumes "chunks cm = A @ new_chunk (input_t12r cm) (comp_table cm) # B" and "snd (comp_table cm) = t"
    and "ci_conversion input = []" and "good (ci_raw input)" and "ci_raw input \<noteq> []"
  shows "\<exists>mid. loop_result cm A B input mid \<and>
    typed_result (input_t12r cm) good t (new_chunk (input_t12r cm) (comp_table cm)) (ci_raw input) mid"
  using assms
proof (induction "length (ci_raw input)" arbitrary: cm A input rule: less_induct)
  case less
  let ?n = "new_chunk (input_t12r cm) (comp_table cm)"
  have ok: "chunk_ok good t ?n" using less.prems(2) fits_new [of "comp_table cm"] by (simp add: chunk_ok_def)
  from raw_input_returns [OF ok less.prems(3,4)] obtain i' c' where
    s: "add_composition_input ?n input = Some (i', c')" and c': "chunk_ok good t c'" "cc_table c' = cc_table ?n"
    and i': "ci_conversion i' = []" "good (ci_raw i')" by blast
  have tab: "chunk_table ?n = t" using less.prems(2) by simp
  show ?case
  proof (cases "ci_raw i' = []")
    case True
    then have "ci_empty i'" using i' by (simp add: ci_empty_def)
    from loop_result_stop [OF less.prems(1) s this] typed_result_stop [OF s less.prems(3) c'(1) tab True]
    show ?thesis by blast
  next
    case False
    then have ne: "\<not> ci_empty i'" by (simp add: ci_empty_def)
    have "\<not> should_insert_new_chunk ?n input" by (simp add: should_insert_new_chunk_def)
    with s less.prems(3) obtain rest where "add_input ?n (ci_raw input) = Some (rest, c')" "i' = input\<lparr>ci_raw := rest\<rparr>"
      by (auto simp: add_raw_composition_input)
    with new_chunk_progress [of "input_t12r cm" "comp_table cm" "ci_raw input" rest c'] less.prems(2,5)
    have short: "length (ci_raw i') < length (ci_raw input)" by simp
    let ?cm = "cm\<lparr>chunks := (A @ [c']) @ ?n # B\<rparr>" and ?i = "i'\<lparr>ci_is_new_input := False\<rparr>"
    from less.hyps [of ?i ?cm "A @ [c']"] short less.prems(2) i' False obtain mid where
      m: "loop_result ?cm (A @ [c']) B ?i mid" "typed_result (input_t12r cm) good t ?n (ci_raw i') mid" by auto
    from m(1) have ne': "mid \<noteq> []" by (simp add: loop_result_def)
    from loop_result_step [OF less.prems(1) s ne m(1)]
      typed_result_step [OF s less.prems(3) c'(1) tab False m(2) _ _ ne']
    show ?thesis by auto
  qed
qed

lemma insert_loop_raw:
  assumes "chunks cm = A @ c # B" and "chunk_ok good t c" and "snd (comp_table cm) = t"
    and "ci_conversion input = []" and "good (ci_raw input)"
  shows "\<exists>mid. loop_result cm A B input mid \<and> typed_result (input_t12r cm) good t c (ci_raw input) mid"
proof -
  from raw_input_returns [OF assms(2,4,5)] obtain i' c' where
    s: "add_composition_input c input = Some (i', c')" and c': "chunk_ok good t c'"
    and i': "ci_conversion i' = []" "good (ci_raw i')" by blast
  have tab: "chunk_table c = t" using assms(2) by (simp add: chunk_ok_def)
  show ?thesis
  proof (cases "ci_raw i' = []")
    case True
    then have "ci_empty i'" using i' by (simp add: ci_empty_def)
    from loop_result_stop [OF assms(1) s this] typed_result_stop [OF s assms(4) c' tab True]
    show ?thesis by blast
  next
    case False
    then have ne: "\<not> ci_empty i'" by (simp add: ci_empty_def)
    let ?n = "new_chunk (input_t12r cm) (comp_table cm)" and ?i = "i'\<lparr>ci_is_new_input := False\<rparr>"
    let ?cm = "cm\<lparr>chunks := (A @ [c']) @ ?n # B\<rparr>"
    from insert_loop_new [of ?cm "A @ [c']" B ?i] assms(3) i' False obtain mid where
      m: "loop_result ?cm (A @ [c']) B ?i mid" "typed_result (input_t12r cm) good t ?n (ci_raw i') mid" by auto
    from m(1) have ne': "mid \<noteq> []" by (simp add: loop_result_def)
    from loop_result_step [OF assms(1) s ne m(1)]
      typed_result_step [OF s assms(4) c' tab False m(2) _ _ ne']
    show ?thesis by auto
  qed
qed

end

section \<open>Insertion at a chunk boundary\<close>

text \<open>A position between two chunks, or past the end.\<close>

definition chunk_boundary :: "japanese_env \<Rightarrow> nat \<Rightarrow> char_chunk list \<Rightarrow> bool" where
  "chunk_boundary env p cs \<longleftrightarrow>
     composition_length env cs \<le> p \<or> (\<exists>j \<le> length cs. p = get_position env LOCAL j cs)"

lemma maybe_split_boundary:
  assumes "chunk_boundary env p cs"
  shows "\<exists>i \<le> length cs. maybe_split_chunk_at env p cs = Some (cs, i) \<and>
    get_position env LOCAL i cs = min p (composition_length env cs)"
proof (cases "cs = []")
  case False
  obtain i inner where g: "get_chunk_at env p LOCAL cs = (i, inner)" by fastforce
  from get_chunk_atE [OF False g] have i: "i < length cs"
    "get_position env LOCAL i cs + inner = min p (get_position env LOCAL (length cs) cs)"
    "i = 0 \<or> get_position env LOCAL i cs < p"
    "p \<le> get_position env LOCAL (Suc i) cs \<or> Suc i = length cs" by blast+
  have "inner = get_length env LOCAL (cs ! i) \<or> i = 0 \<and> inner = 0"
  proof (rule disjCI)
    assume n: "\<not> (i = 0 \<and> inner = 0)"
    have total: "get_position env LOCAL (Suc i) cs \<le> get_position env LOCAL (length cs) cs"
      by (rule get_position_le)
    show "inner = get_length env LOCAL (cs ! i)"
    proof (cases "composition_length env cs \<le> p")
      case True
      with total i(4) have "get_position env LOCAL (Suc i) cs = get_position env LOCAL (length cs) cs"
        by (auto simp: composition_length_def)
      with True i(1,2) show ?thesis by (simp add: composition_length_def get_position_Suc)
    next
      case past: False
      with assms obtain j where j: "j \<le> length cs" "p = get_position env LOCAL j cs"
        by (auto simp: chunk_boundary_def)
      have "Suc i \<le> j"
      proof (rule ccontr)
        assume "\<not> Suc i \<le> j"
        then have le: "p \<le> get_position env LOCAL i cs" using j get_position_mono [of j i] by simp
        with i(3) have "i = 0" by simp
        with le i(2) n show False by simp
      qed
      from get_position_mono [OF this, of env LOCAL cs] j(2)
      have "get_position env LOCAL (Suc i) cs \<le> p" by simp
      moreover have "p \<le> get_position env LOCAL (Suc i) cs"
        using i(4) past by (auto simp: composition_length_def)
      ultimately have "p = get_position env LOCAL (Suc i) cs" by simp
      with i(1,2) total show ?thesis by (simp add: get_position_Suc)
    qed
  qed
  then show ?thesis
  proof
    assume "inner = get_length env LOCAL (cs ! i)"
    with g i(1,2) show ?thesis
      by (cases "i = 0 \<and> inner = 0")
        (auto simp: maybe_split_chunk_at_def composition_length_def get_position_Suc intro!: exI [of _ "Suc i"])
  next
    assume "i = 0 \<and> inner = 0"
    with g i(2) show ?thesis by (auto simp: maybe_split_chunk_at_def composition_length_def)
  qed
qed (simp add: maybe_split_chunk_at_def get_chunk_at_def composition_length_def)

lemma skip_invisible_le: "skip_invisible env t cs \<le> length cs"
  by (induction env t cs rule: skip_invisible.induct) simp_all

lemma skip_invisible_all: "\<forall>c \<in> set cs. get_length env t c = 0 \<Longrightarrow> skip_invisible env t cs = length cs"
  by (induction env t cs rule: skip_invisible.induct) simp_all

text \<open>The two views that \<open>InsertInput\<close> measures chunks in agree.\<close>

definition uniform :: "japanese_env \<Rightarrow> composition \<Rightarrow> bool" where
  "uniform env cm \<longleftrightarrow> (\<forall>c \<in> set (chunks cm). get_length env LOCAL c = get_length env (input_t12r cm) c)"

lemma skip_to_end:
  assumes "uniform env cm" and "i \<le> length (chunks cm)"
    and "get_position env LOCAL i (chunks cm) = composition_length env (chunks cm)"
  shows "i + skip_invisible env (input_t12r cm) (drop i (chunks cm)) = length (chunks cm)"
proof -
  have "get_position env LOCAL (length (chunks cm)) (chunks cm) =
      get_position env LOCAL i (chunks cm) + sum_list (map (get_length env LOCAL) (drop i (chunks cm)))"
    by (simp add: get_position_sum) (metis append_take_drop_id map_append sum_list_append)
  with assms(3) have "\<forall>c \<in> set (drop i (chunks cm)). get_length env LOCAL c = 0"
    by (simp add: composition_length_def sum_list_eq_0_iff)
  with assms(1) have "\<forall>c \<in> set (drop i (chunks cm)). get_length env (input_t12r cm) c = 0"
    unfolding uniform_def by (metis in_set_dropD)
  with assms(2) show ?thesis by (simp add: skip_invisible_all)
qed

lemma insertion_chunk_rel:
  assumes "right \<le> length (chunks cm)" and "get_insertion_chunk cm right = (cm1, l)"
  obtains A L c where "cm1 = cm\<lparr>chunks := A @ c # drop right (chunks cm)\<rparr>" "take right (chunks cm) = A @ L"
    and "l = length A" and "L = [] \<and> c = new_chunk (input_t12r cm) (comp_table cm) \<or> L = [c]"
proof (cases "right = 0 \<or> \<not> is_appendable (chunks cm ! (right - 1)) (input_t12r cm) (comp_table cm)")
  case True
  with assms(2) have "cm1 = insert_chunk cm right" "l = right"
    by (auto simp: get_insertion_chunk_def split: if_splits)
  with that [of "take right (chunks cm)" "new_chunk (input_t12r cm) (comp_table cm)" "[]"] assms(1) show thesis
    by (simp add: insert_chunk_def)
next
  case False
  with assms(2) have r: "cm1 = cm" "l = right - 1" "0 < right" by (auto simp: get_insertion_chunk_def)
  then obtain k where k: "right = Suc k" by (cases right) auto
  have "chunks cm = take k (chunks cm) @ chunks cm ! k # drop right (chunks cm)"
    using assms(1) k by (simp add: id_take_nth_drop)
  moreover have "take right (chunks cm) = take k (chunks cm) @ [chunks cm ! k]"
    using assms(1) k by (simp add: take_Suc_conv_app_nth)
  ultimately show thesis using that [of "take k (chunks cm)" "chunks cm ! k" "[chunks cm ! k]"] r k assms(1) by simp
qed

text \<open>The end of \<open>InsertInput\<close>: an empty last chunk is removed.\<close>

definition finish_chunks :: "char_chunk list \<Rightarrow> char_chunk list" where
  "finish_chunks mid = (if chunk_is_empty (last mid) then butlast mid else mid)"

lemma get_position_append: "get_position env t (length A) (A @ B) = get_position env t (length A) A"
  by (simp add: get_position_sum)

lemma insert_input_boundary:
  assumes "chunk_boundary env pos (chunks cm)" and "\<not> ci_empty input"
    and "\<And>A c A0 L R cm1. \<lbrakk>chunks cm = A0 @ L @ R; cm1 = cm\<lparr>chunks := A0 @ c # R\<rparr>;
        L = [] \<and> c = new_chunk (input_t12r cm) (comp_table cm) \<or> L = [c]\<rbrakk> \<Longrightarrow>
      \<exists>A c' mid. combine_pending_chunks cm1 (length A0) input = (cm\<lparr>chunks := A @ c' # R\<rparr>, length A) \<and>
        loop_result (cm\<lparr>chunks := A @ c' # R\<rparr>) A R input mid \<and> Q A mid (A0 @ L) R"
  shows "\<exists>A mid left0 right. chunks cm = left0 @ right \<and> mid \<noteq> [] \<and> Q A mid left0 right \<and>
    (uniform env cm \<and> composition_length env (chunks cm) \<le> pos \<longrightarrow> right = []) \<and>
    insert_input env pos input cm =
      Some (composition_length env (A @ finish_chunks mid), cm\<lparr>chunks := A @ finish_chunks mid @ right\<rparr>)"
proof -
  from maybe_split_boundary [OF assms(1)] obtain i where i: "i \<le> length (chunks cm)"
    "maybe_split_chunk_at env pos (chunks cm) = Some (chunks cm, i)"
    "get_position env LOCAL i (chunks cm) = min pos (composition_length env (chunks cm))" by blast
  define r where "r = i + skip_invisible env (input_t12r cm) (drop i (chunks cm))"
  have r: "r \<le> length (chunks cm)" using i(1) skip_invisible_le [of env "input_t12r cm" "drop i (chunks cm)"] by (simp add: r_def)
  obtain cm1 l where g: "get_insertion_chunk cm r = (cm1, l)" by fastforce
  from insertion_chunk_rel [OF r g] obtain A0 L c where
    a0: "cm1 = cm\<lparr>chunks := A0 @ c # drop r (chunks cm)\<rparr>" "take r (chunks cm) = A0 @ L" "l = length A0"
      "L = [] \<and> c = new_chunk (input_t12r cm) (comp_table cm) \<or> L = [c]" .
  have cs: "chunks cm = A0 @ L @ drop r (chunks cm)" using a0(2) by (metis append.assoc append_take_drop_id)
  from assms(3) [OF cs a0(1,4)] obtain A c' mid where
    m: "combine_pending_chunks cm1 (length A0) input = (cm\<lparr>chunks := A @ c' # drop r (chunks cm)\<rparr>, length A)"
      "loop_result (cm\<lparr>chunks := A @ c' # drop r (chunks cm)\<rparr>) A (drop r (chunks cm)) input mid"
      "Q A mid (A0 @ L) (drop r (chunks cm))" by blast
  obtain ms x where mid: "mid = ms @ [x]" using m(2) by (cases mid rule: rev_cases) (auto simp: loop_result_def)
  have lst: "(A @ mid @ drop r (chunks cm)) ! (length A + length mid - 1) = x"
    by (simp add: mid nth_append)
  have "insert_input env pos input cm =
      Some (composition_length env (A @ finish_chunks mid), cm\<lparr>chunks := A @ finish_chunks mid @ drop r (chunks cm)\<rparr>)"
  proof (cases "chunk_is_empty x")
    case True
    then have "finish_chunks mid = ms" by (simp add: finish_chunks_def mid)
    with True m(1,2) i(2) g a0(3) lst assms(2) get_position_append [of env LOCAL "A @ ms" "drop r (chunks cm)"] show ?thesis
      by (simp add: insert_input_def r_def [symmetric] loop_result_def mid composition_length_def)
  next
    case False
    then have "finish_chunks mid = mid" by (simp add: finish_chunks_def mid)
    with False m(1,2) i(2) g a0(3) lst assms(2) get_position_append [of env LOCAL "A @ mid" "drop r (chunks cm)"] show ?thesis
      by (simp add: insert_input_def r_def [symmetric] loop_result_def mid composition_length_def)
  qed
  moreover have "uniform env cm \<and> composition_length env (chunks cm) \<le> pos \<longrightarrow> drop r (chunks cm) = []"
    using skip_to_end [OF _ i(1)] i(3) by (auto simp: r_def)
  ultimately show ?thesis using cs m(2,3) by (intro exI [of _ A] exI [of _ mid] exI [of _ "A0 @ L"] exI [of _ "drop r (chunks cm)"])
    (simp add: loop_result_def)
qed

section \<open>Typing into a composition\<close>

definition composition_ok :: "(bytes \<Rightarrow> bool) \<Rightarrow> composition \<Rightarrow> bool" where
  "composition_ok good cm \<longleftrightarrow> (\<forall>c \<in> set (chunks cm). chunk_ok good (snd (comp_table cm)) c)"

definition all_audible :: "composition \<Rightarrow> bool" where
  "all_audible cm \<longleftrightarrow> audible_table (snd (comp_table cm)) \<and> (\<forall>c \<in> set (chunks cm). audible (input_t12r cm) c)"

text \<open>
  \<open>insertion env pos cm text cm' pos'\<close>: all right of the cursor stays, nothing is right of a cursor at the end, the cursor is at the end of what is left
  of it, and on tables that transliterate everything the raw text there is the old one with the new
  text appended, apart from deleted special keys.
\<close>

definition insertion ::
  "japanese_env \<Rightarrow> nat \<Rightarrow> composition \<Rightarrow> bytes \<Rightarrow> composition \<Rightarrow> nat \<Rightarrow> bool" where
  "insertion env pos cm text cm' pos' \<longleftrightarrow>
     (\<exists>left0 left right. chunks cm = left0 @ right \<and> cm' = cm\<lparr>chunks := left @ right\<rparr> \<and>
        pos' = composition_length env left \<and>
        (uniform env cm \<and> composition_length env (chunks cm) \<le> pos \<longrightarrow> right = []) \<and>
        (all_audible cm \<longrightarrow> all_audible cm' \<and> trimmed (raw_text left0 @ text) (raw_text left)))"

lemma finish_chunks_raw: "mid \<noteq> [] \<Longrightarrow> raw_text (finish_chunks mid) = raw_text mid"
  by (cases mid rule: rev_cases) (simp_all add: finish_chunks_def chunk_is_empty_def)

lemma finish_chunks_subset: "set (finish_chunks mid) \<subseteq> set mid"
  by (auto simp: finish_chunks_def dest: in_set_butlastD)

lemma combine_pending_rel:
  assumes "combine_pending_chunks (cm\<lparr>chunks := A0 @ c # R\<rparr>) (length A0) input = (cm2, l)"
  obtains A L c' where "A0 = A @ L" "cm2 = cm\<lparr>chunks := A @ c' # R\<rparr>" "l = length A" "raw c' = raw_text L @ raw c"
    and "cc_table c' = cc_table c" "attributes c' = attributes c" "dar_attributes c' = dar_attributes c"
      "cc_transliterator c' = cc_transliterator c"
proof (cases "ci_is_asis input")
  case True
  with assms that [of A0 "[]" c] show thesis by (simp add: combine_pending_chunks_def)
next
  case False
  define nxt where "nxt = (if ci_conversion input = [] then ci_raw input else ci_conversion input)"
  obtain cs i where cl: "combine_loop (input_t12r cm) (comp_table cm) nxt (length A0) (A0 @ c # R) = (cs, i)"
    by fastforce
  with False assms have "cm2 = cm\<lparr>chunks := cs\<rparr>" "l = i" by (simp_all add: combine_pending_chunks_def nxt_def)
  with combine_loop_rel [OF cl] that show thesis by metis
qed

context prefix_rules
begin

lemma combine_pending_ok:
  assumes "combine_pending_chunks (cm\<lparr>chunks := A0 @ c # R\<rparr>) (length A0) input = (cm\<lparr>chunks := A @ c' # R\<rparr>, length A)"
    and "ci_conversion input = []" and "good (ci_raw input)" and "snd (comp_table cm) = t"
    and "chunk_ok good t c" and "\<forall>a \<in> set A0. chunk_ok good t a"
  shows "chunk_ok good t c' \<and> (\<forall>a \<in> set A. chunk_ok good t a)"
proof (cases "ci_is_asis input")
  case True
  with assms(1) have "chunks (cm\<lparr>chunks := A0 @ c # R\<rparr>) = chunks (cm\<lparr>chunks := A @ c' # R\<rparr>)" "length A0 = length A"
    by (auto simp: combine_pending_chunks_def)
  with assms(5,6) show ?thesis by simp
next
  case False
  obtain cs i where cl: "combine_loop (input_t12r cm) (comp_table cm) (ci_raw input) (length A0) (A0 @ c # R) = (cs, i)"
    by fastforce
  with False assms(1,2) have "chunks (cm\<lparr>chunks := cs\<rparr>) = chunks (cm\<lparr>chunks := A @ c' # R\<rparr>)" "i = length A"
    by (auto simp: combine_pending_chunks_def)
  with combine_loop_fits [OF cl assms(3-6)] show ?thesis by simp
qed

lemma insert_input_raw:
  assumes ok: "composition_ok good cm" and tab: "snd (comp_table cm) = t" and pos: "chunk_boundary env pos (chunks cm)"
    and raw: "ci_conversion input = []" "good (ci_raw input)" "ci_raw input \<noteq> []"
  shows "\<exists>pos' cm'. insert_input env pos input cm = Some (pos', cm') \<and> composition_ok good cm' \<and>
    insertion env pos cm (ci_raw input) cm' pos'"
proof -
  define Q where "Q A mid left0 R \<longleftrightarrow> (\<forall>a \<in> set (A @ mid). chunk_ok good t a) \<and>
    (\<exists>lost. trimmed (raw_text left0 @ ci_raw input) (raw_text A @ raw_text mid @ lost) \<and>
      (lost = [] \<or> silenced (last mid))) \<and>
    (all_audible cm \<longrightarrow> (\<forall>a \<in> set (A @ mid). audible (input_t12r cm) a))" for A mid left0 and R :: "char_chunk list"
  have "\<not> ci_empty input" using raw(3) by (simp add: ci_empty_def)
  note ib = insert_input_boundary [OF pos this, of Q]
  have "\<exists>A mid left0 right. chunks cm = left0 @ right \<and> mid \<noteq> [] \<and> Q A mid left0 right \<and>
    (uniform env cm \<and> composition_length env (chunks cm) \<le> pos \<longrightarrow> right = []) \<and>
    insert_input env pos input cm =
      Some (composition_length env (A @ finish_chunks mid), cm\<lparr>chunks := A @ finish_chunks mid @ right\<rparr>)"
  proof (rule ib)
    fix A0 c L R cm1
    assume cs: "chunks cm = A0 @ L @ R" and cm1: "cm1 = cm\<lparr>chunks := A0 @ c # R\<rparr>"
      and c: "L = [] \<and> c = new_chunk (input_t12r cm) (comp_table cm) \<or> L = [c]"
    have oks: "chunk_ok good t c" "\<forall>a \<in> set A0. chunk_ok good t a"
      using c ok cs tab fits_new [of "comp_table cm" "input_t12r cm"] by (auto simp: composition_ok_def chunk_ok_def)
    obtain cm2 l where cp: "combine_pending_chunks cm1 (length A0) input = (cm2, l)" by fastforce
    from combine_pending_rel [OF cp [unfolded cm1]] obtain A M c' where
      m: "A0 = A @ M" "cm2 = cm\<lparr>chunks := A @ c' # R\<rparr>" "l = length A" "raw c' = raw_text M @ raw c"
        "attributes c' = attributes c" "dar_attributes c' = dar_attributes c"
        "cc_transliterator c' = cc_transliterator c" by metis
    from combine_pending_ok [OF _ raw(1,2) tab oks, of R A c'] cp cm1 m
    have oks': "chunk_ok good t c'" "\<forall>a \<in> set A. chunk_ok good t a" by auto
    from insert_loop_raw [of cm2 A c' R input] m(2) oks'(1) tab raw obtain mid where
      mid: "loop_result cm2 A R input mid" "typed_result (input_t12r cm) good t c' (ci_raw input) mid" by auto
    from mid(2) obtain lost where t: "trimmed (raw c' @ ci_raw input) (raw_text mid @ lost)"
      "lost = [] \<or> silenced (last mid)" by (auto simp: typed_result_def)
    have "raw_text (A0 @ L) @ ci_raw input = raw_text A @ raw c' @ ci_raw input" using c m(1,4) by auto
    with trimmed_append [OF t(1), of "raw_text A"] t(2)
    have "\<exists>lost. trimmed (raw_text (A0 @ L) @ ci_raw input) (raw_text A @ raw_text mid @ lost) \<and>
      (lost = [] \<or> silenced (last mid))" by auto
    moreover have "\<forall>a \<in> set (A @ mid). audible (input_t12r cm) a" if "all_audible cm"
    proof -
      have "audible (input_t12r cm) c" using c cs that by (auto simp: all_audible_def)
      then have "audible (input_t12r cm) c'" using m(5-7) by (simp add: audible_def)
      with mid(2) that cs m(1) tab show ?thesis by (auto simp: typed_result_def all_audible_def)
    qed
    moreover have "\<forall>a \<in> set (A @ mid). chunk_ok good t a" using oks' mid(2) by (auto simp: typed_result_def)
    ultimately have "Q A mid (A0 @ L) R" by (simp add: Q_def)
    with cp m(2,3) mid(1) show "\<exists>A c' mid. combine_pending_chunks cm1 (length A0) input = (cm\<lparr>chunks := A @ c' # R\<rparr>, length A) \<and>
        loop_result (cm\<lparr>chunks := A @ c' # R\<rparr>) A R input mid \<and> Q A mid (A0 @ L) R" by blast
  qed
  then obtain A mid left0 right where r: "chunks cm = left0 @ right" "mid \<noteq> []" "Q A mid left0 right"
    and end_of: "uniform env cm \<and> composition_length env (chunks cm) \<le> pos \<longrightarrow> right = []"
    and ins:
    "insert_input env pos input cm =
      Some (composition_length env (A @ finish_chunks mid), cm\<lparr>chunks := A @ finish_chunks mid @ right\<rparr>)" by blast
  let ?cm' = "cm\<lparr>chunks := (A @ finish_chunks mid) @ right\<rparr>"
  have "composition_ok good ?cm'"
    using r(1,3) ok tab finish_chunks_subset [of mid] by (auto simp: Q_def composition_ok_def)
  moreover have "all_audible ?cm' \<and> trimmed (raw_text left0 @ ci_raw input) (raw_text (A @ finish_chunks mid))"
    if "all_audible cm"
  proof
    show "all_audible ?cm'"
      using that r(1,3) finish_chunks_subset [of mid] by (auto simp: Q_def all_audible_def)
    have "audible (input_t12r cm) (last mid)" using that r(2,3) by (simp add: Q_def)
    then have "\<not> silenced (last mid)" by (rule audible_not_silenced)
    with r(2,3) finish_chunks_raw [OF r(2)]
    show "trimmed (raw_text left0 @ ci_raw input) (raw_text (A @ finish_chunks mid))"
      by (auto simp: Q_def)
  qed
  then have "insertion env pos cm (ci_raw input) ?cm' (composition_length env (A @ finish_chunks mid))"
    unfolding insertion_def using r(1) end_of by blast
  ultimately show ?thesis using ins by auto
qed

end

lemma insertion_boundary:
  assumes "insertion env pos cm text_in cm' pos'"
  shows "chunk_boundary env pos' (chunks cm')"
proof -
  from assms obtain left right where "cm' = cm\<lparr>chunks := left @ right\<rparr>" "pos' = composition_length env left"
    unfolding insertion_def by blast
  then have "length left \<le> length (chunks cm')" "pos' = get_position env LOCAL (length left) (chunks cm')"
    by (simp_all add: composition_length_def get_position_append)
  then show ?thesis unfolding chunk_boundary_def by blast
qed

lemma audible_same_length:
  assumes "audible tr c" and "tr \<noteq> LOCAL"
  shows "get_length env LOCAL c = get_length env tr c"
proof -
  have "chunk_transliterator c LOCAL = chunk_transliterator c tr"
    using assms by (simp add: audible_def chunk_transliterator_def)
  then show ?thesis by (simp add: get_length_def result_text_def chunk_transliterate_def)
qed

lemma all_audible_uniform: "\<lbrakk>all_audible cm; input_t12r cm \<noteq> LOCAL\<rbrakk> \<Longrightarrow> uniform env cm"
  by (simp add: all_audible_def uniform_def audible_same_length)

section \<open>Sessions of key strokes\<close>

lemma insert_at_quiet:
  assumes "quiet_table (snd (comp_table cm))" and "composition_ok scalar_text cm"
    and "chunk_boundary env pos (chunks cm)" and "scalar_text text_in" and "text_in \<noteq> []"
  shows "\<exists>pos' cm'. insert_at env pos text_in cm = Some (pos', cm') \<and> composition_ok scalar_text cm' \<and>
    insertion env pos cm text_in cm' pos'"
proof -
  let ?i = "ci_default\<lparr>ci_raw := text_in\<rparr>"
  from prefix_rules.insert_input_raw [OF quiet_prefix_rules [OF assms(1)] assms(2) refl assms(3), of ?i] assms(4,5)
  show ?thesis by (simp add: insert_at_def ci_default_def)
qed

text \<open>Typing one key after the other, each at the cursor the last one left.\<close>

fun type_keys :: "japanese_env \<Rightarrow> bytes list \<Rightarrow> nat \<times> composition \<Rightarrow> (nat \<times> composition) option" where
  "type_keys env [] st = Some st"
| "type_keys env (k # ks) st = Option.bind (insert_at env (fst st) k (snd st)) (type_keys env ks)"

lemma composition_length_append: "composition_length env (a @ b) = composition_length env a + composition_length env b"
  by (simp add: composition_length_def get_position_sum)

lemma insertion_at_end:
  assumes "insertion env pos cm text_in cm' pos'" and "all_audible cm" and "input_t12r cm \<noteq> LOCAL"
    and "composition_length env (chunks cm) \<le> pos"
  shows "pos' = composition_length env (chunks cm')" "trimmed (raw_text (chunks cm) @ text_in) (raw_text (chunks cm'))"
    "all_audible cm'" "input_t12r cm' = input_t12r cm" "comp_table cm' = comp_table cm"
proof -
  from assms(1) obtain left0 left right where i: "chunks cm = left0 @ right" "cm' = cm\<lparr>chunks := left @ right\<rparr>"
    "pos' = composition_length env left"
    "uniform env cm \<and> composition_length env (chunks cm) \<le> pos \<longrightarrow> right = []"
    "all_audible cm \<longrightarrow> all_audible cm' \<and> trimmed (raw_text left0 @ text_in) (raw_text left)"
    unfolding insertion_def by blast
  have "right = []" using i(4) all_audible_uniform [OF assms(2,3)] assms(4) by blast
  with i assms(2) show "pos' = composition_length env (chunks cm')"
    "trimmed (raw_text (chunks cm) @ text_in) (raw_text (chunks cm'))"
    "all_audible cm'" "input_t12r cm' = input_t12r cm" "comp_table cm' = comp_table cm" by simp_all
qed

lemma type_keys_at_end:
  assumes "quiet_table (snd (comp_table cm))" and "composition_ok scalar_text cm" and "all_audible cm"
    and "input_t12r cm \<noteq> LOCAL" and "\<forall>k \<in> set keys. scalar_text k"
  shows "\<exists>cm'. type_keys env keys (composition_length env (chunks cm), cm) = Some (composition_length env (chunks cm'), cm') \<and>
    composition_ok scalar_text cm' \<and> trimmed (raw_text (chunks cm) @ concat keys) (raw_text (chunks cm'))"
  using assms
proof (induction keys arbitrary: cm)
  case (Cons k ks)
  let ?pos = "composition_length env (chunks cm)"
  have b: "chunk_boundary env ?pos (chunks cm)" by (simp add: chunk_boundary_def)
  show ?case
  proof (cases "k = []")
    case True
    then have "insert_at env ?pos k cm = Some (?pos, cm)"
      by (simp add: insert_at_def insert_input_def ci_empty_def ci_default_def)
    with Cons.IH [OF Cons.prems(1-4)] Cons.prems(5) True show ?thesis by simp
  next
    case False
    from insert_at_quiet [OF Cons.prems(1,2) b _ False] Cons.prems(5) obtain pos1 cm1 where
      i: "insert_at env ?pos k cm = Some (pos1, cm1)" "composition_ok scalar_text cm1"
        "insertion env ?pos cm k cm1 pos1" by auto
    note e = insertion_at_end [OF i(3) Cons.prems(3,4) order_refl]
    from Cons.IH [of cm1] i(2) e Cons.prems(1,4,5) obtain cm' where
      r: "type_keys env ks (pos1, cm1) = Some (composition_length env (chunks cm'), cm')" "composition_ok scalar_text cm'"
        "trimmed (raw_text (chunks cm1) @ concat ks) (raw_text (chunks cm'))" by auto
    have "trimmed (raw_text (chunks cm) @ k @ concat ks) (raw_text (chunks cm1) @ concat ks)"
      using trimmed_context [OF e(2), of "[]" "concat ks"] by simp
    with r i(1) show ?thesis using trimmed_trans by auto
  qed
qed (simp add: trimmed_refl)

section \<open>Properties\<close>

text \<open>
  C11: \<open>InsertInput\<close> of typed text at a chunk boundary returns.  On a table in which no rule applies
  inside a pending text and a rule for a whole pending text leaves a shorter one (as for "ww" and "www" of the romaji
  table), for chunks that satisfy the invariant, it neither throws nor loops; the
  invariant holds again, the chunks right of the cursor are untouched, the new cursor is where the left
  part ends, and (on tables that transliterate everything) the raw text left of it is the old one
  followed by the input, apart from deleted special keys.
\<close>

theorem insert_input_total:
  assumes "quiet_table (snd (comp_table cm))" and "composition_ok scalar_text cm"
    and "chunk_boundary env pos (chunks cm)"
    and "ci_conversion input = []" and "scalar_text (ci_raw input)" and "ci_raw input \<noteq> []"
  shows "\<exists>pos' cm'. insert_input env pos input cm = Some (pos', cm') \<and> composition_ok scalar_text cm' \<and>
    insertion env pos cm (ci_raw input) cm' pos' \<and> chunk_boundary env pos' (chunks cm')"
  using prefix_rules.insert_input_raw [OF quiet_prefix_rules [OF assms(1)] assms(2) refl assms(3-6)]
    insertion_boundary by blast

lemma scalar_text_keys: "scalar_text ''w''" "scalar_text ''k''" "scalar_text ''a''"
proof -
  have e: "''w'' = utf8_text [119]" "''k'' = utf8_text [107]" "''a'' = utf8_text [97]" by code_simp+
  show "scalar_text ''w''" unfolding e(1) by (rule scalar_textI) (simp add: is_surrogate_def)
  show "scalar_text ''k''" unfolding e(2) by (rule scalar_textI) (simp add: is_surrogate_def)
  show "scalar_text ''a''" unfolding e(3) by (rule scalar_textI) (simp add: is_surrogate_def)
qed

lemma new_composition_ok: "composition_ok good (new_composition table)"
  by (simp add: composition_ok_def new_composition_def)

lemma new_composition_simps: "chunks (new_composition table) = []" "comp_table (new_composition table) = table"
  by (simp_all add: new_composition_def)

theorem insert_input_total_witness:
  "\<exists>pos' cm'. insert_input identity_env 0 (ci_default\<lparr>ci_raw := ''wwwka''\<rparr>) (new_composition (0, romaji_excerpt)) = Some (pos', cm') \<and>
    composition_ok scalar_text cm' \<and>
    insertion identity_env 0 (new_composition (0, romaji_excerpt)) ''wwwka'' cm' pos' \<and>
    chunk_boundary identity_env pos' (chunks cm')"
proof -
  have "quiet_table (snd (comp_table (new_composition (0, romaji_excerpt))))"
    "chunk_boundary identity_env 0 (chunks (new_composition (0, romaji_excerpt)))"
    by (simp_all add: new_composition_simps romaji_excerpt_quiet chunk_boundary_def composition_length_def)
  from insert_input_total [OF this(1) new_composition_ok this(2), of "ci_default\<lparr>ci_raw := ''wwwka''\<rparr>"]
  show ?thesis by (simp add: ci_default_def romaji_text)
qed

text \<open>
  C10: a whole session.  On a table in which no rule applies inside a pending text, a rule for a whole pending text
  leaves a shorter one, and no rule has the attribute \<open>NO_TRANSLITERATION\<close> (as the rules of \<open>romaji_excerpt\<close>), typing
  any sequence of keys of valid text into an empty composition with an input mode, each at the cursor that
  the last one left, returns with the cursor at the end of the text, and no typed byte is lost but
  special keys: the raw text of the composition is the concatenation of the keys.
\<close>

theorem typing_session:
  assumes "quiet_table (snd table)" and "audible_table (snd table)" and "t12r \<noteq> LOCAL"
    and "\<forall>k \<in> set keys. scalar_text k"
  shows "\<exists>cm. type_keys env keys (0, set_input_mode t12r (new_composition table)) =
      Some (composition_length env (chunks cm), cm) \<and>
    composition_ok scalar_text cm \<and> trimmed (concat keys) (raw_text (chunks cm)) \<and>
    (ascii (concat keys) \<and> CHR 0x0F \<notin> set (concat keys) \<longrightarrow> raw_text (chunks cm) = concat keys)"
proof -
  let ?cm = "set_input_mode t12r (new_composition table)"
  have "chunks ?cm = []" "comp_table ?cm = table" "input_t12r ?cm = t12r"
    by (simp_all add: set_input_mode_def new_composition_def)
  with type_keys_at_end [of ?cm keys env] assms obtain cm where
    "type_keys env keys (0, ?cm) = Some (composition_length env (chunks cm), cm)" "composition_ok scalar_text cm"
    and t: "trimmed (concat keys) (raw_text (chunks cm))"
    by (auto simp: composition_ok_def all_audible_def composition_length_def)
  with trimmed_plain [OF t] show ?thesis by blast
qed

theorem typing_session_witness:
  "\<exists>cm. type_keys identity_env [''w'', ''w'', ''w'', ''k'', ''a''] (0, set_input_mode HIRAGANA (new_composition (0, romaji_excerpt))) =
      Some (composition_length identity_env (chunks cm), cm) \<and>
    composition_ok scalar_text cm \<and> raw_text (chunks cm) = ''wwwka''"
  using typing_session [of "(0, romaji_excerpt)" HIRAGANA "[''w'', ''w'', ''w'', ''k'', ''a'']" identity_env]
  by (auto simp: romaji_excerpt_quiet romaji_excerpt_audible scalar_text_keys)

end
