(* ===== verification/Composition_Split.thy ===== *)
theory Composition_Split
  imports Composition_Edit
begin

text \<open>
  Splitting and deleting.  For views that show the converted text character by character (the locale
  \<open>char_view\<close>), \<open>SplitChunk\<close> and \<open>MaybeSplitChunkAt\<close> keep the text and \<open>DeleteAt\<close> removes exactly one
  character; a special key inside a pending text breaks the split.
\<close>

section \<open>Visible text\<close>

text \<open>Code points that are no part of a special key.\<close>

definition plain_chars :: "char32 list \<Rightarrow> bool" where
  "plain_chars cs \<longleftrightarrow> scalar_values cs \<and> (\<forall>c \<in> set cs. \<not> is_special_key c \<and> c \<noteq> 0 \<and> c \<noteq> 0x0F)"

lemma plain_chars_parts:
  "plain_chars (a @ b) \<longleftrightarrow> plain_chars a \<and> plain_chars b"
  "plain_chars cs \<Longrightarrow> plain_chars (take n cs)" "plain_chars cs \<Longrightarrow> plain_chars (drop n cs)"
  by (auto simp: plain_chars_def dest: in_set_takeD in_set_dropD)

lemma plain_le: "plain_chars cs \<Longrightarrow> \<forall>c \<in> set cs. c \<le> 0x10FFFF"
  by (simp add: plain_chars_def)

lemma plain_to_utf32: "plain_chars cs \<Longrightarrow> utf8_to_utf32 (utf8_text cs) = cs"
  using utf32_of_text [OF scalar_small] by (simp add: plain_chars_def)

lemma delete_plain:
  assumes "plain_chars cs"
  shows "delete_special_keys (utf8_text cs) = utf8_text cs"
proof -
  have "\<forall>c \<in> set cs. encodable c \<and> c \<noteq> 0x0F" using assms by (auto simp: plain_chars_def encodable_def)
  then have "delete_blocks (utf8_text cs) = utf8_text cs" by (intro delete_blocks_plain text_no_open)
  moreover have "filter (\<lambda>c. \<not> is_special_key c) cs = cs" using assms by (simp add: plain_chars_def filter_id_conv)
  ultimately show ?thesis using plain_to_utf32 [OF assms] by (simp add: delete_special_keys_def Let_def)
qed

section \<open>Views that show one character per character\<close>

text \<open>
  The contract of a transliterator that shows the converted text character by character: it cuts at
  the position, and its text has as many characters as the converted one.
\<close>

locale char_view =
  fixes env :: japanese_env and tr :: transliterator
  assumes converted: "\<not> shows_raw tr" "tr \<noteq> HALF_KATAKANA" "tr \<noteq> LOCAL"
    and char_len: "scalar_values cs \<Longrightarrow>
      chars_len (Transliterate (get_transliterator env tr) r (utf8_text cs)) = length cs"

text \<open>A chunk of such a view whose converted text has the code points \<open>cs\<close>.\<close>

definition shows_chars :: "transliterator \<Rightarrow> char_chunk \<Rightarrow> char32 list \<Rightarrow> bool" where
  "shows_chars tr c cs \<longleftrightarrow> cc_transliterator c = tr \<and> \<not> has_attribute (attributes c) NO_TRANSLITERATION \<and>
     (display_ambiguous_as_result c \<longrightarrow> ambiguous c = []) \<and>
     conversion c @ pending c = utf8_text cs \<and> plain_chars cs"

lemma shows_chars_unique: "shows_chars tr c cs \<Longrightarrow> shows_chars tr c ds \<Longrightarrow> cs = ds"
  using plain_to_utf32 by (metis shows_chars_def)

context char_view
begin

lemma shown_transliterator:
  "shows_chars tr c cs \<Longrightarrow> chunk_transliterator c LOCAL = tr"
  by (simp add: shows_chars_def chunk_transliterator_def)

lemma shown_length:
  assumes "shows_chars tr c cs"
  shows "get_length env LOCAL c = length cs"
proof -
  have "get_display_converted c = utf8_text cs" using assms by (auto simp: get_display_converted_def shows_chars_def)
  with assms char_len [of cs] delete_plain [of cs] show ?thesis
    by (simp add: get_length_def result_text_def chunk_transliterate_def shown_transliterator [OF assms]
        shows_chars_def plain_chars_def)
qed

text \<open>\<open>SplitChunk\<close> inside such a chunk cuts its text at the position.\<close>

lemma split_shown:
  assumes c: "shows_chars tr c cs" and pos: "0 < position" "position < length cs"
  obtains l r where "split_chunk env LOCAL position c = Some (Inr (l, r))"
    and "shows_chars tr l (take position cs)" and "shows_chars tr r (drop position cs)"
proof -
  let ?V = "delete_special_keys (conversion c @ pending c)"
  have V: "?V = utf8_text cs" and p: "plain_chars cs" and cv: "conversion c @ pending c = utf8_text cs"
    using c delete_plain [of cs] by (simp_all add: shows_chars_def)
  have sp: "Split (get_transliterator env tr) = split_converted"
    using split_of_transliterator [of tr env] converted by simp
  have ch: "chosen True (delete_special_keys (raw c)) ?V = utf8_text cs" by (simp add: chosen_def V)
  from conversion_splitter.returns [OF ch plain_le [OF p], of position] obtain ok rl rr cl cr where
    s: "split_converted position (delete_special_keys (raw c)) ?V = Some (ok, rl, rr, cl, cr)"
    by (cases "split_converted position (delete_special_keys (raw c)) ?V") auto
  from conversion_splitter.left_length [OF s ch plain_le [OF p]]
  have cl: "cl = utf8_text (take position cs)" and cr: "cr = utf8_text (drop position cs)" by (simp_all add: chosen_def)
  have whole: "cl @ cr = conversion c @ pending c"
    unfolding cl cr cv by (metis append_take_drop_id concat_append map_append)
  have pre: "prefix cl (cl @ cr)" "prefix (conversion c) (cl @ cr)" unfolding prefix_def using whole by blast+
  note pl = plain_chars_parts(2) [OF p, of position] and pr = plain_chars_parts(3) [OF p, of position]
  have start: "split_chunk env LOCAL position c = map_option
      (\<lambda>(_, raw_lhs, raw_rhs, converted_lhs, converted_rhs).
             let left = (new_chunk (cc_transliterator c) (cc_table c))\<lparr>raw := raw_lhs\<rparr>;
                 c' = c\<lparr>raw := raw_rhs\<rparr> in
             if length (conversion c) < length converted_lhs then
               Inr (left\<lparr>conversion := conversion c, pending := drop (length (conversion c)) converted_lhs\<rparr>,
                    c'\<lparr>conversion := [], pending := converted_rhs, ambiguous := []\<rparr>)
             else
               Inr (left\<lparr>conversion := converted_lhs\<rparr>,
                    c'\<lparr>conversion :=
                      (if length converted_rhs < length (pending c) then converted_rhs
                       else take (length converted_rhs - length (pending c)) converted_rhs)\<rparr>))
          (Some (ok, rl, rr, cl, cr))"
    using pos s shown_length [OF c] by (simp add: split_chunk_def shown_transliterator [OF c] sp)
  show thesis
  proof (cases "length (conversion c) < length cl")
    case True
    with prefix_length_prefix [OF pre(2) pre(1)] obtain u where "cl = conversion c @ u" by (auto elim: prefixE)
    then have "conversion c @ drop (length (conversion c)) cl = cl" by simp
    with True start that c pl pr cl cr show thesis
      by (simp add: Let_def shows_chars_def new_chunk_def)
  next
    case False
    with prefix_length_prefix [OF pre(1) pre(2)] obtain u where u: "conversion c = cl @ u" by (auto elim: prefixE)
    with whole have cru: "cr = u @ pending c" by simp
    then have "(if length cr < length (pending c) then cr else take (length cr - length (pending c)) cr) = u" by simp
    with False start have "split_chunk env LOCAL position c =
        Some (Inr ((new_chunk (cc_transliterator c) (cc_table c))\<lparr>raw := rl, conversion := cl\<rparr>,
          c\<lparr>raw := rr, conversion := u\<rparr>))" by (simp add: Let_def)
    moreover have "shows_chars tr ((new_chunk (cc_transliterator c) (cc_table c))\<lparr>raw := rl, conversion := cl\<rparr>) (take position cs)"
      using c pl by (simp add: shows_chars_def new_chunk_def cl)
    moreover have "shows_chars tr (c\<lparr>raw := rr, conversion := u\<rparr>) (drop position cs)"
      using c pr cru cr by (simp add: shows_chars_def)
    ultimately show thesis by (rule that)
  qed
qed

end
section \<open>Deleting a character\<close>

lemma concat_take: "concat (take i xss) = take (length (concat (take i xss))) (concat xss)"
  by (metis append_eq_conv_conj append_take_drop_id concat_append)

lemma take_concat_prefix:
  "length (concat (take i xss)) = min p (length (concat xss)) \<Longrightarrow> concat (take i xss) = take p (concat xss)"
  using concat_take [of i xss] by (metis min.commute take_all_iff min_def nat_le_linear)

abbreviation show_list :: "transliterator \<Rightarrow> char_chunk list \<Rightarrow> char32 list list \<Rightarrow> bool" where
  "show_list tr \<equiv> list_all2 (shows_chars tr)"

lemma concat_split_nth:
  "i < length xss \<Longrightarrow> concat xss = concat (take i xss) @ xss ! i @ concat (drop (Suc i) xss)"
  by (metis append_take_drop_id concat.simps(2) concat_append Cons_nth_drop_Suc)

context char_view
begin

lemma shown_position:
  assumes "show_list tr cs xss"
  shows "get_position env LOCAL i cs = length (concat (take i xss))"
proof -
  have "map (get_length env LOCAL) cs = map length xss"
    using assms by (induction rule: list_all2_induct) (simp_all add: shown_length)
  then show ?thesis by (simp add: get_position_sum length_concat take_map [symmetric])
qed

lemma shown_total: "show_list tr cs xss \<Longrightarrow> composition_length env cs = length (concat xss)"
  by (simp add: composition_length_def shown_position list_all2_lengthD)

lemma maybe_split_shown:
  assumes "show_list tr cs xss"
  shows "\<exists>cs1 i yss. maybe_split_chunk_at env p cs = Some (cs1, i) \<and> i \<le> length cs1 \<and> show_list tr cs1 yss \<and>
    concat yss = concat xss \<and> concat (take i yss) = take p (concat xss)"
proof (cases "cs = []")
  case False
  obtain i inner where g: "get_chunk_at env p LOCAL cs = (i, inner)" by fastforce
  from get_chunk_atE [OF False g] have i: "i < length cs" "inner \<le> get_length env LOCAL (cs ! i)"
    "get_position env LOCAL i cs + inner = min p (composition_length env cs)"
    "i = 0 \<or> get_position env LOCAL i cs < p" by (auto simp: composition_length_def)
  have li: "i < length xss" using i(1) assms by (simp add: list_all2_lengthD)
  have sh: "shows_chars tr (cs ! i) (xss ! i)" using assms i(1) by (simp add: list_all2_nthD)
  note len = shown_length [OF sh]
  have sum: "length (concat (take i xss)) + inner = min p (length (concat xss))"
    using i(3) assms by (simp add: shown_position shown_total)
  have bound: "length (concat (take i xss)) + length (xss ! i) \<le> length (concat xss)"
    unfolding concat_split_nth [OF li] by simp
  moreover have "i = 0 \<or> length (concat (take i xss)) < p" using i(4) assms by (simp add: shown_position)
  ultimately have pick: "i = 0 \<and> inner = 0 \<or> \<not> (i = 0 \<and> inner = 0) \<and> inner = length (xss ! i) \<or>
      0 < inner \<and> inner < length (xss ! i)"
    using i(2) len sum by (cases "inner = 0"; cases "inner = length (xss ! i)") (auto simp: min_def split: if_splits)
  consider "i = 0 \<and> inner = 0" | "\<not> (i = 0 \<and> inner = 0)" "inner = length (xss ! i)"
    | "0 < inner" "inner < length (xss ! i)"
    using pick by blast
  then show ?thesis
  proof cases
    case 1
    then have "take p (concat xss) = []" using sum by (auto simp: min_def split: if_splits)
    with 1 g assms show ?thesis
      by (intro exI [of _ cs] exI [of _ i] exI [of _ xss]) (simp add: maybe_split_chunk_at_def)
  next
    case 2
    then have "length (concat (take (Suc i) xss)) = min p (length (concat xss))"
      using sum li by (simp add: take_Suc_conv_app_nth)
    from take_concat_prefix [OF this] 2 g len assms i(1) show ?thesis
      by (intro exI [of _ cs] exI [of _ "Suc i"] exI [of _ xss]) (simp add: maybe_split_chunk_at_def)
  next
    case 3
    from split_shown [OF sh 3] obtain l r where
      s: "split_chunk env LOCAL inner (cs ! i) = Some (Inr (l, r))"
        "shows_chars tr l (take inner (xss ! i))" "shows_chars tr r (drop inner (xss ! i))" by blast
    let ?yss = "take i xss @ take inner (xss ! i) # drop inner (xss ! i) # drop (Suc i) xss"
    have "show_list tr (take i cs @ l # r # drop (Suc i) cs) ?yss"
      using assms s(2,3) li i(1) by (auto intro!: list_all2_appendI list_all2_takeI list_all2_dropI)
    moreover have cat: "concat ?yss = concat xss" using concat_split_nth [OF li] by simp
    moreover have "length (concat (take (Suc i) ?yss)) = min p (length (concat ?yss))"
      using sum 3 li bound by (simp add: cat min_def split: if_splits)
    from take_concat_prefix [OF this] have "concat (take (Suc i) ?yss) = take p (concat xss)" unfolding cat .
    moreover have "maybe_split_chunk_at env p cs = Some (take i cs @ l # r # drop (Suc i) cs, Suc i)"
      using g s(1) 3 len by (simp add: maybe_split_chunk_at_def)
    ultimately show ?thesis using i(1)
      by (intro exI [of _ "take i cs @ l # r # drop (Suc i) cs"] exI [of _ "Suc i"] exI [of _ ?yss]) simp
  qed
qed (use assms in \<open>simp add: maybe_split_chunk_at_def get_chunk_at_def\<close>)

lemma delete_loop_done:
  "show_list tr cs xss \<Longrightarrow> cs = [] \<or> length (concat xss) \<noteq> n \<Longrightarrow> delete_loop env p n np cs = Some (np, cs)"
  by (subst delete_loop.simps) (auto simp: shown_total)

text \<open>One round of the loop: it deletes the character, or a chunk without characters.\<close>

lemma delete_round:
  assumes cs: "show_list tr cs xss" "cs \<noteq> []" and n: "n = length (concat xss)"
    and sp: "maybe_split_chunk_at env p cs = Some (cs1, i)" "i \<le> length cs1" "show_list tr cs1 yss"
      "concat yss = concat xss" "concat (take i yss) = take p (concat xss)"
  shows "(\<exists>q cs' zss. delete_loop env p n np cs = Some (q, cs') \<and> (p < n \<longrightarrow> q = p) \<and> show_list tr cs' zss \<and>
      concat zss = take p (concat xss) @ drop (Suc p) (concat xss)) \<or>
    (\<exists>zss. delete_loop env p n np cs = delete_loop env p n (min p n) (take i cs1 @ drop (Suc i) cs1) \<and>
      i < length cs1 \<and> show_list tr (take i cs1 @ drop (Suc i) cs1) zss \<and> concat zss = concat xss)"
proof -
  have total: "composition_length env cs = n" using cs n by (simp add: shown_total)
  have np: "get_position env LOCAL i cs1 = min p n" using sp(3,5) n by (simp add: shown_position min.commute)
  have step0: "delete_loop env p n np cs =
      (if i = length cs1 then Some (get_position env LOCAL i cs1, cs1)
       else if get_length env LOCAL (cs1 ! i) \<le> 1 then delete_loop env p n (get_position env LOCAL i cs1) (take i cs1 @ drop (Suc i) cs1)
       else Option.bind (split_chunk env LOCAL 1 (cs1 ! i)) (\<lambda>r.
         delete_loop env p n (get_position env LOCAL i cs1) (case r of Inl _ \<Rightarrow> cs1 | Inr (_, right) \<Rightarrow> cs1[i := right])))"
    by (subst delete_loop.simps) (simp add: total cs(2) sp(1) Let_def cong: sum.case_cong)
  note step = step0 [unfolded np]
  show ?thesis
  proof (cases "i = length cs1")
    case True
    then have e: "take p (concat xss) = concat xss" using sp(3,4,5) by (simp add: list_all2_lengthD)
    from arg_cong [OF e, of length] n have "n \<le> p" by simp
    with True step sp(3,4) n show ?thesis by auto
  next
    case False
    with sp(2) have i: "i < length cs1" by simp
    then have li: "i < length yss" using sp(3) by (simp add: list_all2_lengthD)
    have sh: "shows_chars tr (cs1 ! i) (yss ! i)" using sp(3) i by (simp add: list_all2_nthD)
    let ?del = "take i cs1 @ drop (Suc i) cs1" and ?zss = "take i yss @ drop (Suc i) yss"
    have zss: "show_list tr ?del ?zss" using sp(3) by (intro list_all2_appendI list_all2_takeI list_all2_dropI)
    have cat: "concat xss = take p (concat xss) @ yss ! i @ concat (drop (Suc i) yss)"
      using concat_split_nth [OF li] sp(4,5) by simp
    show ?thesis
    proof (cases "yss ! i")
      case Nil
      then have "get_length env LOCAL (cs1 ! i) = 0" using shown_length [OF sh] by simp
      with step False have "delete_loop env p n np cs = delete_loop env p n (min p n) ?del" by simp
      moreover have "concat ?zss = concat xss" using cat Nil sp(5) by simp
      ultimately show ?thesis using zss i by blast
    next
      case (Cons x rest)
      have pn: "p < n"
      proof (rule ccontr)
        assume "\<not> p < n"
        then have "take p (concat xss) = concat xss" using n by simp
        with cat Cons show False by simp
      qed
      then have lt: "length (take p (concat xss)) = p" using n by simp
      have res: "take p (concat xss) @ drop (Suc p) (concat xss) = take p (concat xss) @ rest @ concat (drop (Suc i) yss)"
        using cat Cons lt by (metis Cons_eq_appendI append_eq_conv_conj drop_Suc_Cons drop_drop drop0 plus_1_eq_Suc append_Cons drop_append diff_self_eq_0 drop_all order_refl append_Nil Suc_eq_plus1 drop_Suc_Cons)
      show ?thesis
      proof (cases rest)
        case Nil
        then have "get_length env LOCAL (cs1 ! i) = 1" using shown_length [OF sh] Cons by simp
        with step False have s: "delete_loop env p n np cs = delete_loop env p n p ?del" using pn by simp
        have c: "concat ?zss = take p (concat xss) @ drop (Suc p) (concat xss)" using res Nil sp(5) by simp
        then have "length (concat ?zss) \<noteq> n" using pn n by simp
        with s delete_loop_done [OF zss disjI2] have "delete_loop env p n np cs = Some (p, ?del)" by simp
        with zss c show ?thesis by blast
      next
        case (Cons y ys)
        then have l2: "1 < length (yss ! i)" using \<open>yss ! i = x # rest\<close> by simp
        from split_shown [OF sh zero_less_one l2] obtain l r where
          sr: "split_chunk env LOCAL 1 (cs1 ! i) = Some (Inr (l, r))" "shows_chars tr r (drop 1 (yss ! i))" by blast
        let ?wss = "yss[i := rest]"
        have w: "show_list tr (cs1[i := r]) ?wss"
          using sp(3) sr(2) \<open>yss ! i = x # rest\<close> by (intro list_all2_update_cong) simp_all
        have s: "delete_loop env p n np cs = delete_loop env p n p (cs1[i := r])"
          using step False l2 shown_length [OF sh] sr(1) pn by simp
        have c: "concat ?wss = take p (concat xss) @ drop (Suc p) (concat xss)"
          using res sp(5) li by (simp add: upd_conv_take_nth_drop)
        then have "length (concat ?wss) \<noteq> n" using pn n by simp
        with s delete_loop_done [OF w disjI2] have "delete_loop env p n np cs = Some (p, cs1[i := r])" by simp
        with w c show ?thesis by blast
      qed
    qed
  qed
qed

end
context char_view
begin

lemma erased_boundary:
  assumes "show_list tr cs1 yss" and "i < length cs1" and "concat (take i yss) = take p (concat xss)"
    and "show_list tr (take i cs1 @ drop (Suc i) cs1) zss" and "concat zss = concat xss"
  shows "chunk_boundary env p (take i cs1 @ drop (Suc i) cs1)"
proof -
  let ?del = "take i cs1 @ drop (Suc i) cs1" and ?n = "length (concat xss)"
  have "get_position env LOCAL i ?del = get_position env LOCAL i cs1"
    using assms(2) by (simp add: get_position_sum)
  also have "\<dots> = min p ?n" using shown_position [OF assms(1)] assms(3) by (simp add: min.commute)
  finally have at: "get_position env LOCAL i ?del = min p ?n" .
  have "composition_length env ?del = ?n" using shown_total [OF assms(4)] assms(5) by simp
  with at assms(2) show ?thesis unfolding chunk_boundary_def by (cases "?n \<le> p") (auto intro!: exI [of _ i])
qed

lemma delete_loop_boundary:
  assumes "show_list tr cs xss" and "n = length (concat xss)" and "chunk_boundary env p cs" and "cs = [] \<longrightarrow> p < n \<longrightarrow> np = p"
  shows "\<exists>q cs' zss. delete_loop env p n np cs = Some (q, cs') \<and> (p < n \<longrightarrow> q = p) \<and> show_list tr cs' zss \<and>
    concat zss = take p (concat xss) @ drop (Suc p) (concat xss)"
  using assms
proof (induction "length cs" arbitrary: cs xss np rule: less_induct)
  case less
  show ?case
  proof (cases "cs = []")
    case True
    then have "xss = []" using less.prems(1) by simp
    with delete_loop_done [OF less.prems(1), of n p np] True less.prems show ?thesis
      by (intro exI [of _ np] exI [of _ cs] exI [of _ xss]) simp
  next
    case False
    from maybe_split_shown [OF less.prems(1), of p] obtain cs1 i yss where
      sp: "maybe_split_chunk_at env p cs = Some (cs1, i)" "i \<le> length cs1" "show_list tr cs1 yss"
        "concat yss = concat xss" "concat (take i yss) = take p (concat xss)" by blast
    from maybe_split_boundary [OF less.prems(3)] sp(1) have same: "cs1 = cs" by auto
    from delete_round [OF less.prems(1) False less.prems(2) sp, of np] show ?thesis
    proof
      assume "\<exists>zss. delete_loop env p n np cs = delete_loop env p n (min p n) (take i cs1 @ drop (Suc i) cs1) \<and>
        i < length cs1 \<and> show_list tr (take i cs1 @ drop (Suc i) cs1) zss \<and> concat zss = concat xss"
      then obtain zss where z: "delete_loop env p n np cs = delete_loop env p n (min p n) (take i cs1 @ drop (Suc i) cs1)"
        "i < length cs1" "show_list tr (take i cs1 @ drop (Suc i) cs1) zss" "concat zss = concat xss" by blast
      let ?del = "take i cs1 @ drop (Suc i) cs1"
      have shorter: "length ?del < length cs" using z(2) same by simp
      have b: "chunk_boundary env p ?del" by (rule erased_boundary [OF sp(3) z(2) sp(5) z(3,4)])
      from less.hyps [OF shorter z(3) _ b, of "min p n"] z(4) less.prems(2) show ?thesis unfolding z(1) by simp
    qed
  qed
qed

lemma delete_loop_shown:
  assumes "show_list tr cs xss" and "n = length (concat xss)"
  shows "\<exists>q cs' zss. delete_loop env p n np cs = Some (q, cs') \<and> (p < n \<longrightarrow> q = p) \<and> show_list tr cs' zss \<and>
    concat zss = take p (concat xss) @ drop (Suc p) (concat xss)"
proof (cases "cs = []")
  case True
  with assms delete_loop_boundary [OF assms, of p np] show ?thesis by (simp add: chunk_boundary_def composition_length_def)
next
  case False
  from maybe_split_shown [OF assms(1), of p] obtain cs1 i yss where
    sp: "maybe_split_chunk_at env p cs = Some (cs1, i)" "i \<le> length cs1" "show_list tr cs1 yss"
      "concat yss = concat xss" "concat (take i yss) = take p (concat xss)" by blast
  from delete_round [OF assms(1) False assms(2) sp, of np] show ?thesis
  proof
    assume "\<exists>zss. delete_loop env p n np cs = delete_loop env p n (min p n) (take i cs1 @ drop (Suc i) cs1) \<and>
      i < length cs1 \<and> show_list tr (take i cs1 @ drop (Suc i) cs1) zss \<and> concat zss = concat xss"
    then obtain zss where z: "delete_loop env p n np cs = delete_loop env p n (min p n) (take i cs1 @ drop (Suc i) cs1)"
      "i < length cs1" "show_list tr (take i cs1 @ drop (Suc i) cs1) zss" "concat zss = concat xss" by blast
    have b: "chunk_boundary env p (take i cs1 @ drop (Suc i) cs1)"
      by (rule erased_boundary [OF sp(3) z(2) sp(5) z(3,4)])
    from delete_loop_boundary [OF z(3) _ b, of n "min p n"] z(4) assms(2) show ?thesis unfolding z(1) by simp
  qed
qed

end

interpretation conversion_view: char_view env CONVERSION_STRING for env
  by unfold_locales (auto simp: shows_raw_def conversion_string_def intro!: chars_len_text)

interpretation hiragana_view: char_view identity_env HIRAGANA
  by unfold_locales (auto simp: shows_raw_def hiragana_def identity_env_def intro!: chars_len_text)

section \<open>Properties\<close>

text \<open>
  C14: \<open>SplitChunk\<close> cuts the text.  In a view that shows the converted text character by character, a
  chunk without special keys splits at every inner position, and the two chunks show exactly the
  characters before and after it.
\<close>

theorem split_chunk_cuts_text:
  assumes "char_view env tr" and "shows_chars tr c cs" and "0 < position" and "position < length cs"
  shows "\<exists>l r. split_chunk env LOCAL position c = Some (Inr (l, r)) \<and>
    shows_chars tr l (take position cs) \<and> shows_chars tr r (drop position cs)"
  using char_view.split_shown [OF assms] by blast

definition sample_chunk :: char_chunk where
  "sample_chunk = (new_chunk HIRAGANA (0, new_table))\<lparr>raw := ''tta'', conversion := utf8_text [0x3063, 0x305F]\<rparr>"

lemma sample_chunk_shows: "shows_chars HIRAGANA sample_chunk [0x3063, 0x305F]"
  by (simp add: shows_chars_def sample_chunk_def new_chunk_def plain_chars_def is_surrogate_def special_range)

theorem split_chunk_cuts_text_witness:
  "\<exists>l r. split_chunk identity_env LOCAL 1 sample_chunk = Some (Inr (l, r)) \<and>
    shows_chars HIRAGANA l (take 1 [0x3063, 0x305F]) \<and> shows_chars HIRAGANA r (drop 1 [0x3063, 0x305F])"
  by (rule split_chunk_cuts_text [OF hiragana_view.char_view_axioms sample_chunk_shows]) simp_all

text \<open>
  C13: \<open>DeleteAt\<close> returns and removes exactly the character at the position, wherever it is in its
  chunk; past the end it removes nothing; and the cursor stays.
\<close>

theorem delete_at_removes_character:
  assumes "char_view env tr" and "list_all2 (shows_chars tr) (chunks cm) xss"
  shows "\<exists>q cm' zss. delete_at env p cm = Some (q, cm') \<and> list_all2 (shows_chars tr) (chunks cm') zss \<and>
    concat zss = take p (concat xss) @ drop (Suc p) (concat xss) \<and> (p < length (concat xss) \<longrightarrow> q = p)"
proof -
  from char_view.delete_loop_shown [OF assms refl, of p p] char_view.shown_total [OF assms]
  obtain q cs' zss where "delete_loop env p (composition_length env (chunks cm)) p (chunks cm) = Some (q, cs')"
    "list_all2 (shows_chars tr) cs' zss" "concat zss = take p (concat xss) @ drop (Suc p) (concat xss)"
    "p < length (concat xss) \<longrightarrow> q = p" by auto
  then show ?thesis by (intro exI [of _ q] exI [of _ "cm\<lparr>chunks := cs'\<rparr>"] exI [of _ zss]) (simp add: delete_at_def)
qed

theorem delete_at_removes_character_witness:
  "\<exists>cm' zss. delete_at identity_env 1 ((new_composition (0, new_table))\<lparr>chunks := [sample_chunk]\<rparr>) = Some (1, cm') \<and>
    list_all2 (shows_chars HIRAGANA) (chunks cm') zss \<and> concat zss = [0x3063]"
  using delete_at_removes_character [OF hiragana_view.char_view_axioms,
      of "(new_composition (0, new_table))\<lparr>chunks := [sample_chunk]\<rparr>" "[[0x3063, 0x305F]]" 1]
  by (auto simp: sample_chunk_shows)

text \<open>
  C35: with a special key in the pending text \<open>SplitChunk\<close> repeats text.  The visible text "abc" of the
  conversion "ab" and the pending "*" key and "c", split after "a", gives "a" and "bcc": the size of
  the right text minus the size of the pending text wraps around.
\<close>

theorem split_chunk_repeats_pending:
  "\<exists>c l r. raw c = ''x'' \<and> conversion c = ''ab'' \<and> pending c = kSpecialKeyOpen @ ''*'' @ kSpecialKeyClose @ ''c'' \<and>
     get_string identity_env [c] = ''abc'' \<and>
     split_chunk identity_env CONVERSION_STRING 1 c = Some (Inr (l, r)) \<and>
     get_string identity_env [l, r] = ''abcc''"
proof -
  let ?p = "kSpecialKeyOpen @ ''*'' @ kSpecialKeyClose @ ''c''"
  let ?c = "(new_chunk CONVERSION_STRING (0, new_table))\<lparr>raw := ''x'', conversion := ''ab'', pending := ?p\<rparr>"
  have t: "''ab'' = utf8_text [97, 98]" "''c'' = utf8_text [99]" "''abc'' = utf8_text [97, 98, 99]"
    "''a'' = utf8_text [97]" "''bc'' = utf8_text [98, 99]" "''bcc'' = utf8_text [98, 99, 99]" by code_simp+
  have enc: "encodable c \<and> \<not> is_special_key c \<and> c \<noteq> 0x0F" if "c \<in> {97, 98, 99}" for c
    using that by (auto simp: encodable_def special_range)
  have del: "delete_special_keys (utf8_text cs @ ?p) = utf8_text (cs @ [99])" if "set cs \<subseteq> {97, 98, 99}" for cs
  proof -
    let ?gs = "[Plain cs, Fallback ''*'', Plain [99]]"
    have "\<forall>g \<in> set ?gs. proper_glyph g" using that enc by (auto simp: subset_iff)
    from delete_special_keys_glyphs [OF this] show ?thesis by (simp add: t(2))
  qed
  have shown: "result_text identity_env LOCAL c = delete_special_keys (conversion c @ pending c)"
    if "cc_transliterator c = CONVERSION_STRING" "attributes c = NO_TABLE_ATTRIBUTE" "\<not> display_ambiguous_as_result c" for c
    using that by (simp add: result_text_def chunk_transliterate_def chunk_transliterator_def
        get_display_converted_def conversion_string_def)
  have view: "chunk_transliterator c CONVERSION_STRING = CONVERSION_STRING" for c
    by (simp add: chunk_transliterator_def)
  have conv: "delete_special_keys (''ab'' @ ?p) = utf8_text [97, 98, 99]" using del [of "[97, 98]"] t(1) by simp
  have one: "get_string identity_env [?c] = ''abc''"
    using shown [of ?c] conv by (simp add: get_string_def append_result_def new_chunk_def t(3))
  have ch: "chosen True (delete_special_keys ''x'') (utf8_text [97, 98, 99]) = utf8_text [97, 98, 99]"
    by (simp add: chosen_def)
  from conversion_splitter.returns [OF ch, of 1] obtain ok rl rr cl cr where
    s: "split_converted 1 (delete_special_keys ''x'') (utf8_text [97, 98, 99]) = Some (ok, rl, rr, cl, cr)"
    by (cases "split_converted 1 (delete_special_keys ''x'') (utf8_text [97, 98, 99])") auto
  from conversion_splitter.left_length [OF s ch] have c: "cl = ''a''" "cr = ''bc''" by (simp_all add: chosen_def t(4,5))
  let ?l = "(new_chunk CONVERSION_STRING (0, new_table))\<lparr>raw := rl, conversion := ''a''\<rparr>"
    and ?r = "?c\<lparr>raw := rr, conversion := ''bc''\<rparr>"
  have "get_length identity_env CONVERSION_STRING ?c = 3"
    using conv chars_len_text [of "[97, 98, 99]"]
    by (simp add: get_length_def result_text_def chunk_transliterate_def view get_display_converted_def
        new_chunk_def conversion_string_def del: concat.simps list.map)
  then have split: "split_chunk identity_env CONVERSION_STRING 1 ?c = Some (Inr (?l, ?r))"
    using s conv c by (simp add: split_chunk_def view new_chunk_def conversion_string_def kSpecialKeyOpen_def
        kSpecialKeyClose_def Let_def)
  have "delete_special_keys ''a'' = ''a''"
    unfolding t(4) by (rule delete_plain) (simp add: plain_chars_def is_surrogate_def special_range)
  moreover have "delete_special_keys (''bc'' @ ?p) = ''bcc''" using del [of "[98, 99]"] t(5,6) by simp
  ultimately have "get_string identity_env [?l, ?r] = ''abcc''"
    using shown [of ?l] shown [of ?r] by (simp add: get_string_def append_result_def new_chunk_def)
  with one split show ?thesis by (intro exI [of _ ?c] exI [of _ ?l] exI [of _ ?r]) (simp add: new_chunk_def)
qed

end
