(* ===== verification/Refinement.thy ===== *)
theory Refinement
  imports Main
begin

text \<open>
  Runs of operations on a stateful component, and the simulation argument the components share: when every
  operation of the code succeeds, answers as the specification does and keeps the two states related, so does
  every sequence of operations.
\<close>

fun run_ops :: "('op \<Rightarrow> 's \<Rightarrow> ('r \<times> 's) option) \<Rightarrow> 'op list \<Rightarrow> 's \<Rightarrow> ('r list \<times> 's) option" where
  "run_ops f [] s = Some ([], s)"
| "run_ops f (p # ps) s =
     Option.bind (f p s) (\<lambda>(r, s1). map_option (\<lambda>(rs, s2). (r # rs, s2)) (run_ops f ps s1))"

fun run_spec :: "('op \<Rightarrow> 'a \<Rightarrow> 'r \<times> 'a) \<Rightarrow> 'op list \<Rightarrow> 'a \<Rightarrow> 'r list \<times> 'a" where
  "run_spec f [] a = ([], a)"
| "run_spec f (p # ps) a = (let (r, a1) = f p a; (rs, a2) = run_spec f ps a1 in (r # rs, a2))"

locale simulation =
  fixes step :: "'op \<Rightarrow> 's \<Rightarrow> ('r \<times> 's) option"
    and spec :: "'op \<Rightarrow> 'a \<Rightarrow> 'r \<times> 'a"
    and related :: "'s \<Rightarrow> 'a \<Rightarrow> bool"
  assumes step_sim: "related s a \<Longrightarrow> \<exists>s'. step p s = Some (fst (spec p a), s') \<and> related s' (snd (spec p a))"
begin

lemma run_sim:
  "related s a \<Longrightarrow> \<exists>s'. run_ops step ps s = Some (fst (run_spec spec ps a), s') \<and> related s' (snd (run_spec spec ps a))"
proof (induction ps arbitrary: s a)
  case (Cons p ps)
  from step_sim [OF Cons.prems, of p] obtain s1 where
    s1: "step p s = Some (fst (spec p a), s1)" "related s1 (snd (spec p a))" by blast
  from Cons.IH [OF s1(2)] obtain s2 where
    "run_ops step ps s1 = Some (fst (run_spec spec ps (snd (spec p a))), s2)"
    "related s2 (snd (run_spec spec ps (snd (spec p a))))" by blast
  then show ?case using s1(1) by (auto simp: case_prod_beta)
qed simp

end

end
