(* ===== verification/Lru_Cache.thy ===== *)
theory Lru_Cache
  imports Prelude Refinement
begin

text \<open>
  The LRU cache (\<open>storage/lru_cache.h\<close>) at the level of its pointers: elements are cells of a heap,
  allocated in blocks and numbered in the order of allocation; the LRU list is linked both ways through
  them and the free list one way.  A failed \<open>CHECK\<close> is \<open>None\<close>.  The theorems show that the linked structure
  keeps its invariant and implements a list of key-value pairs in order of use, of bounded length.
\<close>

section \<open>State\<close>

record ('k, 'v) element =
  next_elem :: "nat option"
  prev_elem :: "nat option"
  elem_key :: 'k
  elem_value :: 'v

record ('k, 'v) lru_cache =
  elements :: "nat \<Rightarrow> ('k, 'v) element"
  key_table :: "'k \<rightharpoonup> nat"
  free_list :: "nat option"
  lru_head :: "nat option"
  lru_tail :: "nat option"
  block_count :: nat
  block_capacity :: nat
  next_block_size :: nat
  max_elements :: nat

definition max_blocks :: nat where
  "max_blocks = 10"

text \<open>
  The constructor; \<open>k0\<close> and \<open>v0\<close> are the default key and value of a new element.  Capacities are at most \<open>2 ^ 63\<close>: above that
  the shift of the block size wraps around to 0 in \<open>size_t\<close>, and the loop of the constructor does not end.
\<close>

function first_block_size :: "nat \<Rightarrow> nat \<Rightarrow> nat" where
  "first_block_size sz cap = (if 0 < sz \<and> sz * 2 ^ max_blocks < cap then first_block_size (sz * 2) cap else sz)"
  by pat_completeness auto
termination by (relation "measure (\<lambda>(sz, cap). cap - sz)") (auto simp: max_blocks_def)

declare first_block_size.simps [simp del]

definition new_cache :: "'k \<Rightarrow> 'v \<Rightarrow> nat \<Rightarrow> ('k, 'v) lru_cache" where
  "new_cache k0 v0 cap =
     \<lparr>elements = (\<lambda>_. \<lparr>next_elem = None, prev_elem = None, elem_key = k0, elem_value = v0\<rparr>),
      key_table = Map.empty, free_list = None, lru_head = None, lru_tail = None, block_count = 0,
      block_capacity = 0, next_block_size = (if cap \<le> 128 then cap else first_block_size 64 cap),
      max_elements = cap\<rparr>"

section \<open>Operations\<close>

definition set_next :: "nat \<Rightarrow> nat option \<Rightarrow> ('k, 'v) lru_cache \<Rightarrow> ('k, 'v) lru_cache" where
  "set_next e p c = c\<lparr>elements := (elements c)(e := (elements c e)\<lparr>next_elem := p\<rparr>)\<rparr>"

definition set_prev :: "nat \<Rightarrow> nat option \<Rightarrow> ('k, 'v) lru_cache \<Rightarrow> ('k, 'v) lru_cache" where
  "set_prev e p c = c\<lparr>elements := (elements c)(e := (elements c e)\<lparr>prev_elem := p\<rparr>)\<rparr>"

definition push_free_list :: "nat \<Rightarrow> ('k, 'v) lru_cache \<Rightarrow> ('k, 'v) lru_cache" where
  "push_free_list e c = (set_next e (free_list c) (set_prev e None c))\<lparr>free_list := Some e\<rparr>"

text \<open>The block sizes after a block has been added.\<close>

definition next_size :: "nat \<Rightarrow> nat \<Rightarrow> nat \<Rightarrow> nat \<Rightarrow> nat" where
  "next_size cap count capacity sz =
     (let blocks_remaining = max_blocks - count in
      if 0 < blocks_remaining then
        let elements_remaining = cap - capacity;
            n = sz * 2;
            n = (if elements_remaining div blocks_remaining < n then elements_remaining div blocks_remaining else n)
        in if cap < capacity + n then cap - capacity else n
      else sz)"

definition add_block :: "('k, 'v) lru_cache \<Rightarrow> ('k, 'v) lru_cache" where
  "add_block c =
     (if block_count c < max_blocks \<and> block_capacity c < max_elements c then
        let first = block_capacity c;
            c1 = c\<lparr>block_capacity := block_capacity c + next_block_size c\<rparr>;
            c2 = fold push_free_list [first..<first + next_block_size c] c1
        in c2\<lparr>block_count := block_count c + 1,
              next_block_size := next_size (max_elements c) (block_count c + 1) (block_capacity c1) (next_block_size c)\<rparr>
      else c)"

definition pop_free_list :: "('k, 'v) lru_cache \<Rightarrow> (nat option \<times> ('k, 'v) lru_cache) option" where
  "pop_free_list c =
     (case free_list c of
        None \<Rightarrow> Some (None, c)
      | Some r \<Rightarrow>
          if prev_elem (elements c r) \<noteq> None then None
          else
            let c1 = c\<lparr>free_list := next_elem (elements c r)\<rparr>;
                c2 = (case free_list c1 of None \<Rightarrow> c1 | Some f \<Rightarrow> set_prev f None c1)
            in Some (Some r, set_next r None c2))"

definition next_free_element :: "('k, 'v) lru_cache \<Rightarrow> (nat option \<times> ('k, 'v) lru_cache) option" where
  "next_free_element c =
     Option.bind (pop_free_list c) (\<lambda>(r, c1).
       case r of Some e \<Rightarrow> Some (Some e, c1) | None \<Rightarrow> pop_free_list (add_block c1))"

definition lookup_internal :: "'k \<Rightarrow> ('k, 'v) lru_cache \<Rightarrow> nat option" where
  "lookup_internal k c = key_table c k"

definition remove_from_lru :: "nat \<Rightarrow> ('k, 'v) lru_cache \<Rightarrow> ('k, 'v) lru_cache" where
  "remove_from_lru e c =
     (let n = next_elem (elements c e); p = prev_elem (elements c e);
          c1 = (if lru_head c = Some e then c\<lparr>lru_head := n\<rparr> else c);
          c2 = (if lru_tail c1 = Some e then c1\<lparr>lru_tail := p\<rparr> else c1);
          c3 = (case p of None \<Rightarrow> c2 | Some q \<Rightarrow> set_next q n c2);
          c4 = (case n of None \<Rightarrow> c3 | Some q \<Rightarrow> set_prev q p c3)
      in set_next e None (set_prev e None c4))"

definition push_lru_head :: "nat \<Rightarrow> ('k, 'v) lru_cache \<Rightarrow> ('k, 'v) lru_cache" where
  "push_lru_head e c =
     (if lru_head c = Some e then c
      else
        let c1 = remove_from_lru e c;
            c2 = (set_next e (lru_head c1) c1)\<lparr>lru_head := Some e\<rparr>;
            c3 = (case next_elem (elements c2 e) of None \<Rightarrow> c2 | Some q \<Rightarrow> set_prev q (Some e) c2)
        in if lru_tail c3 = None then c3\<lparr>lru_tail := Some e\<rparr> else c3)"

definition evict :: "nat option \<Rightarrow> ('k, 'v) lru_cache \<Rightarrow> (bool \<times> ('k, 'v) lru_cache) option" where
  "evict e c =
     (case e of
        None \<Rightarrow> Some (False, c)
      | Some e \<Rightarrow>
          if key_table c (elem_key (elements c e)) = None then None
          else Some (True, push_free_list e (remove_from_lru e
                 (c\<lparr>key_table := (key_table c)(elem_key (elements c e) := None)\<rparr>))))"

text \<open>\<open>Insert\<close> of a key, in its three steps: an element with the key is evicted; a free element is taken, the
  last one of the list if there is none; the element gets the key and goes to the head.  It is returned, and
  the caller sets its value.\<close>

definition evict_key :: "'k \<Rightarrow> ('k, 'v) lru_cache \<Rightarrow> ('k, 'v) lru_cache option" where
  "evict_key k c =
     (case lookup_internal k c of
        None \<Rightarrow> Some c
      | Some e \<Rightarrow> Option.bind (evict (Some e) c) (\<lambda>(erased, c1). if erased then Some c1 else None))"

definition take_element :: "('k, 'v) lru_cache \<Rightarrow> (nat \<times> ('k, 'v) lru_cache) option" where
  "take_element c =
     Option.bind (next_free_element c) (\<lambda>(r, c1).
       case r of
         Some e \<Rightarrow> Some (e, c1)
       | None \<Rightarrow>
           Option.bind (evict (lru_tail c1) c1) (\<lambda>(erased, c2).
             if erased then Option.bind (next_free_element c2) (\<lambda>(r, c3). map_option (\<lambda>e. (e, c3)) r)
             else None))"

definition insert_key :: "'k \<Rightarrow> ('k, 'v) lru_cache \<Rightarrow> (nat \<times> ('k, 'v) lru_cache) option" where
  "insert_key k c =
     Option.bind (evict_key k c) (\<lambda>c1.
     Option.bind (take_element c1) (\<lambda>(e, c2).
       let c3 = c2\<lparr>elements := (elements c2)(e := (elements c2 e)\<lparr>elem_key := k\<rparr>),
                   key_table := (key_table c2)(k \<mapsto> e)\<rparr>
       in Some (e, push_lru_head e c3)))"

definition cache_insert :: "'k \<Rightarrow> 'v \<Rightarrow> ('k, 'v) lru_cache \<Rightarrow> ('k, 'v) lru_cache option" where
  "cache_insert k v c =
     map_option (\<lambda>(e, c1). c1\<lparr>elements := (elements c1)(e := (elements c1 e)\<lparr>elem_value := v\<rparr>)\<rparr>) (insert_key k c)"

definition mutable_lookup :: "'k \<Rightarrow> ('k, 'v) lru_cache \<Rightarrow> 'v option \<times> ('k, 'v) lru_cache" where
  "mutable_lookup k c =
     (case lookup_internal k c of
        None \<Rightarrow> (None, c)
      | Some e \<Rightarrow> let c1 = push_lru_head e c in (Some (elem_value (elements c1 e)), c1))"

definition lookup_without_insert :: "'k \<Rightarrow> ('k, 'v) lru_cache \<Rightarrow> 'v option" where
  "lookup_without_insert k c = map_option (\<lambda>e. elem_value (elements c e)) (lookup_internal k c)"

definition cache_erase :: "'k \<Rightarrow> ('k, 'v) lru_cache \<Rightarrow> (bool \<times> ('k, 'v) lru_cache) option" where
  "cache_erase k c = evict (lookup_internal k c) c"

text \<open>The loop of \<open>Clear\<close>: the iterator has read \<open>next\<close> before the element is pushed.  At most
  \<open>block_capacity\<close> elements are in a list without a cycle, so the bound does not cut it short.\<close>

fun clear_loop :: "nat \<Rightarrow> nat option \<Rightarrow> ('k, 'v) lru_cache \<Rightarrow> ('k, 'v) lru_cache option" where
  "clear_loop fuel None c = Some c"
| "clear_loop 0 (Some e) c = None"
| "clear_loop (Suc fuel) (Some e) c = clear_loop fuel (next_elem (elements c e)) (push_free_list e c)"

definition cache_clear :: "('k, 'v) lru_cache \<Rightarrow> ('k, 'v) lru_cache option" where
  "cache_clear c =
     map_option (\<lambda>c1. c1\<lparr>lru_head := None, lru_tail := None\<rparr>)
       (clear_loop (block_capacity c) (lru_head c) (c\<lparr>key_table := Map.empty\<rparr>))"

definition cache_has_key :: "'k \<Rightarrow> ('k, 'v) lru_cache \<Rightarrow> bool" where
  "cache_has_key k c \<longleftrightarrow> key_table c k \<noteq> None"

definition cache_is_empty :: "('k, 'v) lru_cache \<Rightarrow> bool" where
  "cache_is_empty c \<longleftrightarrow> lru_head c = None"

text \<open>What the iterators visit, from \<open>begin()\<close> to \<open>end()\<close>.\<close>

fun list_items :: "nat \<Rightarrow> nat option \<Rightarrow> ('k, 'v) lru_cache \<Rightarrow> ('k \<times> 'v) list option" where
  "list_items fuel None c = Some []"
| "list_items 0 (Some e) c = None"
| "list_items (Suc fuel) (Some e) c =
     map_option (\<lambda>xs. (elem_key (elements c e), elem_value (elements c e)) # xs) (list_items fuel (next_elem (elements c e)) c)"

definition cache_items :: "('k, 'v) lru_cache \<Rightarrow> ('k \<times> 'v) list option" where
  "cache_items c = list_items (block_capacity c) (lru_head c) c"

section \<open>Linked lists in the heap\<close>

definition first_of :: "'a list \<Rightarrow> 'a option" where
  "first_of xs = (if xs = [] then None else Some (hd xs))"

definition last_of :: "'a list \<Rightarrow> 'a option" where
  "last_of xs = (if xs = [] then None else Some (last xs))"

lemma first_of_simps [simp]: "first_of [] = None" "first_of (x # xs) = Some x"
  by (simp_all add: first_of_def)

lemma last_of_simps [simp]: "last_of [] = None" "last_of (xs @ [x]) = Some x"
  by (simp_all add: last_of_def)

lemma last_of_Cons [simp]: "last_of (x # xs) = Some (if xs = [] then x else last xs)"
  by (simp add: last_of_def)

lemma last_of_append: "last_of (xs @ ys) = (if ys = [] then last_of xs else last_of ys)"
  by (simp add: last_of_def)

lemma first_of_append: "first_of (xs @ ys) = (if xs = [] then first_of ys else first_of xs)"
  by (simp add: first_of_def)

text \<open>The doubly linked list \<open>L\<close>, with \<open>p\<close> before it and \<open>q\<close> after it.\<close>

fun linked :: "(nat \<Rightarrow> ('k, 'v) element) \<Rightarrow> nat option \<Rightarrow> nat list \<Rightarrow> nat option \<Rightarrow> bool" where
  "linked h p [] q = True"
| "linked h p (a # as) q =
     (prev_elem (h a) = p \<and> next_elem (h a) = (if as = [] then q else first_of as) \<and> linked h (Some a) as q)"

lemma linked_append:
  "linked h p (xs @ ys) q \<longleftrightarrow>
     linked h p xs (if ys = [] then q else first_of ys) \<and> linked h (if xs = [] then p else last_of xs) ys q"
  by (induction xs arbitrary: p) (auto simp: first_of_append last_of_def)

lemma linked_cong: "(\<And>a. a \<in> set L \<Longrightarrow> h a = h' a) \<Longrightarrow> linked h p L q = linked h' p L q"
  by (induction L arbitrary: p) auto

lemma linked_upd [simp]: "a \<notin> set L \<Longrightarrow> linked (h(a := x)) p L q = linked h p L q"
  by (rule linked_cong) auto

text \<open>The same list seen from its first element: only the neighbours at its ends change.\<close>

lemma linked_new_prev:
  assumes "linked h p (a # as) q" "a \<notin> set as"
  shows "linked (h(a := (h a)\<lparr>prev_elem := p'\<rparr>)) p' (a # as) q"
proof -
  have "linked (h(a := (h a)\<lparr>prev_elem := p'\<rparr>)) (Some a) as q = linked h (Some a) as q"
    by (rule linked_cong) (use assms(2) in auto)
  then show ?thesis using assms(1) by simp
qed

lemma linked_new_next:
  assumes "linked h p (as @ [a]) q" "a \<notin> set as"
  shows "linked (h(a := (h a)\<lparr>next_elem := q'\<rparr>)) p (as @ [a]) q'"
proof -
  have "linked (h(a := (h a)\<lparr>next_elem := q'\<rparr>)) p as (Some a) = linked h p as (Some a)"
    by (rule linked_cong) (use assms(2) in auto)
  then show ?thesis using assms(1) by (auto simp: linked_append)
qed

text \<open>The free list \<open>F\<close>, from \<open>p\<close> on.\<close>

fun chain :: "(nat \<Rightarrow> ('k, 'v) element) \<Rightarrow> nat option \<Rightarrow> nat list \<Rightarrow> bool" where
  "chain h p [] = (p = None)"
| "chain h p (a # as) = (p = Some a \<and> prev_elem (h a) = None \<and> chain h (next_elem (h a)) as)"

lemma chain_cong: "(\<And>a. a \<in> set F \<Longrightarrow> h a = h' a) \<Longrightarrow> chain h p F = chain h' p F"
  by (induction F arbitrary: p) auto

lemma chain_upd [simp]: "a \<notin> set F \<Longrightarrow> chain (h(a := x)) p F = chain h p F"
  by (rule chain_cong) auto

lemma chain_first: "chain h p F \<Longrightarrow> p = first_of F"
  by (cases F) auto

section \<open>The list operations\<close>

definition lru_list :: "('k, 'v) lru_cache \<Rightarrow> nat list \<Rightarrow> bool" where
  "lru_list c L \<longleftrightarrow> linked (elements c) None L None \<and> lru_head c = first_of L \<and> lru_tail c = last_of L \<and> distinct L"

text \<open>What the list operations leave alone: keys, values, the table, the free list, the blocks, and every
  element outside \<open>A\<close>.\<close>

definition only_links :: "nat set \<Rightarrow> ('k, 'v) lru_cache \<Rightarrow> ('k, 'v) lru_cache \<Rightarrow> bool" where
  "only_links A c c' \<longleftrightarrow>
     (\<forall>a. elem_key (elements c' a) = elem_key (elements c a) \<and> elem_value (elements c' a) = elem_value (elements c a)) \<and>
     (\<forall>a. a \<notin> A \<longrightarrow> elements c' a = elements c a) \<and>
     key_table c' = key_table c \<and> free_list c' = free_list c \<and> block_count c' = block_count c \<and>
     block_capacity c' = block_capacity c \<and> next_block_size c' = next_block_size c \<and> max_elements c' = max_elements c"

lemma only_links_trans: "only_links A c c' \<Longrightarrow> only_links B c' c'' \<Longrightarrow> A \<subseteq> C \<Longrightarrow> B \<subseteq> C \<Longrightarrow> only_links C c c''"
  by (fastforce simp: only_links_def)

lemma link_fields [simp]:
  "elements (set_next e p c) = (elements c)(e := (elements c e)\<lparr>next_elem := p\<rparr>)"
  "elements (set_prev e p c) = (elements c)(e := (elements c e)\<lparr>prev_elem := p\<rparr>)"
  "key_table (set_next e p c) = key_table c" "key_table (set_prev e p c) = key_table c"
  "free_list (set_next e p c) = free_list c" "free_list (set_prev e p c) = free_list c"
  "lru_head (set_next e p c) = lru_head c" "lru_head (set_prev e p c) = lru_head c"
  "lru_tail (set_next e p c) = lru_tail c" "lru_tail (set_prev e p c) = lru_tail c"
  "block_count (set_next e p c) = block_count c" "block_count (set_prev e p c) = block_count c"
  "block_capacity (set_next e p c) = block_capacity c" "block_capacity (set_prev e p c) = block_capacity c"
  "next_block_size (set_next e p c) = next_block_size c" "next_block_size (set_prev e p c) = next_block_size c"
  "max_elements (set_next e p c) = max_elements c" "max_elements (set_prev e p c) = max_elements c"
  by (simp_all add: set_next_def set_prev_def)

lemma remove_from_lru_links: "only_links ({e} \<union> set_option (next_elem (elements c e)) \<union> set_option (prev_elem (elements c e))) c (remove_from_lru e c)"
  by (auto simp: only_links_def remove_from_lru_def Let_def split: option.splits)

lemma remove_from_lru_list:
  assumes "lru_list c (xs @ e # ys)"
  shows "lru_list (remove_from_lru e c) (xs @ ys)"
    and "next_elem (elements (remove_from_lru e c) e) = None" and "prev_elem (elements (remove_from_lru e c) e) = None"
proof -
  let ?h = "elements c"
  have d: "distinct xs" "distinct ys" "e \<notin> set xs" "e \<notin> set ys" "set xs \<inter> set ys = {}"
    using assms by (auto simp: lru_list_def)
  have lx: "linked ?h None xs (Some e)" and ly: "linked ?h (Some e) ys None"
    and pe: "prev_elem (?h e) = last_of xs" and ne: "next_elem (?h e) = first_of ys"
    using assms by (auto simp: lru_list_def linked_append last_of_def first_of_def split: if_splits)
  have hd: "lru_head c = first_of (xs @ e # ys)" and tl: "lru_tail c = last_of (xs @ e # ys)"
    using assms by (auto simp: lru_list_def)
  define h1 where "h1 = (case last_of xs of None \<Rightarrow> ?h | Some q \<Rightarrow> ?h(q := (?h q)\<lparr>next_elem := first_of ys\<rparr>))"
  define h2 where "h2 = (case first_of ys of None \<Rightarrow> h1 | Some q \<Rightarrow> h1(q := (h1 q)\<lparr>prev_elem := last_of xs\<rparr>))"
  have el: "elements (remove_from_lru e c) = h2(e := (h2 e)\<lparr>prev_elem := None, next_elem := None\<rparr>)"
    unfolding remove_from_lru_def Let_def pe ne h2_def h1_def by (simp split: option.splits)
  show "next_elem (elements (remove_from_lru e c) e) = None" "prev_elem (elements (remove_from_lru e c) e) = None"
    unfolding el by simp_all
  have sep: "xs \<noteq> [] \<Longrightarrow> last xs \<notin> set ys" "ys \<noteq> [] \<Longrightarrow> hd ys \<notin> set xs"
    using last_in_set [of xs] hd_in_set [of ys] d(5) by blast+
  have x1: "linked h1 None xs (first_of ys)"
  proof (cases xs rule: rev_cases)
    case (snoc xs' x)
    then show ?thesis using linked_new_next [of ?h None xs' x "Some e" "first_of ys"] lx d(1) by (simp add: h1_def)
  qed simp
  have y1: "linked h1 (Some e) ys None"
    using ly sep(1) by (subst linked_cong [where h' = ?h]) (auto simp: h1_def last_of_def split: option.splits)
  have y2: "linked h2 (last_of xs) ys None"
  proof (cases ys)
    case (Cons y ys')
    then show ?thesis using linked_new_prev [of h1 "Some e" y ys' None "last_of xs"] y1 d(2) by (simp add: h2_def)
  qed simp
  have x2: "linked h2 None xs (first_of ys)"
    using x1 sep(2) by (subst linked_cong [where h' = h1]) (auto simp: h2_def first_of_def split: option.splits)
  have "linked (elements (remove_from_lru e c)) None xs (first_of ys)" "linked (elements (remove_from_lru e c)) (last_of xs) ys None"
    unfolding el using x2 y2 d by simp_all
  then have "linked (elements (remove_from_lru e c)) None (xs @ ys) None"
    by (auto simp: linked_append last_of_def first_of_def split: if_splits)
  moreover have "lru_head (remove_from_lru e c) = first_of (xs @ ys)"
    using hd d(3) ne by (cases xs) (auto simp: remove_from_lru_def Let_def split: option.splits)
  moreover have "lru_tail (remove_from_lru e c) = last_of (xs @ ys)"
    using tl d(4) pe by (cases ys rule: rev_cases) (auto simp: remove_from_lru_def Let_def last_of_append split: option.splits)
  ultimately show "lru_list (remove_from_lru e c) (xs @ ys)" using d by (simp add: lru_list_def)
qed


lemma remove_detached:
  assumes "next_elem (elements c e) = None" "prev_elem (elements c e) = None" "lru_head c \<noteq> Some e" "lru_tail c \<noteq> Some e"
  shows "remove_from_lru e c = c"
proof -
  have "elements c e\<lparr>prev_elem := None, next_elem := None\<rparr> = elements c e" using assms(1,2) by (cases "elements c e") simp
  then show ?thesis using assms by (simp add: remove_from_lru_def Let_def set_next_def set_prev_def fun_upd_idem)
qed

lemma push_head_list:
  assumes L: "lru_list c L" and e: "e \<notin> set L"
    and c': "c' = (let c2 = (set_next e (lru_head c) c)\<lparr>lru_head := Some e\<rparr>;
          c3 = (case next_elem (elements c2 e) of None \<Rightarrow> c2 | Some q \<Rightarrow> set_prev q (Some e) c2)
        in if lru_tail c3 = None then c3\<lparr>lru_tail := Some e\<rparr> else c3)"
    and p: "prev_elem (elements c e) = None"
  shows "lru_list c' (e # L)" and "only_links (insert e (set L)) c c'"
proof -
  have hd: "lru_head c = first_of L" and tl: "lru_tail c = last_of L" and l: "linked (elements c) None L None" and d: "distinct L"
    using L by (auto simp: lru_list_def)
  show "lru_list c' (e # L)"
  proof (cases L)
    case Nil
    then show ?thesis using p hd tl unfolding c' by (simp add: lru_list_def last_of_def)
  next
    case (Cons a as)
    have ae: "a \<noteq> e" using e Cons by auto
    define h where "h = (elements c)(e := (elements c e)\<lparr>next_elem := Some a\<rparr>, a := (elements c a)\<lparr>prev_elem := Some e\<rparr>)"
    have c'': "c' = (set_prev a (Some e) ((set_next e (Some a) c)\<lparr>lru_head := Some e\<rparr>))"
      using hd tl Cons ae unfolding c' by (simp add: Let_def last_of_def)
    have el: "elements c' = h" unfolding c'' h_def using ae by simp
    have "linked ((elements c)(a := (elements c a)\<lparr>prev_elem := Some e\<rparr>)) (Some e) L None"
      using linked_new_prev [of "elements c" None a as None "Some e"] l d Cons by simp
    then have "linked h (Some e) L None"
      using e by (subst linked_cong [where h' = "(elements c)(a := (elements c a)\<lparr>prev_elem := Some e\<rparr>)"]) (auto simp: h_def)
    moreover have "prev_elem (h e) = None" "next_elem (h e) = Some a" using p ae by (simp_all add: h_def)
    moreover have "lru_head c' = Some e" "lru_tail c' = last_of (e # L)"
      unfolding c'' using tl Cons by (simp_all add: last_of_def)
    ultimately show ?thesis using d e Cons el by (simp add: lru_list_def)
  qed
  show "only_links (insert e (set L)) c c'"
    unfolding c' using hd by (auto simp: only_links_def Let_def first_of_def split: option.splits if_splits)
qed

lemma push_lru_head_new:
  assumes L: "lru_list c L" and e: "e \<notin> set L" "next_elem (elements c e) = None" "prev_elem (elements c e) = None"
  shows "lru_list (push_lru_head e c) (e # L)" and "only_links (insert e (set L)) c (push_lru_head e c)"
proof -
  have h: "lru_head c \<noteq> Some e" "lru_tail c \<noteq> Some e"
    using L e(1) by (auto simp: lru_list_def first_of_def last_of_def split: if_splits)
  have "push_lru_head e c = (let c2 = (set_next e (lru_head c) c)\<lparr>lru_head := Some e\<rparr>;
          c3 = (case next_elem (elements c2 e) of None \<Rightarrow> c2 | Some q \<Rightarrow> set_prev q (Some e) c2)
        in if lru_tail c3 = None then c3\<lparr>lru_tail := Some e\<rparr> else c3)"
    using h remove_detached [OF e(2,3) h] by (simp add: push_lru_head_def Let_def)
  from push_head_list [OF L e(1) this e(3)]
  show "lru_list (push_lru_head e c) (e # L)" "only_links (insert e (set L)) c (push_lru_head e c)" .
qed

lemma remove_from_lru_only:
  assumes "lru_list c (xs @ e # ys)"
  shows "only_links (set (xs @ e # ys)) c (remove_from_lru e c)"
proof -
  have "next_elem (elements c e) = first_of ys" "prev_elem (elements c e) = last_of xs"
    using assms by (auto simp: lru_list_def linked_append last_of_def first_of_def split: if_splits)
  then have "{e} \<union> set_option (next_elem (elements c e)) \<union> set_option (prev_elem (elements c e)) \<subseteq> set (xs @ e # ys)"
    by (auto simp: first_of_def last_of_def split: if_splits)
  then show ?thesis using remove_from_lru_links [of e c] by (fastforce simp: only_links_def)
qed

lemma push_lru_head_used:
  assumes L: "lru_list c (xs @ e # ys)"
  shows "lru_list (push_lru_head e c) (e # xs @ ys)" and "only_links (set (xs @ e # ys)) c (push_lru_head e c)"
proof -
  have "lru_list (push_lru_head e c) (e # xs @ ys) \<and> only_links (set (xs @ e # ys)) c (push_lru_head e c)"
  proof (cases "xs = []")
    case True
    then have "push_lru_head e c = c" using L by (simp add: push_lru_head_def lru_list_def)
    then show ?thesis using L True by (simp add: only_links_def)
  next
    case False
    then have h: "lru_head c \<noteq> Some e" using L by (auto simp: lru_list_def first_of_def)
    define c1 where "c1 = remove_from_lru e c"
    have r: "lru_list c1 (xs @ ys)" "prev_elem (elements c1 e) = None" "only_links (set (xs @ e # ys)) c c1"
      unfolding c1_def using remove_from_lru_list [OF L] remove_from_lru_only [OF L] by simp_all
    have e: "e \<notin> set (xs @ ys)" using L by (auto simp: lru_list_def)
    have "push_lru_head e c = (let c2 = (set_next e (lru_head c1) c1)\<lparr>lru_head := Some e\<rparr>;
          c3 = (case next_elem (elements c2 e) of None \<Rightarrow> c2 | Some q \<Rightarrow> set_prev q (Some e) c2)
        in if lru_tail c3 = None then c3\<lparr>lru_tail := Some e\<rparr> else c3)"
      using h by (simp add: push_lru_head_def Let_def c1_def)
    note push = push_head_list [OF r(1) e this r(2)]
    have "only_links (set (xs @ e # ys)) c (push_lru_head e c)"
      by (rule only_links_trans [OF r(3) push(2)]) auto
    then show ?thesis using push(1) by simp
  qed
  then show "lru_list (push_lru_head e c) (e # xs @ ys)" "only_links (set (xs @ e # ys)) c (push_lru_head e c)" by auto
qed

section \<open>The free list and the blocks\<close>

text \<open>The two lists of the cache: the elements \<open>L\<close> in use and the free elements \<open>F\<close>.\<close>

definition cells :: "('k, 'v) lru_cache \<Rightarrow> nat list \<Rightarrow> nat list \<Rightarrow> bool" where
  "cells c L F \<longleftrightarrow> lru_list c L \<and> chain (elements c) (free_list c) F \<and> distinct (L @ F)"

text \<open>The triple \<open>block_count_\<close>, \<open>block_capacity_\<close>, \<open>next_block_size_\<close> and what \<open>AddBlock\<close> does to it.\<close>

definition grow :: "nat \<Rightarrow> nat \<times> nat \<times> nat \<Rightarrow> nat \<times> nat \<times> nat" where
  "grow cap = (\<lambda>(n, capacity, sz).
     if n < max_blocks \<and> capacity < cap
     then (n + 1, capacity + sz, next_size cap (n + 1) (capacity + sz) sz)
     else (n, capacity, sz))"

definition first_blocks :: "nat \<Rightarrow> nat \<times> nat \<times> nat" where
  "first_blocks cap = (0, 0, if cap \<le> 128 then cap else first_block_size 64 cap)"

text \<open>The number of elements the cache holds once every block has been allocated.\<close>

definition cache_limit :: "nat \<Rightarrow> nat" where
  "cache_limit cap = fst (snd ((grow cap ^^ max_blocks) (first_blocks cap)))"

definition blocks_of :: "('k, 'v) lru_cache \<Rightarrow> nat \<times> nat \<times> nat" where
  "blocks_of c = (block_count c, block_capacity c, next_block_size c)"

text \<open>Keys, values and blocks are the same.\<close>

definition same_content :: "('k, 'v) lru_cache \<Rightarrow> ('k, 'v) lru_cache \<Rightarrow> bool" where
  "same_content c c' \<longleftrightarrow>
     (\<forall>a. elem_key (elements c' a) = elem_key (elements c a) \<and> elem_value (elements c' a) = elem_value (elements c a)) \<and>
     blocks_of c' = blocks_of c \<and> max_elements c' = max_elements c"

lemma same_content_refl [simp, intro]: "same_content c c"
  by (simp add: same_content_def)

lemma same_content_trans: "same_content c c' \<Longrightarrow> same_content c' c'' \<Longrightarrow> same_content c c''"
  by (simp add: same_content_def)

lemma only_links_content: "only_links A c c' \<Longrightarrow> same_content c c'"
  by (simp add: only_links_def same_content_def blocks_of_def)

lemma only_links_chain: "only_links A c c' \<Longrightarrow> A \<inter> set F = {} \<Longrightarrow> chain (elements c') (free_list c') F = chain (elements c) (free_list c) F"
  by (subst chain_cong [where h' = "elements c"]) (auto simp: only_links_def)

lemma pop_free_list_Nil: "chain (elements c) (free_list c) [] \<Longrightarrow> pop_free_list c = Some (None, c)"
  by (simp add: pop_free_list_def)

lemma set_prev_same: "prev_elem (elements c e) = None \<Longrightarrow> set_prev e None c = c"
  by (cases "elements c e") (simp add: set_prev_def fun_upd_idem)

lemma pop_free_list_Cons:
  assumes "chain (elements c) (free_list c) (f # F)"
  shows "pop_free_list c = Some (Some f, set_next f None (c\<lparr>free_list := first_of F\<rparr>))"
proof (cases F)
  case (Cons g F')
  then have "set_prev g None (c\<lparr>free_list := Some g\<rparr>) = c\<lparr>free_list := Some g\<rparr>"
    using assms by (intro set_prev_same) simp
  then show ?thesis using assms Cons by (simp add: pop_free_list_def Let_def)
qed (use assms in \<open>simp add: pop_free_list_def Let_def\<close>)

lemma pop_cells:
  assumes "cells c L (f # F)"
  shows "cells (set_next f None (c\<lparr>free_list := first_of F\<rparr>)) L F"
proof -
  have "chain (elements c) (first_of F) F" using assms chain_first [of "elements c" _ F] by (auto simp: cells_def)
  then show ?thesis using assms by (auto simp: cells_def lru_list_def)
qed

lemma push_cells:
  assumes "cells c L F" "e \<notin> set L" "e \<notin> set F"
  shows "cells (push_free_list e c) L (e # F)"
  using assms by (auto simp: cells_def lru_list_def push_free_list_def)

lemma push_free_content: "same_content c (push_free_list e c)" "key_table (push_free_list e c) = key_table c"
  "lru_head (push_free_list e c) = lru_head c" "lru_tail (push_free_list e c) = lru_tail c"
  by (simp_all add: push_free_list_def same_content_def blocks_of_def)

lemma fold_push_cells:
  "cells c L F \<Longrightarrow> distinct as \<Longrightarrow> set as \<inter> set L = {} \<Longrightarrow> set as \<inter> set F = {} \<Longrightarrow>
     cells (fold push_free_list as c) L (rev as @ F) \<and> same_content c (fold push_free_list as c) \<and>
     key_table (fold push_free_list as c) = key_table c"
proof (induction as arbitrary: c F)
  case (Cons a as)
  have "cells (push_free_list a c) L (a # F)" using Cons.prems by (intro push_cells) auto
  from Cons.IH [OF this] show ?case using Cons.prems push_free_content [where c = c and e = a] by (auto intro: same_content_trans)
qed simp

lemma add_block_cells:
  assumes "cells c L F" "set (L @ F) = {..<block_capacity c}"
  shows "\<exists>F'. cells (add_block c) L (F' @ F) \<and> set (L @ F' @ F) = {..<block_capacity (add_block c)}
     \<and> length F' = block_capacity (add_block c) - block_capacity c"
    and "blocks_of (add_block c) = grow (max_elements c) (blocks_of c)"
    and "key_table (add_block c) = key_table c" and "max_elements (add_block c) = max_elements c"
    and "elem_key (elements (add_block c) a) = elem_key (elements c a)"
    and "elem_value (elements (add_block c) a) = elem_value (elements c a)"
proof -
  let ?as = "[block_capacity c..<block_capacity c + next_block_size c]"
  let ?c1 = "c\<lparr>block_capacity := block_capacity c + next_block_size c\<rparr>"
  have "cells ?c1 L F" using assms(1) by (simp add: cells_def lru_list_def)
  moreover have "set ?as \<inter> {..<block_capacity c} = {}" by auto
  then have "set ?as \<inter> set L = {}" "set ?as \<inter> set F = {}" unfolding assms(2) [symmetric] by auto
  ultimately have f: "cells (fold push_free_list ?as ?c1) L (rev ?as @ F)" "same_content ?c1 (fold push_free_list ?as ?c1)"
    "key_table (fold push_free_list ?as ?c1) = key_table c"
    using fold_push_cells [of ?c1 L F ?as] by simp_all
  have n: "cells (x\<lparr>block_count := i, next_block_size := j\<rparr>) L M = cells x L M" for x :: "('a, 'b) lru_cache" and i j M
    by (simp add: cells_def lru_list_def)
  show "\<exists>F'. cells (add_block c) L (F' @ F) \<and> set (L @ F' @ F) = {..<block_capacity (add_block c)}
     \<and> length F' = block_capacity (add_block c) - block_capacity c"
  proof (cases "block_count c < max_blocks \<and> block_capacity c < max_elements c")
    case True
    have "set (L @ rev ?as @ F) = set (L @ F) \<union> set ?as" by auto
    also have "\<dots> = {..<block_capacity c + next_block_size c}" unfolding assms(2) by auto
    finally have "set (L @ rev ?as @ F) = {..<block_capacity c + next_block_size c}" .
    then show ?thesis using f n True unfolding add_block_def Let_def same_content_def blocks_of_def
      by (intro exI [of _ "rev ?as"]) simp
  qed (use assms in \<open>auto simp: add_block_def\<close>)
  show "blocks_of (add_block c) = grow (max_elements c) (blocks_of c)" "key_table (add_block c) = key_table c"
    "max_elements (add_block c) = max_elements c" "elem_key (elements (add_block c) a) = elem_key (elements c a)"
    "elem_value (elements (add_block c) a) = elem_value (elements c a)"
    using f by (simp_all add: add_block_def Let_def grow_def blocks_of_def same_content_def)
qed

section \<open>How far the cache grows\<close>

text \<open>The states the blocks go through.\<close>

definition blocks_state :: "nat \<Rightarrow> nat \<times> nat \<times> nat \<Rightarrow> bool" where
  "blocks_state cap b \<longleftrightarrow> (\<exists>j. b = (grow cap ^^ j) (first_blocks cap))"

lemma first_block_size_bounds:
  "0 < sz \<Longrightarrow> sz \<le> first_block_size sz cap \<and> (first_block_size sz cap = sz \<or> first_block_size sz cap * 512 < cap)"
proof (induction sz cap rule: first_block_size.induct)
  case (1 sz cap)
  show ?case
  proof (cases "sz * 2 ^ max_blocks < cap")
    case True
    then have "first_block_size sz cap = first_block_size (sz * 2) cap" using "1.prems" by (subst first_block_size.simps) simp
    moreover have "(sz * 2) * 512 < cap" using True by (simp add: max_blocks_def)
    ultimately show ?thesis using "1.IH" True "1.prems" by auto
  qed (subst first_block_size.simps, simp)+
qed

definition blocks_ok :: "nat \<Rightarrow> nat \<times> nat \<times> nat \<Rightarrow> bool" where
  "blocks_ok cap = (\<lambda>(n, capacity, sz).
     n \<le> max_blocks \<and> capacity \<le> cap \<and>
     (n < max_blocks \<and> capacity < cap \<longrightarrow>
        0 < sz \<and> capacity + sz \<le> cap \<and> (0 < n \<longrightarrow> capacity + sz * (max_blocks - n) \<le> cap)) \<and>
     (n = 0 \<longrightarrow> capacity = 0 \<and> (128 < cap \<longrightarrow> 64 \<le> sz \<and> sz + 9 \<le> cap) \<and> (cap \<le> 128 \<longrightarrow> sz = cap)))"

lemma blocks_ok_first: "blocks_ok cap (first_blocks cap)"
  using first_block_size_bounds [of 64 cap] by (auto simp: blocks_ok_def first_blocks_def max_blocks_def)

lemma next_size_spread:
  assumes "capacity \<le> cap" "n < max_blocks" "sz * (max_blocks - n) \<le> cap - capacity \<or> max_blocks - n \<le> cap - capacity" "0 < sz"
  shows "0 < next_size cap n capacity sz" and "next_size cap n capacity sz * (max_blocks - n) \<le> cap - capacity"
proof -
  let ?q = "(cap - capacity) div (max_blocks - n)"
  let ?n = "min ?q (sz * 2)"
  have "max_blocks - n \<le> cap - capacity" using assms by (cases sz) auto
  then have q: "0 < ?q" using assms(2) by (simp add: div_greater_zero_iff)
  have le: "?n * (max_blocks - n) \<le> cap - capacity"
    by (rule order_trans [of _ "?q * (max_blocks - n)"]) auto
  have "?n * 1 \<le> ?n * (max_blocks - n)" using assms(2) by (intro mult_le_mono) auto
  then have "capacity + ?n \<le> cap" using le assms(1) by linarith
  then have "next_size cap n capacity sz = ?n"
    using assms(2) unfolding next_size_def Let_def by (auto simp: min_def simp del: mult_2_right split: if_splits)
  then show "0 < next_size cap n capacity sz" "next_size cap n capacity sz * (max_blocks - n) \<le> cap - capacity"
    using q assms(4) le by auto
qed

lemma blocks_ok_grow:
  assumes "blocks_ok cap b"
  shows "blocks_ok cap (grow cap b)"
proof -
  obtain n capacity sz where b: "b = (n, capacity, sz)" by (cases b)
  show ?thesis
  proof (cases "n < max_blocks \<and> capacity < cap")
    case True
    then have sz: "0 < sz" "capacity + sz \<le> cap" "0 < n \<Longrightarrow> capacity + sz * (max_blocks - n) \<le> cap"
      "n = 0 \<Longrightarrow> capacity = 0 \<and> (128 < cap \<longrightarrow> 64 \<le> sz \<and> sz + 9 \<le> cap) \<and> (cap \<le> 128 \<longrightarrow> sz = cap)"
      using assms b by (auto simp: blocks_ok_def)
    have "0 < next_size cap (n + 1) (capacity + sz) sz \<and>
          capacity + sz + next_size cap (n + 1) (capacity + sz) sz * (max_blocks - (n + 1)) \<le> cap"
      if m: "n + 1 < max_blocks" and c: "capacity + sz < cap"
    proof -
      have "sz * (max_blocks - (n + 1)) \<le> cap - (capacity + sz) \<or> max_blocks - (n + 1) \<le> cap - (capacity + sz)"
      proof (cases "n = 0")
        case True
        then show ?thesis using sz(4) c by (cases "128 < cap") (auto simp: max_blocks_def)
      next
        case False
        have "sz * (max_blocks - n) = sz * (max_blocks - (n + 1)) + sz"
          using Suc_diff_Suc [of n max_blocks] m by (metis Suc_eq_plus1 Suc_lessD add.commute mult_Suc_right)
        then show ?thesis using sz(3) False by linarith
      qed
      note sp = next_size_spread [OF _ m this sz(1)]
      show ?thesis using sp c by linarith
    qed
    moreover have "x \<le> x * (max_blocks - (n + 1))" if "n + 1 < max_blocks" for x
    proof -
      have "x * 1 \<le> x * (max_blocks - (n + 1))" using that by (intro mult_le_mono) auto
      then show ?thesis by simp
    qed
    ultimately have "n + 1 < max_blocks \<and> capacity + sz < cap \<longrightarrow>
        0 < next_size cap (n + 1) (capacity + sz) sz \<and>
        capacity + sz + next_size cap (n + 1) (capacity + sz) sz \<le> cap \<and>
        capacity + sz + next_size cap (n + 1) (capacity + sz) sz * (max_blocks - (n + 1)) \<le> cap"
      by (meson add_left_mono le_trans)
    then show ?thesis using True sz(2) b by (auto simp: blocks_ok_def grow_def)
  next
    case False
    then have "grow cap b = b" by (simp add: grow_def b)
    then show ?thesis using assms by simp
  qed
qed

lemma blocks_state_ok: "blocks_state cap b \<Longrightarrow> blocks_ok cap b"
proof -
  have "blocks_ok cap ((grow cap ^^ j) (first_blocks cap))" for j
    by (induction j) (auto simp: blocks_ok_first blocks_ok_grow)
  then show "blocks_state cap b \<Longrightarrow> blocks_ok cap b" by (auto simp: blocks_state_def)
qed

lemma blocks_state_grow: "blocks_state cap b \<Longrightarrow> blocks_state cap (grow cap b)"
  unfolding blocks_state_def by (metis funpow.simps(2) comp_apply)

lemma blocks_state_first [simp]: "blocks_state cap (first_blocks cap)"
  unfolding blocks_state_def by (rule exI [of _ 0]) simp

lemma grow_stops:
  assumes "\<not> (fst b < max_blocks \<and> fst (snd b) < cap)"
  shows "(grow cap ^^ j) b = b"
  using assms by (induction j) (auto simp: grow_def split: prod.splits)

lemma grow_capacity: "fst (snd b) \<le> fst (snd ((grow cap ^^ j) b))"
  by (induction j) (auto simp: grow_def split: prod.splits)

lemma grow_count:
  "fst b = i \<Longrightarrow> fst ((grow cap ^^ j) b) = i + j \<or>
     \<not> (fst ((grow cap ^^ j) b) < max_blocks \<and> fst (snd ((grow cap ^^ j) b)) < cap)"
  by (induction j) (auto simp: grow_def split: prod.splits)

text \<open>\<open>cache_limit\<close> is reached exactly when \<open>AddBlock\<close> does nothing any more.\<close>

lemma limit_reached:
  assumes "blocks_state cap b" "\<not> (fst b < max_blocks \<and> fst (snd b) < cap)"
  shows "fst (snd b) = cache_limit cap"
proof -
  obtain j where j: "b = (grow cap ^^ j) (first_blocks cap)" using assms(1) by (auto simp: blocks_state_def)
  define m where "m = (grow cap ^^ max_blocks) (first_blocks cap)"
  have "fst (first_blocks cap) = 0" by (simp add: first_blocks_def)
  then have m: "\<not> (fst m < max_blocks \<and> fst (snd m) < cap)"
    using grow_count [where b = "first_blocks cap" and i = 0 and cap = cap and j = max_blocks] by (auto simp: m_def)
  have "(grow cap ^^ (max_blocks + j)) (first_blocks cap) = m"
    using grow_stops [OF m] by (simp add: m_def add.commute [of max_blocks] funpow_add)
  moreover have "(grow cap ^^ (max_blocks + j)) (first_blocks cap) = b"
    using grow_stops [OF assms(2)] by (simp add: j funpow_add)
  ultimately show ?thesis by (simp add: cache_limit_def m_def)
qed

lemma limit_above: "blocks_state cap b \<Longrightarrow> fst (snd b) \<le> cache_limit cap"
proof -
  assume "blocks_state cap b"
  then obtain j where j: "b = (grow cap ^^ j) (first_blocks cap)" by (auto simp: blocks_state_def)
  have b': "blocks_state cap ((grow cap ^^ max_blocks) b)"
    unfolding blocks_state_def j by (metis comp_apply funpow_add)
  have "\<not> (fst ((grow cap ^^ max_blocks) b) < max_blocks \<and> fst (snd ((grow cap ^^ max_blocks) b)) < cap)"
    using grow_count [where b = b and i = "fst b" and cap = cap and j = max_blocks] by auto
  from limit_reached [OF b' this] show "fst (snd b) \<le> cache_limit cap" using grow_capacity [where b = b and cap = cap and j = max_blocks] by simp
qed

lemma limit_open:
  assumes "blocks_state cap b" "fst b < max_blocks" "fst (snd b) < cap"
  shows "fst (snd b) < fst (snd (grow cap b))"
  using blocks_state_ok [OF assms(1)] assms(2,3) by (auto simp: blocks_ok_def grow_def split: prod.splits)

lemma cache_limit_le: "cache_limit cap \<le> cap"
proof -
  have "blocks_state cap ((grow cap ^^ max_blocks) (first_blocks cap))" unfolding blocks_state_def by blast
  from blocks_state_ok [OF this] show ?thesis by (auto simp: cache_limit_def blocks_ok_def split: prod.splits)
qed

lemma cache_limit_pos:
  assumes "0 < cap"
  shows "0 < cache_limit cap"
proof -
  have "0 < fst (snd (grow cap (first_blocks cap)))"
    using limit_open [OF blocks_state_first, of cap] assms by (simp add: first_blocks_def max_blocks_def del: if_split cong: if_cong)
  then show ?thesis using limit_above [OF blocks_state_grow [OF blocks_state_first], of cap] by linarith
qed

section \<open>The invariant\<close>

text \<open>The table holds exactly the keys of the elements in use.\<close>

definition key_table_ok :: "('k, 'v) lru_cache \<Rightarrow> nat list \<Rightarrow> bool" where
  "key_table_ok c L \<longleftrightarrow> (\<forall>k a. key_table c k = Some a \<longleftrightarrow> a \<in> set L \<and> elem_key (elements c a) = k)"

definition cache_inv :: "('k, 'v) lru_cache \<Rightarrow> nat list \<Rightarrow> nat list \<Rightarrow> bool" where
  "cache_inv c L F \<longleftrightarrow>
     cells c L F \<and> key_table_ok c L \<and> set (L @ F) = {..<block_capacity c} \<and> blocks_state (max_elements c) (blocks_of c)"

text \<open>The contents: the elements in use, most recently used first.\<close>

definition item :: "('k, 'v) lru_cache \<Rightarrow> nat \<Rightarrow> 'k \<times> 'v" where
  "item c a = (elem_key (elements c a), elem_value (elements c a))"

lemma same_content_item: "same_content c c' \<Longrightarrow> item c' = item c"
  by (simp add: same_content_def item_def fun_eq_iff)

lemma same_content_table: "same_content c c' \<Longrightarrow> key_table c' = key_table c \<Longrightarrow> key_table_ok c' L = key_table_ok c L"
  by (simp add: same_content_def key_table_ok_def)

lemma table_mem: "key_table_ok c L \<Longrightarrow> a \<in> set L \<Longrightarrow> key_table c (elem_key (elements c a)) = Some a"
  by (simp add: key_table_ok_def)

lemma table_Some: "key_table_ok c L \<Longrightarrow> key_table c k = Some a \<Longrightarrow> a \<in> set L \<and> elem_key (elements c a) = k"
  by (simp add: key_table_ok_def)

lemma table_absent: "key_table_ok c L \<Longrightarrow> key_table c k = None \<longleftrightarrow> k \<notin> fst ` item c ` set L"
proof (cases "key_table c k")
  case None
  assume t: "key_table_ok c L"
  have "k \<noteq> elem_key (elements c a)" if "a \<in> set L" for a
    using table_mem [OF t that] None by auto
  then have "k \<notin> (\<lambda>a. elem_key (elements c a)) ` set L" by (simp add: image_iff)
  then show ?thesis using None by (simp add: image_image item_def)
next
  case (Some a)
  assume "key_table_ok c L"
  then have "a \<in> set L" "elem_key (elements c a) = k" using table_Some Some by fast+
  then have "k \<in> (\<lambda>a. elem_key (elements c a)) ` set L" by (intro image_eqI [of _ _ a]) simp_all
  then show ?thesis using Some by (simp add: image_image item_def)
qed

lemma table_inj:
  assumes "key_table_ok c L"
  shows "inj_on (\<lambda>a. fst (item c a)) (set L)"
proof (rule inj_onI)
  fix a b assume m: "a \<in> set L" "b \<in> set L" and "fst (item c a) = fst (item c b)"
  then have k: "elem_key (elements c a) = elem_key (elements c b)" by (simp add: item_def)
  have "Some a = key_table c (elem_key (elements c b))" using table_mem [OF assms m(1)] unfolding k by (rule sym)
  also have "\<dots> = Some b" by (rule table_mem [OF assms m(2)])
  finally show "a = b" by simp
qed

lemma table_map_of:
  assumes "key_table_ok c L" "distinct L"
  shows "map_of (map (item c) L) k = map_option (\<lambda>a. elem_value (elements c a)) (key_table c k)"
proof (cases "key_table c k")
  case None
  then show ?thesis using table_absent [OF assms(1), of k] by (simp add: map_of_eq_None_iff)
next
  case (Some a)
  have "distinct (map fst (map (item c) L))" using table_inj [OF assms(1)] assms(2) by (simp add: distinct_map comp_def)
  moreover have "a \<in> set L" "item c a = (k, elem_value (elements c a))"
    using table_Some [OF assms(1) Some] by (simp_all add: item_def)
  then have "(k, elem_value (elements c a)) \<in> set (map (item c) L)" by (metis image_eqI set_map)
  ultimately show ?thesis using Some by simp
qed

lemma table_filter:
  assumes "key_table_ok c (xs @ e # ys)" "distinct (xs @ e # ys)"
  shows "filter (\<lambda>p. fst p \<noteq> elem_key (elements c e)) (map (item c) (xs @ e # ys)) = map (item c) (xs @ ys)"
proof -
  have "fst (item c a) \<noteq> elem_key (elements c e)" if "a \<in> set (xs @ ys)" for a
    using inj_onD [OF table_inj [OF assms(1)], of a e] that assms(2) by (auto simp: item_def)
  then have "filter (\<lambda>p. fst p \<noteq> elem_key (elements c e)) (map (item c) xs) = map (item c) xs"
    "filter (\<lambda>p. fst p \<noteq> elem_key (elements c e)) (map (item c) ys) = map (item c) ys"
    by (auto intro!: filter_True)
  then show ?thesis by (simp add: item_def)
qed

section \<open>The operations keep the invariant\<close>

text \<open>An element of the LRU list is moved to the free list.\<close>

lemma evict_step:
  assumes inv: "cache_inv c (xs @ e # ys) F"
  shows "\<exists>c'. evict (Some e) c = Some (True, c') \<and> cache_inv c' (xs @ ys) (e # F) \<and> same_content c c' \<and>
     key_table c' = (key_table c)(elem_key (elements c e) := None)"
proof -
  let ?L = "xs @ e # ys"
  define c1 where "c1 = c\<lparr>key_table := (key_table c)(elem_key (elements c e) := None)\<rparr>"
  define c2 where "c2 = remove_from_lru e c1"
  define c3 where "c3 = push_free_list e c2"
  have t: "key_table_ok c ?L" and cl: "cells c ?L F" and s: "set (?L @ F) = {..<block_capacity c}"
    and b: "blocks_state (max_elements c) (blocks_of c)"
    using inv by (auto simp: cache_inv_def)
  have "key_table c (elem_key (elements c e)) = Some e" using t by (simp add: key_table_ok_def)
  then have ev: "evict (Some e) c = Some (True, c3)" by (simp add: evict_def c1_def c2_def c3_def)
  have l1: "lru_list c1 ?L" using cl by (simp add: cells_def lru_list_def c1_def)
  have o: "only_links (set ?L) c1 c2" unfolding c2_def by (rule remove_from_lru_only [OF l1])
  have "set ?L \<inter> set F = {}" and d: "distinct (?L @ F)" using cl by (auto simp: cells_def)
  then have "chain (elements c2) (free_list c2) F"
    using only_links_chain [OF o, of F] cl by (simp add: cells_def c1_def)
  then have "cells c2 (xs @ ys) F"
    using remove_from_lru_list(1) [OF l1] d by (simp add: cells_def c2_def)
  then have c3: "cells c3 (xs @ ys) (e # F)" unfolding c3_def by (rule push_cells) (use d in auto)
  have sc: "same_content c c3"
    using only_links_content [OF o] push_free_content(1) [of c2 e]
    by (auto simp: c3_def c1_def same_content_def blocks_of_def)
  have k: "key_table c3 = (key_table c)(elem_key (elements c e) := None)"
    using o push_free_content(2) [of e c2] by (simp add: c3_def only_links_def c1_def)
  have "key_table_ok c3 (xs @ ys)"
    unfolding key_table_ok_def
  proof (intro allI)
    fix k' a
    have keys: "elem_key (elements c3 a) = elem_key (elements c a)" using sc by (simp add: same_content_def)
    have "a \<in> set ?L \<and> elem_key (elements c a) = elem_key (elements c e) \<longrightarrow> a = e"
      using inj_onD [OF table_inj [OF t], of a e] by (auto simp: item_def)
    then show "key_table c3 k' = Some a \<longleftrightarrow> a \<in> set (xs @ ys) \<and> elem_key (elements c3 a) = k'"
      using t d unfolding k keys by (auto simp: key_table_ok_def)
  qed
  moreover have "set ((xs @ ys) @ e # F) = {..<block_capacity c3}"
    using s sc by (auto simp: same_content_def blocks_of_def)
  moreover have "blocks_state (max_elements c3) (blocks_of c3)" using b sc by (simp add: same_content_def)
  ultimately show ?thesis using ev c3 sc k by (auto simp: cache_inv_def)
qed

text \<open>An element of the LRU list is moved to its head.\<close>

lemma push_head_step:
  assumes inv: "cache_inv c (xs @ e # ys) F"
  shows "cache_inv (push_lru_head e c) (e # xs @ ys) F \<and> same_content c (push_lru_head e c) \<and>
     key_table (push_lru_head e c) = key_table c"
proof -
  have cl: "cells c (xs @ e # ys) F" using inv by (simp add: cache_inv_def)
  then have l: "lru_list c (xs @ e # ys)" "set (xs @ e # ys) \<inter> set F = {}" by (auto simp: cells_def)
  note p = push_lru_head_used [OF l(1)]
  have "cells (push_lru_head e c) (e # xs @ ys) F"
    using only_links_chain [OF p(2) l(2)] p(1) cl by (auto simp: cells_def)
  moreover have sc: "same_content c (push_lru_head e c)" and k: "key_table (push_lru_head e c) = key_table c"
    using only_links_content [OF p(2)] p(2) by (simp_all add: only_links_def)
  moreover have "key_table_ok (push_lru_head e c) (e # xs @ ys)"
    using inv sc k by (auto simp: cache_inv_def key_table_ok_def same_content_def)
  moreover have "set ((e # xs @ ys) @ F) = {..<block_capacity (push_lru_head e c)}"
    using inv sc by (auto simp: cache_inv_def same_content_def blocks_of_def)
  moreover have "blocks_state (max_elements (push_lru_head e c)) (blocks_of (push_lru_head e c))"
    using inv sc by (simp add: cache_inv_def same_content_def)
  ultimately show ?thesis by (simp add: cache_inv_def)
qed

text \<open>An element taken off the free list is in neither list.\<close>

definition detached :: "('k, 'v) lru_cache \<Rightarrow> nat list \<Rightarrow> nat \<Rightarrow> nat list \<Rightarrow> bool" where
  "detached c L e F \<longleftrightarrow>
     cells c L F \<and> key_table_ok c L \<and> set (L @ e # F) = {..<block_capacity c} \<and> e \<notin> set L \<and> e \<notin> set F \<and>
     blocks_state (max_elements c) (blocks_of c) \<and> next_elem (elements c e) = None \<and> prev_elem (elements c e) = None"

lemma pop_step:
  assumes "cache_inv c L (f # F)"
  shows "\<exists>c'. pop_free_list c = Some (Some f, c') \<and> detached c' L f F \<and> same_content c c'"
proof (intro exI conjI)
  let ?c' = "set_next f None (c\<lparr>free_list := first_of F\<rparr>)"
  have cl: "cells c L (f # F)" using assms by (simp add: cache_inv_def)
  then show "pop_free_list c = Some (Some f, ?c')" by (intro pop_free_list_Cons) (simp add: cells_def)
  show "same_content c ?c'" by (simp add: same_content_def blocks_of_def)
  moreover have "key_table ?c' = key_table c" by simp
  ultimately have "key_table_ok ?c' L" using assms by (simp add: same_content_table cache_inv_def)
  moreover have "prev_elem (elements c f) = None" using cl by (simp add: cells_def)
  ultimately show "detached ?c' L f F"
    using pop_cells [OF cl] assms by (auto simp: detached_def cache_inv_def cells_def blocks_of_def)
qed

lemma add_block_step:
  assumes "cache_inv c L F"
  shows "\<exists>F'. cache_inv (add_block c) L (F' @ F) \<and> length F' = block_capacity (add_block c) - block_capacity c"
    and "item (add_block c) = item c" and "max_elements (add_block c) = max_elements c"
proof -
  have cl: "cells c L F" "set (L @ F) = {..<block_capacity c}" using assms by (simp_all add: cache_inv_def)
  note ab = add_block_cells [OF cl]
  show "item (add_block c) = item c" using ab(5,6) by (simp add: item_def fun_eq_iff)
  show "max_elements (add_block c) = max_elements c" by (rule ab(4))
  have "key_table_ok (add_block c) L" using assms ab(3,5) by (simp add: cache_inv_def key_table_ok_def)
  moreover have "blocks_state (max_elements (add_block c)) (blocks_of (add_block c))"
    using assms ab(2,4) by (simp add: cache_inv_def blocks_state_grow)
  ultimately show "\<exists>F'. cache_inv (add_block c) L (F' @ F) \<and> length F' = block_capacity (add_block c) - block_capacity c"
    using ab(1) by (auto simp: cache_inv_def)
qed

lemma inv_length: "cache_inv c L F \<Longrightarrow> length L + length F = block_capacity c"
proof -
  assume i: "cache_inv c L F"
  then have "distinct (L @ F)" "set (L @ F) = {..<block_capacity c}" by (simp_all add: cache_inv_def cells_def)
  then show ?thesis using distinct_card [of "L @ F"] by simp
qed

lemma inv_limit: "cache_inv c L F \<Longrightarrow> block_capacity c \<le> cache_limit (max_elements c)"
  using limit_above [of "max_elements c" "blocks_of c"] by (simp add: cache_inv_def blocks_of_def)

text \<open>\<open>NextFreeElement\<close>: an element, unless the cache has grown to its limit and all of it is in use.\<close>

lemma next_free_step:
  assumes inv: "cache_inv c L F"
  shows "(\<exists>e c' F'. next_free_element c = Some (Some e, c') \<and> detached c' L e F' \<and> item c' = item c \<and>
            max_elements c' = max_elements c \<and> length L < cache_limit (max_elements c)) \<or>
         (next_free_element c = Some (None, c) \<and> F = [] \<and> length L = cache_limit (max_elements c))"
proof (cases F)
  case (Cons f F')
  from pop_step [OF inv [unfolded Cons]] obtain c' where
    c': "pop_free_list c = Some (Some f, c')" "detached c' L f F'" "same_content c c'" by blast
  then have "next_free_element c = Some (Some f, c')" by (simp add: next_free_element_def)
  moreover have "length L < cache_limit (max_elements c)"
    using inv_length [OF inv] inv_limit [OF inv] Cons by simp
  ultimately show ?thesis using c' same_content_item [OF c'(3)] by (auto simp: same_content_def)
next
  case Nil
  then have p: "pop_free_list c = Some (None, c)" using inv by (intro pop_free_list_Nil) (simp add: cache_inv_def cells_def)
  from add_block_step(1) [OF inv] Nil obtain F' where
    F': "cache_inv (add_block c) L F'" "length F' = block_capacity (add_block c) - block_capacity c" by auto
  have st: "blocks_state (max_elements c) (blocks_of c)" using inv by (simp add: cache_inv_def)
  have cl: "cells c L F" "set (L @ F) = {..<block_capacity c}" using inv by (simp_all add: cache_inv_def)
  show ?thesis
  proof (cases "block_count c < max_blocks \<and> block_capacity c < max_elements c")
    case True
    then have "block_capacity c < block_capacity (add_block c)"
      using limit_open [OF st] unfolding add_block_cells(2) [OF cl, symmetric] by (simp add: blocks_of_def)
    then obtain f F'' where f: "F' = f # F''" using F'(2) by (cases F') auto
    from pop_step [OF F'(1) [unfolded f]] obtain c' where
      c': "pop_free_list (add_block c) = Some (Some f, c')" "detached c' L f F''" "same_content (add_block c) c'" by blast
    then have "next_free_element c = Some (Some f, c')" using p by (simp add: next_free_element_def)
    moreover have "length L < cache_limit (max_elements c)"
      using inv_length [OF F'(1)] inv_limit [OF F'(1)] f add_block_step(3) [OF inv] by simp
    ultimately show ?thesis using c' same_content_item [OF c'(3)] add_block_step(2,3) [OF inv] by (auto simp: same_content_def)
  next
    case False
    then have "add_block c = c" by (auto simp: add_block_def)
    moreover have "block_capacity c = cache_limit (max_elements c)"
      using limit_reached [OF st] False by (simp add: blocks_of_def)
    ultimately show ?thesis using p Nil inv_length [OF inv] by (simp add: next_free_element_def)
  qed
qed

section \<open>The operations on the contents\<close>

text \<open>What the cache promises: a list of key-value pairs with distinct keys, most recently used first, of at most
  \<open>lim\<close> entries; an insertion into a full list drops the last one.\<close>

definition spec_insert :: "nat \<Rightarrow> 'k \<Rightarrow> 'v \<Rightarrow> ('k \<times> 'v) list \<Rightarrow> ('k \<times> 'v) list" where
  "spec_insert lim k v A = (k, v) # take (lim - 1) (filter (\<lambda>p. fst p \<noteq> k) A)"

definition spec_lookup :: "'k \<Rightarrow> ('k \<times> 'v) list \<Rightarrow> ('k \<times> 'v) list" where
  "spec_lookup k A = (case map_of A k of None \<Rightarrow> A | Some v \<Rightarrow> (k, v) # filter (\<lambda>p. fst p \<noteq> k) A)"

text \<open>The cache \<open>c\<close> holds the list \<open>A\<close>.\<close>

definition holds :: "('k, 'v) lru_cache \<Rightarrow> nat \<Rightarrow> ('k \<times> 'v) list \<Rightarrow> bool" where
  "holds c cap A \<longleftrightarrow> max_elements c = cap \<and> (\<exists>L F. cache_inv c L F \<and> A = map (item c) L)"

lemma detached_insert:
  assumes d: "detached c L e F" and k: "key_table c k = None"
    and c': "c' = c\<lparr>elements := (elements c)(e := (elements c e)\<lparr>elem_key := k\<rparr>), key_table := (key_table c)(k \<mapsto> e)\<rparr>"
  shows "cache_inv (push_lru_head e c') (e # L) F" and "same_content c' (push_lru_head e c')"
proof -
  have cl: "cells c L F" and e: "e \<notin> set L" "e \<notin> set F" and t: "key_table_ok c L" using d by (auto simp: detached_def)
  have cl': "cells c' L F" using cl e by (simp add: cells_def lru_list_def c')
  then have l: "lru_list c' L" by (simp add: cells_def)
  have n: "next_elem (elements c' e) = None" "prev_elem (elements c' e) = None" using d by (simp_all add: detached_def c')
  note p = push_lru_head_new [OF l e(1) n]
  show sc: "same_content c' (push_lru_head e c')" using only_links_content [OF p(2)] .
  have kt: "key_table (push_lru_head e c') = (key_table c)(k \<mapsto> e)" using p(2) by (simp add: only_links_def c')
  have "insert e (set L) \<inter> set F = {}" using cl e by (auto simp: cells_def)
  then have "cells (push_lru_head e c') (e # L) F"
    using only_links_chain [OF p(2), of F] p(1) cl' e by (auto simp: cells_def)
  moreover have "key_table_ok (push_lru_head e c') (e # L)"
    unfolding key_table_ok_def
  proof (intro allI)
    fix k' a
    have keys: "elem_key (elements (push_lru_head e c') a) = elem_key (elements c' a)" using sc by (simp add: same_content_def)
    have "elem_key (elements c b) \<noteq> k" if "b \<in> set L" for b
      using table_mem [OF t that] k by auto
    then show "key_table (push_lru_head e c') k' = Some a \<longleftrightarrow>
        a \<in> set (e # L) \<and> elem_key (elements (push_lru_head e c') a) = k'"
      using t e unfolding kt keys by (auto simp: key_table_ok_def c')
  qed
  moreover have "set ((e # L) @ F) = {..<block_capacity (push_lru_head e c')}"
    using d sc by (auto simp: detached_def same_content_def blocks_of_def c')
  moreover have "blocks_state (max_elements (push_lru_head e c')) (blocks_of (push_lru_head e c'))"
    using d sc by (simp add: detached_def same_content_def blocks_of_def c')
  ultimately show "cache_inv (push_lru_head e c') (e # L) F" by (simp add: cache_inv_def)
qed

lemma set_value_inv:
  "cache_inv (c\<lparr>elements := (elements c)(e := (elements c e)\<lparr>elem_value := v\<rparr>)\<rparr>) L F \<longleftrightarrow> cache_inv c L F"
proof -
  let ?h = "(elements c)(e := (elements c e)\<lparr>elem_value := v\<rparr>)"
  have "linked ?h p M q = linked (elements c) p M q" for p M q by (induction M arbitrary: p) auto
  moreover have "chain ?h p M = chain (elements c) p M" for p M by (induction M arbitrary: p) auto
  ultimately show ?thesis
    by (auto simp: cache_inv_def cells_def lru_list_def key_table_ok_def blocks_of_def)
qed

lemma inv_table: "cache_inv c L F \<Longrightarrow> key_table_ok c L \<and> distinct L"
  by (simp add: cache_inv_def cells_def)

text \<open>The element of the key, if there is one, is the one of its pair.\<close>

lemma inv_found:
  assumes "cache_inv c L F" "key_table c k = Some e"
  obtains xs ys where "L = xs @ e # ys" "elem_key (elements c e) = k"
    "filter (\<lambda>p. fst p \<noteq> k) (map (item c) L) = map (item c) (xs @ ys)"
proof -
  have t: "key_table_ok c L" "distinct L" using inv_table [OF assms(1)] by simp_all
  have m: "e \<in> set L \<and> elem_key (elements c e) = k" using table_Some [OF t(1) assms(2)] .
  then obtain xs ys where L: "L = xs @ e # ys" by (meson split_list)
  from table_filter [OF t [unfolded L]] m L show thesis by (intro that [OF L]) simp_all
qed

lemma inv_absent:
  assumes "cache_inv c L F" "key_table c k = None"
  shows "filter (\<lambda>p. fst p \<noteq> k) (map (item c) L) = map (item c) L"
proof -
  have "k \<notin> fst ` item c ` set L" using table_absent [of c L k] inv_table [OF assms(1)] assms(2) by simp
  then show ?thesis by (intro filter_True) (auto simp: image_iff)
qed

lemma insert_phase1:
  assumes "cache_inv c L F"
  shows "\<exists>c1 L1 F1. evict_key k c = Some c1 \<and>
      cache_inv c1 L1 F1 \<and> max_elements c1 = max_elements c \<and> map (item c1) L1 = filter (\<lambda>p. fst p \<noteq> k) (map (item c) L)"
proof (cases "key_table c k")
  case None
  then show ?thesis using assms inv_absent [OF assms None] by (auto simp: evict_key_def lookup_internal_def)
next
  case (Some e)
  from inv_found [OF assms Some] obtain xs ys where L: "L = xs @ e # ys"
    and f: "filter (\<lambda>p. fst p \<noteq> k) (map (item c) L) = map (item c) (xs @ ys)" by metis
  from evict_step [OF assms [unfolded L]] obtain c' where
    c': "evict (Some e) c = Some (True, c')" "cache_inv c' (xs @ ys) (e # F)" "same_content c c'" by blast
  then show ?thesis using Some f same_content_item [OF c'(3)]
    by (intro exI [of _ c'] exI [of _ "xs @ ys"] exI [of _ "e # F"]) (simp add: evict_key_def lookup_internal_def same_content_def)
qed

lemma insert_phase2:
  assumes inv: "cache_inv c L F" and pos: "0 < max_elements c"
  shows "\<exists>e c1 L1 F1. take_element c = Some (e, c1) \<and>
      detached c1 L1 e F1 \<and> max_elements c1 = max_elements c \<and>
      map (item c1) L1 = take (cache_limit (max_elements c) - 1) (map (item c) L)"
  using next_free_step [OF inv]
proof (elim disjE exE conjE)
  fix e c' F' assume "next_free_element c = Some (Some e, c')" "detached c' L e F'" "item c' = item c"
    "max_elements c' = max_elements c" "length L < cache_limit (max_elements c)"
  then show ?thesis by (intro exI [of _ e] exI [of _ c'] exI [of _ L] exI [of _ F']) (simp add: take_element_def)
next
  assume n: "next_free_element c = Some (None, c)" and F: "F = []" and len: "length L = cache_limit (max_elements c)"
  then have "L \<noteq> []" using cache_limit_pos [OF pos] by auto
  then obtain xs e where L: "L = xs @ [e]" by (cases L rule: rev_cases) auto
  have tl: "lru_tail c = Some e" using inv by (simp add: cache_inv_def cells_def lru_list_def L)
  from evict_step [of c xs e "[]" F] inv L obtain c3 where
    c3: "evict (Some e) c = Some (True, c3)" "cache_inv c3 xs (e # F)" "same_content c c3" by auto
  from pop_step [OF c3(2)] obtain c4 where
    c4: "pop_free_list c3 = Some (Some e, c4)" "detached c4 xs e F" "same_content c3 c4" by blast
  have "next_free_element c3 = Some (Some e, c4)" using c4(1) by (simp add: next_free_element_def)
  moreover have "item c4 = item c" using same_content_item [OF c3(3)] same_content_item [OF c4(3)] by simp
  moreover have "max_elements c4 = max_elements c" using c3(3) c4(3) by (simp add: same_content_def)
  moreover have "take (cache_limit (max_elements c) - 1) (map (item c) L) = map (item c) xs"
    using len L by (simp flip: len)
  ultimately show ?thesis using n tl c3(1) c4(2)
    by (intro exI [of _ e] exI [of _ c4] exI [of _ xs] exI [of _ F]) (simp add: take_element_def)
qed

lemma cache_insert_holds:
  assumes h: "holds c cap A" and pos: "0 < cap"
  shows "\<exists>c'. cache_insert k v c = Some c' \<and> holds c' cap (spec_insert (cache_limit cap) k v A)"
proof -
  from h obtain L F where inv: "cache_inv c L F" and A: "A = map (item c) L" and cap: "max_elements c = cap"
    by (auto simp: holds_def)
  from insert_phase1 [OF inv, of k] obtain c1 L1 F1 where
    p1: "evict_key k c = Some c1"
    and i1: "cache_inv c1 L1 F1" "max_elements c1 = cap" "map (item c1) L1 = filter (\<lambda>p. fst p \<noteq> k) A"
    unfolding A cap by blast
  have "0 < max_elements c1" using pos i1(2) by simp
  from insert_phase2 [OF i1(1) this] obtain e c5 L5 F5 where
    p2: "take_element c1 = Some (e, c5)"
    and d: "detached c5 L5 e F5" "max_elements c5 = cap"
      "map (item c5) L5 = take (cache_limit cap - 1) (filter (\<lambda>p. fst p \<noteq> k) A)"
    unfolding i1(2,3) by blast
  have "k \<notin> fst ` set (map (item c5) L5)" unfolding d(3) by (auto dest: in_set_takeD)
  then have "key_table c5 k = None"
    using table_absent [of c5 L5 k] d(1) by (simp add: detached_def)
  define c6 where "c6 = c5\<lparr>elements := (elements c5)(e := (elements c5 e)\<lparr>elem_key := k\<rparr>),
                   key_table := (key_table c5)(k \<mapsto> e)\<rparr>"
  define c7 where "c7 = push_lru_head e c6"
  define c8 where "c8 = c7\<lparr>elements := (elements c7)(e := (elements c7 e)\<lparr>elem_value := v\<rparr>)\<rparr>"
  note di = detached_insert [OF d(1) \<open>key_table c5 k = None\<close> c6_def, folded c7_def]
  have "cache_insert k v c = Some c8"
    using p1 p2 by (simp add: cache_insert_def insert_key_def c8_def c7_def c6_def Let_def)
  moreover have "cache_inv c8 (e # L5) F5" unfolding c8_def set_value_inv by (rule di(1))
  moreover have "item c8 e = (k, v)" using di(2) by (simp add: item_def c8_def same_content_def c6_def)
  moreover have "item c8 a = item c5 a" if "a \<in> set L5" for a
    using di(2) d(1) that by (auto simp: item_def c8_def same_content_def c6_def detached_def)
  then have "map (item c8) L5 = map (item c5) L5" by simp
  moreover have "max_elements c8 = cap" using di(2) d(2) by (simp add: c8_def same_content_def c6_def)
  ultimately show ?thesis using d(3) unfolding holds_def spec_insert_def
    by (intro exI [of _ c8] conjI exI [of _ "e # L5"] exI [of _ F5]) simp_all
qed

lemma lookup_holds:
  assumes h: "holds c cap A"
  shows "fst (mutable_lookup k c) = map_of A k" and "holds (snd (mutable_lookup k c)) cap (spec_lookup k A)"
    and "lookup_without_insert k c = map_of A k"
proof -
  from h obtain L F where inv: "cache_inv c L F" and A: "A = map (item c) L" and cap: "max_elements c = cap"
    by (auto simp: holds_def)
  have t: "key_table_ok c L" "distinct L" using inv_table [OF inv] by simp_all
  note mo = table_map_of [OF t, of k, folded A]
  show "lookup_without_insert k c = map_of A k" by (simp add: mo lookup_without_insert_def lookup_internal_def)
  have "fst (mutable_lookup k c) = map_of A k \<and> holds (snd (mutable_lookup k c)) cap (spec_lookup k A)"
  proof (cases "key_table c k")
    case None
    then show ?thesis using h mo by (simp add: mutable_lookup_def lookup_internal_def spec_lookup_def)
  next
    case (Some e)
    from inv_found [OF inv Some] obtain xs ys where L: "L = xs @ e # ys" and k: "elem_key (elements c e) = k"
      and f: "filter (\<lambda>p. fst p \<noteq> k) A = map (item c) (xs @ ys)" unfolding A by metis
    note p = push_head_step [OF inv [unfolded L]]
    have i: "item (push_lru_head e c) = item c" using p same_content_item by blast
    have "item c e = (k, elem_value (elements c e))" using k by (simp add: item_def)
    then have "spec_lookup k A = map (item (push_lru_head e c)) (e # xs @ ys)"
      using mo Some f i by (simp add: spec_lookup_def)
    then show ?thesis using p mo Some cap
      by (auto simp: mutable_lookup_def lookup_internal_def Let_def holds_def same_content_def)
  qed
  then show "fst (mutable_lookup k c) = map_of A k" "holds (snd (mutable_lookup k c)) cap (spec_lookup k A)" by simp_all
qed

lemma erase_holds:
  assumes h: "holds c cap A"
  shows "\<exists>c'. cache_erase k c = Some (map_of A k \<noteq> None, c') \<and> holds c' cap (filter (\<lambda>p. fst p \<noteq> k) A)"
proof -
  from h obtain L F where inv: "cache_inv c L F" and A: "A = map (item c) L" and cap: "max_elements c = cap"
    by (auto simp: holds_def)
  have mo: "map_of A k = map_option (\<lambda>a. elem_value (elements c a)) (key_table c k)"
    using table_map_of [of c L k] inv_table [OF inv] by (simp add: A)
  show ?thesis
  proof (cases "key_table c k")
    case None
    then show ?thesis using h mo inv_absent [OF inv None]
      by (simp add: cache_erase_def lookup_internal_def evict_def A)
  next
    case (Some e)
    from inv_found [OF inv Some] obtain xs ys where L: "L = xs @ e # ys"
      and f: "filter (\<lambda>p. fst p \<noteq> k) A = map (item c) (xs @ ys)" unfolding A by metis
    from evict_step [OF inv [unfolded L]] obtain c' where
      c': "evict (Some e) c = Some (True, c')" "cache_inv c' (xs @ ys) (e # F)" "same_content c c'" by blast
    then have "holds c' cap (filter (\<lambda>p. fst p \<noteq> k) A)"
      using f cap same_content_item [OF c'(3)] by (auto simp: holds_def same_content_def)
    then show ?thesis using c'(1) Some mo by (simp add: cache_erase_def lookup_internal_def)
  qed
qed

lemma clear_loop_list:
  "linked (elements c) p M None \<Longrightarrow> chain (elements c) (free_list c) G \<Longrightarrow> distinct (M @ G) \<Longrightarrow> length M \<le> fuel \<Longrightarrow>
   \<exists>c'. clear_loop fuel (first_of M) c = Some c' \<and> chain (elements c') (free_list c') (rev M @ G) \<and>
      same_content c c' \<and> key_table c' = key_table c"
proof (induction M arbitrary: p c G fuel)
  case (Cons e M)
  then obtain fuel' where fuel: "fuel = Suc fuel'" "length M \<le> fuel'" by (cases fuel) auto
  have n: "next_elem (elements c e) = first_of M" "linked (elements c) (Some e) M None" "e \<notin> set M" "e \<notin> set G"
    using Cons.prems by (auto split: if_splits)
  have "linked (elements (push_free_list e c)) (Some e) M None" using n by (simp add: push_free_list_def)
  moreover have "chain (elements (push_free_list e c)) (free_list (push_free_list e c)) (e # G)"
    using Cons.prems(2) n by (simp add: push_free_list_def)
  moreover have "distinct (M @ e # G)" using Cons.prems(3) by auto
  ultimately obtain c' where "clear_loop fuel' (first_of M) (push_free_list e c) = Some c'"
    "chain (elements c') (free_list c') (rev M @ e # G)" "same_content (push_free_list e c) c'"
    "key_table c' = key_table (push_free_list e c)"
    using Cons.IH [OF _ _ _ fuel(2), of "push_free_list e c" "Some e" "e # G"] by blast
  then show ?case using fuel(1) n(1) push_free_content(1,2) [where c = c and e = e]
    by (auto intro: same_content_trans)
qed auto

lemma clear_holds:
  assumes h: "holds c cap A"
  shows "\<exists>c'. cache_clear c = Some c' \<and> holds c' cap []"
proof -
  from h obtain L F where inv: "cache_inv c L F" and cap: "max_elements c = cap" by (auto simp: holds_def)
  let ?c0 = "c\<lparr>key_table := Map.empty\<rparr>"
  have l: "linked (elements ?c0) None L None" "chain (elements ?c0) (free_list ?c0) F" "distinct (L @ F)"
    "lru_head c = first_of L" and s: "set (L @ F) = {..<block_capacity c}"
    using inv by (auto simp: cache_inv_def cells_def lru_list_def)
  have "length L \<le> block_capacity c" using inv_length [OF inv] by simp
  from clear_loop_list [OF l(1-3) this] obtain c' where
    c': "clear_loop (block_capacity c) (lru_head c) ?c0 = Some c'" "chain (elements c') (free_list c') (rev L @ F)"
      "same_content ?c0 c'" "key_table c' = Map.empty"
    using l(4) by auto
  have "cache_inv (c'\<lparr>lru_head := None, lru_tail := None\<rparr>) [] (rev L @ F)"
    using c' inv l(3) s by (auto simp: cache_inv_def cells_def lru_list_def key_table_ok_def same_content_def blocks_of_def)
  then have "holds (c'\<lparr>lru_head := None, lru_tail := None\<rparr>) cap []"
    using c'(3) cap by (auto simp: holds_def same_content_def)
  then show ?thesis using c'(1) by (simp add: cache_clear_def)
qed

lemma items_holds:
  assumes h: "holds c cap A"
  shows "cache_items c = Some A" and "distinct (map fst A)" and "length A \<le> cache_limit cap"
    and "cache_is_empty c \<longleftrightarrow> A = []" and "cache_has_key k c \<longleftrightarrow> k \<in> fst ` set A"
proof -
  from h obtain L F where inv: "cache_inv c L F" and A: "A = map (item c) L" and cap: "max_elements c = cap"
    by (auto simp: holds_def)
  have t: "key_table_ok c L" "distinct L" using inv_table [OF inv] by simp_all
  have "linked (elements c) p M None \<Longrightarrow> length M \<le> n \<Longrightarrow> list_items n (first_of M) c = Some (map (item c) M)" for n p M
  proof (induction M arbitrary: n p)
    case (Cons a M)
    then show ?case by (cases n) (auto simp: item_def split: if_splits)
  qed simp
  moreover have "linked (elements c) None L None" "lru_head c = first_of L"
    using inv by (auto simp: cache_inv_def cells_def lru_list_def)
  moreover have "length L \<le> block_capacity c" using inv_length [OF inv] by simp
  ultimately show "cache_items c = Some A" by (simp add: A cache_items_def)
  show "distinct (map fst A)" using table_inj [OF t(1)] t(2) by (simp add: A distinct_map comp_def)
  show "length A \<le> cache_limit cap" using inv_length [OF inv] inv_limit [OF inv] cap by (simp add: A)
  show "cache_is_empty c \<longleftrightarrow> A = []" using \<open>lru_head c = _\<close> by (simp add: cache_is_empty_def A first_of_def)
  show "cache_has_key k c \<longleftrightarrow> k \<in> fst ` set A" using table_absent [OF t(1), of k] by (auto simp: cache_has_key_def A)
qed

lemma new_cache_holds: "holds (new_cache k0 v0 cap) cap []"
proof -
  have "cache_inv (new_cache k0 v0 cap) [] []"
    using blocks_state_first [of cap]
    by (simp add: cache_inv_def cells_def lru_list_def new_cache_def key_table_ok_def blocks_of_def first_blocks_def)
  then show ?thesis by (auto simp: holds_def new_cache_def)
qed

section \<open>Sequences of operations\<close>

datatype ('k, 'v) lru_op = Insert_Op 'k 'v | Lookup_Op 'k | Peek_Op 'k | Erase_Op 'k | Has_Op 'k | Clear_Op | Items_Op

datatype ('k, 'v) lru_result = Done | Found "'v option" | Flag bool | Items "('k \<times> 'v) list option"

fun lru_step :: "('k, 'v) lru_op \<Rightarrow> ('k, 'v) lru_cache \<Rightarrow> (('k, 'v) lru_result \<times> ('k, 'v) lru_cache) option" where
  "lru_step (Insert_Op k v) c = map_option (\<lambda>c1. (Done, c1)) (cache_insert k v c)"
| "lru_step (Lookup_Op k) c = (let (v, c1) = mutable_lookup k c in Some (Found v, c1))"
| "lru_step (Peek_Op k) c = Some (Found (lookup_without_insert k c), c)"
| "lru_step (Erase_Op k) c = map_option (\<lambda>(b, c1). (Flag b, c1)) (cache_erase k c)"
| "lru_step (Has_Op k) c = Some (Flag (cache_has_key k c), c)"
| "lru_step Clear_Op c = map_option (\<lambda>c1. (Done, c1)) (cache_clear c)"
| "lru_step Items_Op c = Some (Items (cache_items c), c)"

fun spec_step :: "nat \<Rightarrow> ('k, 'v) lru_op \<Rightarrow> ('k \<times> 'v) list \<Rightarrow> ('k, 'v) lru_result \<times> ('k \<times> 'v) list" where
  "spec_step lim (Insert_Op k v) A = (Done, spec_insert lim k v A)"
| "spec_step lim (Lookup_Op k) A = (Found (map_of A k), spec_lookup k A)"
| "spec_step lim (Peek_Op k) A = (Found (map_of A k), A)"
| "spec_step lim (Erase_Op k) A = (Flag (map_of A k \<noteq> None), filter (\<lambda>p. fst p \<noteq> k) A)"
| "spec_step lim (Has_Op k) A = (Flag (k \<in> fst ` set A), A)"
| "spec_step lim Clear_Op A = (Done, [])"
| "spec_step lim Items_Op A = (Items (Some A), A)"

definition lru_related :: "nat \<Rightarrow> ('k, 'v) lru_cache \<Rightarrow> ('k \<times> 'v) list \<Rightarrow> bool" where
  "lru_related cap c A \<longleftrightarrow> holds c (Suc cap) A"

interpretation lru: simulation lru_step "spec_step (cache_limit (Suc cap))" "lru_related cap" for cap
proof
  fix c :: "('k, 'v) lru_cache" and A p
  assume "lru_related cap c A"
  then have h: "holds c (Suc cap) A" by (simp add: lru_related_def)
  show "\<exists>c'. lru_step p c = Some (fst (spec_step (cache_limit (Suc cap)) p A), c') \<and>
      lru_related cap c' (snd (spec_step (cache_limit (Suc cap)) p A))"
  proof (cases p)
    case (Insert_Op k v)
    then show ?thesis using cache_insert_holds [OF h, of k v] by (auto simp: lru_related_def)
  next
    case (Lookup_Op k)
    then show ?thesis using lookup_holds(1,2) [OF h, of k] by (auto simp: lru_related_def case_prod_beta)
  next
    case (Erase_Op k)
    then show ?thesis using erase_holds [OF h, of k] by (auto simp: lru_related_def)
  next
    case Clear_Op
    then show ?thesis using clear_holds [OF h] by (auto simp: lru_related_def)
  qed (use h lookup_holds(3) [OF h] items_holds(1,5) [OF h] in \<open>auto simp: lru_related_def\<close>)
qed

text \<open>
  C12: (the LRU cache implements its list) started empty with a positive \<open>max_elements\<close>, the linked cells answer every
  sequence of insertions, lookups, erasures, clears and iterations as the list of pairs in order of use does, no
  \<open>CHECK\<close> ever fails, and the cache holds at most \<open>cache_limit\<close> pairs, which is at most \<open>max_elements\<close>.
\<close>

theorem lru_refines:
  assumes "0 < cap"
  shows "\<exists>c. run_ops lru_step ps (new_cache k0 v0 cap) = Some (fst (run_spec (spec_step (cache_limit cap)) ps []), c) \<and>
     cache_items c = Some (snd (run_spec (spec_step (cache_limit cap)) ps [])) \<and>
     length (snd (run_spec (spec_step (cache_limit cap)) ps [])) \<le> cache_limit cap \<and> cache_limit cap \<le> cap"
proof -
  obtain n where cap: "cap = Suc n" using assms by (cases cap) auto
  have "lru_related n (new_cache k0 v0 cap) []" by (simp add: lru_related_def cap new_cache_holds)
  from lru.run_sim [OF this, of ps] obtain c where
    "run_ops lru_step ps (new_cache k0 v0 cap) = Some (fst (run_spec (spec_step (cache_limit cap)) ps []), c)"
    and h: "holds c cap (snd (run_spec (spec_step (cache_limit cap)) ps []))"
    unfolding cap lru_related_def by blast
  then show ?thesis using items_holds(1,3) [OF h] cache_limit_le by blast
qed

lemma grow_pair: "grow cap (n, capacity, sz) =
    (if n < max_blocks \<and> capacity < cap then (n + 1, capacity + sz, next_size cap (n + 1) (capacity + sz) sz)
     else (n, capacity, sz))"
  by (simp add: grow_def)

lemma limit_unroll:
  "cache_limit cap = (let f = grow cap in fst (snd (f (f (f (f (f (f (f (f (f (f (first_blocks cap)))))))))))))"
  by (simp add: cache_limit_def max_blocks_def eval_nat_numeral Let_def)

lemmas limit_eval = limit_unroll first_blocks_def grow_pair next_size_def Let_def max_blocks_def

lemma small_limit: "cache_limit 2 = 2"
  by (simp add: limit_eval)

theorem lru_refines_witness:
  "\<exists>c. run_ops lru_step [Insert_Op 1 10, Insert_Op 2 20, Lookup_Op 1, Insert_Op 3 30, Peek_Op (2::nat), Erase_Op 1, Items_Op]
      (new_cache 0 (0::nat) 2) =
      Some ([Done, Done, Found (Some 10), Done, Found None, Flag True, Items (Some [(3, 30)])], c)"
  using lru_refines [of 2 "[Insert_Op 1 10, Insert_Op 2 20, Lookup_Op 1, Insert_Op 3 30, Peek_Op (2::nat), Erase_Op 1, Items_Op]" 0 "0::nat"]
  by (auto simp: small_limit spec_insert_def spec_lookup_def)

text \<open>
  The blocks can stop short of \<open>max_elements\<close>: with 65500 elements asked for, the ten blocks end at 65472: the loop
  of the constructor takes the last block to be \<open>2 ^ 10\<close> times as big as the first, and it is \<open>2 ^ 9\<close> times.
\<close>

lemma lru_limit_short: "cache_limit 65500 = 65472"
  by (simp add: limit_eval first_block_size.simps [of 64])

end
