(* ===== verification/Bit_Stream.thy ===== *)
theory Bit_Stream
  imports Prelude
begin

text \<open>
  Bit streams (\<open>storage/louds/bit_stream.cc\<close>) and unaligned loads (\<open>base/bits.h\<close>).  A pointer into
  an image is an offset into its bytes; a load that would read past the end is \<open>None\<close>, as is a failed
  \<open>CHECK\<close>.  The theorems show that the stream stores the bits pushed, in order and zero-padded, and
  that \<open>PushInt32\<close> writes what \<open>LoadUnaligned\<close> reads.
\<close>

unbundle bit_operations_syntax

section \<open>Words and bits\<close>

text \<open>\<open>LoadUnaligned<uint32_t>\<close> on a little endian machine.\<close>

definition load32 :: "bytes \<Rightarrow> nat \<Rightarrow> 32 word option" where
  "load32 data p =
     (if p + 4 \<le> length data then
        Some (word_of_nat (ord_of (data ! p)) OR push_bit 8 (word_of_nat (ord_of (data ! (p + 1)))) OR
          push_bit 16 (word_of_nat (ord_of (data ! (p + 2)))) OR push_bit 24 (word_of_nat (ord_of (data ! (p + 3)))))
      else None)"

text \<open>How many of the first \<open>n\<close> positions satisfy \<open>P\<close>; \<open>std::popcount\<close>.\<close>

definition count_below :: "(nat \<Rightarrow> bool) \<Rightarrow> nat \<Rightarrow> nat" where
  "count_below P n = length (filter P [0..<n])"

definition popcount :: "32 word \<Rightarrow> nat" where
  "popcount x = count_below (bit x) 32"

definition bit_count0 :: "32 word \<Rightarrow> nat" where
  "bit_count0 x = popcount (NOT x)"

section \<open>BitStream\<close>

record bit_stream =
  bs_image :: bytes
  bs_num_bits :: nat

definition empty_stream :: bit_stream where
  "empty_stream = \<lparr>bs_image = [], bs_num_bits = 0\<rparr>"

definition stream_push_bit :: "bool \<Rightarrow> bit_stream \<Rightarrow> bit_stream" where
  "stream_push_bit b s =
     (let shift = bs_num_bits s mod 8;
          img = (if shift = 0 then bs_image s @ [chr_of 0] else bs_image s)
      in s\<lparr>bs_image := butlast img @ [chr_of (ord_of (last img) OR push_bit shift (of_bool b))],
           bs_num_bits := bs_num_bits s + 1\<rparr>)"

definition fill_padding32 :: "bit_stream \<Rightarrow> bit_stream" where
  "fill_padding32 s =
     (let remaining = length (bs_image s) mod 4;
          img = (if remaining \<noteq> 0 then bs_image s @ replicate (4 - remaining) (chr_of 0) else bs_image s)
      in s\<lparr>bs_image := img, bs_num_bits := length img * 8\<rparr>)"

definition push_int32 :: "nat \<Rightarrow> bytes \<Rightarrow> bytes option" where
  "push_int32 value img =
     (if 0xFFFFFFFF < value then None
      else Some (img @ [chr_of (value AND 0xFF), chr_of (drop_bit 8 value AND 0xFF),
        chr_of (drop_bit 16 value AND 0xFF), chr_of (drop_bit 24 value AND 0xFF)]))"

section \<open>Counting\<close>

definition stored_bit :: "bytes \<Rightarrow> nat \<Rightarrow> bool" where
  "stored_bit data i = bit (ord_of (data ! (i div 8)) :: nat) (i mod 8)"

lemma count_below_0 [simp]: "count_below P 0 = 0"
  by (simp add: count_below_def)

lemma count_below_Suc [simp]: "count_below P (Suc n) = count_below P n + of_bool (P n)"
  by (simp add: count_below_def)

lemma count_below_add: "count_below P (m + n) = count_below P m + count_below (\<lambda>i. P (m + i)) n"
  by (induction n) auto

lemma count_below_cong: "(\<And>i. i < n \<Longrightarrow> P i = Q i) \<Longrightarrow> count_below P n = count_below Q n"
  by (induction n) auto

lemma count_below_none: "(\<And>i. i < n \<Longrightarrow> \<not> P i) \<Longrightarrow> count_below P n = 0"
  by (induction n) auto

lemma count_below_mono: "m \<le> n \<Longrightarrow> count_below P m \<le> count_below P n"
  by (induction n) (auto simp: le_Suc_eq)

lemma count_below_le: "count_below P n \<le> n"
  by (induction n) auto

lemma count_below_compl: "count_below (\<lambda>i. \<not> P i) n + count_below P n = n"
  by (induction n) auto

lemma count_below_not: "count_below (\<lambda>i. \<not> P i) n = n - count_below P n"
  using count_below_compl [of P n] by simp

lemma byte_bit_high: "8 \<le> j \<Longrightarrow> \<not> bit (ord_of c :: nat) j"
proof
  assume j: "8 \<le> j" and b: "bit (ord_of c :: nat) j"
  have "(ord_of c :: nat) < 2 ^ 8" by simp
  also have "\<dots> \<le> 2 ^ j" using j by (intro power_increasing) auto
  finally have "(ord_of c :: nat) div 2 ^ j = 0" by simp
  with b show False by (simp add: bit_iff_odd)
qed

lemma load32_bit:
  assumes "load32 data p = Some w" "i < 32"
  shows "bit w i = stored_bit data (8 * p + i)"
proof -
  define b where "b k = (ord_of (data ! (p + k)) :: nat)" for k
  have w: "w = word_of_nat (b 0) OR push_bit 8 (word_of_nat (b 1)) OR push_bit 16 (word_of_nat (b 2)) OR
      push_bit 24 (word_of_nat (b 3))"
    using assms by (auto simp: load32_def b_def split: if_splits)
  have high: "\<not> bit (b k) j" if "8 \<le> j" for k j using that by (simp add: b_def byte_bit_high)
  have wb: "bit w i \<longleftrightarrow> bit (b 0) i \<or> (8 \<le> i \<and> bit (b 1) (i - 8)) \<or> (16 \<le> i \<and> bit (b 2) (i - 16)) \<or>
      (24 \<le> i \<and> bit (b 3) (i - 24))"
    using assms(2) by (auto simp: w bit_or_iff bit_push_bit_iff bit_of_nat_iff)
  have sb: "stored_bit data (8 * p + i) = bit (b (i div 8)) (i mod 8)"
    by (simp add: stored_bit_def b_def)
  consider "i div 8 = 0" | "i div 8 = 1" | "i div 8 = 2" | "i div 8 = 3" using assms(2) by linarith
  then show ?thesis
  proof cases
    case 1
    then have "i < 8" "i mod 8 = i" by auto
    with 1 show ?thesis unfolding wb sb by simp
  next
    case 2
    then have "8 \<le> i" "i < 16" "i mod 8 = i - 8" by (auto simp: modulo_nat_def)
    with 2 show ?thesis unfolding wb sb by (simp add: high)
  next
    case 3
    then have "16 \<le> i" "i < 24" "i mod 8 = i - 16" by (auto simp: modulo_nat_def)
    with 3 show ?thesis unfolding wb sb by (simp add: high)
  next
    case 4
    then have "24 \<le> i" "i mod 8 = i - 24" by (auto simp: modulo_nat_def)
    with 4 show ?thesis unfolding wb sb by (simp add: high)
  qed
qed

lemma load32_Some: "p + 4 \<le> length data \<Longrightarrow> \<exists>w. load32 data p = Some w"
  by (simp add: load32_def)



section \<open>What a stream holds\<close>

text \<open>The image holds the bits of \<open>bs\<close> and zeros after them.\<close>

definition holds_bits :: "bytes \<Rightarrow> bool list \<Rightarrow> bool" where
  "holds_bits img bs \<longleftrightarrow>
     length bs \<le> 8 * length img \<and> (\<forall>i < 8 * length img. stored_bit img i = (i < length bs \<and> bs ! i))"

definition stream_ok :: "bit_stream \<Rightarrow> bool list \<Rightarrow> bool" where
  "stream_ok s bs \<longleftrightarrow>
     bs_num_bits s = length bs \<and> length (bs_image s) = (length bs + 7) div 8 \<and> holds_bits (bs_image s) bs"

lemma stored_bit_append1: "i < 8 * length xs \<Longrightarrow> stored_bit (xs @ ys) i = stored_bit xs i"
  by (simp add: stored_bit_def nth_append less_mult_imp_div_less mult.commute)

lemma stored_bit_append2: "stored_bit (xs @ ys) (8 * length xs + i) = stored_bit ys i"
  by (simp add: stored_bit_def nth_append)

lemma stored_bit_zero: "c = chr_of 0 \<Longrightarrow> i < 8 * n \<Longrightarrow> \<not> stored_bit (replicate n c) i"
  by (simp add: stored_bit_def less_mult_imp_div_less mult.commute)

lemma holds_bits_padding:
  assumes "holds_bits img bs"
  shows "holds_bits (img @ replicate n (chr_of 0)) bs"
proof -
  have "stored_bit (img @ replicate n (chr_of 0)) i = (i < length bs \<and> bs ! i)" if "i < 8 * (length img + n)" for i
  proof (cases "i < 8 * length img")
    case True
    then show ?thesis using assms by (simp add: holds_bits_def stored_bit_append1)
  next
    case False
    then obtain j where j: "i = 8 * length img + j" using le_Suc_ex by (metis not_less)
    then have "\<not> stored_bit (img @ replicate n (chr_of 0)) i"
      using that stored_bit_zero [of "chr_of 0" j n] by (simp add: stored_bit_append2)
    then show ?thesis using False assms by (auto simp: holds_bits_def)
  qed
  then show ?thesis using assms by (simp add: holds_bits_def)
qed

lemma holds_bits_set:
  assumes h: "holds_bits img bs" and len: "length img = Suc (length bs div 8)"
  shows "holds_bits (butlast img @ [chr_of (ord_of (last img) OR push_bit (length bs mod 8) (of_bool b))]) (bs @ [b])"
proof -
  let ?n = "length bs" and ?img = "butlast img @ [chr_of (ord_of (last img) OR push_bit (length bs mod 8) (of_bool b))]"
  have ne: "img \<noteq> []" using len by auto
  have n: "?n < 8 * length img" using len by auto
  have "stored_bit ?img i = (i < Suc ?n \<and> (bs @ [b]) ! i)" if i: "i < 8 * length img" for i
  proof (cases "i div 8 = length img - 1")
    case False
    then have "i div 8 < length img - 1" using i by auto
    then have "stored_bit ?img i = stored_bit img i" by (simp add: stored_bit_def nth_append nth_butlast)
    moreover have "i < ?n" using \<open>i div 8 < length img - 1\<close> len by (simp add: div_less_iff_less_mult)
    ultimately show ?thesis using h i by (simp add: holds_bits_def nth_append)
  next
    case True
    have last: "bit (ord_of (last img) :: nat) (i mod 8) = (i < ?n \<and> bs ! i)"
    proof -
      have "img ! (i div 8) = last img" using True ne by (simp add: last_conv_nth)
      moreover have "stored_bit img i = (i < ?n \<and> bs ! i)" using h i by (simp add: holds_bits_def)
      ultimately show ?thesis by (simp add: stored_bit_def)
    qed
    have eq: "i mod 8 = ?n mod 8 \<longleftrightarrow> i = ?n" using True len by (metis diff_Suc_1 div_mult_mod_eq)
    define V where "V = (ord_of (last img) :: nat) OR push_bit (?n mod 8) (of_bool b)"
    have "stored_bit ?img i = bit (ord_of (chr_of V) :: nat) (i mod 8)"
      using True by (simp add: stored_bit_def nth_append V_def del: of_char_of)
    also have "\<dots> = bit V (i mod 8)"
      by (simp add: bit_take_bit_iff flip: take_bit_eq_mod [of 8, simplified])
    also have "\<dots> = bit ((ord_of (last img) :: nat) OR push_bit (?n mod 8) (of_bool b)) (i mod 8)"
      by (simp only: V_def)
    also have "\<dots> \<longleftrightarrow> (i < ?n \<and> bs ! i) \<or> (i = ?n \<and> b)"
      by (auto simp: bit_or_iff bit_push_bit_iff last bit_0 bit_Suc_0_iff bit_1_iff simp flip: eq)
    finally show ?thesis by (auto simp: nth_append)
  qed
  then show ?thesis using n ne by (auto simp: holds_bits_def)
qed


lemma empty_stream_ok: "stream_ok empty_stream []"
  by (simp add: stream_ok_def empty_stream_def holds_bits_def)

lemma stream_push_bit_ok:
  assumes "stream_ok s bs"
  shows "stream_ok (stream_push_bit b s) (bs @ [b])"
proof (cases "length bs mod 8 = 0")
  case True
  define img where "img = bs_image s @ [chr_of 0]"
  have "holds_bits img bs"
    using assms holds_bits_padding [of "bs_image s" bs 1] by (simp add: stream_ok_def img_def)
  moreover have len: "length img = Suc (length bs div 8)"
    using assms True by (auto simp: stream_ok_def img_def)
  ultimately have "holds_bits (butlast img @ [chr_of (ord_of (last img) OR push_bit (length bs mod 8) (of_bool b))]) (bs @ [b])"
    by (rule holds_bits_set)
  then show ?thesis
    using assms True len by (simp add: stream_push_bit_def stream_ok_def Let_def img_def)
next
  case False
  have up: "(length bs + 7) div 8 = Suc (length bs div 8)"
  proof -
    have "length bs + 7 = 8 * (length bs div 8) + (length bs mod 8 + 7)" by simp
    also have "\<dots> div 8 = length bs div 8 + (length bs mod 8 + 7) div 8" by (rule div_mult_self4) simp
    also have "(length bs mod 8 + 7) div 8 = 1" using False mod_less_divisor [of 8 "length bs"]
      by (intro div_nat_eqI) auto
    finally show ?thesis by simp
  qed
  then have "length (bs_image s) = Suc (length bs div 8)" using assms by (simp add: stream_ok_def)
  moreover have "holds_bits (bs_image s) bs" using assms by (simp add: stream_ok_def)
  ultimately show ?thesis
    using assms False holds_bits_set [of "bs_image s" bs b] up
    by (simp add: stream_push_bit_def stream_ok_def Let_def)
qed

lemma fill_padding32_holds:
  assumes "stream_ok s bs"
  shows "holds_bits (bs_image (fill_padding32 s)) bs" and "4 dvd length (bs_image (fill_padding32 s))"
    and "bs_num_bits (fill_padding32 s) = 8 * length (bs_image (fill_padding32 s))"
proof -
  have h: "holds_bits (bs_image s) bs" using assms by (simp add: stream_ok_def)
  then show "holds_bits (bs_image (fill_padding32 s)) bs"
    by (simp add: fill_padding32_def Let_def holds_bits_padding)
  show "4 dvd length (bs_image (fill_padding32 s))"
  proof -
    have "length (bs_image s) + (4 - length (bs_image s) mod 4) = (length (bs_image s) - length (bs_image s) mod 4) + 4"
      using mod_less_divisor [of 4 "length (bs_image s)"] by (simp add: mod_less_eq_dividend)
    moreover have "4 dvd (length (bs_image s) - length (bs_image s) mod 4) + 4"
      by (intro dvd_add dvd_minus_mod dvd_refl)
    ultimately show ?thesis by (auto simp: fill_padding32_def Let_def mod_eq_0_iff_dvd)
  qed
  show "bs_num_bits (fill_padding32 s) = 8 * length (bs_image (fill_padding32 s))"
    by (simp add: fill_padding32_def Let_def)
qed

lemma push_bits_ok: "stream_ok s bs \<Longrightarrow> stream_ok (fold stream_push_bit cs s) (bs @ cs)"
proof (induction cs arbitrary: s bs)
  case (Cons c cs)
  from Cons.IH [OF stream_push_bit_ok [OF Cons.prems, of c]] show ?case by simp
qed simp

lemma load32_push_int32:
  assumes "push_int32 v img = Some img'"
  shows "load32 (img' @ rest) (length img) = Some (word_of_nat v)" and "length img' = length img + 4"
    and "take (length img) img' = img" and "v < 2 ^ 32"
proof -
  have v: "v \<le> 0xFFFFFFFF" and img': "img' = img @ map (\<lambda>k. chr_of (take_bit 8 (drop_bit (8 * k) v))) [0, 1, 2, 3]"
    using assms by (auto simp: push_int32_def take_bit_eq_mask mask_eq_exp_minus_1 split: if_splits)
  have byte: "take_bit 8 x mod 256 = take_bit 8 x" for x :: nat by (simp add: take_bit_eq_mod)
  show "load32 (img' @ rest) (length img) = Some (word_of_nat v)"
    unfolding img'
  proof (simp add: load32_def nth_append, rule bit_word_eqI, goal_cases)
    case (1 n)
    then have "n < 32" by simp
    then consider "n < 8" | "8 \<le> n" "n < 16" | "16 \<le> n" "n < 24" | "24 \<le> n" "n < 32" by linarith
    then show ?case by cases (auto simp: bit_or_iff bit_push_bit_iff bit_of_nat_iff byte bit_take_bit_iff bit_drop_bit_eq)
  qed
  show "length img' = length img + 4" "take (length img) img' = img" by (simp_all add: img')
  show "v < 2 ^ 32" using v by simp
qed

end
