(* ===== verification/Base_Words.thy ===== *)
theory Base_Words
  imports Bit_Stream
begin

text \<open>
  Words of the base library: \<open>StoreUnaligned\<close> of \<open>base/bits.h\<close> for 32 bits, and the legacy fingerprints of \<open>base/hash.cc\<close>.
\<close>

section \<open>Stored words\<close>

definition store32 :: "32 word \<Rightarrow> bytes" where
  "store32 value = map (\<lambda>k. chr_of (unat (drop_bit (8 * k) value AND 0xFF))) [0, 1, 2, 3]"

lemma store32_length [simp]: "length (store32 w) = 4"
  by (simp add: store32_def)

lemma store32_push: "push_int32 (unat w) img = Some (img @ store32 w)"
proof -
  have b: "unat (w AND 0xFF) = unat w AND 0xFF" for w :: "32 word" by (simp add: unsigned_and_eq)
  have l: "unat w < 2 ^ 32" using unsigned_less [of w] by simp
  then show ?thesis
    by (simp add: push_int32_def store32_def b unsigned_drop_bit_eq take_bit_nat_eq_self [OF l])
qed

lemma load32_store32: "load32 (img @ store32 w @ rest) (length img) = Some w"
  using load32_push_int32(1) [OF store32_push, of img w rest] by simp

lemma load32_store32_0: "load32 (store32 w @ rest) 0 = Some w"
  using load32_store32 [of "[]"] by simp

lemma load32_append: "load32 (a @ b) (length a + p) = load32 b p"
  by (simp add: load32_def nth_append)

lemma load32_concat: "i < length ws \<Longrightarrow> load32 (concat (map store32 ws)) (4 * i) = Some (ws ! i)"
proof (induction ws arbitrary: i)
  case (Cons w ws)
  show ?case
  proof (cases i)
    case 0
    then show ?thesis using load32_store32_0 [of w "concat (map store32 ws)"] by simp
  next
    case (Suc j)
    have "load32 (store32 w @ concat (map store32 ws)) (length (store32 w) + 4 * j) = Some (ws ! j)"
      unfolding load32_append using Cons Suc by simp
    then show ?thesis using Suc by simp
  qed
qed simp

lemma words_length: "length (concat (map store32 ws)) = 4 * length ws"
  by (induction ws) auto

section \<open>Legacy fingerprints\<close>

definition to_uint32 :: "char \<Rightarrow> char \<Rightarrow> char \<Rightarrow> char \<Rightarrow> 32 word" where
  "to_uint32 a b c d = word_of_nat (ord_of a) + push_bit 8 (word_of_nat (ord_of b)) + push_bit 16 (word_of_nat (ord_of c)) +
     push_bit 24 (word_of_nat (ord_of d))"

definition mix :: "32 word \<times> 32 word \<times> 32 word \<Rightarrow> 32 word \<times> 32 word \<times> 32 word" where
  "mix abc =
     (let (a, b, c) = abc;
          a = (a - b - c) XOR drop_bit 13 c; b = (b - c - a) XOR push_bit 8 a; c = (c - a - b) XOR drop_bit 13 b;
          a = (a - b - c) XOR drop_bit 12 c; b = (b - c - a) XOR push_bit 16 a; c = (c - a - b) XOR drop_bit 5 b;
          a = (a - b - c) XOR drop_bit 3 c; b = (b - c - a) XOR push_bit 10 a; c = (c - a - b) XOR drop_bit 15 b
      in (a, b, c))"

function mix_blocks :: "bytes \<Rightarrow> 32 word \<times> 32 word \<times> 32 word \<Rightarrow> bytes \<times> 32 word \<times> 32 word \<times> 32 word" where
  "mix_blocks str abc =
     (if length str < 12 then (str, abc)
      else let (a, b, c) = abc in
        mix_blocks (drop 12 str)
          (mix (a + to_uint32 (str ! 0) (str ! 1) (str ! 2) (str ! 3), b + to_uint32 (str ! 4) (str ! 5) (str ! 6) (str ! 7),
                c + to_uint32 (str ! 8) (str ! 9) (str ! 10) (str ! 11))))"
  by pat_completeness auto
termination
  by (relation "measure (\<lambda>(str, abc). length str)") auto

declare mix_blocks.simps [simp del]

text \<open>The \<open>switch\<close> over the rest falls through from its size to the first byte.\<close>

definition rest_byte :: "bytes \<Rightarrow> nat \<Rightarrow> nat \<Rightarrow> 32 word" where
  "rest_byte str i k = (if i < length str then push_bit k (word_of_nat (ord_of (str ! i))) else 0)"

definition legacy_fingerprint32_with_seed :: "bytes \<Rightarrow> 32 word \<Rightarrow> 32 word" where
  "legacy_fingerprint32_with_seed str seed =
     (let (rest, a, b, c) = mix_blocks str (0x9e3779b9, 0x9e3779b9, seed);
          c = c + word_of_nat (length str) + rest_byte rest 10 24 + rest_byte rest 9 16 + rest_byte rest 8 8;
          b = b + rest_byte rest 7 24 + rest_byte rest 6 16 + rest_byte rest 5 8 + rest_byte rest 4 0;
          a = a + rest_byte rest 3 24 + rest_byte rest 2 16 + rest_byte rest 1 8 + rest_byte rest 0 0
      in snd (snd (mix (a, b, c))))"

definition kFingerPrint32Seed :: "32 word" where "kFingerPrint32Seed = 0xfd12deff"
definition kFingerPrintSeed0 :: "32 word" where "kFingerPrintSeed0 = 0x6d6f"
definition kFingerPrintSeed1 :: "32 word" where "kFingerPrintSeed1 = 0x7a63"

definition legacy_fingerprint32 :: "bytes \<Rightarrow> 32 word" where
  "legacy_fingerprint32 str = legacy_fingerprint32_with_seed str kFingerPrint32Seed"

definition legacy_fingerprint_with_seed :: "bytes \<Rightarrow> 32 word \<Rightarrow> 64 word" where
  "legacy_fingerprint_with_seed str seed =
     (let hi = legacy_fingerprint32_with_seed str seed;
          lo = legacy_fingerprint32_with_seed str kFingerPrintSeed1;
          result = push_bit 32 (ucast hi) OR ucast lo
      in if hi = 0 \<and> lo < 2 then result XOR 0x130f9bef94a0a928 else result)"

definition legacy_fingerprint :: "bytes \<Rightarrow> 64 word" where
  "legacy_fingerprint str = legacy_fingerprint_with_seed str kFingerPrintSeed0"

section \<open>Evaluation and splitting of fingerprints\<close>

lemma mix_blocks_short: "length str < 12 \<Longrightarrow> mix_blocks str abc = (str, abc)"
  by (simp add: mix_blocks.simps)

text \<open>One step of \<open>mix\<close> after the other, so that it is evaluated on numerals.\<close>

lemma mix_steps:
  fixes a b c ax b_x cx ay b_y cy az b_z cz :: "32 word"
  assumes "ax = (a - b - c) XOR drop_bit 13 c" "b_x = (b - c - ax) XOR push_bit 8 ax" "cx = (c - ax - b_x) XOR drop_bit 13 b_x"
    "ay = (ax - b_x - cx) XOR drop_bit 12 cx" "b_y = (b_x - cx - ay) XOR push_bit 16 ay" "cy = (cx - ay - b_y) XOR drop_bit 5 b_y"
    "az = (ay - b_y - cy) XOR drop_bit 3 cy" "b_z = (b_y - cy - az) XOR push_bit 10 az" "cz = (cy - az - b_z) XOR drop_bit 15 b_z"
  shows "mix (a, b, c) = (az, b_z, cz)"
  unfolding mix_def Let_def prod.case assms ..

lemma one_byte_fingerprint:
  "legacy_fingerprint32_with_seed [ch] seed = snd (snd (mix (0x9e3779b9 + word_of_nat (ord_of ch), 0x9e3779b9, seed + 1)))"
  by (simp add: legacy_fingerprint32_with_seed_def mix_blocks_short rest_byte_def Let_def)

lemma upper_half: "drop_bit 32 (legacy_fingerprint_with_seed str seed) = ucast (legacy_fingerprint32_with_seed str seed)"
  if "legacy_fingerprint32_with_seed str seed \<noteq> 0"
proof (rule bit_word_eqI, goal_cases)
  case (1 n)
  then show ?case using that
    by (auto simp: legacy_fingerprint_with_seed_def Let_def bit_drop_bit_eq bit_or_iff bit_push_bit_iff bit_unsigned_iff dest: bit_imp_le_length)
qed

lemma word_bytes_inj:
  assumes "map (\<lambda>k. chr_of (unat (drop_bit (8 * k) (v :: 64 word) AND 0xFF))) [0..<8] = map (\<lambda>k. chr_of (unat (drop_bit (8 * k) w AND 0xFF))) [0..<8]"
  shows "v = w"
proof (rule bit_word_eqI, goal_cases)
  case (1 n)
  define k where "k = n div 8"
  have k: "k < 8" "n = 8 * k + n mod 8" using 1 by (simp_all add: k_def)
  have "(chr_of (unat (drop_bit (8 * k) v AND 0xFF)) :: char) = chr_of (unat (drop_bit (8 * k) w AND 0xFF))"
    using assms k(1) by (simp add: list_eq_iff_nth_eq)
  moreover have "unat (x AND 0xFF) < 256" for x :: "64 word"
  proof -
    have "x AND 0xFF = take_bit 8 x" by (simp add: take_bit_eq_mask mask_eq_exp_minus_1)
    then have "unat (x AND 0xFF) = take_bit 8 (unat x)" by (simp add: unsigned_take_bit_eq)
    then show ?thesis by (simp add: take_bit_eq_mod)
  qed
  ultimately have "unat (drop_bit (8 * k) v AND 0xFF) = unat (drop_bit (8 * k) w AND 0xFF)"
    by (metis char_of_eq_iff mod_less of_char_of)
  then have "drop_bit (8 * k) v AND 0xFF = drop_bit (8 * k) w AND 0xFF" by (rule unsigned_word_eqI)
  then have "bit (drop_bit (8 * k) v AND mask 8) (n mod 8) = bit (drop_bit (8 * k) w AND mask 8) (n mod 8)"
    by (simp add: mask_eq_exp_minus_1)
  moreover have "n mod 8 < 64" by (rule less_trans [of _ 8]) simp_all
  ultimately show ?case using k(2) by (simp add: bit_and_iff bit_mask_iff bit_drop_bit_eq)
qed

end
