(* ===== verification/Existence_Filter.thy ===== *)
theory Existence_Filter
  imports Base_Words
begin

text \<open>
  The Bloom filter of \<open>storage/existence_filter.h\<close> and \<open>storage/existence_filter.cc\<close>: a bitmap in blocks of \<open>2 ^ 21\<close>
  bits, the builder, the serialized form and its reader.  Indexes and sizes are natural numbers below \<open>2 ^ 32\<close>, a read or write outside
  the blocks, a failed \<open>CHECK\<close> and a division by zero are \<open>None\<close>, an error status is \<open>Inl ()\<close>.  \<open>CityFingerprint\<close> is the
  parameter \<open>city\<close>; the rounded quotient of floats in \<open>CreateOptimal\<close> is an argument.  The theorems show that a filter never
  forgets an inserted key, also after it was written and read back, and that the reader accepts an empty bitmap.
\<close>

section \<open>Bitmaps in blocks\<close>

definition kBlockShift :: nat where "kBlockShift = 21"
definition kBlockBits :: nat where "kBlockBits = 2 ^ kBlockShift"
definition kBlockWords :: nat where "kBlockWords = kBlockBits div 2 ^ 5"

type_synonym blocks = "32 word list list"

text \<open>\<open>BlockDimensions\<close>: the number of blocks and the number of words in the last one.\<close>

definition block_dimensions :: "nat \<Rightarrow> nat \<times> nat" where
  "block_dimensions bits =
     (let bits_in_last_block = bits mod kBlockBits in
      if bits_in_last_block \<noteq> 0 then (bits div kBlockBits + 1, (bits_in_last_block + 31) div 32)
      else (bits div kBlockBits, kBlockWords))"

text \<open>\<open>subspan\<close> ends at the end of the buffer, \<open>remove_prefix\<close> must not go beyond it.  Without a block the count
  minus one wraps around, and the loop runs off the buffer.\<close>

fun split_blocks :: "nat \<Rightarrow> nat \<Rightarrow> 32 word list \<Rightarrow> blocks option" where
  "split_blocks 0 last_size buf = Some [take last_size buf]"
| "split_blocks (Suc n) last_size buf =
     (if length buf < kBlockWords then None
      else map_option ((#) (take kBlockWords buf)) (split_blocks n last_size (drop kBlockWords buf)))"

definition block_bitmap :: "nat \<Rightarrow> 32 word list \<Rightarrow> blocks option" where
  "block_bitmap bits buf =
     (let (count, last_size) = block_dimensions bits in if count = 0 then None else split_blocks (count - 1) last_size buf)"

definition new_block_bitmap_builder :: "nat \<Rightarrow> blocks option" where
  "new_block_bitmap_builder bits =
     (let (count, last_size) = block_dimensions bits in
      if bits = 0 \<or> count = 0 then None else Some (replicate (count - 1) (replicate kBlockWords 0) @ [replicate last_size 0]))"

definition bitmap_get :: "nat \<Rightarrow> blocks \<Rightarrow> bool option" where
  "bitmap_get index blocks =
     (let bindex = index div kBlockBits; windex = index mod kBlockBits div 32; bitpos = index mod 32 in
      if bindex < length blocks \<and> windex < length (blocks ! bindex)
      then Some (drop_bit bitpos (blocks ! bindex ! windex) AND 1 \<noteq> 0) else None)"

definition bitmap_set :: "nat \<Rightarrow> blocks \<Rightarrow> blocks option" where
  "bitmap_set index blocks =
     (let bindex = index div kBlockBits; windex = index mod kBlockBits div 32; bitpos = index mod 32 in
      if bindex < length blocks \<and> windex < length (blocks ! bindex)
      then Some (blocks[bindex := (blocks ! bindex)[windex := (blocks ! bindex ! windex) OR push_bit bitpos 1]]) else None)"

definition serialize_to :: "blocks \<Rightarrow> bytes" where
  "serialize_to blocks = concat (map store32 (concat blocks))"

section \<open>The filter\<close>

record filter_params =
  param_size :: nat
  expected_nelts :: nat
  num_hashes :: nat
  fp_type :: nat

record existence_filter =
  filter_params :: filter_params
  filter_rep :: blocks

definition FP_TYPE_SIZE :: nat where "FP_TYPE_SIZE = 2"
definition kHeaderSize :: nat where "kHeaderSize = 3"

definition fingerprint :: "(bytes \<Rightarrow> 64 word) \<Rightarrow> bytes \<Rightarrow> nat \<Rightarrow> 64 word" where
  "fingerprint city str fp = (if fp = 0 then legacy_fingerprint str else city str)"

text \<open>The indexes of a hash: it is rotated by a byte for each.\<close>

fun exists_hash :: "nat \<Rightarrow> 64 word \<Rightarrow> nat \<Rightarrow> blocks \<Rightarrow> bool option" where
  "exists_hash 0 hash bits blocks = Some True"
| "exists_hash (Suc n) hash bits blocks =
     (let hash = word_rotl 8 hash in
      if bits = 0 then None
      else Option.bind (bitmap_get (unat hash mod bits) blocks) (\<lambda>b. if \<not> b then Some False else exists_hash n hash bits blocks))"

fun insert_hash :: "nat \<Rightarrow> 64 word \<Rightarrow> nat \<Rightarrow> blocks \<Rightarrow> blocks option" where
  "insert_hash 0 hash bits blocks = Some blocks"
| "insert_hash (Suc n) hash bits blocks =
     (let hash = word_rotl 8 hash in
      if bits = 0 then None
      else Option.bind (bitmap_set (unat hash mod bits) blocks) (insert_hash n hash bits))"

definition filter_exists :: "(bytes \<Rightarrow> 64 word) \<Rightarrow> existence_filter \<Rightarrow> bytes \<Rightarrow> bool option" where
  "filter_exists city f key =
     exists_hash (num_hashes (filter_params f)) (fingerprint city key (fp_type (filter_params f))) (param_size (filter_params f))
       (filter_rep f)"

text \<open>The builder has the members of the filter.\<close>

definition new_filter_builder :: "filter_params \<Rightarrow> existence_filter option" where
  "new_filter_builder params =
     map_option (\<lambda>rep. \<lparr>filter_params = params, filter_rep = rep\<rparr>) (new_block_bitmap_builder (param_size params))"

definition create_optimal :: "(nat \<Rightarrow> nat \<Rightarrow> nat) \<Rightarrow> nat \<Rightarrow> nat \<Rightarrow> nat \<Rightarrow> existence_filter option" where
  "create_optimal rounded size_in_bytes estimated_insertions fp =
     (if \<not> (size_in_bytes < 2 ^ 29 \<and> 0 < estimated_insertions \<and> fp < FP_TYPE_SIZE) then None
      else
        let m = max 1 (size_in_bytes * 8); optimal_k = min 7 (max 1 (rounded m estimated_insertions)) in
        new_filter_builder \<lparr>param_size = m, expected_nelts = estimated_insertions, num_hashes = optimal_k, fp_type = fp\<rparr>)"

definition filter_insert :: "(bytes \<Rightarrow> 64 word) \<Rightarrow> bytes \<Rightarrow> existence_filter \<Rightarrow> existence_filter option" where
  "filter_insert city key b =
     map_option (\<lambda>rep. b\<lparr>filter_rep := rep\<rparr>)
       (insert_hash (num_hashes (filter_params b)) (fingerprint city key (fp_type (filter_params b))) (param_size (filter_params b))
         (filter_rep b))"

section \<open>The serialized form\<close>

definition bits_to_words :: "nat \<Rightarrow> nat" where
  "bits_to_words bits =
     (let words = (bits + 31) mod 2 ^ 32 div 2 ^ 5 in if 0 < bits \<and> words = 0 then 2 ^ (32 - 5) else words)"

definition serialize_as_string :: "existence_filter \<Rightarrow> bytes option" where
  "serialize_as_string b =
     (let p = filter_params b;
          required_bytes = (kHeaderSize + bits_to_words (param_size p)) * 4;
          written = store32 (word_of_nat (param_size p)) @ store32 (word_of_nat (expected_nelts p)) @
            store32 (word_of_nat (num_hashes p) OR push_bit 16 (word_of_nat (fp_type p))) @ serialize_to (filter_rep b)
      in if required_bytes < length written then None
         else Some (written @ replicate (required_bytes - length written) (chr_of 0)))"

definition read_header :: "32 word list \<Rightarrow> unit + filter_params" where
  "read_header buf =
     (if length buf < kHeaderSize then Inl ()
      else
        let v = buf ! 2; k = unat (v AND 0xFFFF); fp = unat (drop_bit 16 v) in
        if 8 \<le> k \<or> k = 0 then Inl () else if FP_TYPE_SIZE \<le> fp then Inl ()
        else Inr \<lparr>param_size = unat (buf ! 0), expected_nelts = unat (buf ! 1), num_hashes = k, fp_type = fp\<rparr>)"

definition filter_read :: "32 word list \<Rightarrow> (unit + existence_filter) option" where
  "filter_read buf =
     (case read_header buf of
        Inl e \<Rightarrow> Some (Inl e)
      | Inr params \<Rightarrow>
          let buf' = drop kHeaderSize buf in
          if length buf' < bits_to_words (param_size params) then Some (Inl ())
          else map_option (\<lambda>rep. Inr \<lparr>filter_params = params, filter_rep = rep\<rparr>) (block_bitmap (param_size params) buf'))"

section \<open>Bits of the blocks\<close>

definition block_bit :: "blocks \<Rightarrow> nat \<Rightarrow> bool" where
  "block_bit blocks i = bit (blocks ! (i div kBlockBits) ! (i mod kBlockBits div 32)) (i mod 32)"

text \<open>The shape of the blocks for a size.\<close>

definition shaped :: "nat \<Rightarrow> blocks \<Rightarrow> bool" where
  "shaped bits blocks \<longleftrightarrow>
     (let (count, last_size) = block_dimensions bits in
      0 < count \<and> map length blocks = replicate (count - 1) kBlockWords @ [last_size])"

lemma block_sizes: "kBlockBits = 2097152" "kBlockWords = 65536"
  by (simp_all add: kBlockBits_def kBlockShift_def kBlockWords_def)

lemma shaped_inside:
  assumes s: "shaped bits blocks" and i: "i < bits"
  shows "i div kBlockBits < length blocks" "i mod kBlockBits div 32 < length (blocks ! (i div kBlockBits))"
proof -
  obtain count last_size where d: "block_dimensions bits = (count, last_size)" by fastforce
  have l: "map length blocks = replicate (count - 1) kBlockWords @ [last_size]" "0 < count" using s d by (simp_all add: shaped_def)
  have len: "length blocks = count" using arg_cong [OF l(1), of length] l(2) by simp
  have q: "i div kBlockBits \<le> bits div kBlockBits" using i by (simp add: div_le_mono)
  have low: "i mod kBlockBits div 32 < kBlockWords" by (simp add: block_sizes)
  have at: "length (blocks ! b) = (if b < count - 1 then kBlockWords else last_size)" if "b < count" for b
    using arg_cong [OF l(1), of "\<lambda>xs. xs ! b"] that len by (auto simp: nth_append)
  have "i div kBlockBits < count \<and> i mod kBlockBits div 32 < length (blocks ! (i div kBlockBits))"
  proof (cases "bits mod kBlockBits = 0")
    case True
    then have c: "count = bits div kBlockBits" "last_size = kBlockWords" using d by (simp_all add: block_dimensions_def)
    have "i div kBlockBits < bits div kBlockBits"
      using i True by (metis c(1) l(2) div_less_iff_less_mult mult_div_mod_eq add.right_neutral mult.commute zero_less_numeral block_sizes(1))
    then show ?thesis using at [of "i div kBlockBits"] c low by simp
  next
    case False
    then have c: "count = bits div kBlockBits + 1" "last_size = (bits mod kBlockBits + 31) div 32"
      using d by (simp_all add: block_dimensions_def Let_def)
    have "i mod kBlockBits div 32 < last_size" if "i div kBlockBits = bits div kBlockBits"
    proof -
      have "i mod kBlockBits < bits mod kBlockBits" using that i by (metis add_less_cancel_left mult_div_mod_eq)
      then show ?thesis unfolding c(2) by linarith
    qed
    then show ?thesis using at [of "i div kBlockBits"] c(1) q low by (cases "i div kBlockBits = bits div kBlockBits") simp_all
  qed
  then show "i div kBlockBits < length blocks" "i mod kBlockBits div 32 < length (blocks ! (i div kBlockBits))" using len by simp_all
qed

lemma new_bitmap_shaped: "0 < bits \<Longrightarrow> \<exists>blocks. new_block_bitmap_builder bits = Some blocks \<and> shaped bits blocks"
proof -
  assume b: "0 < bits"
  obtain count last_size where d: "block_dimensions bits = (count, last_size)" by fastforce
  have "0 < count"
  proof (rule ccontr)
    assume "\<not> 0 < count"
    then have "bits mod kBlockBits = 0" "bits div kBlockBits = 0" using d by (auto simp: block_dimensions_def Let_def split: if_splits)
    then show False using b by (metis mult_div_mod_eq add_0 mult_0_right less_irrefl)
  qed
  then show ?thesis using b d by (simp add: new_block_bitmap_builder_def shaped_def)
qed

lemma bitmap_get_bit:
  assumes "shaped bits blocks" "i < bits"
  shows "bitmap_get i blocks = Some (block_bit blocks i)"
  using shaped_inside [OF assms]
  by (simp add: bitmap_get_def block_bit_def Let_def bit_iff_odd and_one_eq odd_iff_mod_2_eq_one drop_bit_eq_div)

lemma index_parts: "i = j \<longleftrightarrow> i div kBlockBits = j div kBlockBits \<and> i mod kBlockBits div 32 = j mod kBlockBits div 32 \<and> i mod 32 = j mod 32"
  for i j :: nat
proof
  assume p: "i div kBlockBits = j div kBlockBits \<and> i mod kBlockBits div 32 = j mod kBlockBits div 32 \<and> i mod 32 = j mod 32"
  have "x mod kBlockBits mod 32 = x mod 32" for x by (rule mod_mod_cancel) (simp add: block_sizes)
  then have "i mod kBlockBits = j mod kBlockBits" using p by (metis div_mod_decomp)
  then show "i = j" using p by (metis div_mod_decomp)
qed simp

lemma bitmap_set_bit:
  assumes "shaped bits blocks" "i < bits"
  obtains blocks' where "bitmap_set i blocks = Some blocks'" "shaped bits blocks'"
    "\<And>j. j < bits \<Longrightarrow> block_bit blocks' j \<longleftrightarrow> j = i \<or> block_bit blocks j"
proof -
  let ?b = "i div kBlockBits" and ?w = "i mod kBlockBits div 32"
  note ins = shaped_inside [OF assms]
  define blocks' where "blocks' = blocks[?b := (blocks ! ?b)[?w := (blocks ! ?b ! ?w) OR push_bit (i mod 32) 1]]"
  have "bitmap_set i blocks = Some blocks'" using ins by (simp add: bitmap_set_def blocks'_def Let_def)
  moreover have "map length blocks' = map length blocks"
    unfolding blocks'_def map_update using ins(1) by (simp add: list_update_same_conv)
  then have "shaped bits blocks'" using assms(1) by (simp add: shaped_def)
  moreover have "block_bit blocks' j \<longleftrightarrow> j = i \<or> block_bit blocks j" if "j < bits" for j
  proof (cases "j div kBlockBits = ?b \<and> j mod kBlockBits div 32 = ?w")
    case True
    have "block_bit blocks' j = bit ((blocks ! ?b ! ?w) OR push_bit (i mod 32) 1) (j mod 32)"
      using True ins by (simp add: block_bit_def blocks'_def)
    also have "\<dots> \<longleftrightarrow> block_bit blocks j \<or> j mod 32 = i mod 32"
      using True by (auto simp: bit_or_iff bit_exp_iff block_bit_def)
    finally show ?thesis using True index_parts [of j i] by blast
  next
    case False
    then have "blocks' ! (j div kBlockBits) ! (j mod kBlockBits div 32) = blocks ! (j div kBlockBits) ! (j mod kBlockBits div 32)"
      using ins by (auto simp: blocks'_def nth_list_update)
    then show ?thesis using False by (auto simp: block_bit_def)
  qed
  ultimately show thesis by (rule that)
qed

section \<open>Inserted keys exist\<close>

text \<open>The indexes that a hash stands for.\<close>

fun hash_indexes :: "nat \<Rightarrow> 64 word \<Rightarrow> nat \<Rightarrow> nat list" where
  "hash_indexes 0 hash bits = []"
| "hash_indexes (Suc n) hash bits = unat (word_rotl 8 hash) mod bits # hash_indexes n (word_rotl 8 hash) bits"

lemma hash_indexes_less: "0 < bits \<Longrightarrow> \<forall>i \<in> set (hash_indexes n hash bits). i < bits"
  by (induction n arbitrary: hash) simp_all

lemma exists_hash_bits:
  "0 < bits \<Longrightarrow> shaped bits blocks \<Longrightarrow> exists_hash n hash bits blocks = Some (\<forall>i \<in> set (hash_indexes n hash bits). block_bit blocks i)"
  by (induction n arbitrary: hash) (simp_all add: Let_def bitmap_get_bit)

lemma insert_hash_bits:
  "0 < bits \<Longrightarrow> shaped bits blocks \<Longrightarrow> \<exists>blocks'. insert_hash n hash bits blocks = Some blocks' \<and> shaped bits blocks' \<and>
     (\<forall>j < bits. block_bit blocks' j \<longleftrightarrow> j \<in> set (hash_indexes n hash bits) \<or> block_bit blocks j)"
proof (induction n arbitrary: hash blocks)
  case (Suc n)
  let ?h = "word_rotl 8 hash"
  have "unat ?h mod bits < bits" using Suc.prems(1) by simp
  then obtain b1 where b1: "bitmap_set (unat ?h mod bits) blocks = Some b1" "shaped bits b1"
    "\<And>j. j < bits \<Longrightarrow> block_bit b1 j \<longleftrightarrow> j = unat ?h mod bits \<or> block_bit blocks j" using bitmap_set_bit [OF Suc.prems(2)] by blast
  obtain b2 where "insert_hash n ?h bits b1 = Some b2" "shaped bits b2"
    "\<forall>j < bits. block_bit b2 j \<longleftrightarrow> j \<in> set (hash_indexes n ?h bits) \<or> block_bit b1 j" using Suc.IH [OF Suc.prems(1) b1(2)] by blast
  then show ?case using b1 Suc.prems(1) by (simp add: Let_def) blast
qed simp

text \<open>Inserting keys one after the other.\<close>

fun insert_all :: "(bytes \<Rightarrow> 64 word) \<Rightarrow> bytes list \<Rightarrow> existence_filter \<Rightarrow> existence_filter option" where
  "insert_all city [] b = Some b"
| "insert_all city (k # ks) b = Option.bind (filter_insert city k b) (insert_all city ks)"

abbreviation key_indexes :: "(bytes \<Rightarrow> 64 word) \<Rightarrow> filter_params \<Rightarrow> bytes \<Rightarrow> nat list" where
  "key_indexes city p key \<equiv> hash_indexes (num_hashes p) (fingerprint city key (fp_type p)) (param_size p)"

lemma insert_all_bits:
  "0 < param_size p \<Longrightarrow> filter_params b = p \<Longrightarrow> shaped (param_size p) (filter_rep b) \<Longrightarrow>
     \<exists>b'. insert_all city ks b = Some b' \<and> filter_params b' = p \<and> shaped (param_size p) (filter_rep b') \<and>
       (\<forall>j < param_size p. block_bit (filter_rep b') j \<longleftrightarrow> (\<exists>k \<in> set ks. j \<in> set (key_indexes city p k)) \<or> block_bit (filter_rep b) j)"
proof (induction ks arbitrary: b)
  case (Cons k ks)
  obtain rep where r: "insert_hash (num_hashes p) (fingerprint city k (fp_type p)) (param_size p) (filter_rep b) = Some rep"
    "shaped (param_size p) rep"
    "\<forall>j < param_size p. block_bit rep j \<longleftrightarrow> j \<in> set (key_indexes city p k) \<or> block_bit (filter_rep b) j"
    using insert_hash_bits [OF Cons.prems(1,3)] by blast
  let ?b = "b\<lparr>filter_rep := rep\<rparr>"
  have "filter_params ?b = p" "shaped (param_size p) (filter_rep ?b)" using Cons.prems(2) r(2) by simp_all
  from Cons.IH [OF Cons.prems(1) this] obtain b' where b': "insert_all city ks ?b = Some b'" "filter_params b' = p"
    "shaped (param_size p) (filter_rep b')"
    "\<forall>j < param_size p. block_bit (filter_rep b') j \<longleftrightarrow> (\<exists>k \<in> set ks. j \<in> set (key_indexes city p k)) \<or> block_bit (filter_rep ?b) j" by blast
  moreover have "insert_all city (k # ks) b = Some b'" using Cons.prems(2) r(1) b'(1) by (simp add: filter_insert_def)
  ultimately show ?case using r(3) by (intro exI [of _ b']) auto
qed simp

section \<open>Reading what was written\<close>

lemma split_blocks_concat:
  "map length blocks = replicate n kBlockWords @ [last_size] \<Longrightarrow> split_blocks n last_size (concat blocks) = Some blocks"
proof (induction n arbitrary: blocks)
  case 0
  then obtain b where "blocks = [b]" "length b = last_size" by (auto simp: map_eq_Cons_conv)
  then show ?case by simp
next
  case (Suc n)
  then obtain b bs where b: "blocks = b # bs" "length b = kBlockWords" "map length bs = replicate n kBlockWords @ [last_size]"
    by (auto simp: map_eq_Cons_conv)
  then show ?case using Suc.IH [OF b(3)] by simp
qed

lemma block_bitmap_concat: "shaped bits blocks \<Longrightarrow> block_bitmap bits (concat blocks) = Some blocks"
  by (cases "block_dimensions bits") (simp add: shaped_def block_bitmap_def split_blocks_concat)

lemma bits_to_words_up: "0 < bits \<Longrightarrow> bits < 2 ^ 32 \<Longrightarrow> bits_to_words bits = (bits + 31) div 32"
proof -
  assume b: "0 < bits" "bits < 2 ^ 32"
  show ?thesis
  proof (cases "bits + 31 < 2 ^ 32")
    case True
    then have "(bits + 31) mod 2 ^ 32 = bits + 31" by (rule mod_less)
    moreover have "0 < (bits + 31) div 32" using b(1) by (simp add: div_greater_zero_iff)
    ultimately show ?thesis by (simp add: bits_to_words_def Let_def)
  next
    case False
    then have m: "(bits + 31) mod 2 ^ 32 = bits + 31 - 2 ^ 32" using b(2) by (simp add: mod_if)
    have "bits + 31 - 2 ^ 32 < 32" using b(2) by simp
    then have "(bits + 31) mod 2 ^ 32 div 2 ^ 5 = 0" unfolding m by simp
    moreover have "(bits + 31) div 32 = 2 ^ 27" using False b(2) by simp
    ultimately show ?thesis using b(1) by (simp add: bits_to_words_def Let_def)
  qed
qed

lemma total_words:
  assumes s: "shaped bits blocks" and b: "0 < bits" "bits < 2 ^ 32"
  shows "length (concat blocks) = bits_to_words bits"
proof -
  obtain count last_size where d: "block_dimensions bits = (count, last_size)" by fastforce
  have l: "map length blocks = replicate (count - 1) kBlockWords @ [last_size]" "0 < count" using s d by (simp_all add: shaped_def)
  have n: "length (concat blocks) = (count - 1) * kBlockWords + last_size"
    unfolding length_concat l(1) by (simp add: sum_list_replicate)
  have q: "bits = 32 * (bits div kBlockBits * kBlockWords) + bits mod kBlockBits" by (simp add: block_sizes)
  have "(bits + 31) div 32 = (32 * (bits div kBlockBits * kBlockWords) + (bits mod kBlockBits + 31)) div 32"
    using q by (metis add.assoc)
  also have "\<dots> = bits div kBlockBits * kBlockWords + (bits mod kBlockBits + 31) div 32" by (simp only: div_mult_self4 div_mult_self2 zero_neq_numeral add.commute)
  finally have w: "bits_to_words bits = bits div kBlockBits * kBlockWords + (bits mod kBlockBits + 31) div 32"
    using bits_to_words_up [OF b] by simp
  show ?thesis
  proof (cases "bits mod kBlockBits = 0")
    case True
    then have "count = bits div kBlockBits" "last_size = kBlockWords" using d by (simp_all add: block_dimensions_def)
    moreover from this have "(count - 1) * kBlockWords + kBlockWords = count * kBlockWords" using l(2) by (metis Suc_diff_1 mult_Suc add.commute)
    ultimately show ?thesis unfolding n w using True by simp
  next
    case False
    then have "count = bits div kBlockBits + 1" "last_size = (bits mod kBlockBits + 31) div 32"
      using d by (simp_all add: block_dimensions_def Let_def)
    then show ?thesis unfolding n w by simp
  qed
qed

definition params_ok :: "filter_params \<Rightarrow> bool" where
  "params_ok p \<longleftrightarrow> 0 < param_size p \<and> param_size p < 2 ^ 32 \<and> expected_nelts p < 2 ^ 32 \<and> num_hashes p \<in> {1..7} \<and> fp_type p < FP_TYPE_SIZE"

abbreviation header_words :: "filter_params \<Rightarrow> 32 word list" where
  "header_words p \<equiv> [word_of_nat (param_size p), word_of_nat (expected_nelts p),
     word_of_nat (num_hashes p) OR push_bit 16 (word_of_nat (fp_type p))]"

lemma header_read:
  assumes "params_ok p"
  shows "read_header (header_words p @ ws) = Inr p"
proof -
  have w: "unat (word_of_nat n :: 32 word) = n" if "n < 2 ^ 32" for n
    using that by (simp add: unsigned_of_nat take_bit_nat_eq_self)
  have k: "num_hashes p \<in> {1, 2, 3, 4, 5, 6, 7}" using assms by (auto simp: params_ok_def)
  have f: "fp_type p \<in> {0, 1}" using assms by (auto simp: params_ok_def FP_TYPE_SIZE_def)
  have "unat ((word_of_nat (num_hashes p) OR push_bit 16 (word_of_nat (fp_type p)) :: 32 word) AND 0xFFFF) = num_hashes p \<and>
    unat (drop_bit 16 (word_of_nat (num_hashes p) OR push_bit 16 (word_of_nat (fp_type p)) :: 32 word)) = fp_type p"
    using k f by (elim insertE emptyE) simp_all
  then show ?thesis
    using w assms f by (cases p) (auto simp: read_header_def kHeaderSize_def Let_def params_ok_def FP_TYPE_SIZE_def)
qed

text \<open>The words of a buffer.\<close>

definition buffer_words :: "bytes \<Rightarrow> 32 word list option" where
  "buffer_words s = those (map (\<lambda>i. load32 s (4 * i)) [0..<length s div 4])"

lemma buffer_words_concat: "buffer_words (concat (map store32 ws)) = Some ws"
proof -
  have "those (map (\<lambda>i. load32 (concat (map store32 ws)) (4 * i)) [0..<length ws]) = Some (map (\<lambda>i. ws ! i) [0..<length ws])"
    by (rule those_map_all) (simp add: load32_concat)
  then show ?thesis by (simp add: buffer_words_def words_length map_nth)
qed

lemma serialized_words:
  assumes "params_ok (filter_params b)" "shaped (param_size (filter_params b)) (filter_rep b)"
  shows "\<exists>s. serialize_as_string b = Some s \<and> buffer_words s = Some (header_words (filter_params b) @ concat (filter_rep b))"
proof -
  let ?p = "filter_params b"
  have n: "length (concat (filter_rep b)) = bits_to_words (param_size ?p)"
    using total_words [OF assms(2)] assms(1) by (simp add: params_ok_def)
  have w: "store32 (word_of_nat (param_size ?p)) @ store32 (word_of_nat (expected_nelts ?p)) @
      store32 (word_of_nat (num_hashes ?p) OR push_bit 16 (word_of_nat (fp_type ?p))) @ serialize_to (filter_rep b) =
    concat (map store32 (header_words ?p @ concat (filter_rep b)))" by (simp add: serialize_to_def)
  have "serialize_as_string b = Some (concat (map store32 (header_words ?p @ concat (filter_rep b))))"
    unfolding serialize_as_string_def Let_def w words_length using n by (simp add: kHeaderSize_def)
  then show ?thesis using buffer_words_concat by blast
qed

section \<open>Properties\<close>

text \<open>
  C5: (existence filter) for parameters in the ranges of the header and any keys, inserting the keys into a new builder
  and serializing it succeed, reading the words of the result gives the same filter, which answers for every key, and for every inserted key
  with true: there are no false negatives.
\<close>

theorem filter_keeps_keys:
  assumes "params_ok p"
  shows "\<exists>b0 b s ws. new_filter_builder p = Some b0 \<and> insert_all city keys b0 = Some b \<and> serialize_as_string b = Some s \<and>
    buffer_words s = Some ws \<and> filter_read ws = Some (Inr b) \<and>
    (\<forall>key. filter_exists city b key \<noteq> None) \<and> (\<forall>key \<in> set keys. filter_exists city b key = Some True)"
proof -
  have pos: "0 < param_size p" using assms by (simp add: params_ok_def)
  obtain rep where rep: "new_block_bitmap_builder (param_size p) = Some rep" "shaped (param_size p) rep"
    using new_bitmap_shaped [OF pos] by blast
  let ?b0 = "\<lparr>filter_params = p, filter_rep = rep\<rparr>"
  have b0: "new_filter_builder p = Some ?b0" "filter_params ?b0 = p" "shaped (param_size p) (filter_rep ?b0)"
    using rep by (simp_all add: new_filter_builder_def)
  obtain b where b: "insert_all city keys ?b0 = Some b" "filter_params b = p" "shaped (param_size p) (filter_rep b)"
    "\<forall>j < param_size p. block_bit (filter_rep b) j \<longleftrightarrow> (\<exists>k \<in> set keys. j \<in> set (key_indexes city p k)) \<or> block_bit (filter_rep ?b0) j"
    using insert_all_bits [OF pos b0(2,3), of city keys] by blast
  obtain s where s: "serialize_as_string b = Some s" "buffer_words s = Some (header_words p @ concat (filter_rep b))"
    using serialized_words [of b] assms b(2,3) by auto
  have "length (concat (filter_rep b)) = bits_to_words (param_size p)"
    using total_words [OF b(3)] assms by (simp add: params_ok_def)
  then have "filter_read (header_words p @ concat (filter_rep b)) = Some (Inr b)"
    using block_bitmap_concat [OF b(3)] b(2) unfolding filter_read_def header_read [OF assms]
    by (cases b) (simp add: kHeaderSize_def)
  moreover have ex: "filter_exists city b key = Some (\<forall>i \<in> set (key_indexes city p key). block_bit (filter_rep b) i)" for key
    using exists_hash_bits [OF pos b(3)] b(2) by (simp add: filter_exists_def)
  moreover have "filter_exists city b key = Some True" if "key \<in> set keys" for key
    using b(4) that hash_indexes_less [OF pos] unfolding ex by blast
  ultimately show ?thesis using b0(1) b(1) s by blast
qed

theorem filter_keeps_keys_witness:
  "\<exists>b0 b. new_filter_builder \<lparr>param_size = 100, expected_nelts = 2, num_hashes = 3, fp_type = 0\<rparr> = Some b0 \<and>
     insert_all (\<lambda>_. 0) [''kana'', ''mozc''] b0 = Some b \<and> filter_exists (\<lambda>_. 0) b ''mozc'' = Some True"
proof -
  have "params_ok \<lparr>param_size = 100, expected_nelts = 2, num_hashes = 3, fp_type = 0\<rparr>" by (simp add: params_ok_def FP_TYPE_SIZE_def)
  from filter_keeps_keys [OF this, of "\<lambda>_. 0" "[''kana'', ''mozc'']"] show ?thesis by auto
qed

text \<open>
  C34: (existence filter) the reader accepts a header with size 0 as well: then the number of blocks minus one wraps around, and reading the
  bitmap runs off every buffer.
\<close>

theorem empty_filter_crashes:
  "\<exists>params. read_header [0, 1, 1] = Inr params \<and> filter_read ([0, 1, 1] @ ws) = None"
proof -
  have h: "read_header ([0, 1, 1] @ ws) = Inr \<lparr>param_size = 0, expected_nelts = 1, num_hashes = 1, fp_type = 0\<rparr>" for ws
    by (simp add: read_header_def kHeaderSize_def FP_TYPE_SIZE_def Let_def)
  have "block_bitmap 0 ws = None" by (simp add: block_bitmap_def block_dimensions_def)
  moreover have "bits_to_words 0 = 0" by (simp add: bits_to_words_def)
  ultimately have "filter_read ([0, 1, 1] @ ws) = None" unfolding filter_read_def h by (simp add: Let_def kHeaderSize_def)
  then show ?thesis using h [of "[]"] by auto
qed

end
