(* ===== verification/Key_Value_Codec.thy ===== *)
theory Key_Value_Codec
  imports Prelude Utf8
begin

text \<open>
  The codec of the system dictionary for its strings (\<open>dictionary/system/codec.cc\<close>): keys are encoded by an
  exchange of kana with the control codes and Latin letters, values by a code of one to four bytes for a
  character.  The theorems show that decoding inverts encoding, that the length of an encoded key is computed
  correctly and that no encoded string holds the byte 0.
\<close>

unbundle bit_operations_syntax

section \<open>Keys\<close>

text \<open>The exchange of one character in \<open>EncodeDecodeKeyImpl\<close>.\<close>

definition swap_offset :: "char32 \<Rightarrow> nat" where
  "swap_offset code =
     (if (0x0001 \<le> code \<and> code \<le> 0x001f) \<or> (0x3041 \<le> code \<and> code \<le> 0x305f) then 0x3041 - 0x0001
      else if (0x0040 \<le> code \<and> code \<le> 0x0075) \<or> (0x3060 \<le> code \<and> code \<le> 0x3095) then 0x3060 - 0x0040
      else if (0x0076 \<le> code \<and> code \<le> 0x0077) \<or> (0x30FB \<le> code \<and> code \<le> 0x30FC) then 0x30FB - 0x0076
      else 0)"

definition swap_code :: "char32 \<Rightarrow> char32" where
  "swap_code code = (if code < 0x80 then code + swap_offset code else code - swap_offset code)"

definition encode_decode_key :: "bytes \<Rightarrow> bytes" where
  "encode_decode_key src = concat (map (\<lambda>code. codepoint_to_utf8 (swap_code code)) (utf8_to_utf32 src))"

text \<open>\<open>GetEncodedDecodedKeyLengthImpl\<close>: every character taken off \<open>size\<close> has three bytes in \<open>src\<close>, so the
  subtraction never goes below zero.\<close>

definition adjust_length :: "char32 \<Rightarrow> nat \<Rightarrow> nat" where
  "adjust_length code sz =
     (if (0x3041 \<le> code \<and> code \<le> 0x3095) \<or> (0x30FB \<le> code \<and> code \<le> 0x30FC) then sz - 2
      else if (0x0001 \<le> code \<and> code \<le> 0x001F) \<or> (0x0040 \<le> code \<and> code \<le> 0x0077) then sz + 2
      else sz)"

definition encoded_decoded_key_length :: "bytes \<Rightarrow> nat" where
  "encoded_decoded_key_length src = fold adjust_length (utf8_to_utf32 src) (length src)"

section \<open>Values\<close>

definition kValueCharMarkAscii :: nat where "kValueCharMarkAscii = 0xfc"
definition kValueCharMarkXX00 :: nat where "kValueCharMarkXX00 = 0xfd"
definition kValueCharMarkOtherUcs2 :: nat where "kValueCharMarkOtherUcs2 = 0xfe"
definition kValueCharMarkCodepoint :: nat where "kValueCharMarkCodepoint = 0xff"
definition kValueCharMarkCodepointMiddle0 :: nat where "kValueCharMarkCodepointMiddle0 = 0x80"
definition kValueCharMarkCodepointRight0 :: nat where "kValueCharMarkCodepointRight0 = 0x40"
definition kValueCharMarkCodepointLeftMask :: nat where "kValueCharMarkCodepointLeftMask = 0x1f"
definition kValueKanjiOffset :: nat where "kValueKanjiOffset = 0x01"
definition kValueHiraganaOffset :: nat where "kValueHiraganaOffset = 0x4b"
definition kValueKatakanaOffset :: nat where "kValueKatakanaOffset = 0x9f"

lemmas [bytes_defs] = kValueCharMarkAscii_def kValueCharMarkXX00_def kValueCharMarkOtherUcs2_def
  kValueCharMarkCodepoint_def kValueCharMarkCodepointMiddle0_def kValueCharMarkCodepointRight0_def
  kValueCharMarkCodepointLeftMask_def kValueKanjiOffset_def kValueHiraganaOffset_def kValueKatakanaOffset_def

text \<open>The bytes of one character in \<open>EncodeValue\<close>; \<open>chr_of\<close> keeps the low eight bits, as \<open>push_back\<close> does.\<close>

definition encode_value_char :: "char32 \<Rightarrow> bytes" where
  "encode_value_char c =
     (if 0x3041 \<le> c \<and> c < 0x3095 then [chr_of (c - 0x3041 + kValueHiraganaOffset)]
      else if 0x30a1 \<le> c \<and> c < 0x30fd then [chr_of (c - 0x30a1 + kValueKatakanaOffset)]
      else if c < 0x10000 \<and> drop_bit 8 c AND 0xFF = 0 then [chr_of kValueCharMarkAscii, chr_of (c AND 0xFF)]
      else if c < 0x10000 \<and> c AND 0xFF = 0 then [chr_of kValueCharMarkXX00, chr_of (drop_bit 8 c AND 0xFF)]
      else if 0x4e00 \<le> c \<and> c < 0x9800 then
        [chr_of (drop_bit 8 (c - 0x4e00) + kValueKanjiOffset), chr_of (c AND 0xFF)]
      else if 0x10000 \<le> c \<and> c \<le> 0x10ffff then
        let left = drop_bit 16 c AND 0xFF; middle = drop_bit 8 c AND 0xFF; right = c AND 0xFF;
            left = (if middle = 0 then left OR kValueCharMarkCodepointMiddle0 else left);
            left = (if right = 0 then left OR kValueCharMarkCodepointRight0 else left)
        in [chr_of kValueCharMarkCodepoint, chr_of left] @ (if middle \<noteq> 0 then [chr_of middle] else [])
             @ (if right \<noteq> 0 then [chr_of right] else [])
      else [chr_of kValueCharMarkOtherUcs2, chr_of (drop_bit 8 c AND 0xFF), chr_of (c AND 0xFF)])"

definition encode_value :: "bytes \<Rightarrow> bytes" where
  "encode_value src = concat (map encode_value_char (utf8_to_utf32 src))"

text \<open>One step of \<open>DecodeValue\<close>: the character at \<open>p\<close> and the rest.  A read past \<open>end\<close> is \<open>None\<close>.\<close>

definition byte_at :: "bytes \<Rightarrow> nat \<Rightarrow> nat option" where
  "byte_at p i = (if i < length p then Some (ord_of (p ! i)) else None)"

definition decode_value_char :: "nat \<Rightarrow> bytes \<Rightarrow> (char32 \<times> bytes) option" where
  "decode_value_char cc p =
     (if kValueHiraganaOffset \<le> cc \<and> cc < kValueKatakanaOffset then Some (0x3041 + cc - kValueHiraganaOffset, drop 1 p)
      else if kValueKatakanaOffset \<le> cc \<and> cc < kValueCharMarkAscii then Some (0x30a1 + cc - kValueKatakanaOffset, drop 1 p)
      else if cc = kValueCharMarkAscii then map_option (\<lambda>b. (b, drop 2 p)) (byte_at p 1)
      else if cc = kValueCharMarkXX00 then map_option (\<lambda>b. (push_bit 8 b, drop 2 p)) (byte_at p 1)
      else if cc = kValueCharMarkCodepoint then
        Option.bind (byte_at p 1) (\<lambda>left.
        Option.bind (if left AND kValueCharMarkCodepointMiddle0 = 0
                     then map_option (\<lambda>b. (push_bit 16 (left AND kValueCharMarkCodepointLeftMask) + push_bit 8 b, 3)) (byte_at p 2)
                     else Some (push_bit 16 (left AND kValueCharMarkCodepointLeftMask), 2)) (\<lambda>(c, pos).
        Option.bind (if left AND kValueCharMarkCodepointRight0 = 0
                     then map_option (\<lambda>b. (c + b, pos + 1)) (byte_at p pos)
                     else Some (c, pos)) (\<lambda>(c, pos).
        Some (c, drop pos p))))
      else if cc = kValueCharMarkOtherUcs2 then
        Option.bind (byte_at p 1) (\<lambda>b1. map_option (\<lambda>b2. (push_bit 8 b1 + b2, drop 3 p)) (byte_at p 2))
      else map_option (\<lambda>b. (push_bit 8 cc + 0x4e00 - push_bit 8 kValueKanjiOffset + b, drop 2 p)) (byte_at p 1))"

lemma decode_value_char_shorter:
  "p \<noteq> [] \<Longrightarrow> decode_value_char cc p = Some (c, rest) \<Longrightarrow> length rest < length p"
  by (auto simp: decode_value_char_def bind_eq_Some_conv split: if_splits)

function decode_value :: "bytes \<Rightarrow> bytes option" where
  "decode_value p =
     (if p = [] then Some []
      else Option.bind (decode_value_char (ord_of (hd p)) p) (\<lambda>(c, rest).
             map_option (\<lambda>dst. codepoint_to_utf8 c @ dst) (decode_value rest)))"
  by pat_completeness auto
termination
  by (relation "measure length") (auto dest: decode_value_char_shorter)

declare decode_value.simps [simp del]

section \<open>Proofs\<close>

text \<open>The characters that survive the codecs: \<open>CodepointToUtf8\<close> drops the character 0.\<close>

definition plain_text :: "bytes \<Rightarrow> bool" where
  "plain_text s \<longleftrightarrow> is_valid_utf8 s \<and> list_all (\<lambda>c. 0 < c \<and> c \<le> 0x10FFFF) (utf8_to_utf32 s)"

lemma plain_text_spec: "plain_text s \<Longrightarrow> s = utf8_text (utf8_to_utf32 s)"
  using valid_utf8_text by (simp add: plain_text_def)

lemma swap_code_range: "0 < c \<Longrightarrow> c \<le> 0x10FFFF \<Longrightarrow> 0 < swap_code c \<and> swap_code c \<le> 0x10FFFF"
  by (auto simp: swap_code_def swap_offset_def)

text \<open>The regions of the exchange.\<close>

lemma swap_code_regions:
  shows "1 \<le> c \<and> c \<le> 0x1f \<Longrightarrow> swap_code c = c + 0x3040" and "0x40 \<le> c \<and> c \<le> 0x75 \<Longrightarrow> swap_code c = c + 0x3020"
    and "0x76 \<le> c \<and> c \<le> 0x77 \<Longrightarrow> swap_code c = c + 0x3085" and "0x3041 \<le> c \<and> c \<le> 0x305f \<Longrightarrow> swap_code c = c - 0x3040"
    and "0x3060 \<le> c \<and> c \<le> 0x3095 \<Longrightarrow> swap_code c = c - 0x3020" and "0x30FB \<le> c \<and> c \<le> 0x30FC \<Longrightarrow> swap_code c = c - 0x3085"
  by (simp_all add: swap_code_def swap_offset_def)

lemma swap_region_cases:
  obtains (a) "1 \<le> c \<and> c \<le> (0x1f::nat)" | (b) "0x40 \<le> c \<and> c \<le> 0x75" | (c) "0x76 \<le> c \<and> c \<le> 0x77"
    | (d) "0x3041 \<le> c \<and> c \<le> 0x305f" | (e) "0x3060 \<le> c \<and> c \<le> 0x3095" | (f) "0x30FB \<le> c \<and> c \<le> 0x30FC"
    | (g) "\<not> (1 \<le> c \<and> c \<le> 0x1f)" "\<not> (0x40 \<le> c \<and> c \<le> 0x75)" "\<not> (0x76 \<le> c \<and> c \<le> 0x77)"
      "\<not> (0x3041 \<le> c \<and> c \<le> 0x305f)" "\<not> (0x3060 \<le> c \<and> c \<le> 0x3095)" "\<not> (0x30FB \<le> c \<and> c \<le> 0x30FC)" "swap_code c = c"
proof -
  have "swap_code c = c" if "\<not> (1 \<le> c \<and> c \<le> 0x1f)" "\<not> (0x40 \<le> c \<and> c \<le> 0x75)" "\<not> (0x76 \<le> c \<and> c \<le> 0x77)"
      "\<not> (0x3041 \<le> c \<and> c \<le> 0x305f)" "\<not> (0x3060 \<le> c \<and> c \<le> 0x3095)" "\<not> (0x30FB \<le> c \<and> c \<le> 0x30FC)"
    using that unfolding swap_code_def swap_offset_def by auto
  then show thesis using that by metis
qed

lemma swap_code_involutive: "swap_code (swap_code c) = c"
proof (cases c rule: swap_region_cases)
  case d
  have "swap_code (c - 0x3040) = c - 0x3040 + 0x3040" by (rule swap_code_regions(1)) (use d in linarith)
  then show ?thesis using d by (simp add: swap_code_regions)
next
  case e
  have "swap_code (c - 0x3020) = c - 0x3020 + 0x3020" by (rule swap_code_regions(2)) (use e in linarith)
  then show ?thesis using e by (simp add: swap_code_regions)
next
  case f
  have "swap_code (c - 0x3085) = c - 0x3085 + 0x3085" by (rule swap_code_regions(3)) (use f in linarith)
  then show ?thesis using f by (simp add: swap_code_regions)
qed (simp_all add: swap_code_regions)

lemma encodable_plain: "0 < c \<Longrightarrow> c \<le> 0x10FFFF \<Longrightarrow> codepoint_to_utf8 c = utf8_spec c"
  by (rule codepoint_to_utf8_eq_spec) (simp add: encodable_def)

lemma plain_text_of_codes:
  assumes "list_all (\<lambda>c. 0 < c \<and> c \<le> 0x10FFFF) cs"
  shows "plain_text (utf8_text cs)" and "utf8_to_utf32 (utf8_text cs) = cs"
proof -
  have "\<forall>c\<in>set cs. c < 0x80000000" using assms by (auto simp: list_all_iff)
  from utf32_of_text [OF this] show "plain_text (utf8_text cs)" "utf8_to_utf32 (utf8_text cs) = cs"
    using assms by (simp_all add: plain_text_def)
qed

lemma encode_key_text:
  assumes "plain_text s"
  shows "encode_decode_key s = utf8_text (map swap_code (utf8_to_utf32 s))"
proof -
  have "map (\<lambda>c. codepoint_to_utf8 (swap_code c)) (utf8_to_utf32 s) = map (\<lambda>c. utf8_spec (swap_code c)) (utf8_to_utf32 s)"
    using assms swap_code_range encodable_plain by (auto simp: plain_text_def list_all_iff)
  then show ?thesis unfolding encode_decode_key_def by (simp only: map_map comp_def)
qed

lemma encode_key_plain:
  assumes "plain_text s"
  shows "plain_text (encode_decode_key s)" and "utf8_to_utf32 (encode_decode_key s) = map swap_code (utf8_to_utf32 s)"
proof -
  have "list_all (\<lambda>c. 0 < c \<and> c \<le> 0x10FFFF) (map swap_code (utf8_to_utf32 s))"
    using assms swap_code_range by (auto simp: plain_text_def list_all_iff)
  from plain_text_of_codes [OF this] show "plain_text (encode_decode_key s)"
    "utf8_to_utf32 (encode_decode_key s) = map swap_code (utf8_to_utf32 s)"
    by (simp_all add: encode_key_text [OF assms])
qed

lemma key_round_trip: "plain_text s \<Longrightarrow> encode_decode_key (encode_decode_key s) = s"
  using encode_key_text [OF encode_key_plain(1)] plain_text_spec [of s]
  by (simp add: encode_key_plain(2) comp_def swap_code_involutive)

lemma utf8_spec_length:
  "length (utf8_spec c) = (if c < 0x80 then 1 else if c < 0x800 then 2 else if c < 0x10000 then 3
     else if c < 0x200000 then 4 else if c < 0x4000000 then 5 else 6)"
  by (simp add: utf8_spec_def)

lemma adjust_length_swap:
  assumes "length (utf8_spec c) \<le> n"
  shows "adjust_length c n = n - length (utf8_spec c) + length (utf8_spec (swap_code c))"
  using assms
  by (cases c rule: swap_region_cases) (auto simp: swap_code_regions adjust_length_def utf8_spec_length)

lemma fold_adjust_length:
  "length (utf8_text cs) \<le> n \<Longrightarrow>
     fold adjust_length cs n = n - length (utf8_text cs) + length (utf8_text (map swap_code cs))"
proof (induction cs arbitrary: n)
  case (Cons c cs)
  then have "length (utf8_text cs) \<le> adjust_length c n" using adjust_length_swap [of c n] by simp
  from Cons.IH [OF this] show ?case using Cons.prems adjust_length_swap [of c n] by simp
qed simp

lemma encoded_key_length: "plain_text s \<Longrightarrow> encoded_decoded_key_length s = length (encode_decode_key s)"
  using fold_adjust_length [of "utf8_to_utf32 s" "length s"] plain_text_spec [of s]
  by (simp add: encoded_decoded_key_length_def encode_key_text)

lemma utf8_spec_no_zero:
  assumes "0 < c" "c \<le> 0x10FFFF"
  shows "chr_of 0 \<notin> set (utf8_spec c)"
proof -
  have "is_trailing_byte t \<Longrightarrow> t \<noteq> chr_of 0" for t by (auto simp: is_trailing_byte_iff)
  moreover have "chr_of n \<noteq> (chr_of 0 :: char)" if "0 < n" "n < 256" for n :: nat
    using that by (simp add: char_of_eq_iff take_bit_nat_eq_self)
  ultimately show ?thesis using assms trail_all_trailing by (auto simp: utf8_spec_def dest: bspec)
qed

text \<open>The first byte after the mark of a character beyond the sixteen-bit ones: the plane and two flags.\<close>

lemma left_flags:
  assumes "l \<le> (16::nat)"
  shows "l AND 0x80 = 0" "l AND 0x40 = 0" "l AND 0x1f = l"
    and "(l OR 0x80) AND 0x80 \<noteq> 0" "(l OR 0x80) AND 0x40 = 0" "(l OR 0x80) AND 0x1f = l" "l OR 0x80 < 256"
    and "(l OR 0x40) AND 0x80 = 0" "(l OR 0x40) AND 0x40 \<noteq> 0" "(l OR 0x40) AND 0x1f = l" "l OR 0x40 < 256"
    and "((l OR 0x80) OR 0x40) AND 0x80 \<noteq> 0" "((l OR 0x80) OR 0x40) AND 0x40 \<noteq> 0"
    and "((l OR 0x80) OR 0x40) AND 0x1f = l" "(l OR 0x80) OR 0x40 < 256"
proof -
  have "l \<in> {0, 1, 2, 3, 4, 5, 6, 7, 8, 9, 10, 11, 12, 13, 14, 15, 16}" using assms by (simp only: insert_iff empty_iff) presburger
  then show "l AND 0x80 = 0" "l AND 0x40 = 0" "l AND 0x1f = l"
    "(l OR 0x80) AND 0x80 \<noteq> 0" "(l OR 0x80) AND 0x40 = 0" "(l OR 0x80) AND 0x1f = l" "l OR 0x80 < 256"
    "(l OR 0x40) AND 0x80 = 0" "(l OR 0x40) AND 0x40 \<noteq> 0" "(l OR 0x40) AND 0x1f = l" "l OR 0x40 < 256"
    "((l OR 0x80) OR 0x40) AND 0x80 \<noteq> 0" "((l OR 0x80) OR 0x40) AND 0x40 \<noteq> 0"
    "((l OR 0x80) OR 0x40) AND 0x1f = l" "(l OR 0x80) OR 0x40 < 256"
    by auto
qed

lemma split_code: "(c::nat) = c div 65536 * 65536 + c div 256 mod 256 * 256 + c mod 256"
proof -
  have "c div 256 = c div 256 div 256 * 256 + c div 256 mod 256" by simp
  moreover have "c = c div 256 * 256 + c mod 256" by simp
  moreover have "c div 256 div 256 = c div 65536" by (simp flip: div_mult2_eq)
  ultimately show ?thesis by linarith
qed

lemma byte_at_simps [simp]:
  "byte_at (a # p) 0 = Some (ord_of a)" "byte_at (a # p) (Suc i) = byte_at p i"
  "byte_at (a # p) (numeral k) = byte_at p (pred_numeral k)"
  by (simp_all add: byte_at_def numeral_eq_Suc)

lemma decode_marked:
  assumes "left < 256" "left AND 0x1f = l" "(left AND 0x80 = 0) = (m \<noteq> 0)" "(left AND 0x40 = 0) = (r \<noteq> 0)" "m < 256" "r < 256"
  shows "decode_value_char 0xff (chr_of 0xff # chr_of left # (if m \<noteq> 0 then [chr_of m] else []) @
      (if r \<noteq> 0 then [chr_of r] else []) @ rest) = Some (push_bit 16 l + push_bit 8 m + r, rest)"
  using assms unfolding decode_value_char_def bytes_defs by (auto simp: ord_chr)

lemma byte_char: "c < 256 \<Longrightarrow> ord_of (chr_of c) = c" for c :: nat
  by (rule ord_chr)

text \<open>The seven forms of an encoded character.\<close>

lemma encode_value_char_astral:
  assumes "0x10000 \<le> c" "c \<le> 0x10FFFF"
  shows "\<exists>left l m r. encode_value_char c = chr_of 0xff # chr_of left # (if m \<noteq> 0 then [chr_of m] else []) @ (if r \<noteq> 0 then [chr_of r] else [])
      \<and> push_bit 16 l + push_bit 8 m + r = c \<and> 0 < left \<and> left < 256 \<and> left AND 0x1f = l \<and> (left AND 0x80 = 0) = (m \<noteq> 0)
      \<and> (left AND 0x40 = 0) = (r \<noteq> 0) \<and> m < 256 \<and> r < 256"
proof -
  define l m r where "l = c div 65536" and "m = c div 256 mod 256" and "r = c mod 256"
  have l: "l \<le> 16" "l mod 256 = l" "l < 256" "0 < l" using assms by (auto simp: l_def div_greater_zero_iff)
  have b: "m < 256" "r < 256" by (simp_all add: m_def r_def)
  have d: "drop_bit 16 c AND 0xFF = l" "drop_bit 8 c AND 0xFF = m" "c AND 0xFF = r"
    using l(2) by (simp_all add: and_low_masks drop_bit_eq_div l_def m_def r_def)
  define left where "left = (let left = l; left = (if m = 0 then left OR 0x80 else left) in if r = 0 then left OR 0x40 else left)"
  have e: "encode_value_char c = chr_of 0xff # chr_of left # (if m \<noteq> 0 then [chr_of m] else []) @ (if r \<noteq> 0 then [chr_of r] else [])"
    using assms unfolding encode_value_char_def d by (simp add: Let_def bytes_defs left_def)
  have left: "left < 256" "left AND 0x1f = l" "(left AND 0x80 = 0) = (m \<noteq> 0)" "(left AND 0x40 = 0) = (r \<noteq> 0)"
    using left_flags [OF l(1)] l(3) unfolding left_def Let_def by (simp_all split: if_split)
  have "left \<noteq> 0" using left(2) l(4) by (cases "left = 0") simp_all
  moreover have "push_bit 16 l + push_bit 8 m + r = c"
    using split_code [of c] unfolding push_bit_eq_mult l_def m_def r_def by simp
  ultimately show ?thesis using e left b
    by (intro exI [of _ left] exI [of _ l] exI [of _ m] exI [of _ r]) simp
qed

lemma encode_value_char_forms:
  assumes "c \<le> 0x10FFFF"
  obtains (hiragana) "encode_value_char c = [chr_of (c - 0x3041 + 0x4b)]" "0x3041 \<le> c" "c < 0x3095"
    | (katakana) "encode_value_char c = [chr_of (c - 0x30a1 + 0x9f)]" "0x30a1 \<le> c" "c < 0x30fd"
    | (ascii) "encode_value_char c = [chr_of 0xfc, chr_of c]" "c < 256"
    | (xx00) h where "encode_value_char c = [chr_of 0xfd, chr_of h]" "c = h * 256" "0 < h" "h < 256"
    | (kanji) h l where "encode_value_char c = [chr_of (h + 1), chr_of l]" "c = (h + 0x4e) * 256 + l" "h < 0x4a" "0 < l" "l < 256"
    | (other) h l where "encode_value_char c = [chr_of 0xfe, chr_of h, chr_of l]" "c = h * 256 + l" "0 < h" "h < 256" "0 < l" "l < 256"
    | (astral) left l m r where
      "encode_value_char c = chr_of 0xff # chr_of left # (if m \<noteq> 0 then [chr_of m] else []) @ (if r \<noteq> 0 then [chr_of r] else [])"
      "push_bit 16 l + push_bit 8 m + r = c" "0 < left" "left < 256" "left AND 0x1f = l"
      "(left AND 0x80 = 0) = (m \<noteq> 0)" "(left AND 0x40 = 0) = (r \<noteq> 0)" "m < 256" "r < 256"
proof -
  have eq: "c = c div 256 * 256 + c mod 256" by simp
  consider (h) "0x3041 \<le> c" "c < 0x3095" | (k) "0x30a1 \<le> c" "c < 0x30fd" | (a) "c < 0x100"
    | (x) "0x100 \<le> c" "c < 0x10000" "c mod 256 = 0"
    | (j) "0x4e00 \<le> c" "c < 0x9800" "c mod 256 \<noteq> 0"
    | (s) "0x10000 \<le> c"
    | (o) "0x100 \<le> c" "c < 0x10000" "c mod 256 \<noteq> 0" "\<not> (0x3041 \<le> c \<and> c < 0x3095)" "\<not> (0x30a1 \<le> c \<and> c < 0x30fd)"
        "\<not> (0x4e00 \<le> c \<and> c < 0x9800)"
    using linorder_not_less by metis
  then show thesis
  proof cases
    case h
    then show thesis by (intro hiragana) (simp_all add: encode_value_char_def bytes_defs)
  next
    case k
    then show thesis by (intro katakana) (simp_all add: encode_value_char_def bytes_defs)
  next
    case a
    then show thesis by (intro ascii) (simp_all add: encode_value_char_def bytes_defs and_low_masks drop_bit_eq_div)
  next
    case x
    define h where "h = c div 256"
    have c: "c = h * 256" using eq x(3) unfolding h_def by linarith
    have h: "0 < h" "h < 256" using x(1,2) c by simp_all
    have "h \<le> 48 \<or> 49 \<le> h" by linarith
    then have n: "\<not> (0x3041 \<le> c \<and> c < 0x3095)" "\<not> (0x30a1 \<le> c \<and> c < 0x30fd)" unfolding c by auto
    have d: "drop_bit 8 c AND 0xFF = h" "c AND 0xFF = 0" using c h by (simp_all add: and_low_masks drop_bit_eq_div)
    have "encode_value_char c = [chr_of 0xfd, chr_of h]"
      using x(2) h n unfolding encode_value_char_def d by (simp add: bytes_defs)
    then show thesis using c h by (intro xx00)
  next
    case j
    define h l where "h = c div 256 - 0x4e" and "l = c mod 256"
    have "0x4e \<le> c div 256" using div_le_mono [OF j(1), of 256] by simp
    then have "h + 0x4e = c div 256" by (simp add: h_def)
    then have c: "c = (h + 0x4e) * 256 + l" unfolding l_def using eq by argo
    have "c div 256 < 0x98" using j(2) by (simp add: div_less_iff_less_mult)
    then have "h < 0x4a" using \<open>h + 0x4e = c div 256\<close> by linarith
    moreover have "0 < l" "l < 256" using j(3) by (simp_all add: l_def)
    ultimately have h: "h < 0x4a" "0 < l" "l < 256" .
    have "c - 0x4e00 = h * 256 + l" using c by simp
    then have "drop_bit 8 (c - 0x4e00) = h" using h(3) by (simp add: drop_bit_eq_div)
    moreover have "drop_bit 8 c AND 0xFF = h + 0x4e" using \<open>h + 0x4e = c div 256\<close> \<open>h < 0x4a\<close>
      by (simp add: and_low_masks drop_bit_eq_div)
    moreover have "c AND 0xFF = l" by (simp add: and_low_masks l_def)
    ultimately have d: "drop_bit 8 c AND 0xFF = h + 0x4e" "c AND 0xFF = l" "drop_bit 8 (c - 0x4e00) = h" by simp_all
    have "encode_value_char c = [chr_of (h + 1), chr_of l]"
      using j(1,2) h unfolding encode_value_char_def d by (simp add: bytes_defs)
    then show thesis using c h by (intro kanji)
  next
    case s
    from encode_value_char_astral [OF s assms] show thesis by (elim exE conjE) (rule astral)
  next
    case o
    define h l where "h = c div 256" and "l = c mod 256"
    have c: "c = h * 256 + l" using eq unfolding h_def l_def .
    have h: "0 < h" "h < 256" "0 < l" "l < 256" using o(1-3) by (simp_all add: h_def l_def div_greater_zero_iff)
    have d: "drop_bit 8 c AND 0xFF = h" "c AND 0xFF = l" using h by (simp_all add: and_low_masks drop_bit_eq_div h_def l_def)
    have "encode_value_char c = [chr_of 0xfe, chr_of h, chr_of l]"
      using o(2,4-6) h unfolding encode_value_char_def d by (simp add: bytes_defs)
    then show thesis using c h by (intro other)
  qed
qed

lemma decode_encode_char:
  assumes "c \<le> 0x10FFFF"
  shows "decode_value_char (ord_of (hd (encode_value_char c @ rest))) (encode_value_char c @ rest) = Some (c, rest)"
  using assms
proof (cases c rule: encode_value_char_forms)
  case hiragana
  then have "ord_of (chr_of (c - 0x3041 + 0x4b)) = c - 0x3041 + 0x4b" by (intro byte_char) linarith
  then show ?thesis using hiragana unfolding decode_value_char_def bytes_defs by auto
next
  case katakana
  then have "ord_of (chr_of (c - 0x30a1 + 0x9f)) = c - 0x30a1 + 0x9f" by (intro byte_char) linarith
  then show ?thesis using katakana unfolding decode_value_char_def bytes_defs by auto
next
  case astral
  then have "ord_of (hd (encode_value_char c @ rest)) = 0xff" by (simp add: ord_chr)
  then show ?thesis using decode_marked [OF astral(4-9), of rest] astral(1,2) by simp
qed (simp_all add: decode_value_char_def bytes_defs byte_char push_bit_eq_mult)

lemma encode_value_char_no_zero:
  assumes "0 < c" "c \<le> 0x10FFFF"
  shows "chr_of 0 \<notin> set (encode_value_char c)"
proof -
  have n: "(chr_of 0 = (chr_of x :: char)) = (x = 0)" if "x < 256" for x :: nat
    using that by (auto simp: char_of_eq_iff take_bit_nat_eq_self eq_commute [of "chr_of 0"])
  show ?thesis using assms(2)
  proof (cases c rule: encode_value_char_forms)
    case hiragana
    then show ?thesis using n [of "c - 0x3041 + 0x4b"] by simp
  next
    case katakana
    then show ?thesis using n [of "c - 0x30a1 + 0x9f"] by simp
  qed (use assms(1) in \<open>auto simp: n\<close>)
qed

lemma encode_value_char_nonempty [simp]: "encode_value_char c \<noteq> []"
  by (simp add: encode_value_char_def Let_def)

lemma decode_value_chars:
  "list_all (\<lambda>c. 0 < c \<and> c \<le> 0x10FFFF) cs \<Longrightarrow>
     decode_value (concat (map encode_value_char cs)) = Some (utf8_text cs)"
proof (induction cs)
  case (Cons c cs)
  then show ?case
    using decode_encode_char [of c "concat (map encode_value_char cs)"]
    by (simp add: decode_value.simps [of "encode_value_char c @ _"] encodable_plain)
qed (simp add: decode_value.simps)

lemma value_round_trip: "plain_text s \<Longrightarrow> decode_value (encode_value s) = Some s"
  using decode_value_chars [of "utf8_to_utf32 s"] plain_text_spec [of s] by (simp add: encode_value_def plain_text_def)

text \<open>No encoded string holds the byte 0.\<close>

lemma encode_value_no_zero: "plain_text s \<Longrightarrow> chr_of 0 \<notin> set (encode_value s)"
  using encode_value_char_no_zero by (auto simp: plain_text_def encode_value_def list_all_iff)

lemma encode_key_no_zero:
  assumes "plain_text s"
  shows "chr_of 0 \<notin> set (encode_decode_key s)"
  using utf8_spec_no_zero swap_code_range assms by (auto simp: encode_key_text plain_text_def list_all_iff)

lemma encode_value_length: "plain_text s \<Longrightarrow> length (encode_value s) \<le> 4 * length (utf8_to_utf32 s)"
proof -
  have "length (encode_value_char c) \<le> 4" for c by (simp add: encode_value_char_def Let_def)
  then have "length (concat (map encode_value_char cs)) \<le> 4 * length cs" for cs
    by (induction cs) (auto intro: add_mono)
  then show ?thesis by (simp add: encode_value_def)
qed

section \<open>Property\<close>

text \<open>
  C7: (strings of the system dictionary) for valid UTF-8 text of the code points 1 to 10FFFF, \<open>DecodeKey\<close> inverts
  \<open>EncodeKey\<close>, \<open>GetEncodedKeyLength\<close> is the length of the encoded key, \<open>DecodeValue\<close> inverts \<open>EncodeValue\<close> without
  reading past the end, and no encoded string holds the byte 0.
\<close>

theorem dictionary_strings_round_trip:
  assumes "plain_text s"
  shows "encode_decode_key (encode_decode_key s) = s \<and>
    encoded_decoded_key_length s = length (encode_decode_key s) \<and>
    decode_value (encode_value s) = Some s \<and>
    chr_of 0 \<notin> set (encode_decode_key s) \<and> chr_of 0 \<notin> set (encode_value s)"
  using key_round_trip encoded_key_length value_round_trip encode_key_no_zero encode_value_no_zero assms by blast

theorem dictionary_strings_round_trip_witness:
  "decode_value (encode_value (utf8_text [0x3042, 0x6f22, 0x3400, 0x10400])) = Some (utf8_text [0x3042, 0x6f22, 0x3400, 0x10400]) \<and>
   encode_value (utf8_text [0x3042, 0x6f22, 0x3400, 0x10400]) = map chr_of [0x4c, 0x22, 0x22, 0xfd, 0x34, 0xff, 0x41, 0x04]"
proof -
  have p: "plain_text (utf8_text [0x3042, 0x6f22, 0x3400, 0x10400])" by (rule plain_text_of_codes(1)) simp
  moreover have "utf8_to_utf32 (utf8_text [0x3042, 0x6f22, 0x3400, 0x10400]) = [0x3042, 0x6f22, 0x3400, 0x10400]"
    by (rule plain_text_of_codes(2)) simp
  then have "encode_value (utf8_text [0x3042, 0x6f22, 0x3400, 0x10400]) = map chr_of [0x4c, 0x22, 0x22, 0xfd, 0x34, 0xff, 0x41, 0x04]"
    unfolding encode_value_def by (simp add: encode_value_char_def bytes_defs Let_def)
  ultimately show ?thesis using dictionary_strings_round_trip by blast
qed

end
