(* ===== verification/Token_Codec.thy ===== *)
theory Token_Codec
  imports Prelude
begin

text \<open>
  The codec of the system dictionary for its tokens (\<open>dictionary/system/codec.cc\<close>): the bytes of the tokens of
  one key.  A failed \<open>CHECK\<close>, a \<open>LOG(FATAL)\<close> and a read outside the buffer are \<open>None\<close>.  The theorems show what
  decoding an encoded token restores, and that the scan for the reverse lookup walks over the same bytes.
\<close>

unbundle bit_operations_syntax

section \<open>Tokens\<close>

type_synonym byte = "8 word"

record token =
  token_key :: bytes
  token_value :: bytes
  token_cost :: int
  token_lid :: "16 word"
  token_rid :: "16 word"
  token_attributes :: byte

datatype pos_type = DEFAULT_POS | FREQUENT_POS | SAME_AS_PREV_POS

datatype value_type = DEFAULT_VALUE | SAME_AS_PREV_VALUE | AS_IS_HIRAGANA | AS_IS_KATAKANA

datatype cost_type = DEFAULT_COST | CAN_USE_SMALL_ENCODING

text \<open>\<open>TokenInfo\<close>, without the two accent fields, which the codec does not use.\<close>

record token_info =
  info_token :: token
  id_in_value_trie :: int
  id_in_frequent_pos_map :: int
  info_pos_type :: pos_type
  info_value_type :: value_type
  info_cost_type :: cost_type

definition clear_info :: "token \<Rightarrow> token_info" where
  "clear_info t = \<lparr>info_token = t, id_in_value_trie = -1, id_in_frequent_pos_map = -1, info_pos_type = DEFAULT_POS,
     info_value_type = DEFAULT_VALUE, info_cost_type = DEFAULT_COST\<rparr>"

definition SPELLING_CORRECTION :: byte where "SPELLING_CORRECTION = 1"
definition kPosMax :: nat where "kPosMax = 0x0fff"
definition kCostMax :: int where "kCostMax = 0x7fff"
definition kValueTrieIdMax :: "32 word" where "kValueTrieIdMax = 0x3fffff"
definition kSmallCostFlag :: byte where "kSmallCostFlag = 0x80"
definition kSmallCostMask :: byte where "kSmallCostMask = 0x7f"
definition kTokenTerminationFlag :: byte where "kTokenTerminationFlag = 0xff"
definition kValueTypeFlagMask :: byte where "kValueTypeFlagMask = 0x03"
definition kAsIsHiraganaValueFlag :: byte where "kAsIsHiraganaValueFlag = 0x01"
definition kAsIsKatakanaValueFlag :: byte where "kAsIsKatakanaValueFlag = 0x02"
definition kSameAsPrevValueFlag :: byte where "kSameAsPrevValueFlag = 0x03"
definition kNormalValueFlag :: byte where "kNormalValueFlag = 0x00"
definition kPosTypeFlagMask :: byte where "kPosTypeFlagMask = 0x0c"
definition kFullPosFlag :: byte where "kFullPosFlag = 0x04"
definition kMonoPosFlag :: byte where "kMonoPosFlag = 0x08"
definition kSameAsPrevPosFlag :: byte where "kSameAsPrevPosFlag = 0x0c"
definition kFrequentPosFlag :: byte where "kFrequentPosFlag = 0x00"
definition kSpellingCorrectionFlag :: byte where "kSpellingCorrectionFlag = 0x10"
definition kCrammedIDFlag :: byte where "kCrammedIDFlag = 0x40"
definition kUpperFlagsMask :: byte where "kUpperFlagsMask = 0xc0"
definition kUpperCrammedIDMask :: byte where "kUpperCrammedIDMask = 0x3f"
definition kLastTokenFlag :: byte where "kLastTokenFlag = 0x80"

named_theorems codec_flags "the constants of the token codec"

lemmas [codec_flags] = SPELLING_CORRECTION_def kSmallCostFlag_def kSmallCostMask_def kTokenTerminationFlag_def kValueTypeFlagMask_def
  kAsIsHiraganaValueFlag_def kAsIsKatakanaValueFlag_def kSameAsPrevValueFlag_def kNormalValueFlag_def kPosTypeFlagMask_def
  kFullPosFlag_def kMonoPosFlag_def kSameAsPrevPosFlag_def kFrequentPosFlag_def kSpellingCorrectionFlag_def kCrammedIDFlag_def
  kUpperFlagsMask_def kUpperCrammedIDMask_def kLastTokenFlag_def

section \<open>Encoding\<close>

definition get_flag_for_pos :: "token_info \<Rightarrow> byte option" where
  "get_flag_for_pos info =
     (let lid = token_lid (info_token info); rid = token_rid (info_token info) in
      if kPosMax < unat lid \<or> kPosMax < unat rid then None
      else if info_pos_type info = FREQUENT_POS then Some kFrequentPosFlag
      else if info_pos_type info = SAME_AS_PREV_POS then Some kSameAsPrevPosFlag
      else if lid = rid then Some kMonoPosFlag
      else Some kFullPosFlag)"

fun get_flag_for_value :: "value_type \<Rightarrow> byte" where
  "get_flag_for_value SAME_AS_PREV_VALUE = kSameAsPrevValueFlag"
| "get_flag_for_value AS_IS_HIRAGANA = kAsIsHiraganaValueFlag"
| "get_flag_for_value AS_IS_KATAKANA = kAsIsKatakanaValueFlag"
| "get_flag_for_value DEFAULT_VALUE = kNormalValueFlag"

definition get_flags_for_token :: "token_info list \<Rightarrow> nat \<Rightarrow> byte option" where
  "get_flags_for_token infos index =
     (let info = infos ! index;
          flags = (if index = length infos - 1 then kLastTokenFlag else 0);
          flags = (if token_attributes (info_token info) AND SPELLING_CORRECTION \<noteq> 0 then flags OR kSpellingCorrectionFlag else flags)
      in Option.bind (get_flag_for_pos info) (\<lambda>pos_flag.
         let flags = flags OR pos_flag in
         if index = 0 \<and> flags AND kPosTypeFlagMask = kSameAsPrevPosFlag then None
         else
           let flags = flags OR get_flag_for_value (info_value_type info) in
           if index = 0 \<and> flags AND kValueTypeFlagMask = kSameAsPrevValueFlag then None
           else Some (if flags AND kUpperCrammedIDMask = 0 then flags OR kCrammedIDFlag else flags)))"

text \<open>The three parts behind the flags.  The buffer is the list of the bytes written so far, its length the offset.\<close>

definition encode_pos :: "token_info \<Rightarrow> byte \<Rightarrow> byte list \<Rightarrow> byte list option" where
  "encode_pos info flags dst =
     (let pos_flag = flags AND kPosTypeFlagMask; lid = token_lid (info_token info); rid = token_rid (info_token info) in
      if pos_flag = kFullPosFlag then
        Some (dst @ [ucast (lid AND 255), ucast ((push_bit 4 rid AND 255) OR drop_bit 8 lid), ucast (drop_bit 4 rid AND 255)])
      else if pos_flag = kMonoPosFlag then Some (dst @ [ucast (lid AND 255), ucast (drop_bit 8 lid)])
      else if pos_flag = kFrequentPosFlag then
        (if id_in_frequent_pos_map info < 0 then None else Some (dst @ [word_of_int (id_in_frequent_pos_map info)]))
      else Some dst)"

definition encode_cost :: "token_info \<Rightarrow> byte list \<Rightarrow> byte list option" where
  "encode_cost info dst =
     (let cost = token_cost (info_token info) in
      if kCostMax < cost then None
      else if info_cost_type info = CAN_USE_SMALL_ENCODING then Some (dst @ [word_of_int (drop_bit 8 cost) OR kSmallCostFlag])
      else Some (dst @ [word_of_int (drop_bit 8 cost), word_of_int (cost AND 0xff)]))"

definition encode_value_info :: "token_info \<Rightarrow> byte \<Rightarrow> byte list \<Rightarrow> byte list option" where
  "encode_value_info info flags dst =
     (if flags AND kValueTypeFlagMask \<noteq> kNormalValueFlag then Some dst
      else
        let id = (word_of_int (id_in_value_trie info) :: 32 word) in
        if kValueTrieIdMax < id then None
        else if flags AND kCrammedIDFlag \<noteq> 0 then
          Some (dst[0 := (dst ! 0) OR (ucast (drop_bit 16 id) AND kUpperCrammedIDMask)]
                @ [ucast (id AND 255), ucast (drop_bit 8 id AND 255)])
        else Some (dst @ [ucast (id AND 255), ucast (drop_bit 8 id AND 255), ucast (drop_bit 16 id AND 255)]))"

definition encode_token :: "token_info list \<Rightarrow> nat \<Rightarrow> byte list option" where
  "encode_token infos index =
     (if index < length infos then
        Option.bind (get_flags_for_token infos index) (\<lambda>flags.
        Option.bind (encode_pos (infos ! index) flags [flags]) (\<lambda>dst.
        Option.bind (encode_cost (infos ! index) dst) (\<lambda>dst.
        Option.bind (encode_value_info (infos ! index) flags dst) (\<lambda>dst.
        if length dst \<le> 9 then Some dst else None))))
      else None)"

text \<open>The loop of \<open>EncodeTokens\<close>.\<close>

fun encode_token_list :: "token_info list \<Rightarrow> nat list \<Rightarrow> byte list option" where
  "encode_token_list infos [] = Some []"
| "encode_token_list infos (i # is) =
     Option.bind (encode_token infos i) (\<lambda>bs. map_option (\<lambda>rest. bs @ rest) (encode_token_list infos is))"

text \<open>The final \<open>CHECK\<close> keeps the flag that ends the token array apart from the first byte of a list of tokens.
  The build sets \<open>-funsigned-char\<close>, so \<open>output[0]\<close> is compared as an unsigned number.\<close>

definition encode_tokens :: "token_info list \<Rightarrow> byte list option" where
  "encode_tokens infos =
     Option.bind (encode_token_list infos [0..<length infos]) (\<lambda>output.
       if (if output = [] then 0 else output ! 0) = kTokenTerminationFlag then None else Some output)"

section \<open>Decoding\<close>

definition read_byte :: "byte list \<Rightarrow> nat \<Rightarrow> byte option" where
  "read_byte ptr i = (if i < length ptr then Some (ptr ! i) else None)"

definition read_flags :: "byte \<Rightarrow> byte" where
  "read_flags val = (if val AND kCrammedIDFlag \<noteq> 0 then val AND kUpperFlagsMask else val)"

definition decode_cost :: "byte list \<Rightarrow> token_info \<Rightarrow> nat \<Rightarrow> (token_info \<times> nat) option" where
  "decode_cost ptr info offset =
     Option.bind (read_byte ptr offset) (\<lambda>b.
       if b AND kSmallCostFlag \<noteq> 0 then
         Some (info\<lparr>info_token := (info_token info)\<lparr>token_cost := push_bit 8 (uint (b AND kSmallCostMask))\<rparr>\<rparr>, offset + 1)
       else
         map_option (\<lambda>b1. (info\<lparr>info_token := (info_token info)\<lparr>token_cost := push_bit 8 (uint b) + uint b1\<rparr>\<rparr>, offset + 2))
           (read_byte ptr (offset + 1)))"

definition decode_pos :: "byte list \<Rightarrow> byte \<Rightarrow> token_info \<Rightarrow> nat \<Rightarrow> (token_info \<times> nat) option" where
  "decode_pos ptr flags info offset =
     (let pos_flag = flags AND kPosTypeFlagMask in
      if pos_flag = kFrequentPosFlag then
        map_option (\<lambda>b. (info\<lparr>info_pos_type := FREQUENT_POS, id_in_frequent_pos_map := uint b\<rparr>, offset + 1)) (read_byte ptr offset)
      else if pos_flag = kSameAsPrevPosFlag then Some (info\<lparr>info_pos_type := SAME_AS_PREV_POS\<rparr>, offset)
      else if pos_flag = kMonoPosFlag then
        Option.bind (read_byte ptr (offset + 1)) (\<lambda>b1. map_option (\<lambda>b0.
          let id = push_bit 8 (ucast b1) OR ucast b0 in
          (info\<lparr>info_token := (info_token info)\<lparr>token_lid := id, token_rid := id\<rparr>\<rparr>, offset + 2)) (read_byte ptr offset))
      else
        Option.bind (read_byte ptr offset) (\<lambda>b0. Option.bind (read_byte ptr (offset + 1)) (\<lambda>b1. map_option (\<lambda>b2.
          (info\<lparr>info_token := (info_token info)
             \<lparr>token_lid := ucast b0 + push_bit 8 (ucast (b1 AND 0x0f)),
              token_rid := ucast (drop_bit 4 b1) + push_bit 4 (ucast b2)\<rparr>\<rparr>, offset + 3)) (read_byte ptr (offset + 2)))))"

text \<open>The id in the value trie, which \<open>DecodeValueInfo\<close> and \<open>ReadValueInfo\<close> read in the same way.\<close>

definition read_value_id :: "byte list \<Rightarrow> byte \<Rightarrow> nat \<Rightarrow> (32 word \<times> nat) option" where
  "read_value_id ptr flags offset =
     Option.bind (read_byte ptr (offset + 1)) (\<lambda>b1. Option.bind (read_byte ptr offset) (\<lambda>b0.
       let id = push_bit 8 (ucast b1) OR ucast b0 in
       if flags AND kCrammedIDFlag \<noteq> 0 then
         map_option (\<lambda>b. (id OR push_bit 16 (ucast (b AND kUpperCrammedIDMask)), offset + 2)) (read_byte ptr 0)
       else map_option (\<lambda>b2. (id OR push_bit 16 (ucast b2), offset + 3)) (read_byte ptr (offset + 2))))"

definition decode_value_info :: "byte list \<Rightarrow> byte \<Rightarrow> token_info \<Rightarrow> nat \<Rightarrow> (token_info \<times> nat) option" where
  "decode_value_info ptr flags info offset =
     (let value_flag = flags AND kValueTypeFlagMask in
      if value_flag = kAsIsHiraganaValueFlag then Some (info\<lparr>info_value_type := AS_IS_HIRAGANA\<rparr>, offset)
      else if value_flag = kAsIsKatakanaValueFlag then Some (info\<lparr>info_value_type := AS_IS_KATAKANA\<rparr>, offset)
      else if value_flag = kSameAsPrevValueFlag then Some (info\<lparr>info_value_type := SAME_AS_PREV_VALUE\<rparr>, offset)
      else
        map_option (\<lambda>(id, offset). (info\<lparr>info_value_type := DEFAULT_VALUE, id_in_value_trie := uint id\<rparr>, offset))
          (read_value_id ptr flags offset))"

definition read_value_info :: "byte list \<Rightarrow> byte \<Rightarrow> nat \<Rightarrow> (int \<times> nat) option" where
  "read_value_info ptr flags offset =
     (if flags AND kValueTypeFlagMask = kNormalValueFlag
      then map_option (\<lambda>(id, offset). (uint id, offset)) (read_value_id ptr flags offset)
      else Some (-1, offset))"

text \<open>The result is whether more tokens follow, the info and the number of bytes read.\<close>

definition decode_token :: "byte list \<Rightarrow> token_info \<Rightarrow> (bool \<times> token_info \<times> nat) option" where
  "decode_token ptr info =
     Option.bind (read_byte ptr 0) (\<lambda>b.
       let flags = read_flags b;
           info = (if flags AND kSpellingCorrectionFlag \<noteq> 0
                   then info\<lparr>info_token := (info_token info)\<lparr>token_attributes := SPELLING_CORRECTION\<rparr>\<rparr> else info)
       in Option.bind (decode_pos ptr flags info 1) (\<lambda>(info, offset).
          Option.bind (decode_cost ptr info offset) (\<lambda>(info, offset).
          map_option (\<lambda>(info, offset). (flags AND kLastTokenFlag = 0, info, offset)) (decode_value_info ptr flags info offset))))"

definition read_token_for_reverse_lookup :: "byte list \<Rightarrow> (bool \<times> int \<times> nat) option" where
  "read_token_for_reverse_lookup ptr =
     Option.bind (read_byte ptr 0) (\<lambda>b.
       let flags = read_flags b; pos_flag = flags AND kPosTypeFlagMask;
           offset = (if pos_flag = kFrequentPosFlag then 2 else if pos_flag = kMonoPosFlag then 3
                     else if pos_flag = kFullPosFlag then 4 else 1)
       in Option.bind (read_byte ptr offset) (\<lambda>cb.
          map_option (\<lambda>(value_id, offset). (flags AND kLastTokenFlag = 0, value_id, offset))
            (read_value_info ptr flags (offset + (if cb AND kSmallCostFlag \<noteq> 0 then 1 else 2)))))"

section \<open>Flags\<close>

text \<open>The flags of a token are put together from the last-token flag \<open>l\<close>, the spelling flag \<open>s\<close>, the pos flag \<open>p\<close>,
  the value flag \<open>v\<close> and the crammed-id flag.\<close>

definition join_flags :: "byte \<Rightarrow> byte \<Rightarrow> byte \<Rightarrow> byte \<Rightarrow> byte" where
  "join_flags l s p v =
     (let f = ((l OR s) OR p) OR v in if f AND kUpperCrammedIDMask = 0 then f OR kCrammedIDFlag else f)"

definition flag_values :: "byte \<Rightarrow> byte \<Rightarrow> byte \<Rightarrow> byte \<Rightarrow> bool" where
  "flag_values l s p v \<longleftrightarrow> (l = 0 \<or> l = 0x80) \<and> (s = 0 \<or> s = 0x10) \<and> (p = 0 \<or> p = 4 \<or> p = 8 \<or> p = 0xc) \<and>
     (v = 0 \<or> v = 1 \<or> v = 2 \<or> v = 3)"

lemma join_flags_parts:
  assumes "flag_values l s p v"
  shows "join_flags l s p v AND kPosTypeFlagMask = p" "join_flags l s p v AND kValueTypeFlagMask = v"
    "(join_flags l s p v AND kSpellingCorrectionFlag = 0) = (s = 0)" "(join_flags l s p v AND kLastTokenFlag = 0) = (l = 0)"
    "(join_flags l s p v AND kCrammedIDFlag = 0) = (\<not> (s = 0 \<and> p = 0 \<and> v = 0))"
    "(l OR s OR p) AND kPosTypeFlagMask = p" "(((l OR s) OR p) OR v) AND kValueTypeFlagMask = v"
    "join_flags l s p v AND kCrammedIDFlag \<noteq> 0 \<Longrightarrow> join_flags l s p v = l OR kCrammedIDFlag"
  using assms unfolding flag_values_def join_flags_def codec_flags Let_def
  by (elim conjE disjE; simp)+

lemma read_flags_crammed: "l = 0 \<or> l = 0x80 \<Longrightarrow> read_flags ((l OR kCrammedIDFlag) OR (u AND kUpperCrammedIDMask)) = l OR kCrammedIDFlag"
  unfolding read_flags_def codec_flags
  by (elim disjE) (simp_all add: bit.conj_disj_distrib2 and.assoc)

lemma read_flags_plain:
  assumes "flag_values l s p v" "join_flags l s p v AND kCrammedIDFlag = 0"
  shows "read_flags (join_flags l s p v) = join_flags l s p v"
  using assms(2) by (simp add: read_flags_def)

section \<open>Numbers in bytes\<close>

lemma and_low: "(x :: 'a::len word) AND 255 = take_bit 8 x" "(x :: 'a::len word) AND 0x0f = take_bit 4 x" "x AND 0x3f = take_bit 6 x"
   "x AND 0x7f = take_bit 7 x"
  by (simp_all add: take_bit_eq_mask mask_eq_exp_minus_1)

lemma pos_bits: "unat (x :: 16 word) \<le> 0xfff \<Longrightarrow> bit x n \<Longrightarrow> n < 12"
proof (rule ccontr)
  assume u: "unat x \<le> 0xfff" and b: "bit x n" "\<not> n < 12"
  have "take_bit 12 (unat x) = unat x" using u by (intro take_bit_nat_eq_self) simp
  then have "bit (unat x) n \<Longrightarrow> n < 12" by (metis bit_take_bit_iff)
  then show False using b by (simp add: bit_unsigned_iff bit_imp_le_length)
qed

lemma mono_pos_bytes:
  "push_bit 8 (ucast (ucast (drop_bit 8 lid) :: byte)) OR ucast (ucast (lid AND 255) :: byte) = (lid :: 16 word)"
  unfolding and_low
  by (rule bit_word_eqI) (auto simp: bit_push_bit_iff bit_drop_bit_eq bit_or_iff bit_take_bit_iff bit_ucast_iff)

lemma full_lid_bytes:
  assumes "unat (lid :: 16 word) \<le> 0xfff"
  shows "ucast (ucast (lid AND 255) :: byte) + push_bit 8 (ucast ((ucast ((push_bit 4 rid AND 255) OR drop_bit 8 lid) :: byte) AND 0x0f)) = lid"
proof -
  let ?a = "ucast (ucast (lid AND 255) :: byte) :: 16 word"
  let ?b = "push_bit 8 (ucast ((ucast ((push_bit 4 rid AND 255) OR drop_bit 8 lid) :: byte) AND 0x0f)) :: 16 word"
  have "?a AND ?b = 0" unfolding and_low
    by (rule bit_word_eqI) (auto simp: bit_push_bit_iff bit_drop_bit_eq bit_or_iff bit_and_iff bit_take_bit_iff bit_ucast_iff)
  then have "?a + ?b = ?a OR ?b" by (rule disjunctive_add_eq_or)
  also have "\<dots> = lid" unfolding and_low
    by (rule bit_word_eqI) (auto simp: bit_push_bit_iff bit_drop_bit_eq bit_or_iff bit_take_bit_iff bit_ucast_iff dest: pos_bits [OF assms])
  finally show ?thesis .
qed

lemma full_rid_bytes:
  assumes "unat (rid :: 16 word) \<le> 0xfff" "unat (lid :: 16 word) \<le> 0xfff"
  shows "ucast (drop_bit 4 (ucast ((push_bit 4 rid AND 255) OR drop_bit 8 lid) :: byte)) + push_bit 4 (ucast (ucast (drop_bit 4 rid AND 255) :: byte)) = rid"
proof -
  let ?a = "ucast (drop_bit 4 (ucast ((push_bit 4 rid AND 255) OR drop_bit 8 lid) :: byte)) :: 16 word"
  let ?b = "push_bit 4 (ucast (ucast (drop_bit 4 rid AND 255) :: byte)) :: 16 word"
  have "?a AND ?b = 0" unfolding and_low
    by (rule bit_word_eqI) (auto simp: bit_push_bit_iff bit_drop_bit_eq bit_or_iff bit_and_iff bit_take_bit_iff bit_ucast_iff dest: pos_bits [OF assms(2)])
  then have "?a + ?b = ?a OR ?b" by (rule disjunctive_add_eq_or)
  also have "\<dots> = rid" unfolding and_low
    by (rule bit_word_eqI) (auto simp: bit_push_bit_iff bit_drop_bit_eq bit_or_iff bit_take_bit_iff bit_ucast_iff dest: pos_bits [OF assms(1)] pos_bits [OF assms(2)])
  finally show ?thesis .
qed

lemma byte_of_int: "0 \<le> x \<Longrightarrow> x < 256 \<Longrightarrow> uint (word_of_int x :: byte) = x"
  by (simp add: uint_word_of_int)

lemma cost_bytes:
  assumes "0 \<le> c" "c \<le> 0x7fff"
  shows "(word_of_int (drop_bit 8 c) :: byte) AND 0x80 = 0" "((word_of_int (drop_bit 8 c) :: byte) OR 0x80) AND 0x80 \<noteq> 0"
   "((word_of_int (drop_bit 8 c) :: byte) OR 0x80) AND 0x7f = word_of_int (drop_bit 8 c)"
   "push_bit 8 (uint (word_of_int (drop_bit 8 c) :: byte)) = c - c mod 256"
   "push_bit 8 (uint (word_of_int (drop_bit 8 c) :: byte)) + uint (word_of_int (c AND 0xff) :: byte) = c"
proof -
  let ?h = "word_of_int (drop_bit 8 c) :: byte"
  have h: "0 \<le> drop_bit 8 c" "drop_bit 8 c < 128" using assms by (simp_all add: drop_bit_eq_div)
  have u: "uint ?h = drop_bit 8 c" using h by (intro byte_of_int) simp_all
  have t: "take_bit 7 ?h = ?h"
  proof -
    have "unat ?h < 128" using u h by (simp add: unat_eq_nat_uint)
    then show ?thesis by (simp add: word_unat_eq_iff unsigned_take_bit_eq take_bit_nat_eq_self)
  qed
  have m: "?h AND 0x7f = ?h" using t by (simp add: and_low)
  have "?h AND 0x80 = (?h AND 0x7f) AND 0x80" by (simp only: m)
  also have "\<dots> = 0" by (simp only: and.assoc) simp
  finally show a: "?h AND 0x80 = 0" .
  show "(?h OR 0x80) AND 0x80 \<noteq> 0" using a by (simp add: bit.conj_disj_distrib2)
  show "(?h OR 0x80) AND 0x7f = ?h" using m by (simp add: bit.conj_disj_distrib2)
  show m2: "push_bit 8 (uint ?h) = c - c mod 256" unfolding u by (simp add: push_bit_eq_mult drop_bit_eq_div minus_mod_eq_div_mult)
  have "c AND 0xff = c mod 256" using take_bit_eq_mask [of 8 c] by (simp add: mask_eq_exp_minus_1 take_bit_eq_mod)
  then show "push_bit 8 (uint ?h) + uint (word_of_int (c AND 0xff) :: byte) = c" unfolding m2 by (simp add: uint_word_of_int)
qed

lemma id_bits: "i \<le> 0x3fffff \<Longrightarrow> bit (i :: 32 word) n \<Longrightarrow> n < 22"
proof (rule ccontr)
  assume u: "i \<le> 0x3fffff" and b: "bit i n" "\<not> n < 22"
  have "unat i \<le> 0x3fffff" using u by (simp add: word_le_nat_alt)
  then have "take_bit 22 (unat i) = unat i" by (intro take_bit_nat_eq_self) simp
  then have "bit (unat i) n \<Longrightarrow> n < 22" by (metis bit_take_bit_iff)
  then show False using b by (simp add: bit_unsigned_iff bit_imp_le_length)
qed

lemma id_bytes_plain:
  assumes "i \<le> (0x3fffff :: 32 word)"
  shows "(push_bit 8 (ucast (ucast (drop_bit 8 i AND 255) :: byte)) OR ucast (ucast (i AND 255) :: byte)) OR
     push_bit 16 (ucast (ucast (drop_bit 16 i AND 255) :: byte)) = i"
  unfolding and_low
  by (rule bit_word_eqI) (auto simp: bit_push_bit_iff bit_drop_bit_eq bit_or_iff bit_take_bit_iff bit_ucast_iff dest: id_bits [OF assms])

lemma id_bytes_crammed:
  assumes "i \<le> (0x3fffff :: 32 word)" and "f AND 0x3f = (0 :: byte)"
  shows "(push_bit 8 (ucast (ucast (drop_bit 8 i AND 255) :: byte)) OR ucast (ucast (i AND 255) :: byte)) OR
     push_bit 16 (ucast ((f OR (ucast (drop_bit 16 i) AND 0x3f)) AND 0x3f)) = i"
proof -
  have "(f OR (ucast (drop_bit 16 i) AND 0x3f)) AND 0x3f = (ucast (drop_bit 16 i) AND 0x3f :: byte)"
    using assms(2) by (simp add: bit.conj_disj_distrib2 and.assoc)
  then show ?thesis unfolding and_low
    by (simp only:) (rule bit_word_eqI, auto simp: bit_push_bit_iff bit_drop_bit_eq bit_or_iff bit_take_bit_iff bit_ucast_iff dest: id_bits [OF assms(1)])
qed

section \<open>Round trip\<close>

lemma read_byte_simps [simp]:
  "read_byte (b # bs) 0 = Some b" "read_byte (b # bs) (Suc i) = read_byte bs i"
  "read_byte (b # bs) (numeral k) = read_byte bs (pred_numeral k)"
  "read_byte (pre @ bs) (length pre) = read_byte bs 0" "read_byte (pre @ bs) (length pre + i) = read_byte bs i"
  "read_byte (pre @ bs) (Suc (length pre)) = read_byte bs 1" "read_byte (pre @ bs) (Suc (Suc (length pre))) = read_byte bs 2"
  by (simp_all add: read_byte_def numeral_eq_Suc nth_append)

text \<open>What decoding puts into an info, from the info that was encoded.\<close>

definition restore_pos :: "token_info \<Rightarrow> token_info \<Rightarrow> token_info" where
  "restore_pos orig info =
     (case info_pos_type orig of
        FREQUENT_POS \<Rightarrow> info\<lparr>info_pos_type := FREQUENT_POS, id_in_frequent_pos_map := id_in_frequent_pos_map orig\<rparr>
      | SAME_AS_PREV_POS \<Rightarrow> info\<lparr>info_pos_type := SAME_AS_PREV_POS\<rparr>
      | DEFAULT_POS \<Rightarrow> info\<lparr>info_token := (info_token info)
          \<lparr>token_lid := token_lid (info_token orig), token_rid := token_rid (info_token orig)\<rparr>\<rparr>)"

definition kept_cost :: "token_info \<Rightarrow> int" where
  "kept_cost orig =
     (let cost = token_cost (info_token orig) in
      if info_cost_type orig = CAN_USE_SMALL_ENCODING then cost - cost mod 256 else cost)"

definition restore_cost :: "token_info \<Rightarrow> token_info \<Rightarrow> token_info" where
  "restore_cost orig info = info\<lparr>info_token := (info_token info)\<lparr>token_cost := kept_cost orig\<rparr>\<rparr>"

definition restore_value :: "token_info \<Rightarrow> token_info \<Rightarrow> token_info" where
  "restore_value orig info =
     (if info_value_type orig = DEFAULT_VALUE
      then info\<lparr>info_value_type := DEFAULT_VALUE, id_in_value_trie := id_in_value_trie orig\<rparr>
      else info\<lparr>info_value_type := info_value_type orig\<rparr>)"

definition restore_attributes :: "token_info \<Rightarrow> token_info \<Rightarrow> token_info" where
  "restore_attributes orig info =
     (if token_attributes (info_token orig) AND SPELLING_CORRECTION \<noteq> 0
      then info\<lparr>info_token := (info_token info)\<lparr>token_attributes := SPELLING_CORRECTION\<rparr>\<rparr> else info)"

text \<open>The range the encoder relies on without checking it.\<close>

definition codable :: "token_info \<Rightarrow> bool" where
  "codable info \<longleftrightarrow> 0 \<le> token_cost (info_token info) \<and>
     (info_pos_type info = FREQUENT_POS \<longrightarrow> id_in_frequent_pos_map info < 256) \<and>
     (info_value_type info = DEFAULT_VALUE \<longrightarrow> 0 \<le> id_in_value_trie info \<and> id_in_value_trie info < 2 ^ 32)"

definition pos_flag_of :: "token_info \<Rightarrow> byte" where
  "pos_flag_of info =
     (case info_pos_type info of FREQUENT_POS \<Rightarrow> 0 | SAME_AS_PREV_POS \<Rightarrow> 0xc
      | DEFAULT_POS \<Rightarrow> if token_lid (info_token info) = token_rid (info_token info) then 8 else 4)"

lemma pos_round_trip:
  assumes f: "flags AND kPosTypeFlagMask = pos_flag_of orig" and e: "encode_pos orig flags dst = Some out"
    and p: "unat (token_lid (info_token orig)) \<le> 0xfff" "unat (token_rid (info_token orig)) \<le> 0xfff" and c: "codable orig"
  shows "\<exists>bs. out = dst @ bs \<and>
     length bs = (if flags AND kPosTypeFlagMask = kFrequentPosFlag then 1 else if flags AND kPosTypeFlagMask = kMonoPosFlag then 2
       else if flags AND kPosTypeFlagMask = kFullPosFlag then 3 else 0) \<and>
     (\<forall>pre post info.
        decode_pos (pre @ bs @ post) flags info (length pre) = Some (restore_pos orig info, length pre + length bs))"
proof (cases "info_pos_type orig")
  case FREQUENT_POS
  then have "0 \<le> id_in_frequent_pos_map orig" "id_in_frequent_pos_map orig < 256"
    using f e c by (auto simp: encode_pos_def pos_flag_of_def codec_flags codable_def Let_def split: if_splits)
  then show ?thesis using FREQUENT_POS f e
    by (auto simp: encode_pos_def decode_pos_def pos_flag_of_def codec_flags restore_pos_def byte_of_int Let_def)
next
  case SAME_AS_PREV_POS
  then show ?thesis using f e by (auto simp: encode_pos_def decode_pos_def pos_flag_of_def codec_flags restore_pos_def Let_def)
next
  case DEFAULT_POS
  show ?thesis
  proof (cases "token_lid (info_token orig) = token_rid (info_token orig)")
    case True
    then show ?thesis using DEFAULT_POS f e mono_pos_bytes [of "token_rid (info_token orig)"]
      by (auto simp: encode_pos_def decode_pos_def pos_flag_of_def codec_flags restore_pos_def Let_def)
  next
    case False
    then show ?thesis using DEFAULT_POS f e full_lid_bytes [OF p(1), of "token_rid (info_token orig)"] full_rid_bytes [OF p(2,1)]
      by (auto simp: encode_pos_def decode_pos_def pos_flag_of_def codec_flags restore_pos_def Let_def)
  qed
qed

lemma cost_round_trip:
  assumes e: "encode_cost orig dst = Some out" and c: "codable orig"
  shows "\<exists>bs. out = dst @ bs \<and> 1 \<le> length bs \<and> length bs \<le> 2 \<and> (hd bs AND kSmallCostFlag \<noteq> 0 \<longleftrightarrow> length bs = 1) \<and>
     (\<forall>pre post info. decode_cost (pre @ bs @ post) info (length pre) = Some (restore_cost orig info, length pre + length bs))"
proof -
  have r: "0 \<le> token_cost (info_token orig)" "token_cost (info_token orig) \<le> 0x7fff"
    using e c by (auto simp: encode_cost_def codable_def kCostMax_def Let_def split: if_splits)
  note cb = cost_bytes [OF r]
  show ?thesis
  proof (cases "info_cost_type orig")
    case DEFAULT_COST
    then have "out = dst @ [word_of_int (drop_bit 8 (token_cost (info_token orig))), word_of_int (token_cost (info_token orig) AND 0xff)]"
      using e r by (simp add: encode_cost_def kCostMax_def Let_def)
    then show ?thesis using DEFAULT_COST cb(1,5)
      by (intro exI conjI) (auto simp: decode_cost_def restore_cost_def kept_cost_def codec_flags Let_def)
  next
    case CAN_USE_SMALL_ENCODING
    then have "out = dst @ [word_of_int (drop_bit 8 (token_cost (info_token orig))) OR kSmallCostFlag]"
      using e r by (simp add: encode_cost_def kCostMax_def Let_def)
    then show ?thesis using CAN_USE_SMALL_ENCODING cb(2-4)
      by (intro exI conjI) (auto simp: decode_cost_def restore_cost_def kept_cost_def codec_flags Let_def)
  qed
qed

lemma value_id_round_trip:
  assumes f: "flags AND kValueTypeFlagMask = get_flag_for_value (info_value_type orig)"
    and e: "encode_value_info orig flags dst = Some out" and c: "codable orig" and d: "dst \<noteq> []"
    and cr: "flags AND kCrammedIDFlag \<noteq> 0 \<Longrightarrow> dst ! 0 AND kUpperCrammedIDMask = 0"
  shows "\<exists>u bs. out = dst[0 := (dst ! 0) OR (u AND kUpperCrammedIDMask)] @ bs \<and> (flags AND kCrammedIDFlag = 0 \<longrightarrow> u = 0) \<and>
     length bs \<le> 3 \<and>
     (\<forall>pre post info. pre \<noteq> [] \<longrightarrow> pre ! 0 = (dst ! 0) OR (u AND kUpperCrammedIDMask) \<longrightarrow>
        decode_value_info (pre @ bs @ post) flags info (length pre) = Some (restore_value orig info, length pre + length bs) \<and>
        read_value_info (pre @ bs @ post) flags (length pre) =
          Some (if info_value_type orig = DEFAULT_VALUE then id_in_value_trie orig else -1, length pre + length bs))"
proof (cases "info_value_type orig = DEFAULT_VALUE")
  case False
  then have o: "out = dst" using e f by (cases "info_value_type orig") (auto simp: encode_value_info_def codec_flags)
  have s: "dst[0 := dst ! 0 OR (0 AND kUpperCrammedIDMask)] @ [] = dst" using d by (simp add: list_update_id)
  show ?thesis
    by (rule exI [of _ 0], rule exI [of _ "[]"], unfold s)
      (use o False f in \<open>cases "info_value_type orig"; simp add: decode_value_info_def read_value_info_def restore_value_def codec_flags\<close>)
next
  case True
  define i where "i = (word_of_int (id_in_value_trie orig) :: 32 word)"
  have i: "uint i = id_in_value_trie orig" using c True by (simp add: codable_def i_def uint_word_of_int)
  have fl: "flags AND kValueTypeFlagMask = 0" using f True by (simp add: codec_flags)
  then have le: "i \<le> 0x3fffff" using e
    by (auto simp: encode_value_info_def codec_flags kValueTrieIdMax_def i_def Let_def not_less split: if_splits)
  then have gt: "\<not> 0x3fffff < i" by (simp add: not_less)
  have r0: "read_byte (pre @ xs) 0 = Some (pre ! 0)" if "pre \<noteq> []" for pre xs using that by (cases pre) simp_all
  show ?thesis
  proof (cases "flags AND kCrammedIDFlag = 0")
    case True
    then have "out = dst @ [ucast (i AND 255), ucast (drop_bit 8 i AND 255), ucast (drop_bit 16 i AND 255)]"
      using e fl gt by (simp add: encode_value_info_def codec_flags kValueTrieIdMax_def Let_def flip: i_def)
    then show ?thesis using True fl id_bytes_plain [OF le] i \<open>info_value_type orig = DEFAULT_VALUE\<close> d
      by (intro exI [of _ 0] exI [of _ "[ucast (i AND 255), ucast (drop_bit 8 i AND 255), ucast (drop_bit 16 i AND 255)]"])
        (simp add: decode_value_info_def read_value_info_def read_value_id_def restore_value_def codec_flags Let_def list_update_id)
  next
    case False
    then have "out = dst[0 := (dst ! 0) OR (ucast (drop_bit 16 i) AND kUpperCrammedIDMask)] @ [ucast (i AND 255), ucast (drop_bit 8 i AND 255)]"
      using e fl gt by (simp add: encode_value_info_def codec_flags kValueTrieIdMax_def Let_def flip: i_def)
    moreover have "dst ! 0 AND 0x3f = 0" using cr False by (simp add: codec_flags)
    ultimately show ?thesis using False fl id_bytes_crammed [OF le, of "dst ! 0"] i \<open>info_value_type orig = DEFAULT_VALUE\<close> r0
      by (intro exI [of _ "ucast (drop_bit 16 i)"] exI [of _ "[ucast (i AND 255), ucast (drop_bit 8 i AND 255)]"])
        (simp add: decode_value_info_def read_value_info_def read_value_id_def restore_value_def codec_flags Let_def)
  qed
qed

lemma get_flags_form:
  assumes "get_flags_for_token infos i = Some f"
  defines "l \<equiv> (if i = length infos - 1 then 0x80 else 0)"
    and "s \<equiv> (if token_attributes (info_token (infos ! i)) AND SPELLING_CORRECTION \<noteq> 0 then 0x10 else 0)"
    and "p \<equiv> pos_flag_of (infos ! i)" and "v \<equiv> get_flag_for_value (info_value_type (infos ! i))"
  shows "f = join_flags l s p v" and "flag_values l s p v"
    and "unat (token_lid (info_token (infos ! i))) \<le> 0xfff" and "unat (token_rid (info_token (infos ! i))) \<le> 0xfff"
proof -
  show fv: "flag_values l s p v"
    unfolding flag_values_def l_def s_def p_def v_def pos_flag_of_def
    by (cases "info_value_type (infos ! i)") (auto simp: codec_flags split: pos_type.splits)
  obtain pf where pf: "get_flag_for_pos (infos ! i) = Some pf"
    using assms(1) by (cases "get_flag_for_pos (infos ! i)") (auto simp: get_flags_for_token_def Let_def)
  then show "unat (token_lid (info_token (infos ! i))) \<le> 0xfff" "unat (token_rid (info_token (infos ! i))) \<le> 0xfff"
    by (auto simp: get_flag_for_pos_def kPosMax_def Let_def split: if_splits)
  have "pf = p" using pf by (auto simp: get_flag_for_pos_def p_def pos_flag_of_def codec_flags Let_def split: if_splits pos_type.splits)
  then show "f = join_flags l s p v"
    using assms(1) pf by (auto simp: get_flags_for_token_def join_flags_def l_def s_def v_def kLastTokenFlag_def kSpellingCorrectionFlag_def
        Let_def split: if_splits)
qed

text \<open>Both readers of one token.\<close>

definition decoded :: "token_info \<Rightarrow> token_info \<Rightarrow> token_info" where
  "decoded orig info = restore_value orig (restore_cost orig (restore_pos orig (restore_attributes orig info)))"

lemma token_round_trip:
  assumes e: "encode_token infos i = Some bs" and c: "codable (infos ! i)"
  shows "decode_token (bs @ rest) info = Some (i \<noteq> length infos - 1, decoded (infos ! i) info, length bs)"
    and "read_token_for_reverse_lookup (bs @ rest) =
      Some (i \<noteq> length infos - 1, if info_value_type (infos ! i) = DEFAULT_VALUE then id_in_value_trie (infos ! i) else -1, length bs)"
    and "2 \<le> length bs"
proof -
  let ?o = "infos ! i"
  from e obtain f where f: "get_flags_for_token infos i = Some f" by (auto simp: encode_token_def bind_eq_Some_conv split: if_splits)
  obtain l s p v where j: "f = join_flags l s p v" "flag_values l s p v" "l = (if i = length infos - 1 then 0x80 else 0)"
    "s = (if token_attributes (info_token ?o) AND SPELLING_CORRECTION \<noteq> 0 then 0x10 else 0)" "p = pos_flag_of ?o"
    "v = get_flag_for_value (info_value_type ?o)"
    using get_flags_form(1,2) [OF f] by blast
  note parts = join_flags_parts [OF j(2), folded j(1)]
  from e f obtain b1 b2 b3 where b: "encode_pos ?o f [f] = Some b1" "encode_cost ?o b1 = Some b2" "encode_value_info ?o f b2 = Some b3" "bs = b3"
    by (auto simp: encode_token_def bind_eq_Some_conv split: if_splits)
  from pos_round_trip [OF _ b(1) get_flags_form(3,4) [OF f] c] parts(1) j(5) obtain pb where
    pb: "b1 = [f] @ pb" "length pb = (if f AND kPosTypeFlagMask = kFrequentPosFlag then 1 else if f AND kPosTypeFlagMask = kMonoPosFlag then 2
       else if f AND kPosTypeFlagMask = kFullPosFlag then 3 else 0)"
    "decode_pos (pre @ pb @ post) f info (length pre) = Some (restore_pos ?o info, length pre + length pb)" for pre post info
    by blast
  from cost_round_trip [OF b(2) c] obtain cb where
    cb: "b2 = b1 @ cb" "1 \<le> length cb" "length cb \<le> 2" "hd cb AND kSmallCostFlag \<noteq> 0 \<longleftrightarrow> length cb = 1"
    "decode_cost (pre @ cb @ post) info (length pre) = Some (restore_cost ?o info, length pre + length cb)" for pre post info
    by blast
  have "f AND kCrammedIDFlag \<noteq> 0 \<Longrightarrow> b2 ! 0 AND kUpperCrammedIDMask = 0"
    using parts(8) j(2) cb(1) pb(1) by (auto simp: flag_values_def codec_flags)
  moreover have "f AND kValueTypeFlagMask = get_flag_for_value (info_value_type ?o)" "b2 \<noteq> []" using parts(2) j(6) pb(1) cb(1) by simp_all
  ultimately obtain u vb where vb: "b3 = b2[0 := (b2 ! 0) OR (u AND kUpperCrammedIDMask)] @ vb" "f AND kCrammedIDFlag = 0 \<longrightarrow> u = 0"
    and vd: "\<forall>pre post info. pre \<noteq> [] \<longrightarrow> pre ! 0 = (b2 ! 0) OR (u AND kUpperCrammedIDMask) \<longrightarrow>
        decode_value_info (pre @ vb @ post) f info (length pre) = Some (restore_value ?o info, length pre + length vb) \<and>
        read_value_info (pre @ vb @ post) f (length pre) =
          Some (if info_value_type ?o = DEFAULT_VALUE then id_in_value_trie ?o else -1, length pre + length vb)"
    using value_id_round_trip [OF _ b(3) c] by metis
  define f' where "f' = f OR (u AND kUpperCrammedIDMask)"
  have bs: "bs = f' # pb @ cb @ vb" using b(4) vb(1) pb(1) cb(1) by (simp add: f'_def)
  have b20: "b2 ! 0 = f" using pb(1) cb(1) by simp
  have rf: "read_flags f' = f"
  proof (cases "f AND kCrammedIDFlag = 0")
    case True
    then show ?thesis using vb(2) read_flags_plain [OF j(2), folded j(1)] by (simp add: f'_def)
  next
    case False
    then have "f = l OR kCrammedIDFlag" using parts(8) by simp
    then show ?thesis using read_flags_crammed [of l u] j(2) by (simp add: f'_def flag_values_def)
  qed
  have dp: "decode_pos (f' # pb @ post) f info 1 = Some (restore_pos ?o info, Suc (length pb))" for post info
    using pb(3) [of "[f']" post info] by simp
  have dc: "decode_cost (f' # pb @ cb @ post) info (Suc (length pb)) = Some (restore_cost ?o info, Suc (length pb) + length cb)" for post info
    using cb(5) [of "f' # pb" post info] by simp
  have dv: "decode_value_info (f' # pb @ cb @ vb @ post) f info (Suc (length pb) + length cb) = Some (restore_value ?o info, length bs)"
    "read_value_info (f' # pb @ cb @ vb @ post) f (Suc (length pb) + length cb) =
       Some (if info_value_type ?o = DEFAULT_VALUE then id_in_value_trie ?o else -1, length bs)" for post info
    using vd [rule_format, of "f' # pb @ cb" post info] b20 by (simp_all add: f'_def bs)
  have last: "(f AND kLastTokenFlag = 0) = (i \<noteq> length infos - 1)" using parts(4) j(3) by simp
  have sp: "(f AND kSpellingCorrectionFlag \<noteq> 0) = (token_attributes (info_token ?o) AND SPELLING_CORRECTION \<noteq> 0)"
    using parts(3) j(4) by simp
  have bsr: "bs @ rest = f' # pb @ cb @ vb @ rest" by (simp add: bs)
  show "decode_token (bs @ rest) info = Some (i \<noteq> length infos - 1, decoded ?o info, length bs)"
    unfolding decode_token_def bsr
    by (simp add: rf dp dc dv(1) [simplified] last sp decoded_def restore_attributes_def Let_def del: One_nat_def)
  have off: "(if f AND kPosTypeFlagMask = kFrequentPosFlag then 2 else if f AND kPosTypeFlagMask = kMonoPosFlag then 3
                     else if f AND kPosTypeFlagMask = kFullPosFlag then 4 else 1) = Suc (length pb)"
    using pb(2) by simp
  obtain c0 cb' where cb': "cb = c0 # cb'" using cb(2) by (cases cb) auto
  have rc: "read_byte (cb @ vb @ rest) 0 = Some c0" by (simp add: cb')
  have lc: "(if c0 AND kSmallCostFlag \<noteq> 0 then 1 else 2) = length cb" using cb(2-4) cb' by (cases cb') auto
  show "read_token_for_reverse_lookup (bs @ rest) =
      Some (i \<noteq> length infos - 1, if info_value_type ?o = DEFAULT_VALUE then id_in_value_trie ?o else -1, length bs)"
    unfolding read_token_for_reverse_lookup_def bsr Let_def
    by (simp only: read_byte_simps bind.simps rf off rc lc dv(2) last option.map prod.case)
  show "2 \<le> length bs" using cb(2) by (simp add: bs)
qed

lemma decode_token_reads: "decode_token ptr info = Some (again, info', n) \<Longrightarrow> 0 < n \<and> n \<le> length ptr"
proof -
  have r: "read_byte p i = Some b \<Longrightarrow> i < length p" for p i b by (auto simp: read_byte_def split: if_splits)
  have p: "decode_pos ptr f info0 1 = Some (info1, o1) \<Longrightarrow> 1 \<le> o1" for f info0 info1 o1
    by (auto simp: decode_pos_def Let_def bind_eq_Some_conv split: if_splits)
  have c: "decode_cost ptr info0 o1 = Some (info1, o2) \<Longrightarrow> o1 < o2 \<and> o2 \<le> length ptr" for info0 info1 o1 o2
    by (auto simp: decode_cost_def bind_eq_Some_conv dest!: r split: if_splits)
  have v: "decode_value_info ptr f info0 o1 = Some (info1, o2) \<Longrightarrow> o1 \<le> length ptr \<Longrightarrow> o1 \<le> o2 \<and> o2 \<le> length ptr" for f info0 info1 o1 o2
    by (auto simp: decode_value_info_def read_value_id_def Let_def bind_eq_Some_conv dest!: r split: if_splits)
  assume "decode_token ptr info = Some (again, info', n)"
  then show ?thesis
    by (auto simp: decode_token_def Let_def bind_eq_Some_conv dest!: p c v split: if_splits)
qed

text \<open>When a token is encoded.\<close>

definition encodable_info :: "bool \<Rightarrow> token_info \<Rightarrow> bool" where
  "encodable_info is_first info \<longleftrightarrow>
     unat (token_lid (info_token info)) \<le> 0xfff \<and> unat (token_rid (info_token info)) \<le> 0xfff \<and>
     token_cost (info_token info) \<le> 0x7fff \<and>
     (is_first \<longrightarrow> info_pos_type info \<noteq> SAME_AS_PREV_POS \<and> info_value_type info \<noteq> SAME_AS_PREV_VALUE) \<and>
     (info_pos_type info = FREQUENT_POS \<longrightarrow> 0 \<le> id_in_frequent_pos_map info) \<and>
     (info_value_type info = DEFAULT_VALUE \<longrightarrow> 0 \<le> id_in_value_trie info \<and> id_in_value_trie info \<le> 0x3fffff)"

lemma encode_token_total:
  assumes i: "i < length infos" and ok: "encodable_info (i = 0) (infos ! i)"
  shows "\<exists>bs. encode_token infos i = Some bs \<and> length bs \<le> 9"
proof -
  let ?o = "infos ! i"
  have pf: "get_flag_for_pos ?o = Some (pos_flag_of ?o)"
    using ok by (auto simp: get_flag_for_pos_def pos_flag_of_def encodable_info_def kPosMax_def codec_flags Let_def split: pos_type.splits)
  define l :: byte where "l = (if i = length infos - 1 then 0x80 else 0)"
  define sp :: byte where "sp = (if token_attributes (info_token ?o) AND SPELLING_CORRECTION \<noteq> 0 then 0x10 else 0)"
  define p where "p = pos_flag_of ?o"
  define v where "v = get_flag_for_value (info_value_type ?o)"
  have fv: "flag_values l sp p v"
    unfolding flag_values_def l_def sp_def p_def v_def pos_flag_of_def
    by (cases "info_value_type (infos ! i)") (auto simp: codec_flags split: pos_type.splits)
  note parts = join_flags_parts [OF fv]
  have fp: "p \<noteq> kSameAsPrevPosFlag" if "i = 0"
    using ok that by (cases "info_pos_type ?o") (auto simp: encodable_info_def p_def pos_flag_of_def codec_flags)
  have fvf: "v \<noteq> kSameAsPrevValueFlag" if "i = 0"
    using ok that by (cases "info_value_type ?o") (auto simp: encodable_info_def v_def codec_flags)
  have ls: "(if token_attributes (info_token ?o) AND SPELLING_CORRECTION \<noteq> 0
      then (if i = length infos - 1 then kLastTokenFlag else 0) OR kSpellingCorrectionFlag
      else (if i = length infos - 1 then kLastTokenFlag else 0)) = l OR sp"
    unfolding l_def sp_def kLastTokenFlag_def kSpellingCorrectionFlag_def by simp
  have p6: "((l OR sp) OR p) AND kPosTypeFlagMask = p" using parts(6) by (simp only: or.assoc)
  have "\<not> (i = 0 \<and> p = kSameAsPrevPosFlag)" "\<not> (i = 0 \<and> v = kSameAsPrevValueFlag)" using fp fvf by blast+
  then have f: "get_flags_for_token infos i = Some (join_flags l sp p v)"
    unfolding get_flags_for_token_def Let_def pf bind.simps ls p_def [symmetric] v_def [symmetric] p6 parts(7) join_flags_def
    by (simp only: if_False)
  define fl where "fl = join_flags l sp p v"
  have "p = kFrequentPosFlag \<Longrightarrow> info_pos_type ?o = FREQUENT_POS"
    by (cases "info_pos_type ?o") (simp_all add: p_def pos_flag_of_def codec_flags split: if_splits)
  then have "fl AND kPosTypeFlagMask = kFrequentPosFlag \<Longrightarrow> \<not> id_in_frequent_pos_map ?o < 0"
    using ok parts(1) by (simp add: encodable_info_def fl_def)
  then have "\<exists>d1. encode_pos ?o fl [fl] = Some d1 \<and> length d1 \<le> 4 \<and> d1 \<noteq> []"
    by (simp add: encode_pos_def Let_def)
  then obtain d1 where d1: "encode_pos ?o fl [fl] = Some d1" "length d1 \<le> 4" "d1 \<noteq> []" by blast
  have "\<exists>d2. encode_cost ?o d1 = Some d2 \<and> length d2 \<le> 6 \<and> d2 \<noteq> []"
    using ok d1 by (simp add: encode_cost_def kCostMax_def encodable_info_def Let_def)
  then obtain d2 where d2: "encode_cost ?o d1 = Some d2" "length d2 \<le> 6" "d2 \<noteq> []" by blast
  have "\<exists>d3. encode_value_info ?o fl d2 = Some d3 \<and> length d3 \<le> 9"
  proof (cases "info_value_type ?o = DEFAULT_VALUE")
    case True
    then have r: "0 \<le> id_in_value_trie ?o" "id_in_value_trie ?o \<le> 0x3fffff" using ok by (simp_all add: encodable_info_def)
    then have "\<not> kValueTrieIdMax < (word_of_int (id_in_value_trie ?o) :: 32 word)"
      by (simp add: kValueTrieIdMax_def word_less_def uint_word_of_int)
    then show ?thesis using d2 by (simp add: encode_value_info_def Let_def)
  next
    case False
    then have "fl AND kValueTypeFlagMask \<noteq> kNormalValueFlag"
      using parts(2) unfolding fl_def v_def by (cases "info_value_type ?o") (simp_all add: codec_flags)
    then show ?thesis using d2 by (simp add: encode_value_info_def)
  qed
  then show ?thesis using i f d1(1) d2(1) by (auto simp: encode_token_def fl_def)
qed

lemma crammed_id_not_full:
  assumes "0 \<le> i" "i < 0x3f0000"
  shows "(ucast (drop_bit 16 (word_of_int i :: 32 word)) AND 0x3f :: byte) \<noteq> 0x3f"
proof -
  have "unat (word_of_int i :: 32 word) = nat i" using assms by (simp add: unsigned_of_int take_bit_eq_mod nat_mod_distrib)
  then have d: "unat (drop_bit 16 (word_of_int i :: 32 word)) = nat i div 65536" by (simp only: unat_drop_bit_eq) (simp add: drop_bit_eq_div)
  have "nat i div 65536 < 63" using assms by (simp add: less_mult_imp_div_less)
  then have "unat (take_bit 6 (ucast (drop_bit 16 (word_of_int i :: 32 word)) :: byte)) < 63"
    by (simp only: unsigned_take_bit_eq unsigned_ucast_eq d) (simp add: take_bit_eq_mod)
  then show ?thesis unfolding and_low by auto
qed

text \<open>The first byte of a token is not the termination flag when the value id is small.\<close>

lemma encode_token_first:
  assumes e: "encode_token infos i = Some bs"
    and low: "info_value_type (infos ! i) = DEFAULT_VALUE \<Longrightarrow> 0 \<le> id_in_value_trie (infos ! i) \<and> id_in_value_trie (infos ! i) < 0x3f0000"
  shows "bs \<noteq> []" and "hd bs \<noteq> kTokenTerminationFlag"
proof -
  let ?o = "infos ! i"
  obtain f d1 d2 where s: "get_flags_for_token infos i = Some f" "encode_pos ?o f [f] = Some d1" "encode_cost ?o d1 = Some d2"
    "encode_value_info ?o f d2 = Some bs"
    using e by (auto simp: encode_token_def bind_eq_Some_conv split: if_splits)
  note form = get_flags_form [OF s(1)]
  note parts = join_flags_parts [OF form(2), folded form(1)]
  have "d1 \<noteq> [] \<and> d1 ! 0 = f" using s(2) by (auto simp: encode_pos_def Let_def split: if_splits)
  then have d2: "d2 \<noteq> []" "d2 ! 0 = f" using s(3) by (auto simp: encode_cost_def Let_def nth_append split: if_splits)
  show ne: "bs \<noteq> []" using s(4) d2 by (auto simp: encode_value_info_def Let_def split: if_splits)
  show "hd bs \<noteq> kTokenTerminationFlag"
  proof (cases "f AND kCrammedIDFlag = 0")
    case True
    then have "f \<noteq> kTokenTerminationFlag" by (auto simp: codec_flags)
    moreover have "hd bs = f" using s(4) d2 True ne
      by (auto simp: encode_value_info_def Let_def hd_conv_nth nth_append split: if_splits)
    ultimately show ?thesis by simp
  next
    case False
    then have "get_flag_for_value (info_value_type ?o) = 0" using parts(5) by blast
    then have v: "info_value_type ?o = DEFAULT_VALUE" by (cases "info_value_type ?o") (simp_all add: codec_flags)
    let ?u = "ucast (drop_bit 16 (word_of_int (id_in_value_trie ?o) :: 32 word)) AND 0x3f :: byte"
    have "hd bs = f OR ?u" using s(4) d2 False v parts(2) ne
      by (auto simp: encode_value_info_def Let_def hd_conv_nth nth_append kUpperCrammedIDMask_def kNormalValueFlag_def split: if_splits)
    moreover have "f AND 0x3f = 0"
      using parts(8) [OF False] by (auto simp: codec_flags bit.conj_disj_distrib2 split: if_splits)
    ultimately have "hd bs AND 0x3f = ?u" by (simp add: bit.conj_disj_distrib2 and.assoc)
    then show ?thesis using crammed_id_not_full low [OF v] by (auto simp: kTokenTerminationFlag_def)
  qed
qed

lemma encode_token_list_total:
  "\<forall>i \<in> set is. i < length infos \<and> encodable_info (i = 0) (infos ! i) \<Longrightarrow>
     \<exists>bs. encode_token_list infos is = Some bs \<and> length bs \<le> 9 * length is"
proof (induction "is")
  case (Cons i "is")
  obtain b where "encode_token infos i = Some b" "length b \<le> 9" using encode_token_total [of i infos] Cons.prems by auto
  moreover obtain bs where "encode_token_list infos is = Some bs" "length bs \<le> 9 * length is" using Cons by auto
  ultimately show ?case by auto
qed simp

lemma encode_tokens_total:
  assumes ne: "infos \<noteq> []" and ok: "\<And>i. i < length infos \<Longrightarrow> encodable_info (i = 0) (infos ! i)"
    and low: "info_value_type (infos ! 0) = DEFAULT_VALUE \<Longrightarrow> id_in_value_trie (infos ! 0) < 0x3f0000"
  shows "\<exists>bs. encode_tokens infos = Some bs \<and> encode_token_list infos [0..<length infos] = Some bs \<and>
     length bs \<le> 9 * length infos \<and> bs \<noteq> [] \<and> hd bs \<noteq> kTokenTerminationFlag"
proof -
  obtain bs where bs: "encode_token_list infos [0..<length infos] = Some bs" "length bs \<le> 9 * length infos"
    using encode_token_list_total [of "[0..<length infos]" infos] ok by auto
  have "[0..<length infos] = 0 # [1..<length infos]" using ne by (simp add: upt_conv_Cons)
  then obtain b rest where b: "encode_token infos 0 = Some b" "bs = b @ rest" using bs(1) by (auto simp: bind_eq_Some_conv)
  have "info_value_type (infos ! 0) = DEFAULT_VALUE \<Longrightarrow> 0 \<le> id_in_value_trie (infos ! 0) \<and> id_in_value_trie (infos ! 0) < 0x3f0000"
    using ok [of 0] ne low by (simp add: encodable_info_def)
  note f = encode_token_first [OF b(1) this]
  have "bs \<noteq> []" "hd bs \<noteq> kTokenTerminationFlag" using b(2) f by simp_all
  then show ?thesis using bs by (simp add: encode_tokens_def hd_conv_nth)
qed

section \<open>Properties\<close>

text \<open>
  C8: (tokens of the system dictionary) decoding an encoded token, in front of any bytes, takes exactly its bytes and
  restores the pos (or its index, or that it is the previous one), the value id (or how the value is found), the
  spelling-correction attribute and the cost, whose low eight bits the small encoding drops; it reports whether more
  tokens follow; and the reader of the reverse lookup takes the same bytes and finds the same value id.
\<close>

theorem dictionary_token_round_trip:
  assumes "encode_token infos i = Some bs" and "codable (infos ! i)"
  shows "decode_token (bs @ rest) info = Some (i \<noteq> length infos - 1, decoded (infos ! i) info, length bs) \<and>
    read_token_for_reverse_lookup (bs @ rest) =
      Some (i \<noteq> length infos - 1, if info_value_type (infos ! i) = DEFAULT_VALUE then id_in_value_trie (infos ! i) else -1, length bs)"
  using token_round_trip [OF assms] by simp

definition sample_infos :: "token_info list" where
  "sample_infos =
     [(clear_info \<lparr>token_key = ''a'', token_value = ''b'', token_cost = 0x1234, token_lid = 0x321, token_rid = 0x123, token_attributes = 0\<rparr>)
        \<lparr>id_in_value_trie := 0x123456\<rparr>,
      (clear_info \<lparr>token_key = ''a'', token_value = ''c'', token_cost = 0x1234, token_lid = 7, token_rid = 7, token_attributes = 1\<rparr>)
        \<lparr>info_value_type := AS_IS_KATAKANA, info_cost_type := CAN_USE_SMALL_ENCODING\<rparr>]"

abbreviation blank_info :: token_info where
  "blank_info \<equiv> clear_info \<lparr>token_key = ''a'', token_value = [], token_cost = 0, token_lid = 0, token_rid = 0, token_attributes = 0\<rparr>"

lemmas encode_eval = encode_token_def get_flags_for_token_def get_flag_for_pos_def encode_pos_def encode_cost_def encode_value_info_def
  sample_infos_def clear_info_def kPosMax_def kCostMax_def kValueTrieIdMax_def codec_flags Let_def

lemma sample_encoded:
  "encode_token sample_infos 0 = Some [0x04, 0x21, 0x33, 0x12, 0x12, 0x34, 0x56, 0x34, 0x12]"
  "encode_token sample_infos 1 = Some [0x9a, 0x07, 0x00, 0x92]"
  by (simp_all add: encode_eval)

theorem dictionary_token_round_trip_witness:
  "decode_token [0x04, 0x21, 0x33, 0x12, 0x12, 0x34, 0x56, 0x34, 0x12, 0x9a] blank_info =
     Some (True, decoded (sample_infos ! 0) blank_info, 9)"
  using dictionary_token_round_trip [OF sample_encoded(1), of "[0x9a]" blank_info]
  by (simp add: codable_def sample_infos_def clear_info_def)

text \<open>
  (The termination flag) An encoded list of tokens never begins with the byte 255 that ends the token array.  The
  final check is needed for that: a value id of \<open>0x3f0000\<close> or more in crammed form fills the first byte up to 255,
  although it passes the range check on value ids, and the encoding of such a token fails.
\<close>

definition flag_like_info :: token_info where
  "flag_like_info = (clear_info \<lparr>token_key = ''a'', token_value = ''b'', token_cost = 1, token_lid = 1, token_rid = 2, token_attributes = 0\<rparr>)
     \<lparr>id_in_value_trie := 0x3f0000, info_pos_type := FREQUENT_POS, id_in_frequent_pos_map := 3\<rparr>"

theorem termination_flag_is_free:
  "map_option (take 1) (encode_tokens infos) \<noteq> Some [kTokenTerminationFlag] \<and>
   codable flag_like_info \<and> encode_token [flag_like_info] 0 = Some [kTokenTerminationFlag, 3, 0, 1, 0, 0] \<and>
   encode_tokens [flag_like_info] = None"
proof -
  have "map_option (take 1) (encode_tokens infos) \<noteq> Some [kTokenTerminationFlag]"
  proof
    assume "map_option (take 1) (encode_tokens infos) = Some [kTokenTerminationFlag]"
    then obtain bs where "encode_tokens infos = Some bs" "take 1 bs = [kTokenTerminationFlag]" by auto
    then show False by (cases bs) (auto simp: encode_tokens_def bind_eq_Some_conv split: if_splits)
  qed
  then show ?thesis by (simp add: codable_def flag_like_info_def encode_tokens_def encode_eval)
qed

end
