(* ===== verification/Bit_Vector.thy ===== *)
theory Bit_Vector
  imports Bit_Stream
begin

text \<open>
  The rank/select index of the LOUDS storage (\<open>storage/louds/simple_succinct_bit_vector_index.cc\<close>).
  A pointer into an image is the rest of the image from there on; a read past its end is \<open>None\<close>, as is
  a failed \<open>CHECK\<close> and a loop that does not end.  A pointer into the \<open>index_\<close> array is the index of its element.
  The theorems show that rank and select, for every chunk size and every size of the two lower-bound
  caches, compute the number of set bits before a position and the position of the n-th bit.
\<close>

unbundle bit_operations_syntax

text \<open>\<open>std::lower_bound\<close> of \<open>n\<close> on the values \<open>f lo, ..., f (hi - 1)\<close>, which are in order.\<close>

function lower_bound :: "(nat \<Rightarrow> nat) \<Rightarrow> nat \<Rightarrow> nat \<Rightarrow> nat \<Rightarrow> nat" where
  "lower_bound f lo hi n = (if lo < hi \<and> f lo < n then lower_bound f (Suc lo) hi n else lo)"
  by pat_completeness auto
termination by (relation "measure (\<lambda>(f, lo, hi, n). hi - lo)") auto

declare lower_bound.simps [simp del]

section \<open>SimpleSuccinctBitVectorIndex\<close>

record bit_index =
  bi_data :: bytes
  bi_length :: nat
  bi_chunk_size :: nat
  bi_index :: "nat list"
  lb0_cache :: "nat list"
  lb0_increment :: nat
  lb1_increment :: nat
  lb1_cache :: "nat list"

text \<open>\<open>Count1Bits\<close> of \<open>len\<close> words from byte \<open>p\<close> on.\<close>

fun count1_bits :: "bytes \<Rightarrow> nat \<Rightarrow> nat \<Rightarrow> nat option" where
  "count1_bits data p 0 = Some 0"
| "count1_bits data p (Suc len) =
     Option.bind (load32 data p) (\<lambda>w. map_option (\<lambda>r. popcount w + r) (count1_bits data (p + 4) len))"

text \<open>The loop of \<open>InitIndex\<close>; a chunk size below 4 makes no progress.\<close>

function index_loop :: "bytes \<Rightarrow> nat \<Rightarrow> nat \<Rightarrow> nat \<Rightarrow> nat \<Rightarrow> nat list option" where
  "index_loop data chunk_size p remaining_num_words num =
     (if remaining_num_words = 0 then Some [num]
      else if chunk_size < 4 then None
      else
        Option.bind (count1_bits data p (min (chunk_size div 4) remaining_num_words)) (\<lambda>k.
          map_option ((#) num)
            (index_loop data chunk_size (p + chunk_size) (remaining_num_words - chunk_size div 4) (num + k))))"
  by pat_completeness auto
termination
  by (relation "measure (\<lambda>(data, chunk_size, p, remaining_num_words, num). remaining_num_words)") auto

declare index_loop.simps [simp del]

text \<open>
  \<open>InitIndex\<close> with its \<open>DCHECK\<close>s: the chunk size is a power of 2 and the length a multiple of 4.  All numbers of the class
  are of type \<open>int\<close>.  The greatest products that the class computes are the bits of a chunk (in \<open>Rank1\<close>) and of all chunks
  (in \<open>ZeroBitIndexIterator\<close>; the bits of the image, in \<open>GetNum0Bits\<close>, are not more): when one of them is not an \<open>int\<close> the
  result is \<open>None\<close>, and otherwise no other computation leaves the range.
\<close>

definition has_single_bit :: "nat \<Rightarrow> bool" where
  "has_single_bit n \<longleftrightarrow> 0 < n \<and> n AND (n - 1) = 0"

definition init_index :: "bytes \<Rightarrow> nat \<Rightarrow> nat \<Rightarrow> nat list option" where
  "init_index data len chunk_size =
     (let chunk_length = (len + chunk_size - 1) div chunk_size in
      if chunk_size < 4 \<or> \<not> has_single_bit chunk_size \<or> len mod 4 \<noteq> 0 then None
      else if 2 ^ 31 \<le> chunk_size * 8 \<or> 2 ^ 31 \<le> chunk_size * 8 * chunk_length then None
      else
        Option.bind (index_loop data chunk_size 0 (len div 4) 0) (\<lambda>index.
          if chunk_length + 1 = length index then Some index else None))"

text \<open>The value a \<open>ZeroBitIndexIterator\<close> at offset \<open>p\<close> points to.\<close>

definition zero_bits :: "nat list \<Rightarrow> nat \<Rightarrow> nat \<Rightarrow> nat" where
  "zero_bits index chunk_size p = chunk_size * 8 * p - index ! p"

definition init_lower_bound0_cache :: "nat list \<Rightarrow> nat \<Rightarrow> nat \<Rightarrow> nat \<Rightarrow> nat list" where
  "init_lower_bound0_cache index chunk_size increment cache_size =
     0 # map (\<lambda>i. lower_bound (zero_bits index chunk_size) 0 (length index) (increment * i)) [1..<cache_size + 1] @
       [length index]"

definition init_lower_bound1_cache :: "nat list \<Rightarrow> nat \<Rightarrow> nat \<Rightarrow> nat list" where
  "init_lower_bound1_cache index increment cache_size =
     0 # map (\<lambda>i. lower_bound ((!) index) 0 (length index) (increment * i)) [1..<cache_size + 1] @ [length index]"

definition cache_increment :: "nat \<Rightarrow> nat \<Rightarrow> nat" where
  "cache_increment num cache_size =
     (let increment = (if cache_size = 0 then num else num div cache_size) in
      if increment = 0 then 1 else increment)"

definition init_bit_index :: "nat \<Rightarrow> bytes \<Rightarrow> nat \<Rightarrow> nat \<Rightarrow> nat \<Rightarrow> bit_index option" where
  "init_bit_index chunk_size data len lb0_cache_size lb1_cache_size =
     map_option
       (\<lambda>index.
         let num1 = last index; num0 = 8 * len - num1;
             inc0 = cache_increment num0 lb0_cache_size;
             inc1 = cache_increment num1 lb1_cache_size
         in \<lparr>bi_data = data, bi_length = len, bi_chunk_size = chunk_size, bi_index = index,
             lb0_cache = init_lower_bound0_cache index chunk_size inc0 lb0_cache_size,
             lb0_increment = inc0, lb1_increment = inc1,
             lb1_cache = init_lower_bound1_cache index inc1 lb1_cache_size\<rparr>)
       (init_index data len chunk_size)"

definition get_num1_bits :: "bit_index \<Rightarrow> nat" where
  "get_num1_bits bi = last (bi_index bi)"

definition get_num0_bits :: "bit_index \<Rightarrow> nat" where
  "get_num0_bits bi = 8 * bi_length bi - last (bi_index bi)"

definition get_bit :: "bit_index \<Rightarrow> nat \<Rightarrow> bool option" where
  "get_bit bi i =
     (if i div 8 < length (bi_data bi) then Some (odd (drop_bit (i mod 8) (ord_of (bi_data bi ! (i div 8)))))
      else None)"

definition rank1 :: "bit_index \<Rightarrow> nat \<Rightarrow> nat option" where
  "rank1 bi n =
     (let num_chunks = n div (bi_chunk_size bi * 8) in
      if length (bi_index bi) \<le> num_chunks then None
      else
        Option.bind (count1_bits (bi_data bi) (num_chunks * bi_chunk_size bi)
            ((n div 8 - num_chunks * bi_chunk_size bi) div 4)) (\<lambda>words.
          let result = bi_index bi ! num_chunks + words in
          if 0 < n mod 32 then
            map_option (\<lambda>w. result + popcount (push_bit (32 - n mod 32) w)) (load32 (bi_data bi) (4 * (n div 32)))
          else Some result))"

definition rank0 :: "bit_index \<Rightarrow> nat \<Rightarrow> nat option" where
  "rank0 bi n = map_option (\<lambda>r. n - r) (rank1 bi n)"

text \<open>The linear search on words: \<open>count\<close> is \<open>std::popcount\<close> or \<open>BitCount0\<close>.\<close>

function word_search :: "(32 word \<Rightarrow> nat) \<Rightarrow> bytes \<Rightarrow> nat \<Rightarrow> nat \<Rightarrow> (nat \<times> nat \<times> 32 word) option" where
  "word_search count data p n =
     (case load32 data p of
        None \<Rightarrow> None
      | Some w \<Rightarrow> if n \<le> count w then Some (p, n, w) else word_search count data (p + 4) (n - count w))"
  by pat_completeness auto
termination
  by (relation "measure (\<lambda>(count, data, p, n). length data - p)") (auto simp: load32_def split: if_splits)

declare word_search.simps [simp del]

text \<open>The search on bits; it would never end on a word that runs out of set bits.\<close>

function bit_search :: "32 word \<Rightarrow> nat \<Rightarrow> nat \<Rightarrow> nat option" where
  "bit_search w n i =
     (if n = 0 then Some i
      else if w = 0 then None
      else bit_search (drop_bit 1 w) (n - of_bool (odd w)) (Suc i))"
  by pat_completeness auto
termination
proof (relation "measure (\<lambda>(w, n, i). unat w)")
  fix w :: "32 word" and n i :: nat assume "n \<noteq> 0" "w \<noteq> 0"
  then have "unat w div 2 < unat w" by (simp add: unat_gt_0)
  then show "((drop_bit 1 w, n - of_bool (odd w), Suc i), w, n, i) \<in> measure (\<lambda>(w, n, i). unat w)"
    by (simp add: drop_bit_eq_div unat_div)
qed simp

declare bit_search.simps [simp del]

definition select_in_chunk ::
  "(32 word \<Rightarrow> nat) \<Rightarrow> (32 word \<Rightarrow> 32 word) \<Rightarrow> bit_index \<Rightarrow> nat \<Rightarrow> nat \<Rightarrow> nat option" where
  "select_in_chunk count view bi chunk_index n =
     (let offset = (chunk_index * bi_chunk_size bi) div 4 * 4 in
      Option.bind (word_search count (bi_data bi) offset n) (\<lambda>(p, n', w).
        map_option (\<lambda>i. i - 1) (bit_search (view w) n' (p * 8))))"

definition select0 :: "bit_index \<Rightarrow> nat \<Rightarrow> nat option" where
  "select0 bi n =
     (let lb0_cache_index = min (n div lb0_increment bi) (length (lb0_cache bi) - 2);
          chunk_ptr = lower_bound (zero_bits (bi_index bi) (bi_chunk_size bi))
            (lb0_cache bi ! lb0_cache_index) (lb0_cache bi ! (lb0_cache_index + 1)) n
      in if chunk_ptr = 0 then None
         else select_in_chunk bit_count0 (\<lambda>w. NOT w) bi (chunk_ptr - 1)
                (n - (bi_chunk_size bi * 8 * (chunk_ptr - 1) - bi_index bi ! (chunk_ptr - 1))))"

definition select1 :: "bit_index \<Rightarrow> nat \<Rightarrow> nat option" where
  "select1 bi n =
     (let lb1_cache_index = min (n div lb1_increment bi) (length (lb1_cache bi) - 2);
          chunk_ptr = lower_bound ((!) (bi_index bi))
            (lb1_cache bi ! lb1_cache_index) (lb1_cache bi ! (lb1_cache_index + 1)) n
      in if chunk_ptr = 0 then None
         else select_in_chunk popcount (\<lambda>w. w) bi (chunk_ptr - 1) (n - bi_index bi ! (chunk_ptr - 1)))"


text \<open>\<open>Reset\<close>.\<close>

definition reset_bit_index :: "bit_index \<Rightarrow> bit_index" where
  "reset_bit_index bi =
     bi\<lparr>bi_data := [], bi_length := 0, bi_index := [], lb0_increment := 1, lb0_cache := [],
        lb1_increment := 1, lb1_cache := []\<rparr>"

lemma popcount_load32:
  assumes "load32 data p = Some w"
  shows "popcount w = count_below (\<lambda>i. stored_bit data (8 * p + i)) 32"
  unfolding popcount_def by (rule count_below_cong) (rule load32_bit [OF assms])

lemma bit_count0_load32:
  assumes "load32 data p = Some w"
  shows "bit_count0 w = count_below (\<lambda>i. \<not> stored_bit data (8 * p + i)) 32"
  unfolding popcount_def bit_count0_def
  by (rule count_below_cong) (simp add: bit_not_iff load32_bit [OF assms])

abbreviation ones :: "bytes \<Rightarrow> nat \<Rightarrow> nat" where
  "ones data \<equiv> count_below (stored_bit data)"

abbreviation zeros :: "bytes \<Rightarrow> nat \<Rightarrow> nat" where
  "zeros data \<equiv> count_below (\<lambda>i. \<not> stored_bit data i)"

lemma count1_bits_ones:
  "p + 4 * k \<le> length data \<Longrightarrow>
     \<exists>r. count1_bits data p k = Some r \<and> ones data (8 * p) + r = ones data (8 * p + 32 * k)"
proof (induction k arbitrary: p)
  case (Suc k)
  obtain w where w: "load32 data p = Some w" using load32_Some [of p data] Suc.prems by auto
  obtain r where r: "count1_bits data (p + 4) k = Some r"
    and eq: "ones data (8 * (p + 4)) + r = ones data (8 * (p + 4) + 32 * k)"
    using Suc.IH [of "p + 4"] Suc.prems by auto
  have "ones data (8 * p) + popcount w = ones data (8 * (p + 4))"
    using count_below_add [of "stored_bit data" "8 * p" 32] popcount_load32 [OF w] by simp
  with eq w r show ?case by (simp add: algebra_simps)
qed simp

section \<open>The index\<close>

definition chunk_counts :: "bytes \<Rightarrow> nat \<Rightarrow> nat \<Rightarrow> nat list" where
  "chunk_counts data len c = map (\<lambda>i. ones data (8 * min (c * i) len)) [0..<Suc ((len + c - 1) div c)]"

lemma ceil_step:
  fixes m c :: nat
  assumes "0 < m" "0 < c"
  shows "(m + c - 1) div c = Suc ((m - c + c - 1) div c)"
proof (cases "c \<le> m")
  case True
  then have "m + c - 1 = (m - c + c - 1) + c" using assms by simp
  then show ?thesis using assms by (metis div_add_self2 Suc_eq_plus1 less_numeral_extra(3))
next
  case False
  then have "m + c - 1 = (m - 1) + c" "m - 1 < c" using assms by auto
  then have "(m + c - 1) div c = Suc 0" using assms by (metis div_add_self2 div_less less_numeral_extra(3) One_nat_def add_0)
  moreover have "(m - c + c - 1) div c = 0" using False assms by simp
  ultimately show ?thesis by simp
qed

lemma four_quotients:
  fixes p c len :: nat
  assumes "4 dvd p" "4 dvd c" "4 dvd len" "p < len"
  shows "p + 4 * min (c div 4) ((len - p) div 4) = min (p + c) len"
    and "(len - p) div 4 - c div 4 = (len - (p + c)) div 4"
proof -
  obtain q d m where q: "p = 4 * q" "c = 4 * d" "len = 4 * m" using assms(1-3) by (auto elim!: dvdE)
  then have "q < m" using assms(4) by simp
  have "4 * m - 4 * q = 4 * (m - q)" "4 * m - (4 * q + 4 * d) = 4 * (m - (q + d))" by simp_all
  then show "(len - p) div 4 - c div 4 = (len - (p + c)) div 4" unfolding q by simp
  have "(len - p) div 4 = m - q" "c div 4 = d" unfolding q by simp_all
  then show "p + 4 * min (c div 4) ((len - p) div 4) = min (p + c) len"
    using \<open>q < m\<close> unfolding q by (cases "d \<le> m - q") (simp_all add: min_absorb1 min_absorb2)
qed

lemma index_loop_counts:
  assumes "4 \<le> c" "4 dvd c" "4 dvd len" "len \<le> length data"
  shows "4 dvd p \<Longrightarrow> rem = (len - p) div 4 \<Longrightarrow> num = ones data (8 * min p len) \<Longrightarrow>
    index_loop data c p rem num =
      Some (map (\<lambda>i. ones data (8 * min (p + c * i) len)) [0..<Suc ((len - p + c - 1) div c)])"
proof (induction rem arbitrary: p num rule: less_induct)
  case (less rem)
  show ?case
  proof (cases "rem = 0")
    case True
    then have "len - p = 0" using less.prems assms by (metis dvd_diff_nat dvd_div_eq_0_iff)
    then show ?thesis using True less.prems assms by (simp add: index_loop.simps)
  next
    case False
    then have pl: "p < len" using less.prems by (cases "p < len") auto
    note fq = four_quotients [OF less.prems(1) assms(2,3) pl, folded less.prems(2)]
    note p4 = fq(1) and rem2 = fq(2)
    obtain k where k: "count1_bits data p (min (c div 4) rem) = Some k"
      and num': "ones data (8 * p) + k = ones data (8 * p + 32 * min (c div 4) rem)"
      using count1_bits_ones [of p "min (c div 4) rem" data] unfolding p4 using assms(4) by fastforce
    have "num + k = ones data (8 * p + 32 * min (c div 4) rem)"
      using num' less.prems(3) pl by simp
    also have "8 * p + 32 * min (c div 4) rem = 8 * (p + 4 * min (c div 4) rem)" by simp
    also have "\<dots> = 8 * min (p + c) len" by (simp only: p4)
    finally have num2: "num + k = ones data (8 * min (p + c) len)" .
    have "rem - c div 4 < rem" using False assms(1) by auto
    moreover have "4 dvd p + c" using less.prems(1) assms(2) by simp
    ultimately have ih: "index_loop data c (p + c) (rem - c div 4) (num + k) =
        Some (map (\<lambda>i. ones data (8 * min (p + c + c * i) len)) [0..<Suc ((len - (p + c) + c - 1) div c)])"
      using less.IH rem2 num2 by blast
    have cs: "(len - p + c - 1) div c = Suc ((len - (p + c) + c - 1) div c)"
      using ceil_step [of "len - p" c] pl assms(1) by simp
    have up: "[0..<Suc ((len - p + c - 1) div c)] = 0 # map Suc [0..<Suc ((len - (p + c) + c - 1) div c)]"
      unfolding cs map_Suc_upt by (rule upt_conv_Cons) simp
    have "index_loop data c p rem num = map_option ((#) num) (index_loop data c (p + c) (rem - c div 4) (num + k))"
      using False assms(1) k by (simp add: index_loop.simps [of _ _ p rem])
    then show ?thesis unfolding up ih using less.prems(3) by (simp add: comp_def add.assoc del: upt_Suc)
  qed
qed

text \<open>A power of 2 from 4 on is a multiple of 4.\<close>

lemma single_bit_dvd:
  assumes "has_single_bit c" "4 \<le> c"
  shows "4 dvd c"
proof (rule ccontr)
  assume "\<not> 4 dvd c"
  then have "c mod 4 \<noteq> 0" by (auto simp: dvd_eq_mod_eq_0)
  define q where "q = c div 4"
  have "c = 4 * q + c mod 4" by (simp add: q_def)
  then have "(c - 1) div 4 = q" using \<open>c mod 4 \<noteq> 0\<close> mod_less_divisor [of 4 c] by (intro div_nat_eqI) simp_all
  then have "drop_bit 2 c = q" "drop_bit 2 (c - 1) = q" by (simp_all add: drop_bit_eq_div q_def)
  then have "drop_bit 2 (c AND (c - 1)) = q" unfolding drop_bit_and by simp
  moreover have "c AND (c - 1) = 0" using assms(1) by (simp add: has_single_bit_def)
  ultimately have "drop_bit 2 (0 :: nat) = q" by (simp only:)
  then show False using assms(2) by (simp add: q_def)
qed

text \<open>The chunk sizes and lengths that \<open>Init\<close> is for.\<close>

definition index_fits :: "nat \<Rightarrow> nat \<Rightarrow> bool" where
  "index_fits c len \<longleftrightarrow> has_single_bit c \<and> 4 \<le> c \<and> 4 dvd len \<and> len + c < 2 ^ 28"

lemma index_fitsD:
  assumes "index_fits c len"
  shows "4 \<le> c" "4 dvd c" "4 dvd len" "has_single_bit c" "c * 8 < 2 ^ 31" "c * 8 * ((len + c - 1) div c) < 2 ^ 31"
proof -
  show c: "4 \<le> c" "4 dvd len" "has_single_bit c" using assms by (auto simp: index_fits_def)
  then show "4 dvd c" using single_bit_dvd by blast
  show "c * 8 < 2 ^ 31" using assms by (simp add: index_fits_def)
  have "c * ((len + c - 1) div c) \<le> len + c - 1" by (rule times_div_less_eq_dividend)
  then have "c * ((len + c - 1) div c) < 2 ^ 28" using assms unfolding index_fits_def by (meson le_less_trans diff_le_self)
  then have "8 * (c * ((len + c - 1) div c)) < 2 ^ 31" by simp
  then show "c * 8 * ((len + c - 1) div c) < 2 ^ 31" by (simp only: mult.left_commute mult.commute mult.assoc)
qed

lemma index_fits_32: "4 dvd len \<Longrightarrow> len + 32 < 2 ^ 28 \<Longrightarrow> index_fits 32 len"
  by (simp add: index_fits_def has_single_bit_def)

lemma init_index_counts:
  assumes "index_fits c len" "len \<le> length data"
  shows "init_index data len c = Some (chunk_counts data len c)"
  using index_loop_counts [OF _ _ _ assms(2), of c 0 "len div 4" 0] index_fitsD [OF assms(1)]
  by (simp add: init_index_def chunk_counts_def Let_def dvd_eq_mod_eq_0 not_le mult.commute mult.left_commute del: upt_Suc)

lemma length_chunk_counts [simp]: "length (chunk_counts data len c) = Suc ((len + c - 1) div c)"
  by (simp add: chunk_counts_def del: upt_Suc)

lemma nth_chunk_counts:
  "i \<le> (len + c - 1) div c \<Longrightarrow> chunk_counts data len c ! i = ones data (8 * min (c * i) len)"
  by (simp add: chunk_counts_def del: upt_Suc)

lemma ceil_covers: "0 < c \<Longrightarrow> len \<le> c * ((len + c - 1) div c)" for c len :: nat
  using mult_div_mod_eq [of c "len + c - 1"] mod_less_divisor [of c "len + c - 1"] by linarith

lemma below_ceil:
  fixes c len i :: nat
  assumes "0 < c" "i < (len + c - 1) div c"
  shows "c * i < len"
proof -
  have "c * Suc i \<le> c * ((len + c - 1) div c)" using assms(2) by (intro mult_le_mono) auto
  also have "\<dots> \<le> len + c - 1" by simp
  finally show ?thesis using assms(1) by simp
qed

lemma last_chunk_counts:
  "0 < c \<Longrightarrow> last (chunk_counts data len c) = ones data (8 * len)"
  using ceil_covers [of c len] by (simp add: last_conv_nth nth_chunk_counts min_absorb2 flip: length_greater_0_conv)


text \<open>What \<open>Init\<close> leaves, whatever the cache sizes.\<close>

definition bit_index_ok :: "bytes \<Rightarrow> nat \<Rightarrow> nat \<Rightarrow> bit_index \<Rightarrow> bool" where
  "bit_index_ok data len c bi \<longleftrightarrow>
     4 \<le> c \<and> 4 dvd c \<and> 4 dvd len \<and> len \<le> length data \<and>
     bi_data bi = data \<and> bi_length bi = len \<and> bi_chunk_size bi = c \<and> bi_index bi = chunk_counts data len c \<and>
     0 < lb0_increment bi \<and> 0 < lb1_increment bi \<and>
     (\<exists>n0. lb0_cache bi = init_lower_bound0_cache (bi_index bi) c (lb0_increment bi) n0) \<and>
     (\<exists>n1. lb1_cache bi = init_lower_bound1_cache (bi_index bi) (lb1_increment bi) n1)"

lemma cache_increment_pos: "0 < cache_increment n m"
  by (simp add: cache_increment_def Let_def)

lemma init_bit_index_ok:
  assumes "index_fits c len" "len \<le> length data"
  shows "\<exists>bi. init_bit_index c data len n0 n1 = Some bi \<and> bit_index_ok data len c bi"
  using index_fitsD [OF assms(1)] assms(2)
  by (auto simp: init_bit_index_def init_index_counts [OF assms] bit_index_ok_def Let_def cache_increment_pos)

lemma count_push_bit:
  fixes w :: "32 word"
  assumes "m < 32"
  shows "popcount (push_bit (32 - m) w) = count_below (bit w) m"
proof -
  have "popcount (push_bit (32 - m) w) = count_below (bit (push_bit (32 - m) w)) ((32 - m) + m)"
    using assms by (simp add: popcount_def)
  also have "\<dots> = count_below (\<lambda>i. bit (push_bit (32 - m) w) (32 - m + i)) m"
    unfolding count_below_add by (simp add: count_below_none bit_push_bit_iff)
  also have "\<dots> = count_below (bit w) m"
    by (rule count_below_cong) (use assms in \<open>auto simp: bit_push_bit_iff\<close>)
  finally show ?thesis .
qed

lemma words_up_to: "4 * x \<le> m \<Longrightarrow> 4 * x + 4 * ((m - 4 * x) div 4) = 4 * (m div 4)" for x m :: nat
  by (auto dest!: le_Suc_ex)

lemma word_inside:
  fixes len n :: nat
  assumes "4 dvd len" "n \<le> 8 * len" "n mod 32 \<noteq> 0"
  shows "4 * (n div 32) + 4 \<le> len"
proof -
  obtain k where k: "len = 4 * k" using assms(1) by (auto elim: dvdE)
  have "n \<noteq> 32 * k" using assms(3) by auto
  then have "n div 32 < k" using assms(2) k by (simp add: div_less_iff_less_mult)
  then show ?thesis using k by simp
qed

lemma rank1_ones:
  assumes ok: "bit_index_ok data len c bi" and n: "n \<le> 8 * len"
  shows "rank1 bi n = Some (ones data n)"
proof -
  from ok have c: "4 \<le> c" "4 dvd c" and len: "4 dvd len" "len \<le> length data"
    and bi: "bi_data bi = data" "bi_chunk_size bi = c" "bi_index bi = chunk_counts data len c"
    by (auto simp: bit_index_ok_def)
  define nc where "nc = n div (c * 8)"
  have nc8: "nc * c \<le> n div 8" unfolding nc_def
    by (metis div_mult2_eq mult.commute div_times_less_eq_dividend)
  then have nclen: "nc * c \<le> len" using n by linarith
  have nc_le: "nc \<le> (len + c - 1) div c"
  proof -
    have "nc \<le> len div c" using nclen c(1) by (simp add: less_eq_div_iff_mult_less_eq)
    also have "\<dots> \<le> (len + c - 1) div c" using c(1) by (intro div_le_mono) simp
    finally show ?thesis .
  qed
  have idx: "chunk_counts data len c ! nc = ones data (8 * (nc * c))"
    using nth_chunk_counts [OF nc_le, of data] nclen by (simp add: mult.commute min_absorb1)
  define k where "k = (n div 8 - nc * c) div 4"
  have pk: "nc * c + 4 * k = 4 * (n div 32)"
  proof -
    obtain d where d: "c = 4 * d" using c(2) by (auto elim: dvdE)
    then have x: "nc * c = 4 * (nc * d)" by simp
    have "n div 32 = n div 8 div 4" by (simp flip: div_mult2_eq)
    then show ?thesis using words_up_to [of "nc * d" "n div 8"] nc8 unfolding k_def x by simp
  qed
  have "4 * (n div 32) \<le> len" using n len(1) by (auto elim!: dvdE)
  then have "nc * c + 4 * k \<le> length data" using pk len(2) by simp
  from count1_bits_ones [OF this] obtain r where r: "count1_bits data (nc * c) k = Some r"
    and req: "ones data (8 * (nc * c)) + r = ones data (8 * (nc * c) + 32 * k)" by auto
  have pk8: "8 * (nc * c) + 32 * k = 32 * (n div 32)" using pk by linarith
  show ?thesis
  proof (cases "n mod 32 = 0")
    case True
    then have "32 * (n div 32) = n" by auto
    then show ?thesis
      using r req True nc_le pk8 by (simp add: rank1_def bi Let_def nc_def [symmetric] k_def [symmetric] idx)
  next
    case False
    have "4 * (n div 32) + 4 \<le> len" using word_inside n len(1) False by blast
    with len(2) obtain w where w: "load32 data (4 * (n div 32)) = Some w"
      using load32_Some [of "4 * (n div 32)" data] by auto
    have "count_below (bit w) (n mod 32) = count_below (\<lambda>i. stored_bit data (32 * (n div 32) + i)) (n mod 32)"
      by (rule count_below_cong) (simp add: load32_bit [OF w])
    then have "ones data (32 * (n div 32)) + count_below (bit w) (n mod 32) = ones data n"
      using count_below_add [of "stored_bit data" "32 * (n div 32)" "n mod 32"] by simp
    then show ?thesis
      using r req w False nc_le pk8
      by (simp add: rank1_def bi Let_def nc_def [symmetric] k_def [symmetric] idx count_push_bit)
  qed
qed


section \<open>Select\<close>

lemma lower_bound_least:
  "lo \<le> hi \<Longrightarrow>
     lo \<le> lower_bound f lo hi n \<and> lower_bound f lo hi n \<le> hi \<and>
     (\<forall>i. lo \<le> i \<longrightarrow> i < lower_bound f lo hi n \<longrightarrow> f i < n) \<and>
     (lower_bound f lo hi n < hi \<longrightarrow> n \<le> f (lower_bound f lo hi n))"
proof (induction "hi - lo" arbitrary: lo)
  case 0
  then show ?case by (simp add: lower_bound.simps)
next
  case (Suc d)
  show ?case
  proof (cases "f lo < n")
    case True
    have ih: "Suc lo \<le> lower_bound f (Suc lo) hi n \<and> lower_bound f (Suc lo) hi n \<le> hi \<and>
        (\<forall>i. Suc lo \<le> i \<longrightarrow> i < lower_bound f (Suc lo) hi n \<longrightarrow> f i < n) \<and>
        (lower_bound f (Suc lo) hi n < hi \<longrightarrow> n \<le> f (lower_bound f (Suc lo) hi n))"
      by (rule Suc.hyps(1)) (use Suc.hyps(2) in auto)
    have "lo < hi" using Suc.hyps(2) by simp
    then have e: "lower_bound f lo hi n = lower_bound f (Suc lo) hi n"
      using True by (simp add: lower_bound.simps [of f lo])
    show ?thesis
    proof (intro conjI allI impI)
      fix i assume "lo \<le> i" "i < lower_bound f lo hi n"
      then show "f i < n" using ih True e by (cases "i = lo") auto
    qed (use ih e in auto)
  next
    case False
    then have "lower_bound f lo hi n = lo" by (simp add: lower_bound.simps)
    then show ?thesis using Suc False by simp
  qed
qed

text \<open>A search that starts from the cached bounds gives what a search of the whole range gives.\<close>

definition splits_at :: "(nat \<Rightarrow> nat) \<Rightarrow> nat \<Rightarrow> nat \<Rightarrow> nat \<Rightarrow> bool" where
  "splits_at f N n r \<longleftrightarrow> r \<le> N \<and> (\<forall>i < r. f i < n) \<and> (r < N \<longrightarrow> n \<le> f r)"

lemma splits_at_lower_bound: "splits_at f N n (lower_bound f 0 N n)"
  using lower_bound_least [of 0 N f n] by (auto simp: splits_at_def)

lemma cached_search:
  assumes cache: "cache = 0 # map (\<lambda>i. lower_bound f 0 N (inc * i)) [1..<sz + 1] @ [N]"
    and inc: "0 < inc" and j: "j = min (n div inc) (length cache - 2)"
    and mono: "\<And>a b. a \<le> b \<Longrightarrow> b < N \<Longrightarrow> f a \<le> f b"
  shows "splits_at f N n (lower_bound f (cache ! j) (cache ! (j + 1)) n)"
proof -
  let ?LB = "\<lambda>i. lower_bound f 0 N (inc * i)"
  have len: "length cache = sz + 2" by (simp add: cache del: upt_Suc)
  have nth: "cache ! i = (if i = 0 then 0 else if i \<le> sz then ?LB i else N)" if "i \<le> sz + 1" for i
    using that by (auto simp: cache nth_append nth_Cons' simp del: upt_Suc)
  have jsz: "j \<le> sz" and "j \<le> n div inc" using j len by auto
  then have jn: "inc * j \<le> n" using inc by (simp add: less_eq_div_iff_mult_less_eq mult.commute)
  have up: "n < inc * (j + 1)" if "j < sz"
    using that j len inc by (auto simp: min_def dividend_less_times_div split: if_splits)
  define lo hi where "lo = cache ! j" and "hi = cache ! (j + 1)"
  have lo: "lo \<le> N" "\<And>i. i < lo \<Longrightarrow> f i < n"
  proof -
    have "lo = 0 \<or> lo = ?LB j" using jsz unfolding lo_def by (auto simp: nth)
    moreover have "splits_at f N (inc * j) (?LB j)" by (rule splits_at_lower_bound)
    ultimately show "lo \<le> N" "\<And>i. i < lo \<Longrightarrow> f i < n"
      using jn by (auto simp: splits_at_def intro: order_less_le_trans)
  qed
  have hi: "hi \<le> N" "hi < N \<Longrightarrow> n \<le> f hi"
  proof -
    have "hi = N \<or> (j < sz \<and> hi = ?LB (j + 1))" using jsz unfolding hi_def by (auto simp: nth)
    moreover have "splits_at f N (inc * (j + 1)) (?LB (j + 1))" by (rule splits_at_lower_bound)
    ultimately show "hi \<le> N" "hi < N \<Longrightarrow> n \<le> f hi"
      using up by (auto simp: splits_at_def)
  qed
  have "lo \<le> hi"
  proof (rule ccontr)
    assume "\<not> lo \<le> hi"
    then have "f hi < n" "hi < N" using lo by auto
    then show False using hi by auto
  qed
  from lower_bound_least [OF this, of f n] lo hi
  show ?thesis unfolding splits_at_def lo_def [symmetric] hi_def [symmetric]
    by (metis le_eq_less_or_eq linorder_not_le order_trans)
qed


lemma popcount_shift: "popcount w = of_bool (odd w) + popcount (drop_bit 1 w)"
proof -
  have "popcount w = count_below (bit w) (1 + 31)" by (simp add: popcount_def)
  also have "\<dots> = of_bool (odd w) + count_below (\<lambda>i. bit w (1 + i)) 31"
    unfolding count_below_add by (simp add: bit_0)
  also have "count_below (\<lambda>i. bit w (1 + i)) 31 = count_below (bit (drop_bit 1 w)) 31"
    by (rule count_below_cong) (simp add: bit_drop_bit_eq comp_def)
  also have "\<dots> = count_below (bit (drop_bit 1 w)) (Suc 31)"
    unfolding count_below_Suc by (auto simp: bit_drop_bit_eq dest: bit_imp_le_length)
  finally show ?thesis by (simp add: popcount_def)
qed

lemma bit_search_finds:
  "0 < n \<Longrightarrow> n \<le> popcount w \<Longrightarrow>
     \<exists>k < 32. bit w k \<and> Suc (count_below (bit w) k) = n \<and> bit_search w n i = Some (Suc (i + k))"
proof (induction w n i rule: bit_search.induct)
  case (1 w n i)
  have w0: "w \<noteq> 0" using 1(2,3) by (auto simp: popcount_def count_below_none)
  have e: "bit_search w n i = bit_search (drop_bit 1 w) (n - of_bool (odd w)) (Suc i)"
    using 1(2) w0 by (simp add: bit_search.simps [of w])
  show ?case
  proof (cases "n - of_bool (odd w) = 0")
    case True
    then have "n = 1" "odd w" using 1(2) by (cases "odd w"; simp)+
    then show ?thesis using e by (intro exI [of _ 0]) (simp add: bit_0 bit_search.simps [of _ 0])
  next
    case False
    have "n - of_bool (odd w) \<le> popcount (drop_bit 1 w)" using 1(3) popcount_shift [of w] by simp
    with 1(1) 1(2) w0 False obtain k where k: "bit (drop_bit 1 w) k"
      "Suc (count_below (bit (drop_bit 1 w)) k) = n - of_bool (odd w)"
      "bit_search (drop_bit 1 w) (n - of_bool (odd w)) (Suc i) = Some (Suc (Suc i + k))"
      by auto
    have b: "bit w (Suc k)" using k(1) by (simp add: bit_drop_bit_eq)
    have "count_below (bit w) (1 + k) = of_bool (odd w) + count_below (bit (drop_bit 1 w)) k"
      unfolding count_below_add by (simp add: bit_0 bit_drop_bit_eq comp_def)
    then have "Suc (count_below (bit w) (Suc k)) = n" using k(2) False by simp
    moreover have "Suc k < 32" using b bit_imp_le_length [OF b] by simp
    ultimately show ?thesis using b e k(3) by (intro exI [of _ "Suc k"]) simp
  qed
qed

text \<open>The search on words and bits for the \<open>n\<close>-th position of a predicate the words carry.\<close>

definition nth_position :: "(nat \<Rightarrow> bool) \<Rightarrow> nat \<Rightarrow> nat \<Rightarrow> bool" where
  "nth_position P n k \<longleftrightarrow> P k \<and> Suc (count_below P k) = n"

definition word_view ::
  "bytes \<Rightarrow> (nat \<Rightarrow> bool) \<Rightarrow> (32 word \<Rightarrow> nat) \<Rightarrow> (32 word \<Rightarrow> 32 word) \<Rightarrow> bool" where
  "word_view data P count view \<longleftrightarrow>
     (\<forall>p w. load32 data p = Some w \<longrightarrow>
        count w = popcount (view w) \<and> (\<forall>i < 32. bit (view w) i = P (8 * p + i)))"

lemma word_view_ones: "word_view data (stored_bit data) popcount (\<lambda>w. w)"
  by (simp add: word_view_def load32_bit)

lemma word_view_zeros: "word_view data (\<lambda>i. \<not> stored_bit data i) bit_count0 (\<lambda>w. NOT w)"
  by (simp add: word_view_def load32_bit bit_not_iff bit_count0_def)

lemma word_view_count:
  assumes "word_view data P count view" "load32 data p = Some w"
  shows "count_below P (8 * p) + count w = count_below P (8 * (p + 4))"
proof -
  have "count w = count_below (\<lambda>i. P (8 * p + i)) 32"
    using assms by (auto simp: word_view_def popcount_def intro!: count_below_cong)
  then show ?thesis using count_below_add [of P "8 * p" 32] by simp
qed

lemma word_search_finds:
  assumes v: "word_view data P count view" and len: "4 dvd len" "len \<le> length data"
  shows "4 dvd p \<Longrightarrow> 0 < n \<Longrightarrow> count_below P (8 * p) + n \<le> count_below P (8 * len) \<Longrightarrow>
    \<exists>q m w. word_search count data p n = Some (q, m, w) \<and> load32 data q = Some w \<and> q + 4 \<le> len \<and>
      0 < m \<and> m \<le> count w \<and> count_below P (8 * q) + m = count_below P (8 * p) + n"
proof (induction "len - p" arbitrary: p n rule: less_induct)
  case less
  have "p < len"
  proof (rule ccontr)
    assume "\<not> p < len"
    then have "count_below P (8 * len) \<le> count_below P (8 * p)" by (intro count_below_mono) simp
    then show False using less.prems by simp
  qed
  then have p4: "p + 4 \<le> len" using less.prems(1) len(1) by (auto elim!: dvdE)
  then obtain w where w: "load32 data p = Some w" using load32_Some [of p data] len(2) by auto
  note cw = word_view_count [OF v w]
  show ?case
  proof (cases "n \<le> count w")
    case True
    then show ?thesis using w p4 less.prems by (simp add: word_search.simps [of count data p])
  next
    case False
    have e: "word_search count data p n = word_search count data (p + 4) (n - count w)"
      using False w by (simp add: word_search.simps [of count data p])
    have "len - (p + 4) < len - p" "4 dvd p + 4" using p4 less.prems(1) by auto
    moreover have "0 < n - count w" "count_below P (8 * (p + 4)) + (n - count w) \<le> count_below P (8 * len)"
      using False cw less.prems by auto
    ultimately obtain q m w' where r: "word_search count data (p + 4) (n - count w) = Some (q, m, w')"
      "load32 data q = Some w'" "q + 4 \<le> len" "0 < m" "m \<le> count w'"
      "count_below P (8 * q) + m = count_below P (8 * (p + 4)) + (n - count w)"
      using less.hyps by blast
    then show ?thesis using e cw False by auto
  qed
qed

lemma select_in_chunk_finds:
  assumes v: "word_view (bi_data bi) P count view" and len: "4 dvd len" "len \<le> length (bi_data bi)"
    and c: "4 dvd bi_chunk_size bi" and n: "0 < n"
    and bound: "count_below P (8 * (bi_chunk_size bi * j)) + n \<le> count_below P (8 * len)"
  shows "\<exists>k < 8 * len. select_in_chunk count view bi j n = Some k \<and>
    nth_position P (count_below P (8 * (bi_chunk_size bi * j)) + n) k"
proof -
  define p where "p = j * bi_chunk_size bi"
  have p: "4 dvd p" "p div 4 * 4 = p" using c by (simp_all add: p_def)
  obtain q m w where s: "word_search count (bi_data bi) p n = Some (q, m, w)"
    and w: "load32 (bi_data bi) q = Some w" and q: "q + 4 \<le> len" and m: "0 < m" "m \<le> count w"
    and eq: "count_below P (8 * q) + m = count_below P (8 * p) + n"
    using word_search_finds [OF v len p(1) n] bound by (auto simp: p_def mult.commute)
  have vw: "count w = popcount (view w)" "\<And>i. i < 32 \<Longrightarrow> bit (view w) i = P (8 * q + i)"
    using v w by (auto simp: word_view_def)
  obtain k where k: "k < 32" "bit (view w) k" "Suc (count_below (bit (view w)) k) = m"
    "bit_search (view w) m (q * 8) = Some (Suc (q * 8 + k))"
    using bit_search_finds [of m "view w" "q * 8"] m vw(1) by auto
  have "count_below (bit (view w)) k = count_below (\<lambda>i. P (8 * q + i)) k"
    by (rule count_below_cong) (use k(1) vw(2) in auto)
  then have "Suc (count_below P (8 * q + k)) = count_below P (8 * p) + n"
    using k(3) eq by (simp add: count_below_add)
  moreover have "P (8 * q + k)" using k(1,2) vw(2) by simp
  moreover have "select_in_chunk count view bi j n = Some (8 * q + k)"
    using s k(4) p(2) by (simp add: select_in_chunk_def p_def [symmetric] mult.commute)
  moreover have "8 * q + k < 8 * len" using q k(1) by simp
  ultimately show ?thesis by (auto simp: nth_position_def p_def mult.commute)
qed


lemma min_chunk_mono: "a \<le> b \<Longrightarrow> min (c * a) len \<le> min (c * b) len" for a b c len :: nat
  by (intro min.mono mult_le_mono order_refl)

lemma chunk_count_mono:
  "a \<le> b \<Longrightarrow> count_below P (8 * min (c * a) len) \<le> count_below P (8 * min (c * b) len)" for a b c len :: nat
  by (intro count_below_mono mult_le_mono min_chunk_mono order_refl)

lemma chunk_counts_mono:
  "a \<le> b \<Longrightarrow> b < length (chunk_counts data len c) \<Longrightarrow> chunk_counts data len c ! a \<le> chunk_counts data len c ! b"
  by (simp add: nth_chunk_counts chunk_count_mono del: min_mult_distrib_left)

lemma excess_mono: "x \<le> y \<Longrightarrow> 8 * x - 8 * min x len \<le> 8 * y - 8 * min y len" for x y len :: nat
  by (auto simp: min_def intro: diff_le_mono)

lemma chunk_zeros:
  assumes "i \<le> (len + c - 1) div c"
  shows "zero_bits (chunk_counts data len c) c i = zeros data (8 * min (c * i) len) + (8 * (c * i) - 8 * min (c * i) len)"
proof -
  have "ones data (8 * min (c * i) len) \<le> 8 * min (c * i) len" by (rule count_below_le)
  then show ?thesis using assms
    by (simp add: zero_bits_def nth_chunk_counts count_below_not algebra_simps)
qed

lemma zero_bits_mono:
  assumes "a \<le> b" "b < length (chunk_counts data len c)"
  shows "zero_bits (chunk_counts data len c) c a \<le> zero_bits (chunk_counts data len c) c b"
proof -
  have "c * a \<le> c * b" using assms(1) by simp
  then have "8 * (c * a) - 8 * min (c * a) len \<le> 8 * (c * b) - 8 * min (c * b) len" by (rule excess_mono)
  from add_mono [OF chunk_count_mono [OF assms(1)] this] show ?thesis
    using assms by (simp add: chunk_zeros del: min_mult_distrib_left)
qed

text \<open>Both searches at once: \<open>f\<close> gives the positions before each chunk, and at the end all of them.\<close>

lemma select_split:
  assumes c: "0 < c" and N: "N = Suc ((len + c - 1) div c)"
    and f: "\<And>i. i < N - 1 \<Longrightarrow> f i = count_below P (8 * (c * i))" and f0: "f 0 = 0"
    and total: "count_below P (8 * len) \<le> f (N - 1)"
    and r: "splits_at f N n r" and n: "0 < n" "n \<le> count_below P (8 * len)"
  shows "\<exists>j. r = Suc j \<and> f j = count_below P (8 * (c * j)) \<and> f j < n"
proof -
  have "r \<noteq> 0"
  proof
    assume "r = 0"
    then show False using r n f0 N by (simp add: splits_at_def)
  qed
  then obtain j where j: "r = Suc j" by (cases r) auto
  have fj: "f j < n" using r j by (auto simp: splits_at_def)
  have "\<not> N - 1 < r" using r total n unfolding splits_at_def by (meson leD le_trans order_less_le_trans)
  then have "j < N - 1" using j by simp
  then show ?thesis using j fj f by blast
qed

theorem select1_finds:
  assumes ok: "bit_index_ok data len c bi" and n: "0 < n" "n \<le> ones data (8 * len)"
  shows "\<exists>k < 8 * len. select1 bi n = Some k \<and> nth_position (stored_bit data) n k"
proof -
  from ok have c: "4 \<le> c" "4 dvd c" and len: "4 dvd len" "len \<le> length data"
    and bi: "bi_data bi = data" "bi_chunk_size bi = c" "bi_index bi = chunk_counts data len c"
    and inc: "0 < lb1_increment bi"
    by (auto simp: bit_index_ok_def)
  obtain n1 where cache: "lb1_cache bi = init_lower_bound1_cache (chunk_counts data len c) (lb1_increment bi) n1"
    using ok by (auto simp: bit_index_ok_def)
  define f where "f = (!) (chunk_counts data len c)"
  define N where "N = Suc ((len + c - 1) div c)"
  define j0 where "j0 = min (n div lb1_increment bi) (length (lb1_cache bi) - 2)"
  define r where "r = lower_bound f (lb1_cache bi ! j0) (lb1_cache bi ! (j0 + 1)) n"
  have r: "splits_at f N n r" unfolding r_def
    by (rule cached_search [OF _ inc j0_def])
      (simp_all add: cache init_lower_bound1_cache_def f_def N_def chunk_counts_mono del: upt_Suc)
  have fi: "f i = ones data (8 * (c * i))" if "i < N - 1" for i
    using that below_ceil [of c i len] c(1) by (simp add: f_def N_def nth_chunk_counts min_absorb1)
  have total: "ones data (8 * len) \<le> f (N - 1)"
    using c(1) ceil_covers [of c len] by (simp add: f_def N_def nth_chunk_counts min_absorb2)
  obtain j where j: "r = Suc j" "f j = ones data (8 * (c * j))" "f j < n"
    using select_split [OF _ N_def fi _ total r n] c(1) by (auto simp: f_def nth_chunk_counts)
  have "ones data (8 * (c * j)) + (n - f j) \<le> ones data (8 * len)" using j n by simp
  with select_in_chunk_finds [of bi "stored_bit data" popcount "\<lambda>w. w" len "n - f j" j] j len c(2)
  have "\<exists>k < 8 * len. select_in_chunk popcount (\<lambda>w. w) bi j (n - f j) = Some k \<and> nth_position (stored_bit data) n k"
    by (simp add: bi word_view_ones)
  moreover have "lower_bound f (lb1_cache bi ! j0) (lb1_cache bi ! Suc j0) n = Suc j" using j(1) by (simp add: r_def)
  then have "select1 bi n = select_in_chunk popcount (\<lambda>w. w) bi j (n - f j)"
    by (simp add: select1_def bi Let_def j0_def [symmetric] f_def [symmetric])
  ultimately show ?thesis by simp
qed

theorem select0_finds:
  assumes ok: "bit_index_ok data len c bi" and n: "0 < n" "n \<le> zeros data (8 * len)"
  shows "\<exists>k < 8 * len. select0 bi n = Some k \<and> nth_position (\<lambda>i. \<not> stored_bit data i) n k"
proof -
  from ok have c: "4 \<le> c" "4 dvd c" and len: "4 dvd len" "len \<le> length data"
    and bi: "bi_data bi = data" "bi_chunk_size bi = c" "bi_index bi = chunk_counts data len c"
    and inc: "0 < lb0_increment bi"
    by (auto simp: bit_index_ok_def)
  obtain n0 where cache: "lb0_cache bi = init_lower_bound0_cache (chunk_counts data len c) c (lb0_increment bi) n0"
    using ok by (auto simp: bit_index_ok_def bi)
  define f where "f = zero_bits (chunk_counts data len c) c"
  define N where "N = Suc ((len + c - 1) div c)"
  define j0 where "j0 = min (n div lb0_increment bi) (length (lb0_cache bi) - 2)"
  define r where "r = lower_bound f (lb0_cache bi ! j0) (lb0_cache bi ! (j0 + 1)) n"
  have r: "splits_at f N n r" unfolding r_def
    by (rule cached_search [OF _ inc j0_def])
      (simp_all add: cache init_lower_bound0_cache_def f_def N_def zero_bits_mono del: upt_Suc)
  have fi: "f i = zeros data (8 * (c * i))" if "i < N - 1" for i
    using that below_ceil [of c i len] c(1) by (simp add: f_def N_def chunk_zeros min_absorb1)
  have total: "zeros data (8 * len) \<le> f (N - 1)"
    using c(1) ceil_covers [of c len] by (simp add: f_def N_def chunk_zeros min_absorb2)
  obtain j where j: "r = Suc j" "f j = zeros data (8 * (c * j))" "f j < n"
    using select_split [OF _ N_def fi _ total r n] c(1) by (auto simp: f_def chunk_zeros)
  have "zeros data (8 * (c * j)) + (n - f j) \<le> zeros data (8 * len)" using j n by simp
  with select_in_chunk_finds [of bi "\<lambda>i. \<not> stored_bit data i" bit_count0 "\<lambda>w. NOT w" len "n - f j" j] j len c(2)
  have "\<exists>k < 8 * len. select_in_chunk bit_count0 (\<lambda>w. NOT w) bi j (n - f j) = Some k \<and>
      nth_position (\<lambda>i. \<not> stored_bit data i) n k"
    by (simp add: bi word_view_zeros)
  moreover have "lower_bound f (lb0_cache bi ! j0) (lb0_cache bi ! Suc j0) n = Suc j" using j(1) by (simp add: r_def)
  then have "select0 bi n = select_in_chunk bit_count0 (\<lambda>w. NOT w) bi j (n - f j)"
    by (simp add: select0_def bi Let_def j0_def [symmetric] f_def [symmetric] zero_bits_def [symmetric])
  ultimately show ?thesis by simp
qed


section \<open>The interface of the index\<close>

text \<open>\<open>holds x N P\<close>: the index \<open>x\<close> is over \<open>N\<close> bits, which are those of \<open>P\<close>.\<close>

locale rank_select =
  fixes holds :: "'x \<Rightarrow> nat \<Rightarrow> (nat \<Rightarrow> bool) \<Rightarrow> bool"
    and rank sel1 sel0 :: "'x \<Rightarrow> nat \<Rightarrow> nat option"
  assumes rank: "holds x N P \<Longrightarrow> n \<le> N \<Longrightarrow> rank x n = Some (count_below P n)"
    and sel1: "holds x N P \<Longrightarrow> 0 < n \<Longrightarrow> n \<le> count_below P N \<Longrightarrow>
      \<exists>k < N. sel1 x n = Some k \<and> nth_position P n k"
    and sel0: "holds x N P \<Longrightarrow> 0 < n \<Longrightarrow> n \<le> count_below (\<lambda>i. \<not> P i) N \<Longrightarrow>
      \<exists>k < N. sel0 x n = Some k \<and> nth_position (\<lambda>i. \<not> P i) n k"

definition indexes :: "bit_index \<Rightarrow> nat \<Rightarrow> (nat \<Rightarrow> bool) \<Rightarrow> bool" where
  "indexes bi N P \<longleftrightarrow>
     (\<exists>data len c. bit_index_ok data len c bi \<and> N = 8 * len \<and> P = stored_bit data)"

interpretation bv: rank_select indexes rank1 select1 select0
  by unfold_locales (auto simp: indexes_def rank1_ones select1_finds select0_finds)

lemma nth_position_unique: "nth_position P n j \<Longrightarrow> nth_position P n k \<Longrightarrow> j = k"
proof (rule ccontr)
  assume j: "nth_position P n j" and k: "nth_position P n k" and "j \<noteq> k"
  have less: False if "a < b" "nth_position P n a" "nth_position P n b" for a b
    using that count_below_mono [of "Suc a" b P] by (simp add: nth_position_def)
  show False using less j k \<open>j \<noteq> k\<close> by (metis linorder_neqE_nat)
qed

lemma nth_position_bound: "P k \<Longrightarrow> k < N \<Longrightarrow> Suc (count_below P k) \<le> count_below P N"
  using count_below_mono [of "Suc k" N P] by simp

context rank_select
begin

text \<open>Select of a rank gives the position back.\<close>

lemma sel1_of_rank:
  assumes "holds x N P" "P k" "k < N"
  shows "sel1 x (Suc (count_below P k)) = Some k"
proof -
  from sel1 [OF assms(1), of "Suc (count_below P k)"] nth_position_bound [of P k N] assms
  obtain j where "sel1 x (Suc (count_below P k)) = Some j" "nth_position P (Suc (count_below P k)) j" by auto
  moreover have "nth_position P (Suc (count_below P k)) k" using assms by (simp add: nth_position_def)
  ultimately show ?thesis using nth_position_unique by metis
qed

lemma sel0_of_rank:
  assumes "holds x N P" "\<not> P k" "k < N"
  shows "sel0 x (Suc (count_below (\<lambda>i. \<not> P i) k)) = Some k"
proof -
  let ?Q = "\<lambda>i. \<not> P i"
  from sel0 [OF assms(1), of "Suc (count_below ?Q k)"] nth_position_bound [of ?Q k N] assms
  obtain j where "sel0 x (Suc (count_below ?Q k)) = Some j" "nth_position ?Q (Suc (count_below ?Q k)) j" by auto
  moreover have "nth_position ?Q (Suc (count_below ?Q k)) k" using assms by (simp add: nth_position_def)
  ultimately show ?thesis using nth_position_unique by metis
qed

end

lemma indexes_init:
  assumes "index_fits c len" "len \<le> length data"
  shows "\<exists>bi. init_bit_index c data len n0 n1 = Some bi \<and> indexes bi (8 * len) (stored_bit data) \<and>
    bi_data bi = data \<and> get_num1_bits bi = ones data (8 * len) \<and> get_num0_bits bi = zeros data (8 * len)"
proof -
  obtain bi where bi: "init_bit_index c data len n0 n1 = Some bi" "bit_index_ok data len c bi"
    using init_bit_index_ok [OF assms, of n0 n1] by blast
  then have "last (bi_index bi) = ones data (8 * len)" "bi_data bi = data" "bi_length bi = len"
    using index_fitsD(1) [OF assms(1)] by (auto simp: bit_index_ok_def last_chunk_counts)
  with bi show ?thesis
    by (auto simp: indexes_def get_num1_bits_def get_num0_bits_def count_below_not)
qed

lemma get_bit_stored: "i < 8 * length (bi_data bi) \<Longrightarrow> get_bit bi i = Some (stored_bit (bi_data bi) i)"
  by (simp add: get_bit_def stored_bit_def bit_iff_odd_drop_bit less_mult_imp_div_less mult.commute)

section \<open>Properties\<close>

text \<open> C18: for every chunk size that is a power of 2 from 4 on, and an image whose length and chunk size together are below
  256 MB (so that the numbers of bits are of type \<open>int\<close>), \<open>Init\<close> succeeds whatever the sizes of the two caches, \<open>Rank1\<close>
  and \<open>Rank0\<close> count the set and clear bits before a position, and \<open>Select1\<close> and \<open>Select0\<close> return the position of the
  n-th set or clear bit, for every n there is.\<close>

theorem rank_select_exact:
  assumes "has_single_bit c" "4 \<le> c" "4 dvd len" "len + c < 2 ^ 28" "len \<le> length data"
    and "n0 < 2 ^ 31" "n1 < 2 ^ 31"
  shows "\<exists>bi. init_bit_index c data len n0 n1 = Some bi \<and>
    (\<forall>n \<le> 8 * len. rank1 bi n = Some (ones data n) \<and> rank0 bi n = Some (zeros data n)) \<and>
    (\<forall>n. 0 < n \<and> n \<le> ones data (8 * len) \<longrightarrow>
       (\<exists>k. select1 bi n = Some k \<and> nth_position (stored_bit data) n k)) \<and>
    (\<forall>n. 0 < n \<and> n \<le> zeros data (8 * len) \<longrightarrow>
       (\<exists>k. select0 bi n = Some k \<and> nth_position (\<lambda>i. \<not> stored_bit data i) n k))"
proof -
  obtain bi where bi: "init_bit_index c data len n0 n1 = Some bi" "indexes bi (8 * len) (stored_bit data)"
    using indexes_init [of c len data n0 n1] assms(1-5) by (auto simp: index_fits_def)
  have "rank0 bi n = Some (zeros data n)" if "n \<le> 8 * len" for n
    using bv.rank [OF bi(2) that] by (simp add: rank0_def count_below_not)
  moreover have "\<exists>k. select1 bi n = Some k \<and> nth_position (stored_bit data) n k" if "0 < n" "n \<le> ones data (8 * len)" for n
    using bv.sel1 [OF bi(2) that] by blast
  moreover have "\<exists>k. select0 bi n = Some k \<and> nth_position (\<lambda>i. \<not> stored_bit data i) n k"
    if "0 < n" "n \<le> zeros data (8 * len)" for n using bv.sel0 [OF bi(2) that] by blast
  ultimately show ?thesis using bi(1) bv.rank [OF bi(2)] by (intro exI [of _ bi] conjI allI impI) simp_all
qed

theorem rank_select_exact_witness:
  "\<exists>bi. init_bit_index 4 ''locality'' 8 1 2 = Some bi \<and> rank1 bi 40 = Some (ones ''locality'' 40) \<and>
    (\<exists>k. select1 bi 2 = Some k \<and> nth_position (stored_bit ''locality'') 2 k)"
proof -
  have "2 \<le> ones ''locality'' 4" by (simp add: count_below_def stored_bit_def upt_rec bit_iff_odd)
  also have "\<dots> \<le> ones ''locality'' (8 * 8)" by (rule count_below_mono) simp
  finally have "2 \<le> ones ''locality'' (8 * 8)" .
  then show ?thesis using rank_select_exact [of 4 8 "''locality''" 1 2] by (force simp: has_single_bit_def)
qed

end
