(* ===== verification/Louds.thy ===== *)
theory Louds
  imports Bit_Vector
begin

text \<open>
  Level-order unary degree sequences (\<open>storage/louds/louds.h\<close>, \<open>storage/louds/louds.cc\<close>).  The array
  \<open>select_cache_\<close> holds two tables, of \<open>Select0(i) + 1\<close> and from \<open>select1_cache_ptr_\<close> on of
  \<open>Select1(i)\<close>; the pointer is an offset into it.  The theorems show that the tables give what the index
  gives, that the moves keep the relation of a node's two numbers, and that moving to the first child,
  over its siblings and to the parent comes back.
\<close>

section \<open>Nodes and moves\<close>

record louds_node =
  edge_index :: nat
  node_id :: nat

definition root_node :: louds_node where
  "root_node = \<lparr>edge_index = 0, node_id = 1\<rparr>"

record louds =
  ld_index :: bit_index
  select0_cache_size :: nat
  select1_cache_size :: nat
  select_cache :: "nat list"
  select1_cache_ptr :: nat

text \<open>A table of \<open>f i\<close> for \<open>i\<close> in \<open>(0, n)\<close>, with \<open>0\<close> in front.\<close>

definition select_table :: "(nat \<Rightarrow> nat option) \<Rightarrow> nat \<Rightarrow> nat list option" where
  "select_table f n = (if 0 < n then map_option ((#) 0) (those (map f [1..<n])) else Some [])"

definition louds_init :: "bytes \<Rightarrow> nat \<Rightarrow> nat \<Rightarrow> nat \<Rightarrow> nat \<Rightarrow> nat \<Rightarrow> louds option" where
  "louds_init img len lb0_size lb1_size s0 s1 =
     Option.bind (init_bit_index 32 img len lb0_size lb1_size) (\<lambda>idx.
       let size0 = min s0 (get_num0_bits idx); size1 = min s1 (get_num1_bits idx) in
       Option.bind (select_table (\<lambda>i. map_option Suc (select0 idx i)) size0) (\<lambda>table0.
         map_option
           (\<lambda>table1. \<lparr>ld_index = idx, select0_cache_size = size0, select1_cache_size = size1,
              select_cache = table0 @ table1, select1_cache_ptr = size0\<rparr>)
           (select_table (select1 idx) size1)))"

definition louds_reset :: "louds \<Rightarrow> louds" where
  "louds_reset l =
     l\<lparr>ld_index := reset_bit_index (ld_index l), select_cache := [], select0_cache_size := 0, select1_cache_size := 0\<rparr>"

definition cached_select1 :: "louds \<Rightarrow> nat \<Rightarrow> nat option" where
  "cached_select1 l i =
     (if i < select1_cache_size l then Some (select_cache l ! (select1_cache_ptr l + i))
      else select1 (ld_index l) i)"

definition cached_select0_next :: "louds \<Rightarrow> nat \<Rightarrow> nat option" where
  "cached_select0_next l i =
     (if i < select0_cache_size l then Some (select_cache l ! i)
      else map_option Suc (select0 (ld_index l) i))"

definition init_node_from_node_id :: "louds \<Rightarrow> nat \<Rightarrow> louds_node option" where
  "init_node_from_node_id l i = map_option (\<lambda>e. \<lparr>edge_index = e, node_id = i\<rparr>) (cached_select1 l i)"

definition is_root :: "louds_node \<Rightarrow> bool" where
  "is_root n \<longleftrightarrow> node_id n = 1"

definition move_to_first_child :: "louds \<Rightarrow> louds_node \<Rightarrow> louds_node option" where
  "move_to_first_child l n =
     map_option (\<lambda>e. \<lparr>edge_index = e, node_id = e - node_id n + 1\<rparr>) (cached_select0_next l (node_id n))"

definition move_to_next_sibling :: "louds_node \<Rightarrow> louds_node" where
  "move_to_next_sibling n = \<lparr>edge_index = edge_index n + 1, node_id = node_id n + 1\<rparr>"

definition move_to_parent :: "louds \<Rightarrow> louds_node \<Rightarrow> louds_node option" where
  "move_to_parent l n = init_node_from_node_id l (edge_index n - node_id n + 1)"

definition is_valid_node :: "louds \<Rightarrow> louds_node \<Rightarrow> bool option" where
  "is_valid_node l n = get_bit (ld_index l) (edge_index n)"

section \<open>The caches\<close>

definition louds_ok :: "louds \<Rightarrow> nat \<Rightarrow> (nat \<Rightarrow> bool) \<Rightarrow> bool" where
  "louds_ok l N P \<longleftrightarrow>
     indexes (ld_index l) N P \<and> N \<le> 8 * length (bi_data (ld_index l)) \<and> P = stored_bit (bi_data (ld_index l)) \<and>
     (\<forall>i. 0 < i \<longrightarrow> cached_select1 l i = select1 (ld_index l) i) \<and>
     (\<forall>i. 0 < i \<longrightarrow> cached_select0_next l i = map_option Suc (select0 (ld_index l) i))"

lemma those_map_Some: "\<forall>x \<in> set xs. \<exists>y. f x = Some y \<Longrightarrow> those (map f xs) = Some (map (the \<circ> f) xs)"
  by (induction xs) auto

lemma select_table_nth:
  assumes "\<And>i. 0 < i \<Longrightarrow> i < n \<Longrightarrow> \<exists>y. f i = Some y"
  shows "\<exists>t. select_table f n = Some t \<and> length t = n \<and> (\<forall>i. 0 < i \<longrightarrow> i < n \<longrightarrow> f i = Some (t ! i))"
proof (cases "0 < n")
  case True
  have t: "those (map f [1..<n]) = Some (map (the \<circ> f) [1..<n])"
    using assms by (intro those_map_Some) auto
  have "f i = Some ((0 # map (the \<circ> f) [1..<n]) ! i)" if i: "0 < i" "i < n" for i
    using assms [OF i] i by (auto simp: nth_Cons')
  then show ?thesis using True t by (simp add: select_table_def)
qed (simp add: select_table_def)

lemma louds_init_ok:
  assumes "4 dvd len" "len + 32 < 2 ^ 28" "len \<le> length img"
  shows "\<exists>l. louds_init img len lb0 lb1 s0 s1 = Some l \<and> louds_ok l (8 * len) (stored_bit img) \<and>
    bi_data (ld_index l) = img"
proof -
  obtain bi where bi: "init_bit_index 32 img len lb0 lb1 = Some bi" and ix: "indexes bi (8 * len) (stored_bit img)"
    and data: "bi_data bi = img" and num: "get_num1_bits bi = ones img (8 * len)" "get_num0_bits bi = zeros img (8 * len)"
    using indexes_init [OF index_fits_32 [OF assms(1,2)] assms(3), of lb0 lb1] by blast
  define n0 where "n0 = min s0 (get_num0_bits bi)"
  define n1 where "n1 = min s1 (get_num1_bits bi)"
  have "\<exists>t. select_table (\<lambda>i. map_option Suc (select0 bi i)) n0 = Some t \<and> length t = n0 \<and>
      (\<forall>i. 0 < i \<longrightarrow> i < n0 \<longrightarrow> map_option Suc (select0 bi i) = Some (t ! i))"
  proof (rule select_table_nth)
    fix i assume "0 < i" "i < n0"
    then show "\<exists>y. map_option Suc (select0 bi i) = Some y" using bv.sel0 [OF ix, of i] num by (auto simp: n0_def)
  qed
  then obtain t0 where t0: "select_table (\<lambda>i. map_option Suc (select0 bi i)) n0 = Some t0" "length t0 = n0"
    "\<And>i. 0 < i \<Longrightarrow> i < n0 \<Longrightarrow> map_option Suc (select0 bi i) = Some (t0 ! i)" by blast
  have "\<exists>t. select_table (select1 bi) n1 = Some t \<and> length t = n1 \<and>
      (\<forall>i. 0 < i \<longrightarrow> i < n1 \<longrightarrow> select1 bi i = Some (t ! i))"
  proof (rule select_table_nth)
    fix i assume "0 < i" "i < n1"
    then show "\<exists>y. select1 bi i = Some y" using bv.sel1 [OF ix, of i] num by (auto simp: n1_def)
  qed
  then obtain t1 where t1: "select_table (select1 bi) n1 = Some t1" "length t1 = n1"
    "\<And>i. 0 < i \<Longrightarrow> i < n1 \<Longrightarrow> select1 bi i = Some (t1 ! i)" by blast
  define l where "l = \<lparr>ld_index = bi, select0_cache_size = n0, select1_cache_size = n1,
      select_cache = t0 @ t1, select1_cache_ptr = n0\<rparr>"
  have "louds_init img len lb0 lb1 s0 s1 = Some l"
    by (simp add: louds_init_def bi t0(1) t1(1) l_def Let_def flip: n0_def n1_def)
  moreover have "louds_ok l (8 * len) (stored_bit img)"
    using ix data assms t0(1,2) t1
    by (simp add: t0(3) louds_ok_def l_def cached_select1_def cached_select0_next_def nth_append)
  ultimately show ?thesis using data by (auto simp: l_def)
qed


section \<open>Moves by rank and select\<close>

text \<open>The two numbers of a node: its bit is the \<open>node_id\<close>-th set bit, and at \<open>edge_index\<close>.\<close>

definition node_in :: "(nat \<Rightarrow> bool) \<Rightarrow> louds_node \<Rightarrow> bool" where
  "node_in P n \<longleftrightarrow> nth_position P (node_id n) (edge_index n)"

lemma louds_ok_indexes: "louds_ok l N P \<Longrightarrow> indexes (ld_index l) N P"
  unfolding louds_ok_def by (rule conjunct1)

lemma zeros_from_ones: "count_below (\<lambda>i. \<not> P i) e = e - count_below P e" "count_below P e \<le> e"
  by (simp_all add: count_below_not count_below_le)

lemma first_child_node:
  assumes ok: "louds_ok l N P" and z: "\<not> P z" "z < N" "node_id n = Suc (count_below (\<lambda>i. \<not> P i) z)"
  shows "move_to_first_child l n = Some \<lparr>edge_index = Suc z, node_id = Suc (count_below P (Suc z))\<rparr>"
proof -
  note ix = louds_ok_indexes [OF ok]
  have "select0 (ld_index l) (node_id n) = Some z" using bv.sel0_of_rank [OF ix z(1,2)] z(3) by simp
  moreover have "cached_select0_next l (node_id n) = map_option Suc (select0 (ld_index l) (node_id n))"
    using ok z(3) by (simp add: louds_ok_def)
  ultimately show ?thesis using z(1,3) zeros_from_ones [of P z]
    by (simp add: move_to_first_child_def)
qed

lemma init_node_in:
  assumes ok: "louds_ok l N P" and n: "node_in P n" "edge_index n < N"
  shows "init_node_from_node_id l (node_id n) = Some n"
proof -
  note ix = louds_ok_indexes [OF ok]
  have "node_id n = Suc (count_below P (edge_index n))" "P (edge_index n)" using n by (auto simp: node_in_def nth_position_def)
  then have "cached_select1 l (node_id n) = Some (edge_index n)"
    using ok bv.sel1_of_rank [OF ix, of "edge_index n"] n(2) by (simp add: louds_ok_def)
  then show ?thesis by (simp add: init_node_from_node_id_def)
qed

lemma parent_node:
  assumes ok: "louds_ok l N P" and n: "node_in P n" "edge_index n < N"
    and c: "node_in P c" and z: "node_id n = count_below (\<lambda>i. \<not> P i) (edge_index c)"
  shows "move_to_parent l c = Some n"
proof -
  have "node_id c = Suc (count_below P (edge_index c))" "0 < node_id n"
    using c n by (auto simp: node_in_def nth_position_def)
  then have "edge_index c - node_id c + 1 = node_id n"
    using z zeros_from_ones [of P "edge_index c"] by simp
  then show ?thesis using init_node_in [OF ok n] by (simp add: move_to_parent_def)
qed

lemma siblings: "(move_to_next_sibling ^^ t) n = \<lparr>edge_index = edge_index n + t, node_id = node_id n + t\<rparr>"
  by (induction t) (auto simp: move_to_next_sibling_def)

lemma run_of_ones:
  "(\<And>j. j < t \<Longrightarrow> P (e + j)) \<Longrightarrow>
     count_below P (e + t) = count_below P e + t \<and>
     count_below (\<lambda>i. \<not> P i) (e + t) = count_below (\<lambda>i. \<not> P i) e"
  by (induction t) auto

lemma siblings_in:
  assumes "node_id n = Suc (count_below P (edge_index n))" and b: "\<And>j. j \<le> t \<Longrightarrow> P (edge_index n + j)"
  shows "node_in P ((move_to_next_sibling ^^ t) n)"
    and "count_below (\<lambda>i. \<not> P i) (edge_index n + t) = count_below (\<lambda>i. \<not> P i) (edge_index n)"
  using assms(1) b [of t] run_of_ones [of t P "edge_index n"] b
  by (simp_all add: node_in_def nth_position_def siblings)

lemma valid_node_bit:
  assumes "louds_ok l N P" "edge_index n < N"
  shows "is_valid_node l n = Some (P (edge_index n))"
  using assms get_bit_stored [of "edge_index n" "ld_index l"] by (simp add: is_valid_node_def louds_ok_def)

section \<open>Trees in level order\<close>

text \<open>
  A tree is the list of its nodes in level order and the children of each; every node but the first is a
  child, in order.  Its bits are those of the super-root and a unary degree for each node.
\<close>

definition level_order :: "('v \<Rightarrow> 'v list) \<Rightarrow> 'v list \<Rightarrow> bool" where
  "level_order ch nodes \<longleftrightarrow> nodes \<noteq> [] \<and> tl nodes = concat (map ch nodes)"

definition unary :: "('v \<Rightarrow> 'v list) \<Rightarrow> 'v \<Rightarrow> bool list" where
  "unary ch v = replicate (length (ch v)) True @ [False]"

definition tree_bits :: "('v \<Rightarrow> 'v list) \<Rightarrow> 'v list \<Rightarrow> bool list" where
  "tree_bits ch nodes = True # False # concat (map (unary ch) nodes)"

text \<open>The children before those of node \<open>k\<close>, and where the bits of node \<open>k\<close> start.\<close>

definition kids_before :: "('v \<Rightarrow> 'v list) \<Rightarrow> 'v list \<Rightarrow> nat \<Rightarrow> nat" where
  "kids_before ch nodes k = length (concat (map ch (take k nodes)))"

definition bits_start :: "('v \<Rightarrow> 'v list) \<Rightarrow> 'v list \<Rightarrow> nat \<Rightarrow> nat" where
  "bits_start ch nodes k = 2 + kids_before ch nodes k + k"

definition stands_for :: "louds \<Rightarrow> ('v \<Rightarrow> 'v list) \<Rightarrow> 'v list \<Rightarrow> bool" where
  "stands_for l ch nodes \<longleftrightarrow>
     level_order ch nodes \<and>
     (\<exists>N P. louds_ok l N P \<and> length (tree_bits ch nodes) \<le> N \<and>
        (\<forall>i < length (tree_bits ch nodes). P i = tree_bits ch nodes ! i))"

lemma length_units: "length (concat (map (unary ch) vs)) = length (concat (map ch vs)) + length vs"
  by (induction vs) (auto simp: unary_def)

lemma ones_units: "length (filter (\<lambda>b. b) (concat (map (unary ch) vs))) = length (concat (map ch vs))"
  by (induction vs) (auto simp: unary_def)

lemma count_below_take:
  "n \<le> length bs \<Longrightarrow> (\<And>i. i < n \<Longrightarrow> P i = bs ! i) \<Longrightarrow> count_below P n = length (filter (\<lambda>b. b) (take n bs))"
proof (induction n)
  case (Suc n)
  then show ?case by (simp add: take_Suc_conv_app_nth)
qed simp

definition bits_before :: "('v \<Rightarrow> 'v list) \<Rightarrow> 'v list \<Rightarrow> nat \<Rightarrow> bool list" where
  "bits_before ch nodes k = True # False # concat (map (unary ch) (take k nodes))"

lemma length_bits_before: "k \<le> length nodes \<Longrightarrow> length (bits_before ch nodes k) = bits_start ch nodes k"
  by (simp add: bits_before_def bits_start_def kids_before_def length_units)

lemma tree_bits_split: "\<exists>rest. tree_bits ch nodes = bits_before ch nodes k @ rest"
proof -
  have "concat (map (unary ch) nodes) = concat (map (unary ch) (take k nodes)) @ concat (map (unary ch) (drop k nodes))"
    by (simp flip: concat_append map_append)
  then show ?thesis by (simp add: tree_bits_def bits_before_def)
qed

lemma tree_bits_split_node:
  assumes "k < length nodes"
  shows "\<exists>rest. tree_bits ch nodes = bits_before ch nodes k @ unary ch (nodes ! k) @ rest"
proof -
  have "concat (map (unary ch) nodes) =
      concat (map (unary ch) (take k nodes)) @ unary ch (nodes ! k) @ concat (map (unary ch) (drop (Suc k) nodes))"
    using assms by (metis concat.simps(2) concat_append id_take_nth_drop list.simps(9) map_append)
  then show ?thesis by (simp add: tree_bits_def bits_before_def)
qed

lemma tree_bits_nth:
  assumes "k < length nodes" "t \<le> length (ch (nodes ! k))"
  shows "tree_bits ch nodes ! (bits_start ch nodes k + t) = (t < length (ch (nodes ! k)))"
    and "bits_start ch nodes k + t < length (tree_bits ch nodes)"
proof -
  obtain rest where e: "tree_bits ch nodes = bits_before ch nodes k @ unary ch (nodes ! k) @ rest"
    using tree_bits_split_node [OF assms(1)] by blast
  have len: "length (bits_before ch nodes k) = bits_start ch nodes k" using assms(1) by (simp add: length_bits_before)
  show "tree_bits ch nodes ! (bits_start ch nodes k + t) = (t < length (ch (nodes ! k)))"
    unfolding e using assms(2) nth_append_length_plus [of "bits_before ch nodes k" "unary ch (nodes ! k) @ rest" t]
    by (auto simp: len unary_def nth_append)
  show "bits_start ch nodes k + t < length (tree_bits ch nodes)"
    unfolding e using assms(2) by (simp add: len unary_def)
qed

lemma count_at_start:
  assumes "k < length nodes" and P: "\<And>i. i < length (tree_bits ch nodes) \<Longrightarrow> P i = tree_bits ch nodes ! i"
  shows "count_below P (bits_start ch nodes k) = Suc (kids_before ch nodes k)"
    and "count_below (\<lambda>i. \<not> P i) (bits_start ch nodes k) = Suc k"
proof -
  obtain rest where e: "tree_bits ch nodes = bits_before ch nodes k @ rest" using tree_bits_split by blast
  have len: "length (bits_before ch nodes k) = bits_start ch nodes k" using assms(1) by (simp add: length_bits_before)
  have "count_below P (bits_start ch nodes k) = length (filter (\<lambda>b. b) (take (bits_start ch nodes k) (tree_bits ch nodes)))"
    by (rule count_below_take) (use P e len in auto)
  also have "\<dots> = Suc (kids_before ch nodes k)"
    by (simp add: e len [symmetric]) (simp add: bits_before_def ones_units kids_before_def)
  finally show c: "count_below P (bits_start ch nodes k) = Suc (kids_before ch nodes k)" .
  then show "count_below (\<lambda>i. \<not> P i) (bits_start ch nodes k) = Suc k"
    by (simp add: zeros_from_ones bits_start_def)
qed

text \<open>The moves in a tree in level order.\<close>

definition tree_node :: "('v \<Rightarrow> 'v list) \<Rightarrow> 'v list \<Rightarrow> nat \<Rightarrow> nat \<Rightarrow> louds_node" where
  "tree_node ch nodes k t =
     \<lparr>edge_index = bits_start ch nodes k + t, node_id = kids_before ch nodes k + 2 + t\<rparr>"

lemma first_child_tree:
  assumes l: "stands_for l ch nodes" and k: "k < length nodes" "node_id n = Suc k"
  shows "move_to_first_child l n = Some (tree_node ch nodes k 0)"
proof -
  obtain N P where ok: "louds_ok l N P" and N: "length (tree_bits ch nodes) \<le> N"
    and P': "\<forall>i < length (tree_bits ch nodes). P i = tree_bits ch nodes ! i"
    using l unfolding stands_for_def by blast
  note P = P' [rule_format]
  define z where "z = bits_start ch nodes k - 1"
  have sz: "bits_start ch nodes k = Suc z" by (simp add: z_def bits_start_def)
  have zN: "z < N" using tree_bits_nth(2) [of k nodes 0 ch] k(1) N sz by simp
  have c: "count_below P (Suc z) = Suc (kids_before ch nodes k)" "count_below (\<lambda>i. \<not> P i) (Suc z) = Suc k"
    using count_at_start [OF k(1) P] by (simp_all add: sz)
  have nz: "\<not> P z"
  proof -
    obtain rest where e: "tree_bits ch nodes = bits_before ch nodes k @ rest" using tree_bits_split by blast
    have len: "length (bits_before ch nodes k) = Suc z" using k(1) by (simp add: length_bits_before sz)
    then have "P z = bits_before ch nodes k ! z" using P [of z] by (simp add: e nth_append)
    also have "\<dots> = last (bits_before ch nodes k)"
    proof -
      have "bits_before ch nodes k \<noteq> []" by (simp add: bits_before_def)
      then show ?thesis using len by (simp add: last_conv_nth)
    qed
    also have "\<dots> = False"
      by (cases "take k nodes" rule: rev_cases) (auto simp: bits_before_def unary_def)
    finally show ?thesis by simp
  qed
  then have "node_id n = Suc (count_below (\<lambda>i. \<not> P i) z)" using c(2) k(2) by simp
  from first_child_node [OF ok nz zN this, unfolded c(1)] show ?thesis by (simp add: tree_node_def sz)
qed

lemma next_sibling_tree: "move_to_next_sibling (tree_node ch nodes k t) = tree_node ch nodes k (Suc t)"
  by (simp add: tree_node_def move_to_next_sibling_def)

lemma valid_tree:
  assumes l: "stands_for l ch nodes" and k: "k < length nodes" "t \<le> length (ch (nodes ! k))"
  shows "is_valid_node l (tree_node ch nodes k t) = Some (t < length (ch (nodes ! k)))"
proof -
  obtain N P where ok: "louds_ok l N P" and N: "length (tree_bits ch nodes) \<le> N"
    and P': "\<forall>i < length (tree_bits ch nodes). P i = tree_bits ch nodes ! i"
    using l unfolding stands_for_def by blast
  note P = P' [rule_format]
  have "bits_start ch nodes k + t < length (tree_bits ch nodes)" using tree_bits_nth(2) k by blast
  then show ?thesis using valid_node_bit [OF ok, of "tree_node ch nodes k t"] P N tree_bits_nth(1) [of k nodes t ch] k
    by (simp add: tree_node_def)
qed


lemma init_node_tree:
  assumes l: "stands_for l ch nodes" and k: "k < length nodes" "t < length (ch (nodes ! k))"
  shows "init_node_from_node_id l (kids_before ch nodes k + 2 + t) = Some (tree_node ch nodes k t)"
proof -
  obtain N P where ok: "louds_ok l N P" and N: "length (tree_bits ch nodes) \<le> N"
    and P': "\<forall>i < length (tree_bits ch nodes). P i = tree_bits ch nodes ! i"
    using l unfolding stands_for_def by blast
  note P = P' [rule_format]
  have bit: "P (bits_start ch nodes k + j)" and len: "bits_start ch nodes k + j < length (tree_bits ch nodes)" if "j \<le> t" for j
    using tree_bits_nth [of k nodes j ch] P [of "bits_start ch nodes k + j"] k that by auto
  have "count_below P (bits_start ch nodes k + t) = count_below P (bits_start ch nodes k) + t"
    using run_of_ones [of t P "bits_start ch nodes k"] bit by simp
  then have "node_in P (tree_node ch nodes k t)"
    using bit [of t] count_at_start(1) [OF k(1) P] by (simp add: node_in_def nth_position_def tree_node_def)
  from init_node_in [OF ok this] show ?thesis using len [of t] N by (simp add: tree_node_def)
qed

lemma init_node_root:
  assumes l: "stands_for l ch nodes"
  shows "init_node_from_node_id l 1 = Some root_node"
proof -
  obtain N P where ok: "louds_ok l N P" and N: "length (tree_bits ch nodes) \<le> N"
    and P': "\<forall>i < length (tree_bits ch nodes). P i = tree_bits ch nodes ! i"
    using l unfolding stands_for_def by blast
  have "P 0" "0 < N" using P' N by (auto simp: tree_bits_def)
  then have "node_in P root_node" by (simp add: node_in_def nth_position_def root_node_def)
  from init_node_in [OF ok this] show ?thesis using \<open>0 < N\<close> by (simp add: root_node_def)
qed

lemma parent_tree: "move_to_parent l (tree_node ch nodes k t) = init_node_from_node_id l (Suc k)"
  by (simp add: move_to_parent_def tree_node_def bits_start_def)

lemma level_order_child:
  assumes lo: "level_order ch nodes" and k: "k < length nodes" "t < length (ch (nodes ! k))"
  shows "kids_before ch nodes k + 1 + t < length nodes"
    and "nodes ! (kids_before ch nodes k + 1 + t) = ch (nodes ! k) ! t"
proof -
  have "concat (map ch nodes) =
      concat (map ch (take k nodes)) @ ch (nodes ! k) @ concat (map ch (drop (Suc k) nodes))"
    using k(1) by (metis concat.simps(2) concat_append id_take_nth_drop list.simps(9) map_append)
  then have e: "tl nodes = concat (map ch (take k nodes)) @ ch (nodes ! k) @ concat (map ch (drop (Suc k) nodes))"
    using lo by (simp add: level_order_def)
  then have "kids_before ch nodes k + t < length (tl nodes)" using k(2) by (simp add: kids_before_def)
  then show "kids_before ch nodes k + 1 + t < length nodes" by simp
  have "tl nodes ! (kids_before ch nodes k + t) = ch (nodes ! k) ! t"
    unfolding e kids_before_def nth_append_length_plus using k(2) by (simp add: nth_append)
  then show "nodes ! (kids_before ch nodes k + 1 + t) = ch (nodes ! k) ! t"
    using \<open>kids_before ch nodes k + t < length (tl nodes)\<close> by (simp add: nth_tl)
qed

text \<open>Every node but the first has a parent.\<close>

lemma level_order_parent:
  assumes lo: "level_order ch nodes" and m: "0 < m" "m < length nodes"
  shows "\<exists>k t. k < length nodes \<and> t < length (ch (nodes ! k)) \<and> m = kids_before ch nodes k + 1 + t"
proof -
  have "length (tl nodes) = length (concat (map ch nodes))" using lo unfolding level_order_def by metis
  then have total: "kids_before ch nodes (length nodes) = length nodes - 1" by (simp add: kids_before_def)
  have step: "kids_before ch nodes (Suc k) = kids_before ch nodes k + length (ch (nodes ! k))" if "k < length nodes" for k
    using that by (simp add: kids_before_def take_Suc_conv_app_nth)
  define Q where "Q k \<longleftrightarrow> m \<le> kids_before ch nodes k" for k
  have "Q (length nodes)" using total m by (simp add: Q_def)
  moreover have "\<not> Q 0" using m by (simp add: Q_def kids_before_def)
  ultimately obtain k where k: "k < length nodes" "\<not> Q k" "Q (Suc k)"
    using ex_least_nat_less [of Q "length nodes"] by auto
  then have "m < kids_before ch nodes k + 1 + length (ch (nodes ! k))" "kids_before ch nodes k < m"
    using step [of k] by (auto simp: Q_def)
  then show ?thesis using k(1) by (intro exI [of _ k] exI [of _ "m - kids_before ch nodes k - 1"]) auto
qed

section \<open>Properties\<close>

text \<open> In a LOUDS over any bits, with caches of any sizes: from a valid node, the first child, and
  then any number of steps over valid siblings, moves up to the node again, to both of its numbers.\<close>

theorem louds_parent_of_child:
  assumes init: "louds_init img len lb0 lb1 s0 s1 = Some l" and len: "4 dvd len" "len + 32 < 2 ^ 28" "len \<le> length img"
    and n: "node_in (stored_bit img) n" "edge_index n < 8 * len"
    and zero: "node_id n \<le> zeros img (8 * len)"
    and child: "move_to_first_child l n = Some c"
    and valid: "\<forall>j \<le> t. is_valid_node l ((move_to_next_sibling ^^ j) c) = Some True"
    and inside: "edge_index c + t < 8 * len"
  shows "move_to_parent l ((move_to_next_sibling ^^ t) c) = Some n"
proof -
  let ?P = "stored_bit img"
  have ok: "louds_ok l (8 * len) ?P" using louds_init_ok [OF len, of lb0 lb1 s0 s1] init by auto
  note ix = louds_ok_indexes [OF this]
  have "0 < node_id n" using n(1) by (simp add: node_in_def nth_position_def)
  then obtain z where "z < 8 * len" "nth_position (\<lambda>i. \<not> ?P i) (node_id n) z"
    using bv.sel0 [OF ix _ zero] by blast
  then have z: "z < 8 * len" "\<not> ?P z" "node_id n = Suc (zeros img z)" by (auto simp: nth_position_def)
  then have c: "c = \<lparr>edge_index = Suc z, node_id = Suc (ones img (Suc z))\<rparr>"
    using first_child_node [OF ok] child by simp
  have bit: "?P (edge_index c + j)" if "j \<le> t" for j
    using valid that inside valid_node_bit [OF ok, of "(move_to_next_sibling ^^ j) c"] by (simp add: siblings)
  have cn: "node_id c = Suc (ones img (edge_index c))" by (simp add: c)
  have "zeros img (edge_index c + t) = zeros img (edge_index c)" by (rule siblings_in(2) [OF cn bit])
  also have "\<dots> = node_id n" using z by (simp add: c)
  finally have "node_id n = zeros img (edge_index ((move_to_next_sibling ^^ t) c))" by (simp add: siblings)
  from parent_node [OF ok n siblings_in(1) [OF cn bit] this] show ?thesis .
qed


theorem louds_parent_of_child_witness:
  "\<exists>l c. louds_init [CHR 0x0D, CHR 0x00, CHR 0x00, CHR 0x00] 4 0 0 2 1 = Some l \<and>
     move_to_first_child l root_node = Some c \<and> move_to_parent l (move_to_next_sibling c) = Some root_node"
proof -
  let ?img = "[CHR 0x0D, CHR 0x00, CHR 0x00, CHR 0x00]"
  have bits: "stored_bit ?img 0" "\<not> stored_bit ?img 1" "stored_bit ?img 2" "stored_bit ?img 3"
    by (simp_all add: stored_bit_def bit_iff_odd)
  obtain l where l: "louds_init ?img 4 0 0 2 1 = Some l" "louds_ok l (8 * 4) (stored_bit ?img)"
    using louds_init_ok [of 4 ?img 0 0 2 1] by auto
  have one: "zeros ?img 1 = 0" "ones ?img 2 = 1" using bits by (simp_all add: count_below_def upt_rec)
  then have c: "move_to_first_child l root_node = Some \<lparr>edge_index = 2, node_id = 2\<rparr>"
    using first_child_node [OF l(2), of 1 root_node] bits by (simp add: root_node_def numeral_2_eq_2)
  have "1 \<le> zeros ?img 2" using bits by (simp add: count_below_def upt_rec)
  also have "\<dots> \<le> zeros ?img (8 * 4)" by (rule count_below_mono) simp
  finally have "node_id root_node \<le> zeros ?img (8 * 4)" by (simp add: root_node_def)
  moreover have "node_in (stored_bit ?img) root_node" using bits by (simp add: node_in_def nth_position_def root_node_def)
  moreover have "\<forall>j \<le> 1. is_valid_node l ((move_to_next_sibling ^^ j) \<lparr>edge_index = 2, node_id = 2\<rparr>) = Some True"
    using bits valid_node_bit [OF l(2)] by (auto simp: siblings le_Suc_eq simp flip: numeral_2_eq_2 numeral_3_eq_3)
  ultimately have "move_to_parent l ((move_to_next_sibling ^^ 1) \<lparr>edge_index = 2, node_id = 2\<rparr>) = Some root_node"
    using louds_parent_of_child [OF l(1) _ _ _ _ _ _ c, of 1] by (simp add: root_node_def)
  then show ?thesis using l(1) c by auto
qed

end
