(* ===== verification/Louds_Trie.thy ===== *)
theory Louds_Trie
  imports Louds "HOL-Library.Char_ord" "HOL-Library.List_Lexorder"
begin

text \<open>
  The trie over a LOUDS image (\<open>storage/louds/louds_trie.h\<close>, \<open>storage/louds/louds_trie.cc\<close>).  A pointer
  into the image is the rest of the image; \<open>None\<close> is a failed \<open>CHECK\<close>, a read or write outside a
  buffer.  A trie represents a set of words when its nodes are the prefixes of the words in level order;
  then traversal, exact search, prefix search and the key ids are those of the set.
\<close>

section \<open>Operations\<close>

definition max_depth :: nat where
  "max_depth = 256"

record louds_trie =
  lt_louds :: louds
  terminal_bit_vector :: bit_index
  edge_character :: bytes

text \<open>\<open>const int x = LoadUnalignedAdvance<uint32_t>(image)\<close>, the \<open>k\<close>-th of them.\<close>

definition load_int :: "bytes \<Rightarrow> nat \<Rightarrow> int option" where
  "load_int img k = map_option sint (load32 img (4 * k))"

definition trie_open ::
  "bytes \<Rightarrow> nat \<Rightarrow> nat \<Rightarrow> nat \<Rightarrow> nat \<Rightarrow> nat \<Rightarrow> louds_trie option" where
  "trie_open img lb0_size lb1_size sel0_size sel1_size term_lb1_size =
     Option.bind (load_int img 0) (\<lambda>louds_size. Option.bind (load_int img 1) (\<lambda>terminal_size.
     Option.bind (load_int img 2) (\<lambda>num_character_bits. Option.bind (load_int img 3) (\<lambda>edge_character_size.
       if num_character_bits \<noteq> 8 \<or> edge_character_size \<le> 0 \<or> louds_size < 0 \<or> terminal_size < 0 then None
       else
         let louds_image = drop 16 img; terminal_image = drop (nat louds_size) louds_image;
             edge = drop (nat terminal_size) terminal_image
         in Option.bind (louds_init louds_image (nat louds_size) lb0_size lb1_size sel0_size sel1_size) (\<lambda>l.
              map_option (\<lambda>tv. \<lparr>lt_louds = l, terminal_bit_vector = tv, edge_character = edge\<rparr>)
                (init_bit_index 32 terminal_image (nat terminal_size) 0 term_lb1_size))))))"

definition trie_close :: "louds_trie \<Rightarrow> louds_trie" where
  "trie_close t =
     \<lparr>lt_louds = louds_reset (lt_louds t), terminal_bit_vector = reset_bit_index (terminal_bit_vector t),
      edge_character = []\<rparr>"

definition is_terminal_node :: "louds_trie \<Rightarrow> louds_node \<Rightarrow> bool option" where
  "is_terminal_node t n = get_bit (terminal_bit_vector t) (node_id n - 1)"

definition edge_label :: "louds_trie \<Rightarrow> louds_node \<Rightarrow> char option" where
  "edge_label t n =
     (if node_id n - 1 < length (edge_character t) then Some (edge_character t ! (node_id n - 1)) else None)"

definition key_id_of_terminal_node :: "louds_trie \<Rightarrow> louds_node \<Rightarrow> nat option" where
  "key_id_of_terminal_node t n = rank1 (terminal_bit_vector t) (node_id n - 1)"

definition terminal_node_from_key_id :: "louds_trie \<Rightarrow> nat \<Rightarrow> louds_node option" where
  "terminal_node_from_key_id t key_id =
     Option.bind (select1 (terminal_bit_vector t) (key_id + 1)) (\<lambda>k. init_node_from_node_id (lt_louds t) (k + 1))"

text \<open>The climb of \<open>RestoreKeyString\<close>, with \<open>space\<close> bytes left in front of \<open>ptr\<close>.\<close>

fun climb :: "louds_trie \<Rightarrow> nat \<Rightarrow> louds_node \<Rightarrow> bytes \<Rightarrow> bytes option" where
  "climb t space n buf =
     (if is_root n then Some buf
      else case space of
        0 \<Rightarrow> None
      | Suc s \<Rightarrow>
          Option.bind (edge_label t n) (\<lambda>c. Option.bind (move_to_parent (lt_louds t) n) (\<lambda>p. climb t s p (c # buf))))"

declare climb.simps [simp del]

definition restore_key_string :: "louds_trie \<Rightarrow> louds_node \<Rightarrow> bytes option" where
  "restore_key_string t n = climb t max_depth n []"

definition restore_key_string_of_id :: "louds_trie \<Rightarrow> int \<Rightarrow> bytes option" where
  "restore_key_string_of_id t key_id =
     (if key_id < 0 then Some []
      else Option.bind (terminal_node_from_key_id t (nat key_id)) (restore_key_string t))"

text \<open>The loop of \<open>MoveToChildByLabel\<close>; the node comes back with the answer.\<close>

function sibling_by_label :: "louds_trie \<Rightarrow> char \<Rightarrow> louds_node \<Rightarrow> (bool \<times> louds_node) option" where
  "sibling_by_label t label n =
     (case is_valid_node (lt_louds t) n of
        None \<Rightarrow> None
      | Some False \<Rightarrow> Some (False, n)
      | Some True \<Rightarrow>
          (case edge_label t n of
             None \<Rightarrow> None
           | Some c \<Rightarrow> if c = label then Some (True, n) else sibling_by_label t label (move_to_next_sibling n)))"
  by pat_completeness auto
termination
  by (relation "measure (\<lambda>(t, label, n). length (edge_character t) + 1 - node_id n)")
    (auto simp: edge_label_def move_to_next_sibling_def split: if_splits)

declare sibling_by_label.simps [simp del]

definition move_to_child_by_label :: "louds_trie \<Rightarrow> char \<Rightarrow> louds_node \<Rightarrow> (bool \<times> louds_node) option" where
  "move_to_child_by_label t label n =
     Option.bind (move_to_first_child (lt_louds t) n) (sibling_by_label t label)"

fun traverse :: "louds_trie \<Rightarrow> bytes \<Rightarrow> louds_node \<Rightarrow> (bool \<times> louds_node) option" where
  "traverse t [] n = Some (True, n)"
| "traverse t (c # cs) n =
     Option.bind (move_to_child_by_label t c n) (\<lambda>(found, m). if found then traverse t cs m else Some (False, m))"

definition has_key :: "louds_trie \<Rightarrow> bytes \<Rightarrow> bool option" where
  "has_key t key =
     Option.bind (traverse t key root_node) (\<lambda>(found, n). if found then is_terminal_node t n else Some False)"

definition exact_search :: "louds_trie \<Rightarrow> bytes \<Rightarrow> int option" where
  "exact_search t key =
     Option.bind (traverse t key root_node) (\<lambda>(found, n).
       if found then
         Option.bind (is_terminal_node t n) (\<lambda>terminal.
           if terminal then map_option int (key_id_of_terminal_node t n) else Some (- 1))
       else Some (- 1))"

text \<open>The calls \<open>PrefixSearch\<close> makes: the length of each prefix and its node, in order.\<close>

fun prefix_search_from :: "louds_trie \<Rightarrow> nat \<Rightarrow> bytes \<Rightarrow> louds_node \<Rightarrow> (nat \<times> louds_node) list option" where
  "prefix_search_from t i [] n = Some []"
| "prefix_search_from t i (c # cs) n =
     Option.bind (move_to_child_by_label t c n) (\<lambda>(found, m).
       if found then
         Option.bind (is_terminal_node t m) (\<lambda>terminal.
           map_option (\<lambda>calls. if terminal then (Suc i, m) # calls else calls)
             (prefix_search_from t (Suc i) cs m))
       else Some [])"

definition prefix_search :: "louds_trie \<Rightarrow> bytes \<Rightarrow> (nat \<times> louds_node) list option" where
  "prefix_search t key = prefix_search_from t 0 key root_node"

section \<open>The trie of a set of words\<close>

text \<open>The nodes at depth \<open>d\<close> are the prefixes of that length, in order.\<close>

definition level :: "bytes set \<Rightarrow> nat \<Rightarrow> bytes list" where
  "level W d = sorted_list_of_set {take d w |w. w \<in> W \<and> d \<le> length w}"

definition kids :: "bytes set \<Rightarrow> bytes \<Rightarrow> bytes list" where
  "kids W v = filter (\<lambda>u. take (length v) u = v) (level W (Suc (length v)))"

definition max_length :: "bytes set \<Rightarrow> nat" where
  "max_length W = Max (insert 0 (length ` W))"

definition trie_nodes :: "bytes set \<Rightarrow> bytes list" where
  "trie_nodes W = [] # concat (map (level W) [1..<Suc (max_length W)])"

lemma take_mono_lex: "x \<le> y \<Longrightarrow> take n x \<le> take n y" for x y :: bytes
proof (induction n arbitrary: x y)
  case (Suc n)
  then show ?case by (cases x; cases y) (auto simp: Suc.IH)
qed simp

lemma finite_prefixes: "finite W \<Longrightarrow> finite {take d w |w. w \<in> W \<and> d \<le> length w}"
  by (rule finite_subset [of _ "take d ` W"]) auto

lemma level_facts:
  assumes "finite W"
  shows "set (level W d) = {take d w |w. w \<in> W \<and> d \<le> length w}" and "sorted_wrt (<) (level W d)"
    and "distinct (level W d)"
  using finite_prefixes [OF assms, of d] by (simp_all add: level_def strict_sorted_list_of_set)

lemma level_length: "finite W \<Longrightarrow> v \<in> set (level W d) \<Longrightarrow> length v = d"
  by (auto simp: level_facts)

lemma kids_facts:
  assumes "finite W"
  shows "set (kids W v) = {u \<in> set (level W (Suc (length v))). take (length v) u = v}" and "sorted_wrt (<) (kids W v)"
  using level_facts [OF assms] by (simp_all add: kids_def sorted_wrt_filter)

lemma sorted_concat_kids:
  assumes W: "finite W"
  shows "sorted_wrt (<) vs \<Longrightarrow> (\<forall>v \<in> set vs. length v = d) \<Longrightarrow> sorted_wrt (<) (concat (map (kids W) vs))"
proof (induction vs)
  case (Cons v vs)
  have "u < u'" if u: "u \<in> set (kids W v)" and u': "u' \<in> set (kids W v')" "v' \<in> set vs" for u u' v'
  proof (rule ccontr)
    assume "\<not> u < u'"
    then have "take d u' \<le> take d u" by (intro take_mono_lex) simp
    moreover have "take d u = v" "take d u' = v'" using u u' kids_facts(1) [OF W] Cons.prems by auto
    moreover have "v < v'" using Cons.prems u' by simp
    ultimately show False by simp
  qed
  then show ?case using Cons kids_facts(2) [OF W] by (auto simp: sorted_wrt_append)
qed simp

lemma level_step:
  assumes W: "finite W"
  shows "level W (Suc d) = concat (map (kids W) (level W d))"
proof (rule strict_sorted_equal [symmetric])
  show "sorted_wrt (<) (level W (Suc d))" by (rule level_facts [OF W])
  show "sorted_wrt (<) (concat (map (kids W) (level W d)))"
    by (rule sorted_concat_kids [OF W level_facts(2) [OF W], where d = d]) (intro ballI level_length [OF W])
  show "set (concat (map (kids W) (level W d))) = set (level W (Suc d))"
  proof
    show "set (concat (map (kids W) (level W d))) \<subseteq> set (level W (Suc d))"
    proof
      fix u assume "u \<in> set (concat (map (kids W) (level W d)))"
      then obtain v where v: "v \<in> set (level W d)" "u \<in> set (kids W v)" by auto
      then show "u \<in> set (level W (Suc d))" using level_length [OF W v(1)] by (simp add: kids_facts [OF W])
    qed
    show "set (level W (Suc d)) \<subseteq> set (concat (map (kids W) (level W d)))"
    proof
      fix u assume u: "u \<in> set (level W (Suc d))"
      then obtain w where w: "w \<in> W" "Suc d \<le> length w" "u = take (Suc d) w" by (auto simp: level_facts [OF W])
      then have "take d w \<in> set (level W d)" by (auto simp: level_facts [OF W])
      moreover have "u \<in> set (kids W (take d w))" using u w by (simp add: kids_facts [OF W] min_absorb1)
      ultimately show "u \<in> set (concat (map (kids W) (level W d)))" by auto
    qed
  qed
qed

lemma max_length_bound: "finite W \<Longrightarrow> w \<in> W \<Longrightarrow> length w \<le> max_length W"
  by (simp add: max_length_def)

lemma level_beyond:
  assumes W: "finite W" and d: "max_length W < d"
  shows "level W d = []"
proof -
  have "\<not> d \<le> length w" if "w \<in> W" for w using max_length_bound [OF W that] d by simp
  then have "{take d w |w. w \<in> W \<and> d \<le> length w} = {}" by blast
  then show ?thesis unfolding level_def by (simp only: sorted_list_of_set_empty)
qed

lemma concat_map_concat: "concat (map f (concat (map g xs))) = concat (map (\<lambda>x. concat (map f (g x))) xs)"
  by (induction xs) auto

lemma kids_root: "finite W \<Longrightarrow> kids W [] = level W 1"
  by (simp add: kids_def)

lemma trie_level_order:
  assumes W: "finite W"
  shows "level_order (kids W) (trie_nodes W)"
proof -
  let ?M = "max_length W"
  have "concat (map (kids W) (concat (map (level W) [1..<Suc ?M]))) = concat (map (\<lambda>d. level W (Suc d)) [1..<Suc ?M])"
    by (simp only: concat_map_concat level_step [OF W])
  then have "concat (map (kids W) (trie_nodes W)) = level W 1 @ concat (map (\<lambda>d. level W (Suc d)) [1..<Suc ?M])"
    by (simp add: trie_nodes_def kids_root [OF W])
  also have "\<dots> = concat (map (level W) (1 # [2..<Suc (Suc ?M)]))"
    by (simp add: map_Suc_upt [symmetric] numeral_2_eq_2 comp_def del: upt_Suc)
  also have "1 # [2..<Suc (Suc ?M)] = [1..<Suc ?M] @ [Suc ?M]"
    by (metis One_nat_def Suc_1 le_add1 plus_1_eq_Suc upt_conv_Cons upt_Suc zero_less_Suc Suc_less_eq)
  also have "concat (map (level W) ([1..<Suc ?M] @ [Suc ?M])) = tl (trie_nodes W)"
    by (simp add: trie_nodes_def level_beyond [OF W] del: upt_Suc)
  finally show ?thesis by (simp add: level_order_def trie_nodes_def del: upt_Suc)
qed


lemma set_trie_nodes:
  assumes W: "finite W"
  shows "set (trie_nodes W) = insert [] {u. \<exists>w \<in> W. prefix u w}"
proof -
  have "u \<in> set (concat (map (level W) [1..<Suc (max_length W)])) \<longleftrightarrow> u \<noteq> [] \<and> (\<exists>w \<in> W. prefix u w)" for u
  proof
    assume "u \<in> set (concat (map (level W) [1..<Suc (max_length W)]))"
    then obtain d where "1 \<le> d" "u \<in> set (level W d)" by auto
    then obtain w where "w \<in> W" "d \<le> length w" "u = take d w" by (auto simp: level_facts [OF W])
    with \<open>1 \<le> d\<close> show "u \<noteq> [] \<and> (\<exists>w \<in> W. prefix u w)" by (auto intro!: take_is_prefix)
  next
    assume "u \<noteq> [] \<and> (\<exists>w \<in> W. prefix u w)"
    then obtain w where u: "u \<noteq> []" "w \<in> W" "prefix u w" by blast
    then have le: "length u \<le> length w" "u = take (length u) w" by (auto simp: prefix_def)
    then have "u \<in> set (level W (length u))" using u by (auto simp: level_facts [OF W])
    moreover have "1 \<le> length u" "length u \<le> max_length W"
      using u le max_length_bound [OF W u(2)] by (simp_all add: Suc_leI)
    moreover then have "length u \<in> set [1..<Suc (max_length W)]"
      by (simp only: set_upt atLeastLessThan_iff less_Suc_eq_le)
    ultimately show "u \<in> set (concat (map (level W) [1..<Suc (max_length W)]))"
      unfolding set_concat set_map by blast
  qed
  then show ?thesis by (auto simp: trie_nodes_def simp del: upt_Suc)
qed

lemma distinct_trie_nodes:
  assumes W: "finite W"
  shows "distinct (trie_nodes W)"
proof -
  have "distinct (concat (map (level W) ds))" if "distinct ds" for ds
    using that
  proof (induction ds)
    case (Cons d ds)
    have "set (level W d) \<inter> set (concat (map (level W) ds)) = {}"
    proof (rule equals0I)
      fix u assume "u \<in> set (level W d) \<inter> set (concat (map (level W) ds))"
      then obtain d' where "u \<in> set (level W d)" "d' \<in> set ds" "u \<in> set (level W d')" by auto
      then have "d = d'" using level_length [OF W, of u d] level_length [OF W, of u d'] by simp
      then show False using \<open>d' \<in> set ds\<close> Cons.prems by simp
    qed
    then show ?case using Cons level_facts(3) [OF W] by simp
  qed simp
  moreover have "[] \<notin> set (concat (map (level W) [1..<Suc (max_length W)]))"
    using level_length [OF W] by (fastforce simp del: upt_Suc)
  ultimately show ?thesis by (simp add: trie_nodes_def del: upt_Suc)
qed

lemma kids_snoc: "finite W \<Longrightarrow> u \<in> set (kids W v) \<Longrightarrow> u = v @ [last u] \<and> u \<in> set (trie_nodes W)"
proof -
  assume W: "finite W" and u: "u \<in> set (kids W v)"
  then have len: "length u = Suc (length v)" "take (length v) u = v" "u \<in> set (level W (Suc (length v)))"
    using level_length [OF W] by (auto simp: kids_facts [OF W])
  then have "u = v @ [last u]" by (cases u rule: rev_cases) auto
  moreover obtain w where "w \<in> W" "u = take (Suc (length v)) w" using len by (auto simp: level_facts [OF W])
  ultimately show ?thesis using take_is_prefix by (fastforce simp: set_trie_nodes [OF W])
qed

lemma snoc_kids: "finite W \<Longrightarrow> v @ [c] \<in> set (kids W v) \<longleftrightarrow> (\<exists>w \<in> W. prefix (v @ [c]) w)"
proof
  assume W: "finite W" and "\<exists>w \<in> W. prefix (v @ [c]) w"
  then obtain z where w: "v @ c # z \<in> W" by (auto simp: prefix_def)
  have "\<exists>w. v @ [c] = take (Suc (length v)) w \<and> w \<in> W \<and> Suc (length v) \<le> length w"
    by (rule exI [of _ "v @ c # z"]) (use w in simp)
  then show "v @ [c] \<in> set (kids W v)" by (simp add: kids_facts [OF W] level_facts [OF W])
next
  assume W: "finite W" and "v @ [c] \<in> set (kids W v)"
  then show "\<exists>w \<in> W. prefix (v @ [c]) w" using kids_snoc [OF W] by (fastforce simp: set_trie_nodes [OF W])
qed

section \<open>Tries that represent a set\<close>

definition represents :: "louds_trie \<Rightarrow> bytes set \<Rightarrow> bool" where
  "represents t W \<longleftrightarrow>
     finite W \<and> [] \<notin> W \<and> stands_for (lt_louds t) (kids W) (trie_nodes W) \<and>
     length (trie_nodes W) \<le> length (edge_character t) \<and>
     (\<forall>m < length (trie_nodes W). 0 < m \<longrightarrow> edge_character t ! m = last (trie_nodes W ! m)) \<and>
     (\<exists>N P. indexes (terminal_bit_vector t) N P \<and> N \<le> 8 * length (bi_data (terminal_bit_vector t)) \<and>
        P = stored_bit (bi_data (terminal_bit_vector t)) \<and> length (trie_nodes W) \<le> N \<and>
        (\<forall>m < length (trie_nodes W). P m = (trie_nodes W ! m \<in> W)))"

definition stands_at :: "louds_trie \<Rightarrow> bytes set \<Rightarrow> bytes \<Rightarrow> louds_node \<Rightarrow> bool" where
  "stands_at t W v n \<longleftrightarrow>
     (\<exists>m < length (trie_nodes W). trie_nodes W ! m = v \<and> node_id n = Suc m \<and>
        init_node_from_node_id (lt_louds t) (Suc m) = Some n)"

lemma represents_facts:
  assumes "represents t W"
  shows "finite W" and "[] \<notin> W" and "stands_for (lt_louds t) (kids W) (trie_nodes W)"
    and "level_order (kids W) (trie_nodes W)"
    and "m < length (trie_nodes W) \<Longrightarrow> m < length (edge_character t)"
    and "m < length (trie_nodes W) \<Longrightarrow> 0 < m \<Longrightarrow> edge_character t ! m = last (trie_nodes W ! m)"
  using assms trie_level_order [of W] by (auto simp: represents_def)

lemma root_stands: "represents t W \<Longrightarrow> stands_at t W [] root_node"
  using init_node_root [of "lt_louds t" "kids W" "trie_nodes W"]
  by (auto simp: stands_at_def represents_def root_node_def trie_nodes_def intro!: exI [of _ 0])

lemma child_stands:
  assumes t: "represents t W" and k: "k < length (trie_nodes W)" "j < length (kids W (trie_nodes W ! k))"
  shows "stands_at t W (kids W (trie_nodes W ! k) ! j) (tree_node (kids W) (trie_nodes W) k j)"
    and "edge_label t (tree_node (kids W) (trie_nodes W) k j) = Some (last (kids W (trie_nodes W ! k) ! j))"
proof -
  let ?m = "kids_before (kids W) (trie_nodes W) k + 1 + j"
  note rep = represents_facts [OF t]
  have m: "?m < length (trie_nodes W)" "trie_nodes W ! ?m = kids W (trie_nodes W ! k) ! j"
    using level_order_child [OF rep(4) k] by auto
  then show "stands_at t W (kids W (trie_nodes W ! k) ! j) (tree_node (kids W) (trie_nodes W) k j)"
    using init_node_tree [OF rep(3) k] by (auto simp: stands_at_def tree_node_def intro!: exI [of _ ?m])
  show "edge_label t (tree_node (kids W) (trie_nodes W) k j) = Some (last (kids W (trie_nodes W ! k) ! j))"
    using rep(5,6) [OF m(1)] m(2) by (simp add: edge_label_def tree_node_def)
qed

lemma stands_at_unique_index:
  assumes t: "represents t W" and v: "stands_at t W v n" and k: "k < length (trie_nodes W)" "trie_nodes W ! k = v"
  shows "node_id n = Suc k" and "init_node_from_node_id (lt_louds t) (Suc k) = Some n"
proof -
  obtain m where m: "m < length (trie_nodes W)" "trie_nodes W ! m = v" "node_id n = Suc m"
    "init_node_from_node_id (lt_louds t) (Suc m) = Some n" using v unfolding stands_at_def by blast
  then have "m = k" using nth_eq_iff_index_eq [OF distinct_trie_nodes] represents_facts(1) [OF t] k by metis
  then show "node_id n = Suc k" "init_node_from_node_id (lt_louds t) (Suc k) = Some n" using m by auto
qed


lemma stands_at_cases:
  assumes "stands_at t W v n"
  obtains m where "m < length (trie_nodes W)" "trie_nodes W ! m = v" "node_id n = Suc m"
    "init_node_from_node_id (lt_louds t) (Suc m) = Some n"
  using assms unfolding stands_at_def by blast

section \<open>Search\<close>

lemma sibling_search:
  assumes t: "represents t W" and k: "k < length (trie_nodes W)" and v: "trie_nodes W ! k = v"
  shows "j \<le> length (kids W v) \<Longrightarrow> (\<forall>i < j. last (kids W v ! i) \<noteq> c) \<Longrightarrow>
    \<exists>m. sibling_by_label t c (tree_node (kids W) (trie_nodes W) k j) = Some (v @ [c] \<in> set (kids W v), m) \<and>
      (v @ [c] \<in> set (kids W v) \<longrightarrow> stands_at t W (v @ [c]) m)"
proof (induction "length (kids W v) - j" arbitrary: j)
  case 0
  note rep = represents_facts [OF t]
  have "is_valid_node (lt_louds t) (tree_node (kids W) (trie_nodes W) k j) = Some False"
    using valid_tree [OF rep(3) k, of j] 0 v by simp
  moreover have "v @ [c] \<notin> set (kids W v)"
  proof
    assume "v @ [c] \<in> set (kids W v)"
    then obtain i where "i < length (kids W v)" "kids W v ! i = v @ [c]" by (auto simp: in_set_conv_nth)
    then show False using 0 by auto
  qed
  ultimately show ?case by (simp add: sibling_by_label.simps [of t c])
next
  case (Suc d)
  note rep = represents_facts [OF t]
  let ?n = "tree_node (kids W) (trie_nodes W) k j"
  have j: "j < length (kids W (trie_nodes W ! k))" using Suc v by simp
  have valid: "is_valid_node (lt_louds t) ?n = Some True"
    using valid_tree [OF rep(3) k, of j] j by simp
  note child = child_stands [OF t k j, unfolded v]
  show ?case
  proof (cases "last (kids W v ! j) = c")
    case True
    have "kids W v ! j \<in> set (kids W v)" using j v by simp
    moreover from this have "kids W v ! j = v @ [c]" using kids_snoc [OF rep(1)] True by blast
    ultimately have "v @ [c] \<in> set (kids W v)" "stands_at t W (v @ [c]) ?n" using child by simp_all
    moreover have "sibling_by_label t c ?n = Some (True, ?n)"
      using valid child(2) True by (simp add: sibling_by_label.simps [of t c])
    ultimately show ?thesis by simp
  next
    case False
    have e: "sibling_by_label t c ?n = sibling_by_label t c (tree_node (kids W) (trie_nodes W) k (Suc j))"
      using valid child(2) False by (simp add: sibling_by_label.simps [of t c ?n] next_sibling_tree)
    show ?thesis unfolding e
      by (rule Suc.hyps(1)) (use Suc False in \<open>auto simp: less_Suc_eq\<close>)
  qed
qed

lemma child_search:
  assumes t: "represents t W" and n: "stands_at t W v n"
  shows "\<exists>m. move_to_child_by_label t c n = Some (\<exists>w \<in> W. prefix (v @ [c]) w, m) \<and>
    ((\<exists>w \<in> W. prefix (v @ [c]) w) \<longrightarrow> stands_at t W (v @ [c]) m)"
proof -
  note rep = represents_facts [OF t]
  obtain k where k: "k < length (trie_nodes W)" "trie_nodes W ! k = v" "node_id n = Suc k"
    by (rule stands_at_cases [OF n])
  have "move_to_child_by_label t c n = sibling_by_label t c (tree_node (kids W) (trie_nodes W) k 0)"
    using first_child_tree [OF rep(3) k(1,3)] by (simp add: move_to_child_by_label_def)
  then show ?thesis
    using sibling_search [OF t k(1,2), of 0 c] by (simp add: snoc_kids [OF rep(1)])
qed

lemma traverse_search:
  assumes t: "represents t W"
  shows "stands_at t W v n \<Longrightarrow>
    \<exists>m. traverse t key n = Some (key = [] \<or> (\<exists>w \<in> W. prefix (v @ key) w), m) \<and>
      (key = [] \<or> (\<exists>w \<in> W. prefix (v @ key) w) \<longrightarrow> stands_at t W (v @ key) m)"
proof (induction key arbitrary: v n)
  case (Cons c cs)
  obtain m where m: "move_to_child_by_label t c n = Some (\<exists>w \<in> W. prefix (v @ [c]) w, m)"
    and at: "(\<exists>w \<in> W. prefix (v @ [c]) w) \<longrightarrow> stands_at t W (v @ [c]) m"
    using child_search [OF t Cons.prems] by blast
  show ?case
  proof (cases "\<exists>w \<in> W. prefix (v @ [c]) w")
    case True
    from Cons.IH [OF at [rule_format, OF True]] obtain m' where
      "traverse t cs m = Some (cs = [] \<or> (\<exists>w \<in> W. prefix ((v @ [c]) @ cs) w), m')"
      "cs = [] \<or> (\<exists>w \<in> W. prefix ((v @ [c]) @ cs) w) \<longrightarrow> stands_at t W ((v @ [c]) @ cs) m'" by blast
    moreover have "cs = [] \<or> (\<exists>w \<in> W. prefix ((v @ [c]) @ cs) w) \<longleftrightarrow> (\<exists>w \<in> W. prefix (v @ c # cs) w)"
      using True by auto
    moreover have "traverse t (c # cs) n = traverse t cs m" using m True by simp
    ultimately show ?thesis by simp
  next
    case False
    moreover have "\<not> (\<exists>w \<in> W. prefix (v @ c # cs) w)" using False by (auto simp: prefix_def)
    moreover have "traverse t (c # cs) n = Some (False, m)" using m False by simp
    ultimately show ?thesis by simp
  qed
qed simp

text \<open>Key ids count the words before, in level order.\<close>

definition key_id :: "bytes set \<Rightarrow> bytes \<Rightarrow> nat" where
  "key_id W w = length (filter (\<lambda>u. u \<in> W) (takeWhile (\<lambda>u. u \<noteq> w) (trie_nodes W)))"

lemma takeWhile_distinct: "distinct xs \<Longrightarrow> m < length xs \<Longrightarrow> takeWhile (\<lambda>u. u \<noteq> xs ! m) xs = take m xs"
  by (rule takeWhile_eq_take_P_nth) (auto simp: nth_eq_iff_index_eq)

lemma count_below_list:
  "m \<le> length xs \<Longrightarrow> (\<And>i. i < m \<Longrightarrow> P i = Q (xs ! i)) \<Longrightarrow> count_below P m = length (filter Q (take m xs))"
proof (induction m)
  case (Suc m)
  then show ?case by (simp add: take_Suc_conv_app_nth)
qed simp

lemma terminal_facts:
  assumes t: "represents t W" and n: "stands_at t W v n"
  shows "is_terminal_node t n = Some (v \<in> W)"
    and "key_id_of_terminal_node t n = Some (key_id W v)"
    and "v \<in> W \<Longrightarrow> terminal_node_from_key_id t (key_id W v) = Some n"
proof -
  obtain m where m: "m < length (trie_nodes W)" "trie_nodes W ! m = v" "node_id n = Suc m"
    "init_node_from_node_id (lt_louds t) (Suc m) = Some n" by (rule stands_at_cases [OF n])
  define P where "P = stored_bit (bi_data (terminal_bit_vector t))"
  obtain N where ix: "indexes (terminal_bit_vector t) N P" and N: "N \<le> 8 * length (bi_data (terminal_bit_vector t))"
    "length (trie_nodes W) \<le> N" and P: "\<forall>i < length (trie_nodes W). P i = (trie_nodes W ! i \<in> W)"
    using t unfolding represents_def P_def by blast
  show "is_terminal_node t n = Some (v \<in> W)"
    using m N P get_bit_stored [of m "terminal_bit_vector t"] by (simp add: is_terminal_node_def P_def)
  have c: "count_below P m = key_id W v"
    unfolding key_id_def m(2) [symmetric] takeWhile_distinct [OF distinct_trie_nodes [OF represents_facts(1) [OF t]] m(1)]
    by (rule count_below_list) (use m(1) P in auto)
  then show "key_id_of_terminal_node t n = Some (key_id W v)"
    using bv.rank [OF ix, of m] m N by (simp add: key_id_of_terminal_node_def)
  show "terminal_node_from_key_id t (key_id W v) = Some n" if "v \<in> W"
  proof -
    have "P m" "m < N" using P m that N by auto
    from bv.sel1_of_rank [OF ix this] show ?thesis
      using m(4) c by (simp add: terminal_node_from_key_id_def)
  qed
qed


lemma root_traverse:
  assumes t: "represents t W"
  obtains m where "traverse t key root_node = Some (key = [] \<or> (\<exists>w \<in> W. prefix key w), m)"
    "key = [] \<or> (\<exists>w \<in> W. prefix key w) \<longrightarrow> stands_at t W key m"
  using traverse_search [OF t root_stands [OF t], of key] by auto

lemma exact_search_represents:
  assumes t: "represents t W"
  shows "exact_search t key = Some (if key \<in> W then int (key_id W key) else - 1)"
    and "has_key t key = Some (key \<in> W)"
proof -
  obtain m where m: "traverse t key root_node = Some (key = [] \<or> (\<exists>w \<in> W. prefix key w), m)"
    "key = [] \<or> (\<exists>w \<in> W. prefix key w) \<longrightarrow> stands_at t W key m" by (rule root_traverse [OF t])
  have "exact_search t key = Some (if key \<in> W then int (key_id W key) else - 1) \<and> has_key t key = Some (key \<in> W)"
  proof (cases "key = [] \<or> (\<exists>w \<in> W. prefix key w)")
    case True
    note f = terminal_facts [OF t m(2) [rule_format, OF True]]
    show ?thesis using True m(1) f by (simp add: exact_search_def has_key_def)
  next
    case False
    then have "key \<notin> W" by auto
    then show ?thesis using False m(1) by (simp add: exact_search_def has_key_def)
  qed
  then show "exact_search t key = Some (if key \<in> W then int (key_id W key) else - 1)"
    and "has_key t key = Some (key \<in> W)" by blast+
qed

lemma prefix_search_from_represents:
  assumes t: "represents t W"
  shows "stands_at t W v n \<Longrightarrow>
    \<exists>calls. prefix_search_from t i key n = Some calls \<and>
      map fst calls = map ((+) i) (filter (\<lambda>j. v @ take j key \<in> W) [1..<Suc (length key)]) \<and>
      (\<forall>(j, m) \<in> set calls. i \<le> j \<and> stands_at t W (v @ take (j - i) key) m)"
proof (induction key arbitrary: v n i)
  case (Cons c cs)
  have up: "[1..<Suc (length (c # cs))] = 1 # map Suc [1..<Suc (length cs)]"
    unfolding map_Suc_upt by (simp add: upt_conv_Cons del: upt_Suc)
  have shift: "filter (\<lambda>j. v @ take j (c # cs) \<in> W) [1..<Suc (length (c # cs))] =
      (if v @ [c] \<in> W then [1] else []) @ map Suc (filter (\<lambda>j. (v @ [c]) @ take j cs \<in> W) [1..<Suc (length cs)])"
    unfolding up by (simp add: filter_map comp_def del: upt_Suc)
  obtain m where m: "move_to_child_by_label t c n = Some (\<exists>w \<in> W. prefix (v @ [c]) w, m)"
    and at: "(\<exists>w \<in> W. prefix (v @ [c]) w) \<longrightarrow> stands_at t W (v @ [c]) m"
    using child_search [OF t Cons.prems] by blast
  show ?case
  proof (cases "\<exists>w \<in> W. prefix (v @ [c]) w")
    case True
    note at' = at [rule_format, OF True]
    obtain calls where calls: "prefix_search_from t (Suc i) cs m = Some calls"
      "map fst calls = map ((+) (Suc i)) (filter (\<lambda>j. (v @ [c]) @ take j cs \<in> W) [1..<Suc (length cs)])"
      "\<forall>(j, m) \<in> set calls. Suc i \<le> j \<and> stands_at t W ((v @ [c]) @ take (j - Suc i) cs) m"
      using Cons.IH [OF at', of "Suc i"] by blast
    have inner: "\<forall>(j, m) \<in> set calls. i \<le> j \<and> stands_at t W (v @ take (j - i) (c # cs)) m"
    proof safe
      fix j m assume "(j, m) \<in> set calls"
      then have "Suc i \<le> j" "stands_at t W ((v @ [c]) @ take (j - Suc i) cs) m" using calls(3) by auto
      then show "i \<le> j" "stands_at t W (v @ take (j - i) (c # cs)) m"
        by (simp_all add: take_Cons' diff_Suc)
    qed
    have e: "prefix_search_from t i (c # cs) n = Some (if v @ [c] \<in> W then (Suc i, m) # calls else calls)"
      using m True calls(1) terminal_facts(1) [OF t at'] by simp
    show ?thesis unfolding e shift using calls(2) inner at' by (simp add: comp_def del: upt_Suc)
  next
    case False
    then have none: "\<not> (v @ c # z \<in> W)" for z by (auto simp: prefix_def)
    have "prefix_search_from t i (c # cs) n = Some []" using m False by simp
    then show ?thesis unfolding shift by (simp add: none del: upt_Suc)
  qed
qed simp

lemma prefix_search_represents:
  assumes t: "represents t W"
  shows "\<exists>calls. prefix_search t key = Some calls \<and>
    map fst calls = filter (\<lambda>j. take j key \<in> W) [1..<Suc (length key)] \<and>
    (\<forall>(j, m) \<in> set calls. key_id_of_terminal_node t m = Some (key_id W (take j key)))"
proof -
  obtain calls where "prefix_search t key = Some calls"
    "map fst calls = map ((+) 0) (filter (\<lambda>j. [] @ take j key \<in> W) [1..<Suc (length key)])"
    "\<forall>(j, m) \<in> set calls. 0 \<le> j \<and> stands_at t W ([] @ take (j - 0) key) m"
    using prefix_search_from_represents [OF t root_stands [OF t], of 0 key]
    unfolding prefix_search_def by blast
  moreover have "(+) (0 :: nat) = (\<lambda>j. j)" by auto
  ultimately show ?thesis using terminal_facts(2) [OF t] by (auto simp del: upt_Suc)
qed

section \<open>Restoring keys\<close>

lemma stands_at_exists:
  assumes t: "represents t W" and v: "v \<in> set (trie_nodes W)"
  shows "\<exists>n. stands_at t W v n"
proof (cases "v = []")
  case True
  then show ?thesis using root_stands [OF t] by blast
next
  case False
  then have "stands_at t W [] root_node" using root_stands [OF t] by simp
  have "\<exists>w \<in> W. prefix v w" using v False represents_facts(1) [OF t] by (auto simp: set_trie_nodes)
  then show ?thesis using traverse_search [OF t root_stands [OF t], of v] by auto
qed

lemma parent_stands:
  assumes t: "represents t W" and n: "stands_at t W v n" and ne: "v \<noteq> []"
  shows "\<not> is_root n" and "edge_label t n = Some (last v)"
    and "\<exists>p. move_to_parent (lt_louds t) n = Some p \<and> stands_at t W (butlast v) p"
proof -
  note rep = represents_facts [OF t]
  obtain m where m: "m < length (trie_nodes W)" "trie_nodes W ! m = v" "node_id n = Suc m"
    "init_node_from_node_id (lt_louds t) (Suc m) = Some n" by (rule stands_at_cases [OF n])
  have m0: "0 < m" using m(2) ne by (cases m) (auto simp: trie_nodes_def)
  then show "\<not> is_root n" using m(3) by (simp add: is_root_def)
  show "edge_label t n = Some (last v)" using rep(5,6) [OF m(1)] m m0 by (simp add: edge_label_def)
  obtain k j where k: "k < length (trie_nodes W)" "j < length (kids W (trie_nodes W ! k))"
    "m = kids_before (kids W) (trie_nodes W) k + 1 + j"
    using level_order_parent [OF rep(4) m0 m(1)] by blast
  have "n = tree_node (kids W) (trie_nodes W) k j" using init_node_tree [OF rep(3) k(1,2)] m(4) k(3) by simp
  then have up: "move_to_parent (lt_louds t) n = init_node_from_node_id (lt_louds t) (Suc k)"
    by (simp add: parent_tree)
  have "v = kids W (trie_nodes W ! k) ! j" using level_order_child(2) [OF rep(4) k(1,2)] k(3) m(2) by simp
  then have "v \<in> set (kids W (trie_nodes W ! k))" using k(2) by simp
  then have "v = trie_nodes W ! k @ [last v]" using kids_snoc [OF rep(1)] by blast
  then have b: "butlast v = trie_nodes W ! k" by (metis butlast_snoc)
  then obtain p where p: "stands_at t W (butlast v) p" using stands_at_exists [OF t nth_mem [OF k(1)]] by auto
  then show "\<exists>p. move_to_parent (lt_louds t) n = Some p \<and> stands_at t W (butlast v) p"
    using stands_at_unique_index(2) [OF t p k(1)] b up by auto
qed

lemma climb_represents:
  assumes t: "represents t W"
  shows "stands_at t W v n \<Longrightarrow> climb t s n buf = (if length v \<le> s then Some (v @ buf) else None)"
proof (induction s arbitrary: v n buf)
  case 0
  show ?case
  proof (cases "v = []")
    case True
    then have "is_root n" using 0 stands_at_unique_index(1) [OF t, of v n 0] by (simp add: is_root_def trie_nodes_def)
    then show ?thesis using True by (simp add: climb.simps)
  next
    case False
    then show ?thesis using parent_stands(1) [OF t 0 False] by (simp add: climb.simps)
  qed
next
  case (Suc s)
  show ?case
  proof (cases "v = []")
    case True
    then have "is_root n" using Suc.prems stands_at_unique_index(1) [OF t, of v n 0] by (simp add: is_root_def trie_nodes_def)
    then show ?thesis using True by (simp add: climb.simps)
  next
    case False
    note par = parent_stands [OF t Suc.prems False]
    then obtain p where p: "move_to_parent (lt_louds t) n = Some p" "stands_at t W (butlast v) p" by blast
    have "climb t (Suc s) n buf = climb t s p (last v # buf)"
      using par(1,2) p(1) by (simp add: climb.simps [of t "Suc s"])
    also have "\<dots> = (if length v \<le> Suc s then Some (v @ buf) else None)"
      using Suc.IH [OF p(2), of "last v # buf"] False append_butlast_last_id [OF False, symmetric]
      by (auto simp: append_eq_Cons_conv butlast_append)
    finally show ?thesis .
  qed
qed

lemma restore_represents:
  assumes t: "represents t W" and w: "w \<in> W"
  shows "restore_key_string_of_id t (int (key_id W w)) = (if length w \<le> max_depth then Some w else None)"
proof -
  have "w \<in> set (trie_nodes W)" using w represents_facts(1) [OF t] by (auto simp: set_trie_nodes)
  then obtain n where n: "stands_at t W w n" using stands_at_exists [OF t] by blast
  then show ?thesis using terminal_facts(3) [OF t n w] climb_represents [OF t n, of max_depth "[]"]
    by (simp add: restore_key_string_of_id_def restore_key_string_def)
qed

end
