(* ===== verification/Louds_Builder.thy ===== *)
theory Louds_Builder
  imports Louds_Trie
begin

text \<open>
  Building a trie image (\<open>storage/louds/louds_trie_builder.cc\<close>).  A failed \<open>CHECK\<close> is \<open>None\<close>.
  The theorems show that the image built from any words represents exactly the set of those words: the
  searches find them, the key ids agree with the builder's, and a key is restored from its id.
\<close>

section \<open>LoudsTrieBuilder\<close>

record trie_builder =
  built :: bool
  word_list :: "bytes list"
  id_list :: "int list"
  builder_image :: bytes

definition new_builder :: trie_builder where
  "new_builder = \<lparr>built = False, word_list = [], id_list = [], builder_image = []\<rparr>"

definition builder_add :: "bytes \<Rightarrow> trie_builder \<Rightarrow> trie_builder option" where
  "builder_add word b =
     (if built b \<or> word = [] then None else Some (b\<lparr>word_list := word_list b @ [word]\<rparr>))"

text \<open>What the nested loops of \<open>Build\<close> change.  An entry is a word and its original index.\<close>

record build_state =
  trie_stream :: bit_stream
  terminal_stream :: bit_stream
  edge_characters :: bytes
  ids :: "int list"
  next_id :: int

type_synonym word_entry = "bytes \<times> nat"

definition output_edge :: "nat \<Rightarrow> word_entry \<Rightarrow> build_state \<Rightarrow> build_state" where
  "output_edge depth e st =
     (let st' = st\<lparr>trie_stream := stream_push_bit True (trie_stream st),
                  edge_characters := edge_characters st @ [fst e ! depth]\<rparr>
      in if length (fst e) = depth + 1 then
           st'\<lparr>terminal_stream := stream_push_bit True (terminal_stream st'),
               ids := (ids st')[snd e := next_id st'], next_id := next_id st' + 1\<rparr>
         else st'\<lparr>terminal_stream := stream_push_bit False (terminal_stream st')\<rparr>)"

text \<open>The body of the loop over the entries; \<open>compare(0, n, other, 0, n)\<close> compares the first \<open>n\<close> bytes.\<close>

definition output_entry :: "nat \<Rightarrow> word_entry list \<Rightarrow> nat \<Rightarrow> build_state \<Rightarrow> build_state" where
  "output_entry depth entries i st =
     (let word = fst (entries ! i);
          st' = (if depth < length word \<and>
                    (i = 0 \<or> take (depth + 1) word \<noteq> take (depth + 1) (fst (entries ! (i - 1))))
                 then output_edge depth (entries ! i) st else st)
      in if i = length entries - 1 \<or> take depth word \<noteq> take depth (fst (entries ! (i + 1)))
         then st'\<lparr>trie_stream := stream_push_bit False (trie_stream st')\<rparr> else st')"

function output_levels :: "nat \<Rightarrow> word_entry list \<Rightarrow> build_state \<Rightarrow> build_state" where
  "output_levels depth entries st =
     (if entries = [] then st
      else output_levels (depth + 1) (filter (\<lambda>e. \<not> length (fst e) < depth + 1) entries)
             (fold (output_entry depth entries) [0..<length entries] st))"
  by pat_completeness auto
termination
proof (relation "measure (\<lambda>(depth, entries, st). \<Sum>e\<leftarrow>entries. Suc (Suc (length (fst e)) - depth))")
  fix depth :: nat and entries :: "word_entry list" and st :: build_state
  assume ne: "entries \<noteq> []"
  have "(\<Sum>e\<leftarrow>filter (\<lambda>e. \<not> length (fst e) < depth + 1) es. Suc (Suc (length (fst e)) - (depth + 1)))
      + length es \<le> (\<Sum>e\<leftarrow>es. Suc (Suc (length (fst e)) - depth))" for es :: "word_entry list"
    by (induction es) auto
  from this [of entries] show
    "((depth + 1, filter (\<lambda>e. \<not> length (fst e) < depth + 1) entries,
       fold (output_entry depth entries) [0..<length entries] st), depth, entries, st)
     \<in> measure (\<lambda>(depth, entries, st). \<Sum>e\<leftarrow>entries. Suc (Suc (length (fst e)) - depth))"
    using ne by (cases entries) auto
qed simp

declare output_levels.simps [simp del]

definition build_start :: "nat \<Rightarrow> int list \<Rightarrow> build_state" where
  "build_start n old_ids =
     \<lparr>trie_stream = stream_push_bit False (stream_push_bit True empty_stream),
      terminal_stream = stream_push_bit False empty_stream, edge_characters = [chr_of 0],
      ids = take n old_ids @ replicate (n - length old_ids) (- 1), next_id = 0\<rparr>"

definition builder_build :: "trie_builder \<Rightarrow> trie_builder option" where
  "builder_build b =
     (if built b then None
      else
        let words = remdups_adj (sort (word_list b));
            st = output_levels 0 (zip words [0..<length words]) (build_start (length words) (id_list b));
            trie = bs_image (fill_padding32 (trie_stream st));
            terminal = bs_image (fill_padding32 (terminal_stream st))
        in map_option
             (\<lambda>img. \<lparr>built = True, word_list = words, id_list = ids st,
                     builder_image = img @ trie @ terminal @ edge_characters st\<rparr>)
             (Option.bind (push_int32 (length trie) (builder_image b)) (\<lambda>img.
              Option.bind (push_int32 (length terminal) img) (\<lambda>img.
              Option.bind (push_int32 8 img) (push_int32 (length (edge_characters st)))))))"

definition image_of :: "trie_builder \<Rightarrow> bytes option" where
  "image_of b = (if built b then Some (builder_image b) else None)"

text \<open>\<open>std::lower_bound\<close> on the sorted word list.\<close>

definition word_position :: "bytes list \<Rightarrow> bytes \<Rightarrow> nat" where
  "word_position words w = length (takeWhile (\<lambda>x. x < w) words)"

definition get_id :: "trie_builder \<Rightarrow> bytes \<Rightarrow> int option" where
  "get_id b word =
     (if \<not> built b then None
      else
        let i = word_position (word_list b) word in
        if i = length (word_list b) \<or> word_list b ! i \<noteq> word then Some (- 1) else Some (id_list b ! i))"

fun add_words :: "bytes list \<Rightarrow> trie_builder \<Rightarrow> trie_builder option" where
  "add_words [] b = Some b"
| "add_words (w # ws) b = Option.bind (builder_add w b) (add_words ws)"

section \<open>One level\<close>

text \<open>The entries of a level that get an edge, after a word \<open>prev\<close>.\<close>

definition new_edge :: "nat \<Rightarrow> bytes option \<Rightarrow> bytes \<Rightarrow> bool" where
  "new_edge d prev w \<longleftrightarrow>
     d < length w \<and> (case prev of None \<Rightarrow> True | Some p \<Rightarrow> take (d + 1) w \<noteq> take (d + 1) p)"

fun fresh :: "nat \<Rightarrow> bytes option \<Rightarrow> word_entry list \<Rightarrow> word_entry list" where
  "fresh d prev [] = []"
| "fresh d prev (e # es) = (if new_edge d prev (fst e) then [e] else []) @ fresh d (Some (fst e)) es"

lemma fresh_subset: "e \<in> set (fresh d prev es) \<Longrightarrow> e \<in> set es \<and> d < length (fst e)"
  by (induction d prev es rule: fresh.induct) (auto simp: new_edge_def split: if_splits)

lemma fresh_sorted:
  "sorted_wrt (<) (map fst es) \<Longrightarrow> (\<forall>p. prev = Some p \<longrightarrow> (\<forall>e \<in> set es. p \<le> fst e)) \<Longrightarrow>
     sorted_wrt (<) (map (\<lambda>e. take (d + 1) (fst e)) (fresh d prev es)) \<and>
     (\<forall>p. prev = Some p \<longrightarrow> (\<forall>e \<in> set (fresh d prev es). take (d + 1) p < take (d + 1) (fst e)))"
proof (induction d prev es rule: fresh.induct)
  case (2 d prev e es)
  have ih: "sorted_wrt (<) (map (\<lambda>e. take (d + 1) (fst e)) (fresh d (Some (fst e)) es))"
    "\<forall>e' \<in> set (fresh d (Some (fst e)) es). take (d + 1) (fst e) < take (d + 1) (fst e')"
  proof -
    have "sorted_wrt (<) (map fst es)" "\<forall>p. Some (fst e) = Some p \<longrightarrow> (\<forall>e' \<in> set es. p \<le> fst e')"
      using 2(2) by (auto intro: less_imp_le)
    from 2(1) [OF this] show "sorted_wrt (<) (map (\<lambda>e. take (d + 1) (fst e)) (fresh d (Some (fst e)) es))"
      "\<forall>e' \<in> set (fresh d (Some (fst e)) es). take (d + 1) (fst e) < take (d + 1) (fst e')" by blast+
  qed
  have le: "take (d + 1) p \<le> take (d + 1) (fst e)" if "prev = Some p" for p
    using 2(3) that by (intro take_mono_lex) auto
  show ?case
  proof (intro conjI allI impI ballI)
    show "sorted_wrt (<) (map (\<lambda>e. take (d + 1) (fst e)) (fresh d prev (e # es)))" using ih by auto
    fix p e' assume p: "prev = Some p" and e': "e' \<in> set (fresh d prev (e # es))"
    show "take (d + 1) p < take (d + 1) (fst e')"
    proof (cases "e' = e \<and> new_edge d prev (fst e)")
      case True
      then show ?thesis using le [OF p] p by (auto simp: new_edge_def order.strict_iff_order)
    next
      case False
      then have "e' \<in> set (fresh d (Some (fst e)) es)" using e' by (auto split: if_splits)
      then show ?thesis using ih(2) le [OF p] by (auto intro: order_le_less_trans)
    qed
  qed
qed simp

lemma fresh_covers:
  "e \<in> set es \<Longrightarrow> d < length (fst e) \<Longrightarrow> (\<forall>p. prev = Some p \<longrightarrow> take (d + 1) (fst e) \<noteq> take (d + 1) p) \<Longrightarrow>
     \<exists>e' \<in> set (fresh d prev es). take (d + 1) (fst e') = take (d + 1) (fst e)"
proof (induction d prev es rule: fresh.induct)
  case (2 d prev e0 es)
  show ?case
  proof (cases "take (d + 1) (fst e) = take (d + 1) (fst e0)")
    case True
    moreover have "min (length (fst e)) (d + 1) = min (length (fst e0)) (d + 1)"
      using arg_cong [OF True, of length] by simp
    ultimately have "new_edge d prev (fst e0)" using 2(3,4) by (auto simp: new_edge_def split: option.splits)
    then show ?thesis using True by auto
  next
    case False
    then have "e \<in> set es" using 2(2) by auto
    then show ?thesis using 2(1) 2(3) False by auto
  qed
qed simp

lemma fresh_first:
  "sorted_wrt (<) (map fst es) \<Longrightarrow> e \<in> set (fresh d prev es) \<Longrightarrow> e' \<in> set es \<Longrightarrow>
     take (d + 1) (fst e') = take (d + 1) (fst e) \<Longrightarrow> fst e \<le> fst e'"
proof (induction d prev es rule: fresh.induct)
  case (2 d prev e0 es)
  show ?case
  proof (cases "e \<in> set (fresh d (Some (fst e0)) es)")
    case True
    have "take (d + 1) (fst e0) < take (d + 1) (fst e)"
    proof -
      have "sorted_wrt (<) (map fst es)" "\<forall>p. Some (fst e0) = Some p \<longrightarrow> (\<forall>e' \<in> set es. p \<le> fst e')"
        using 2(2) by (auto intro: less_imp_le)
      from fresh_sorted [OF this, of d] show ?thesis using True by blast
    qed
    then have "e' \<noteq> e0" using 2(5) by auto
    then show ?thesis using 2(1) 2(2) True 2(4,5) by auto
  next
    case False
    then have "e = e0" using 2(3) by (auto split: if_splits)
    then show ?thesis using 2(2,4) by (auto intro: less_imp_le)
  qed
qed simp

text \<open>The bits of a level: for each entry its edge, and a stop bit after the last entry of a parent.\<close>

fun group_bits :: "('k \<times> bool) list \<Rightarrow> bool list" where
  "group_bits [] = []"
| "group_bits ((k, b) # r) =
     (if b then [True] else []) @ (if r = [] \<or> fst (hd r) \<noteq> k then [False] else []) @ group_bits r"

definition kid_count :: "('k \<times> bool) list \<Rightarrow> 'k \<Rightarrow> nat" where
  "kid_count items v = length (filter (\<lambda>i. snd i \<and> fst i = v) items)"

lemma kid_count_Cons: "kid_count ((k, b) # r) v = of_bool (b \<and> k = v) + kid_count r v"
  by (simp add: kid_count_def)

lemma kid_count_none: "v \<notin> set (map fst items) \<Longrightarrow> kid_count items v = 0"
  by (force simp: kid_count_def filter_empty_conv)

lemma group_bits_groups:
  "distinct (remdups_adj (map fst items)) \<Longrightarrow>
     group_bits items = concat (map (\<lambda>v. replicate (kid_count items v) True @ [False]) (remdups_adj (map fst items)))"
proof (induction items rule: group_bits.induct)
  case (2 k b r)
  let ?blk = "\<lambda>items v. replicate (kid_count items v) True @ [False]"
  show ?case
  proof (cases r)
    case Nil
    then show ?thesis by (simp add: kid_count_def)
  next
    case (Cons kb r')
    obtain k' b' where kb: "kb = (k', b')" by (cases kb)
    have others: "map (?blk ((k, b) # r)) vs = map (?blk r) vs" if "k \<notin> set vs" for vs
      using that by (intro map_cong) (auto simp: kid_count_Cons)
    show ?thesis
    proof (cases "k' = k")
      case False
      have rd: "remdups_adj (map fst ((k, b) # r)) = k # remdups_adj (map fst r)" using Cons kb False by simp
      then have k: "k \<notin> set (remdups_adj (map fst r))" and d: "distinct (remdups_adj (map fst r))" using 2(2) by auto
      then have none: "kid_count r k = 0" by (intro kid_count_none) simp
      have stop: "r \<noteq> []" "fst (hd r) \<noteq> k" using Cons kb False by auto
      have kk: "kid_count ((k, b) # r) k = of_bool b" using none by (simp add: kid_count_Cons)
      show ?thesis unfolding rd unfolding list.map others [OF k] kk using 2(1) [OF d] stop by (cases b) simp_all
    next
      case True
      have rd: "remdups_adj (map fst ((k, b) # r)) = remdups_adj (map fst r)" using Cons kb True by simp
      then have d: "distinct (remdups_adj (map fst r))" using 2(2) by simp
      obtain vs where vs: "remdups_adj (map fst r) = k # vs"
        using Cons kb True by (cases "remdups_adj (map fst r)") (auto dest: arg_cong [of _ _ hd])
      then have k: "k \<notin> set vs" using d by simp
      have stop: "r \<noteq> []" "fst (hd r) = k" using Cons kb True by auto
      have kk: "kid_count ((k, b) # r) k = of_bool b + kid_count r k" by (simp add: kid_count_Cons)
      show ?thesis unfolding rd vs unfolding list.map others [OF k] kk using 2(1) [OF d] vs stop by (cases b) simp_all
    qed
  qed
qed simp


section \<open>What a level outputs\<close>

text \<open>The loop over the entries, from the entry after \<open>prev\<close> on.\<close>

definition stop_bit :: "nat \<Rightarrow> bytes \<Rightarrow> word_entry list \<Rightarrow> bool" where
  "stop_bit d w es \<longleftrightarrow> es = [] \<or> take d w \<noteq> take d (fst (hd es))"

fun run_entries :: "nat \<Rightarrow> bytes option \<Rightarrow> word_entry list \<Rightarrow> build_state \<Rightarrow> build_state" where
  "run_entries d prev [] st = st"
| "run_entries d prev (e # es) st =
     (let st' = (if new_edge d prev (fst e) then output_edge d e st else st);
          st'' = (if stop_bit d (fst e) es then st'\<lparr>trie_stream := stream_push_bit False (trie_stream st')\<rparr> else st')
      in run_entries d (Some (fst e)) es st'')"

lemma fold_output_entry:
  "i \<le> length es \<Longrightarrow>
     fold (output_entry d es) [i..<length es] st =
       run_entries d (if i = 0 then None else Some (fst (es ! (i - 1)))) (drop i es) st"
proof (induction "length es - i" arbitrary: i st)
  case 0
  then show ?case by simp
next
  case (Suc n)
  then have i: "i < length es" by simp
  have up: "[i..<length es] = i # [Suc i..<length es]" using i by (rule upt_conv_Cons)
  have dr: "drop i es = es ! i # drop (Suc i) es" using i by (simp add: Cons_nth_drop_Suc)
  have stop: "stop_bit d (fst (es ! i)) (drop (Suc i) es) \<longleftrightarrow>
      i = length es - 1 \<or> take d (fst (es ! i)) \<noteq> take d (fst (es ! (i + 1)))"
    using i by (cases "Suc i < length es") (auto simp: stop_bit_def hd_drop_conv_nth)
  have new: "new_edge d (if i = 0 then None else Some (fst (es ! (i - 1)))) (fst (es ! i)) \<longleftrightarrow>
      d < length (fst (es ! i)) \<and> (i = 0 \<or> take (d + 1) (fst (es ! i)) \<noteq> take (d + 1) (fst (es ! (i - 1))))"
    by (auto simp: new_edge_def)
  have ih: "fold (output_entry d es) [Suc i..<length es] st' = run_entries d (Some (fst (es ! i))) (drop (Suc i) es) st'" for st'
    using Suc.hyps(1) [of "Suc i" st'] Suc.hyps(2) i by simp
  show ?case unfolding up dr run_entries.simps fold.simps comp_apply ih
    by (simp only: output_entry_def Let_def stop new)
qed

lemma fold_output_level: "fold (output_entry d es) [0..<length es] st = run_entries d None es st"
  using fold_output_entry [of 0 es d st] by simp

text \<open>The streams, labels and ids of a state.\<close>

definition state_is :: "build_state \<Rightarrow> bool list \<Rightarrow> bool list \<Rightarrow> bytes \<Rightarrow> int list \<times> int \<Rightarrow> bool" where
  "state_is st tb mb ec ids_n \<longleftrightarrow>
     stream_ok (trie_stream st) tb \<and> stream_ok (terminal_stream st) mb \<and> edge_characters st = ec \<and>
     (ids st, next_id st) = ids_n"

definition assign_id :: "(bytes \<Rightarrow> bool) \<Rightarrow> (bytes \<Rightarrow> nat) \<Rightarrow> bytes \<Rightarrow> int list \<times> int \<Rightarrow> int list \<times> int" where
  "assign_id T idx u xn = (if T u then ((fst xn)[idx u := snd xn], snd xn + 1) else xn)"

text \<open>What an entry at depth \<open>d\<close> stands for: its prefix, whether that is a word, and the word's index.\<close>

definition entry_fits :: "nat \<Rightarrow> (bytes \<Rightarrow> bool) \<Rightarrow> (bytes \<Rightarrow> nat) \<Rightarrow> word_entry \<Rightarrow> bool" where
  "entry_fits d T idx e \<longleftrightarrow>
     d < length (fst e) \<and> (T (take (d + 1) (fst e)) \<longleftrightarrow> length (fst e) = d + 1) \<and>
     (length (fst e) = d + 1 \<longrightarrow> idx (fst e) = snd e)"

lemma output_edge_state:
  assumes st: "state_is st tb mb ec ids_n" and e: "entry_fits d T idx e"
  shows "state_is (output_edge d e st) (tb @ [True]) (mb @ [T (take (d + 1) (fst e))])
    (ec @ [last (take (d + 1) (fst e))]) (assign_id T idx (take (d + 1) (fst e)) ids_n)"
proof -
  have "last (take (d + 1) (fst e)) = fst e ! d"
    using e by (simp add: entry_fits_def take_Suc_conv_app_nth)
  then show ?thesis using st e stream_push_bit_ok
    by (auto simp: state_is_def output_edge_def entry_fits_def assign_id_def Let_def)
qed

definition level_items :: "nat \<Rightarrow> bytes option \<Rightarrow> word_entry list \<Rightarrow> (bytes \<times> bool) list" where
  "level_items d prev es =
     map (\<lambda>i. (take d (fst (es ! i)), new_edge d (if i = 0 then prev else Some (fst (es ! (i - 1)))) (fst (es ! i))))
       [0..<length es]"

lemma level_items_Cons:
  "level_items d prev (e # es) = (take d (fst e), new_edge d prev (fst e)) # level_items d (Some (fst e)) es"
proof -
  have up: "[0..<length (e # es)] = 0 # map Suc [0..<length es]"
    unfolding map_Suc_upt by (simp add: upt_conv_Cons del: upt_Suc)
  have "(if Suc i = 0 then prev else Some (fst ((e # es) ! (Suc i - 1)))) = (if i = 0 then Some (fst e) else Some (fst (es ! (i - 1))))" for i
    by (cases i) auto
  then show ?thesis unfolding level_items_def up by (simp add: comp_def if_distrib)
qed

lemma level_items_hd: "es \<noteq> [] \<Longrightarrow> fst (hd (level_items d prev es)) = take d (fst (hd es))"
  by (cases es) (simp_all add: level_items_Cons)

lemma run_entries_state:
  assumes "\<forall>e \<in> set (fresh d prev es). entry_fits d T idx e" and "state_is st tb mb ec ids_n"
  shows "state_is (run_entries d prev es st) (tb @ group_bits (level_items d prev es))
    (mb @ map (\<lambda>e. T (take (d + 1) (fst e))) (fresh d prev es))
    (ec @ map (\<lambda>e. last (take (d + 1) (fst e))) (fresh d prev es))
    (fold (\<lambda>e. assign_id T idx (take (d + 1) (fst e))) (fresh d prev es) ids_n)"
  using assms
proof (induction d prev es st arbitrary: tb mb ec ids_n rule: run_entries.induct)
  case (1 d prev st)
  then show ?case by (simp add: level_items_def)
next
  case (2 d prev e es st)
  define b where "b = new_edge d prev (fst e)"
  define st' where "st' = (if b then output_edge d e st else st)"
  define st'' where "st'' = (if stop_bit d (fst e) es then st'\<lparr>trie_stream := stream_push_bit False (trie_stream st')\<rparr> else st')"
  have st': "state_is st' (tb @ (if b then [True] else [])) (mb @ (if b then [T (take (d + 1) (fst e))] else []))
      (ec @ (if b then [last (take (d + 1) (fst e))] else [])) (if b then assign_id T idx (take (d + 1) (fst e)) ids_n else ids_n)"
    using 2(3) output_edge_state [OF 2(3), of d T idx e] 2(2) by (auto simp: st'_def b_def)
  then have st'': "state_is st'' ((tb @ (if b then [True] else [])) @ (if stop_bit d (fst e) es then [False] else []))
      (mb @ (if b then [T (take (d + 1) (fst e))] else []))
      (ec @ (if b then [last (take (d + 1) (fst e))] else [])) (if b then assign_id T idx (take (d + 1) (fst e)) ids_n else ids_n)"
    by (simp add: st''_def state_is_def stream_push_bit_ok del: append_assoc)
  have fits: "\<forall>e' \<in> set (fresh d (Some (fst e)) es). entry_fits d T idx e'" using 2(2) by simp
  have run: "run_entries d prev (e # es) st = run_entries d (Some (fst e)) es st''"
    by (simp only: run_entries.simps Let_def b_def [symmetric] st'_def [symmetric] st''_def [symmetric])
  have stop: "level_items d (Some (fst e)) es = [] \<or> fst (hd (level_items d (Some (fst e)) es)) \<noteq> take d (fst e) \<longleftrightarrow>
      stop_bit d (fst e) es"
  proof (cases es)
    case Nil
    then show ?thesis by (simp add: stop_bit_def level_items_def)
  next
    case (Cons e' es')
    show ?thesis unfolding Cons level_items_Cons stop_bit_def by auto
  qed
  have bits: "group_bits (level_items d prev (e # es)) =
      (if b then [True] else []) @ (if stop_bit d (fst e) es then [False] else []) @ group_bits (level_items d (Some (fst e)) es)"
    unfolding level_items_Cons group_bits.simps stop b_def ..
  have ih: "state_is (run_entries d (Some (fst e)) es st'')
      (((tb @ (if b then [True] else [])) @ (if stop_bit d (fst e) es then [False] else [])) @ group_bits (level_items d (Some (fst e)) es))
      ((mb @ (if b then [T (take (d + 1) (fst e))] else [])) @ map (\<lambda>e. T (take (d + 1) (fst e))) (fresh d (Some (fst e)) es))
      ((ec @ (if b then [last (take (d + 1) (fst e))] else [])) @ map (\<lambda>e. last (take (d + 1) (fst e))) (fresh d (Some (fst e)) es))
      (fold (\<lambda>e. assign_id T idx (take (d + 1) (fst e))) (fresh d (Some (fst e)) es)
        (if b then assign_id T idx (take (d + 1) (fst e)) ids_n else ids_n))"
    by (rule 2(1) [OF st'_def [unfolded b_def] st''_def fits st''])
  then show ?case unfolding run bits fresh.simps b_def by (cases "new_edge d prev (fst e)") simp_all
qed


section \<open>Levels and the trie\<close>

definition entries_at :: "bytes list \<Rightarrow> nat \<Rightarrow> word_entry list" where
  "entries_at ws d = filter (\<lambda>e. d \<le> length (fst e)) (zip ws [0..<length ws])"

lemma strict_sorted_map_filter: "sorted_wrt (<) (map fst es) \<Longrightarrow> sorted_wrt (<) (map fst (filter P es))"
  by (induction es) auto

lemma entries_at_facts:
  assumes "sorted_wrt (<) ws"
  shows "sorted_wrt (<) (map fst (entries_at ws d))"
    and "fst ` set (entries_at ws d) = {w \<in> set ws. d \<le> length w}"
    and "e \<in> set (entries_at ws d) \<Longrightarrow> fst e \<in> set ws \<and> snd e < length ws \<and> ws ! snd e = fst e"
proof -
  show "sorted_wrt (<) (map fst (entries_at ws d))"
    unfolding entries_at_def by (rule strict_sorted_map_filter) (simp add: assms)
  have "fst ` set (zip ws [0..<length ws]) = set ws"
    using map_fst_zip [of ws "[0..<length ws]"] by (metis diff_zero length_upt list.set_map)
  then show "fst ` set (entries_at ws d) = {w \<in> set ws. d \<le> length w}"
    by (force simp: entries_at_def)
  show "e \<in> set (entries_at ws d) \<Longrightarrow> fst e \<in> set ws \<and> snd e < length ws \<and> ws ! snd e = fst e"
  proof -
    assume "e \<in> set (entries_at ws d)"
    then have "snd e < length ws" "ws ! snd e = fst e" by (auto simp: entries_at_def in_set_zip)
    then show ?thesis using nth_mem [of "snd e" ws] by simp
  qed
qed

lemma word_position_nth:
  assumes "sorted_wrt (<) ws" "i < length ws"
  shows "word_position ws (ws ! i) = i"
proof -
  have "takeWhile (\<lambda>x. x < ws ! i) ws = take i ws"
  proof (rule takeWhile_eq_take_P_nth)
    fix j assume "j < i" "j < length ws"
    then show "ws ! j < ws ! i" using assms by (simp add: sorted_wrt_nth_less)
  qed simp
  then show ?thesis using assms(2) by (simp add: word_position_def)
qed

lemma sorted_remdups_strict: "sorted xs \<Longrightarrow> sorted_wrt (<) (remdups_adj xs)"
proof (induction xs rule: remdups_adj.induct)
  case (3 x y xs)
  then show ?case by (auto simp: order.strict_iff_order)
qed simp_all

lemma fresh_level:
  assumes ws: "sorted_wrt (<) ws"
  shows "map (\<lambda>e. take (d + 1) (fst e)) (fresh d None (entries_at ws d)) = level (set ws) (Suc d)"
proof (rule strict_sorted_equal)
  note ent = entries_at_facts [OF ws]
  show "sorted_wrt (<) (level (set ws) (Suc d))" by (rule level_facts) simp
  show "sorted_wrt (<) (map (\<lambda>e. take (d + 1) (fst e)) (fresh d None (entries_at ws d)))"
    using fresh_sorted [OF ent(1), of None d] by simp
  have "take (Suc d) (fst e) \<in> set (level (set ws) (Suc d))" if "e \<in> set (fresh d None (entries_at ws d))" for e
    using fresh_subset [OF that] ent(3) [of e] by (auto simp: level_facts)
  moreover have "u \<in> (\<lambda>e. take (d + 1) (fst e)) ` set (fresh d None (entries_at ws d))"
    if "u \<in> set (level (set ws) (Suc d))" for u
  proof -
    have "u \<in> {take (Suc d) w |w. w \<in> set ws \<and> Suc d \<le> length w}" using that by (simp only: level_facts(1) [OF finite_set])
    then obtain w where w: "w \<in> set ws" "Suc d \<le> length w" "u = take (d + 1) w" by auto
    then have "w \<in> fst ` set (entries_at ws d)" by (simp add: ent(2))
    then obtain e where e: "e \<in> set (entries_at ws d)" "fst e = w" by auto
    then obtain e' where "e' \<in> set (fresh d None (entries_at ws d))" "take (d + 1) (fst e') = take (d + 1) w"
      using fresh_covers [of e "entries_at ws d" d None] w(2) by auto
    then show ?thesis using w(3) by (intro image_eqI) simp_all
  qed
  ultimately show "set (map (\<lambda>e. take (d + 1) (fst e)) (fresh d None (entries_at ws d))) = set (level (set ws) (Suc d))"
    by auto
qed

lemma take_le: "take n x \<le> x" for x :: bytes
proof (induction n arbitrary: x)
  case (Suc n)
  then show ?case by (cases x) auto
qed simp

lemma fresh_fits:
  assumes ws: "sorted_wrt (<) ws" and e: "e \<in> set (fresh d None (entries_at ws d))"
  shows "entry_fits d (\<lambda>u. u \<in> set ws) (word_position ws) e"
proof -
  note ent = entries_at_facts [OF ws]
  have len: "d < length (fst e)" and at: "e \<in> set (entries_at ws d)" using fresh_subset [OF e] by auto
  have w: "fst e \<in> set ws" "snd e < length ws" "ws ! snd e = fst e" using ent(3) [OF at] by auto
  have "length (fst e) = d + 1" if u: "take (d + 1) (fst e) \<in> set ws"
  proof -
    have "take (d + 1) (fst e) \<in> fst ` set (entries_at ws d)" using u len by (simp add: ent(2))
    then obtain e' where e': "e' \<in> set (entries_at ws d)" "fst e' = take (d + 1) (fst e)" by (metis imageE)
    have "fst e \<le> fst e'" by (rule fresh_first [OF ent(1) e e'(1)]) (simp add: e'(2))
    moreover have "fst e' \<le> fst e"
      by (simp only: e'(2) take_le)
    ultimately have "fst e = take (d + 1) (fst e)" using e'(2) by simp
    from arg_cong [OF this, of length] len show ?thesis by simp
  qed
  moreover have "take (d + 1) (fst e) \<in> set ws" if "length (fst e) = d + 1" using that w(1) by simp
  moreover have "word_position ws (fst e) = snd e" using word_position_nth [OF ws w(2)] w(3) by simp
  ultimately show ?thesis using len by (auto simp: entry_fits_def)
qed


lemma kid_count_level:
  "kid_count (level_items d prev es) v = length (filter (\<lambda>u. take d u = v) (map (\<lambda>e. take (d + 1) (fst e)) (fresh d prev es)))"
proof (induction d prev es rule: fresh.induct)
  case (1 d prev)
  then show ?case by (simp add: level_items_def kid_count_def)
next
  case (2 d prev e es)
  then show ?case by (auto simp: level_items_Cons kid_count_Cons)
qed

lemma group_bits_level:
  assumes ws: "sorted_wrt (<) ws"
  shows "group_bits (level_items d None (entries_at ws d)) = concat (map (unary (kids (set ws))) (level (set ws) d))"
proof -
  note ent = entries_at_facts [OF ws]
  let ?es = "entries_at ws d"
  have keys: "map fst (level_items d None ?es) = map (\<lambda>e. take d (fst e)) ?es"
    by (rule nth_equalityI) (simp_all add: level_items_def)
  have "sorted (map (take d) (map fst ?es))"
  proof -
    have "sorted (map fst ?es)" using ent(1) by (rule strict_sorted_imp_sorted)
    then show ?thesis by (rule sorted_map_mono) (simp add: mono_on_def take_mono_lex)
  qed
  then have sorted: "sorted_wrt (<) (remdups_adj (map fst (level_items d None ?es)))"
    unfolding keys by (intro sorted_remdups_strict) (simp add: comp_def)
  have "set (map (\<lambda>e. take d (fst e)) ?es) = take d ` (fst ` set ?es)" by auto
  also have "\<dots> = set (level (set ws) d)" by (auto simp: ent(2) level_facts)
  finally have rd: "remdups_adj (map fst (level_items d None ?es)) = level (set ws) d"
    using sorted level_facts(2) [of "set ws" d] keys by (intro strict_sorted_equal) auto
  have "kid_count (level_items d None ?es) v = length (kids (set ws) v)" if "v \<in> set (level (set ws) d)" for v
    unfolding kid_count_level fresh_level [OF ws] kids_def using level_length [of "set ws" v d] that by simp
  then have "map (\<lambda>v. replicate (kid_count (level_items d None ?es) v) True @ [False]) (level (set ws) d) =
      map (unary (kids (set ws))) (level (set ws) d)"
    by (intro map_cong) (auto simp: unary_def)
  moreover have "distinct (remdups_adj (map fst (level_items d None ?es)))" unfolding rd by (rule level_facts) simp
  ultimately show ?thesis using group_bits_groups rd by metis
qed

lemma entries_at_step: "filter (\<lambda>e. \<not> length (fst e) < d + 1) (entries_at ws d) = entries_at ws (d + 1)"
  unfolding entries_at_def filter_filter by (rule filter_cong) auto

lemma output_level_state:
  assumes ws: "sorted_wrt (<) ws" and st: "state_is st tb mb ec xn"
  shows "state_is (run_entries d None (entries_at ws d) st)
    (tb @ concat (map (unary (kids (set ws))) (level (set ws) d)))
    (mb @ map (\<lambda>u. u \<in> set ws) (level (set ws) (Suc d))) (ec @ map last (level (set ws) (Suc d)))
    (fold (assign_id (\<lambda>u. u \<in> set ws) (word_position ws)) (level (set ws) (Suc d)) xn)"
proof -
  have fits: "\<forall>e \<in> set (fresh d None (entries_at ws d)). entry_fits d (\<lambda>u. u \<in> set ws) (word_position ws) e"
    using fresh_fits [OF ws] by blast
  show ?thesis
    using run_entries_state [OF fits st] unfolding group_bits_level [OF ws]
    by (simp add: fold_map comp_def flip: fresh_level [OF ws])
qed

lemma output_levels_state:
  assumes ws: "sorted_wrt (<) ws"
  shows "d \<le> Suc (max_length (set ws)) \<Longrightarrow> state_is st tb mb ec xn \<Longrightarrow>
    state_is (output_levels d (entries_at ws d) st)
      (tb @ concat (map (unary (kids (set ws))) (concat (map (level (set ws)) [d..<Suc (max_length (set ws))]))))
      (mb @ map (\<lambda>u. u \<in> set ws) (concat (map (level (set ws)) [Suc d..<Suc (Suc (max_length (set ws)))])))
      (ec @ map last (concat (map (level (set ws)) [Suc d..<Suc (Suc (max_length (set ws)))])))
      (fold (assign_id (\<lambda>u. u \<in> set ws) (word_position ws)) (concat (map (level (set ws)) [Suc d..<Suc (Suc (max_length (set ws)))])) xn)"
proof (induction "Suc (max_length (set ws)) - d" arbitrary: d st tb mb ec xn)
  case 0
  then have "d = Suc (max_length (set ws))" by simp
  moreover have "entries_at ws (Suc (max_length (set ws))) = []"
    using max_length_bound [of "set ws"] by (force simp: entries_at_def filter_empty_conv dest: set_zip_leftD)
  ultimately show ?case using 0 by (simp add: output_levels.simps)
next
  case (Suc n)
  let ?M = "max_length (set ws)"
  have d: "d < Suc ?M" using Suc.hyps(2) by simp
  show ?case
  proof (cases "entries_at ws d = []")
    case True
    have none: "level (set ws) k = []" if "d \<le> k" for k
    proof -
      have "{w \<in> set ws. d \<le> length w} = {}" using entries_at_facts(2) [OF ws, of d] True by simp
      then have "{take k w |w. w \<in> set ws \<and> k \<le> length w} = {}" using that by (auto dest: order_trans)
      then show ?thesis by (simp only: level_def sorted_list_of_set_empty)
    qed
    have nil: "concat (map (level (set ws)) [d..<Suc ?M]) = []" "concat (map (level (set ws)) [Suc d..<Suc (Suc ?M)]) = []"
      using none by (simp_all del: upt_Suc)
    show ?thesis unfolding nil using Suc.prems True by (simp add: output_levels.simps)
  next
    case False
    have e: "output_levels d (entries_at ws d) st =
        output_levels (Suc d) (entries_at ws (Suc d)) (run_entries d None (entries_at ws d) st)"
      using False entries_at_step [of d ws] by (simp add: output_levels.simps [of d] fold_output_level)
    have up: "[d..<Suc ?M] = d # [Suc d..<Suc ?M]" "[Suc d..<Suc (Suc ?M)] = Suc d # [Suc (Suc d)..<Suc (Suc ?M)]"
      using d by (simp_all add: upt_conv_Cons del: upt_Suc)
    show ?thesis unfolding e up
      using Suc.hyps(1) [OF _ _ output_level_state [OF ws Suc.prems(2)], of "Suc d"] Suc.hyps(2) d
      by (simp del: upt_Suc)
  qed
qed


section \<open>The whole image\<close>

lemma assign_ids:
  assumes "distinct us" and "inj_on idx {u \<in> set us. T u}" and "\<And>u. u \<in> set us \<Longrightarrow> T u \<Longrightarrow> idx u < length xs"
  shows "length (fst (fold (assign_id T idx) us (xs, n))) = length xs \<and>
    (\<forall>i. i \<notin> idx ` {u \<in> set us. T u} \<longrightarrow> fst (fold (assign_id T idx) us (xs, n)) ! i = xs ! i) \<and>
    (\<forall>u \<in> set us. T u \<longrightarrow>
      fst (fold (assign_id T idx) us (xs, n)) ! idx u = n + int (length (filter T (takeWhile (\<lambda>v. v \<noteq> u) us))))"
  using assms
proof (induction us arbitrary: xs n)
  case (Cons v us)
  define xs' n' where "xs' = fst (assign_id T idx v (xs, n))" and "n' = snd (assign_id T idx v (xs, n))"
  have step: "fold (assign_id T idx) (v # us) (xs, n) = fold (assign_id T idx) us (xs', n')"
    by (simp add: xs'_def n'_def)
  have x: "xs' = (if T v then xs[idx v := n] else xs)" "n' = (if T v then n + 1 else n)"
    by (simp_all add: xs'_def n'_def assign_id_def)
  have v: "v \<notin> set us" using Cons.prems(1) by simp
  have "distinct us" "inj_on idx {u \<in> set us. T u}" using Cons.prems(1,2) by (auto simp: inj_on_def)
  moreover have "idx u < length xs'" if "u \<in> set us" "T u" for u using Cons.prems(3) [of u] that by (simp add: x)
  ultimately have "length (fst (fold (assign_id T idx) us (xs', n'))) = length xs' \<and>
    (\<forall>i. i \<notin> idx ` {u \<in> set us. T u} \<longrightarrow> fst (fold (assign_id T idx) us (xs', n')) ! i = xs' ! i) \<and>
    (\<forall>u \<in> set us. T u \<longrightarrow>
      fst (fold (assign_id T idx) us (xs', n')) ! idx u = n' + int (length (filter T (takeWhile (\<lambda>v. v \<noteq> u) us))))"
    by (rule Cons.IH)
  then have ih: "length (fst (fold (assign_id T idx) us (xs', n'))) = length xs'"
    "\<And>i. i \<notin> idx ` {u \<in> set us. T u} \<Longrightarrow> fst (fold (assign_id T idx) us (xs', n')) ! i = xs' ! i"
    "\<And>u. u \<in> set us \<Longrightarrow> T u \<Longrightarrow>
      fst (fold (assign_id T idx) us (xs', n')) ! idx u = n' + int (length (filter T (takeWhile (\<lambda>v. v \<noteq> u) us)))"
    by blast+
  have new: "idx v \<notin> idx ` {u \<in> set us. T u}" if "T v"
    using Cons.prems(2) that v by (auto simp: inj_on_def)
  show ?case unfolding step
  proof (intro conjI allI impI ballI)
    show "length (fst (fold (assign_id T idx) us (xs', n'))) = length xs" by (simp add: ih(1)) (simp add: x)
    fix i assume i: "i \<notin> idx ` {u \<in> set (v # us). T u}"
    then have "i \<notin> idx ` {u \<in> set us. T u}" "T v \<longrightarrow> i \<noteq> idx v" by auto
    then show "fst (fold (assign_id T idx) us (xs', n')) ! i = xs ! i" using ih(2) by (auto simp: x)
  next
    fix u assume u: "u \<in> set (v # us)" "T u"
    show "fst (fold (assign_id T idx) us (xs', n')) ! idx u = n + int (length (filter T (takeWhile (\<lambda>w. w \<noteq> u) (v # us))))"
    proof (cases "u = v")
      case True
      then show ?thesis using ih(2) [OF new] u Cons.prems(3) [of v] by (simp add: x)
    next
      case False
      then show ?thesis using ih(3) [of u] u by (simp add: x)
    qed
  qed
qed simp

lemma tl_trie_nodes:
  "concat (map (level (set ws)) [Suc 0..<Suc (Suc (max_length (set ws)))]) = tl (trie_nodes (set ws))"
  by (simp add: trie_nodes_def level_beyond)

lemma level_0: "level (set ws) 0 = (if ws = [] then [] else [[]])"
proof (cases "ws = []")
  case False
  then have "{take 0 w |w. w \<in> set ws \<and> 0 \<le> length w} = {[]}" by (cases ws) auto
  then show ?thesis using False by (simp add: level_def)
qed (simp add: level_def)

lemma trie_levels:
  "concat (map (level (set ws)) [0..<Suc (max_length (set ws))]) = (if ws = [] then [] else trie_nodes (set ws))"
proof -
  have "[0..<Suc (max_length (set ws))] = 0 # [1..<Suc (max_length (set ws))]" by (simp add: upt_conv_Cons del: upt_Suc)
  then show ?thesis using tl_trie_nodes [of ws] level_beyond [of "set ws" "Suc 0"]
    by (simp add: level_0 trie_nodes_def max_length_def del: upt_Suc)
qed

lemma start_state:
  "state_is (build_start n []) [True, False] [False] [chr_of 0] (replicate n (- 1), 0)"
  using stream_push_bit_ok [OF stream_push_bit_ok [OF empty_stream_ok, of True], of False]
    stream_push_bit_ok [OF empty_stream_ok, of False]
  by (simp add: state_is_def build_start_def)

lemma all_entries: "zip ws [0..<length ws] = entries_at ws 0"
  by (simp add: entries_at_def)

lemma output_trie:
  assumes ws: "sorted_wrt (<) ws" and ne: "[] \<notin> set ws"
  shows "state_is (output_levels 0 (zip ws [0..<length ws]) (build_start (length ws) []))
    (True # False # concat (map (unary (kids (set ws))) (if ws = [] then [] else trie_nodes (set ws))))
    (map (\<lambda>u. u \<in> set ws) (trie_nodes (set ws))) (chr_of 0 # map last (tl (trie_nodes (set ws))))
    (fold (assign_id (\<lambda>u. u \<in> set ws) (word_position ws)) (tl (trie_nodes (set ws))) (replicate (length ws) (- 1), 0))"
  using output_levels_state [OF ws, of 0, OF _ start_state [of "length ws"]] ne
  unfolding all_entries tl_trie_nodes trie_levels
  by (simp add: trie_nodes_def)

lemma holds_bits_zero:
  assumes "holds_bits img bs" "length bs < 8 * length img"
  shows "holds_bits img (bs @ [False])"
  using assms by (auto simp: holds_bits_def nth_append less_Suc_eq)

lemma holds_tree_bits:
  assumes h: "holds_bits img (True # False # concat (map (unary (kids (set ws))) (if ws = [] then [] else trie_nodes (set ws))))"
    and len: "4 dvd length img"
  shows "holds_bits img (tree_bits (kids (set ws)) (trie_nodes (set ws)))"
proof (cases "ws = []")
  case True
  have "trie_nodes (set ws) = [[]]" "kids (set ws) [] = []"
    using True by (simp_all add: trie_nodes_def level_beyond kids_def level_def max_length_def)
  moreover have "2 < 8 * length img" using h len True by (cases "length img") (auto simp: holds_bits_def)
  ultimately show ?thesis using holds_bits_zero [of img "[True, False]"] h True by (simp add: tree_bits_def unary_def)
qed (use h in \<open>simp add: tree_bits_def\<close>)


text \<open>The header of the image, as \<open>Open\<close> reads it.\<close>

lemma sint_small: "v < 2 ^ 31 \<Longrightarrow> sint (word_of_nat v :: 32 word) = int v"
  unfolding signed_of_nat by (simp add: signed_take_bit_int_eq_self)

lemma push_ints_read:
  assumes "push_int32 a [] = Some i1" "push_int32 b i1 = Some i2" "push_int32 c i2 = Some i3" "push_int32 d i3 = Some i4"
    and "a < 2 ^ 31" "b < 2 ^ 31" "c < 2 ^ 31" "d < 2 ^ 31"
  shows "length i4 = 16" and "load_int (i4 @ rest) 0 = Some (int a)" and "load_int (i4 @ rest) 1 = Some (int b)"
    and "load_int (i4 @ rest) 2 = Some (int c)" and "load_int (i4 @ rest) 3 = Some (int d)"
proof -
  note r = load32_push_int32
  have len: "length i1 = 4" "length i2 = 8" "length i3 = 12" "length i4 = 16"
    using r(2) [OF assms(1)] r(2) [OF assms(2)] r(2) [OF assms(3)] r(2) [OF assms(4)] by simp_all
  have "take 12 i4 = i3" "take 8 i3 = i2" "take 4 i2 = i1"
    using r(3) [OF assms(4)] r(3) [OF assms(3)] r(3) [OF assms(2)] len by simp_all
  then have t: "i3 @ drop 12 i4 = i4" "i2 @ drop 8 i3 = i3" "i1 @ drop 4 i2 = i2"
    by (metis append_take_drop_id)+
  have e3: "i4 @ rest = i3 @ (drop 12 i4 @ rest)" using arg_cong [OF t(1), of "\<lambda>x. x @ rest"] by simp
  also have "\<dots> = i2 @ (drop 8 i3 @ drop 12 i4 @ rest)"
    using arg_cong [OF t(2), of "\<lambda>x. x @ drop 12 i4 @ rest"] by simp
  finally have e2: "i4 @ rest = i2 @ (drop 8 i3 @ drop 12 i4 @ rest)" .
  also have "\<dots> = i1 @ (drop 4 i2 @ drop 8 i3 @ drop 12 i4 @ rest)"
    using arg_cong [OF t(3), of "\<lambda>x. x @ drop 8 i3 @ drop 12 i4 @ rest"] by simp
  finally have e1: "i4 @ rest = i1 @ (drop 4 i2 @ drop 8 i3 @ drop 12 i4 @ rest)" .
  note e = e1 e2 e3
  show "length i4 = 16" by (rule len)
  show "load_int (i4 @ rest) 0 = Some (int a)"
    using r(1) [OF assms(1), of "drop 4 i2 @ drop 8 i3 @ drop 12 i4 @ rest"] assms(5) by (simp add: load_int_def e(1) sint_small)
  show "load_int (i4 @ rest) 1 = Some (int b)"
    using r(1) [OF assms(2), of "drop 8 i3 @ drop 12 i4 @ rest"] assms(6) len by (simp add: load_int_def e(2) sint_small)
  show "load_int (i4 @ rest) 2 = Some (int c)"
    using r(1) [OF assms(3), of "drop 12 i4 @ rest"] assms(7) len by (simp add: load_int_def e(3) sint_small)
  show "load_int (i4 @ rest) 3 = Some (int d)"
    using r(1) [OF assms(4), of rest] assms(8) len by (simp add: load_int_def sint_small)
qed

lemma add_words_adds:
  "built b = False \<Longrightarrow> add_words ws b = (if [] \<in> set ws then None else Some (b\<lparr>word_list := word_list b @ ws\<rparr>))"
  by (induction ws arbitrary: b) (auto simp: builder_add_def)

lemma strict_sorted_words: "sorted_wrt (<) (remdups_adj (sort ws))" for ws :: "bytes list"
  by (rule sorted_remdups_strict) simp

text \<open>What a finished builder holds.\<close>

definition built_from :: "trie_builder \<Rightarrow> bytes set \<Rightarrow> bool" where
  "built_from b W \<longleftrightarrow>
     built b \<and> sorted_wrt (<) (word_list b) \<and> set (word_list b) = W \<and> length (id_list b) = length (word_list b) \<and>
     (\<forall>w \<in> W. id_list b ! word_position (word_list b) w = int (key_id W w))"

lemma takeWhile_tl_trie: "w \<noteq> [] \<Longrightarrow> takeWhile (\<lambda>u. u \<noteq> w) (trie_nodes W) = [] # takeWhile (\<lambda>u. u \<noteq> w) (tl (trie_nodes W))"
  by (simp add: trie_nodes_def)

lemma inj_word_position: "sorted_wrt (<) ws \<Longrightarrow> inj_on (word_position ws) (set ws)"
  by (rule inj_on_inverseI [of _ "\<lambda>i. ws ! i"]) (auto simp: in_set_conv_nth word_position_nth)

lemma built_ids:
  assumes ws: "sorted_wrt (<) ws" and ne: "[] \<notin> set ws"
    and r: "r = fold (assign_id (\<lambda>u. u \<in> set ws) (word_position ws)) (tl (trie_nodes (set ws))) (replicate (length ws) (- 1), 0)"
  shows "length (fst r) = length ws" and "w \<in> set ws \<Longrightarrow> fst r ! word_position ws w = int (key_id (set ws) w)"
proof -
  have d: "distinct (tl (trie_nodes (set ws)))" using distinct_trie_nodes [of "set ws"] by (simp add: distinct_tl)
  have i: "inj_on (word_position ws) {u \<in> set (tl (trie_nodes (set ws))). u \<in> set ws}"
    using inj_word_position [OF ws] by (rule inj_on_subset) auto
  have b: "word_position ws u < length (replicate (length ws) (- 1 :: int))" if "u \<in> set ws" for u
    using that word_position_nth [OF ws] by (auto simp: in_set_conv_nth)
  note a = assign_ids [OF d i b, of 0, folded r]
  show "length (fst r) = length ws" using a by simp
  assume w: "w \<in> set ws"
  then have "w \<noteq> []" using ne by auto
  have "w \<in> set (trie_nodes (set ws))" using w by (auto simp: set_trie_nodes)
  then have "w \<in> set (tl (trie_nodes (set ws)))" using \<open>w \<noteq> []\<close> by (simp add: trie_nodes_def del: upt_Suc)
  then show "fst r ! word_position ws w = int (key_id (set ws) w)"
    using a w ne by (simp add: key_id_def takeWhile_tl_trie [OF \<open>w \<noteq> []\<close>])
qed

lemma get_id_built:
  assumes "built_from b W"
  shows "get_id b w = Some (if w \<in> W then int (key_id W w) else - 1)"
proof (cases "w \<in> W")
  case True
  then obtain i where i: "i < length (word_list b)" "word_list b ! i = w"
    using assms by (auto simp: built_from_def in_set_conv_nth)
  then have "word_position (word_list b) w = i" using word_position_nth assms by (auto simp: built_from_def)
  then show ?thesis using i True assms by (auto simp: get_id_def Let_def built_from_def)
next
  case False
  have "word_position (word_list b) w \<le> length (word_list b)" by (simp add: word_position_def length_takeWhile_le)
  then have "word_position (word_list b) w = length (word_list b) \<or> word_list b ! word_position (word_list b) w \<noteq> w"
    using False assms nth_mem [of "word_position (word_list b) w" "word_list b"] by (auto simp: built_from_def)
  then show ?thesis using False assms by (auto simp: get_id_def Let_def built_from_def)
qed


lemma represents_image:
  assumes ws: "sorted_wrt (<) ws" and ne: "[] \<notin> set ws"
    and trie: "holds_bits trie (tree_bits (kids (set ws)) (trie_nodes (set ws)))" "4 dvd length trie"
    and trm: "holds_bits terminal (map (\<lambda>u. u \<in> set ws) (trie_nodes (set ws)))" "4 dvd length terminal"
    and fits: "length trie + 32 < 2 ^ 28" "length terminal + 32 < 2 ^ 28"
    and ec: "ec = chr_of 0 # map last (tl (trie_nodes (set ws)))"
    and hdr: "length hdr = 16" "load_int (hdr @ trie @ terminal @ ec) 0 = Some (int (length trie))"
      "load_int (hdr @ trie @ terminal @ ec) 1 = Some (int (length terminal))"
      "load_int (hdr @ trie @ terminal @ ec) 2 = Some 8"
      "load_int (hdr @ trie @ terminal @ ec) 3 = Some (int (length ec))"
  shows "\<exists>t. trie_open (hdr @ trie @ terminal @ ec) c0 c1 s0 s1 t1 = Some t \<and> represents t (set ws)"
proof -
  let ?W = "set ws"
  obtain l where l: "louds_init (trie @ terminal @ ec) (length trie) c0 c1 s0 s1 = Some l"
    and lok: "louds_ok l (8 * length trie) (stored_bit (trie @ terminal @ ec))"
    using louds_init_ok [OF trie(2) fits(1), of "trie @ terminal @ ec" c0 c1 s0 s1] by auto
  obtain tv where tv: "init_bit_index 32 (terminal @ ec) (length terminal) 0 t1 = Some tv"
    and tix: "indexes tv (8 * length terminal) (stored_bit (terminal @ ec))" and tdata: "bi_data tv = terminal @ ec"
    using indexes_init [OF index_fits_32 [OF trm(2) fits(2)], of "terminal @ ec" 0 t1] by auto
  define t where "t = \<lparr>lt_louds = l, terminal_bit_vector = tv, edge_character = ec\<rparr>"
  have "trie_open (hdr @ trie @ terminal @ ec) c0 c1 s0 s1 t1 = Some t"
    using hdr l tv by (simp add: trie_open_def t_def ec)
  moreover have "represents t ?W"
    unfolding represents_def
  proof (intro conjI)
    have "\<forall>i < length (tree_bits (kids ?W) (trie_nodes ?W)). stored_bit (trie @ terminal @ ec) i = tree_bits (kids ?W) (trie_nodes ?W) ! i"
      "length (tree_bits (kids ?W) (trie_nodes ?W)) \<le> 8 * length trie"
      using trie(1) by (auto simp: holds_bits_def stored_bit_append1)
    then show "stands_for (lt_louds t) (kids ?W) (trie_nodes ?W)"
      using lok trie_level_order [of ?W] by (auto simp: stands_for_def t_def)
    show "length (trie_nodes ?W) \<le> length (edge_character t)" by (simp add: t_def ec trie_nodes_def)
    show "\<forall>m < length (trie_nodes ?W). 0 < m \<longrightarrow> edge_character t ! m = last (trie_nodes ?W ! m)"
      by (auto simp: t_def ec nth_tl nth_Cons' length_tl)
    have "length (trie_nodes ?W) \<le> 8 * length terminal"
      "\<forall>m < length (trie_nodes ?W). stored_bit (terminal @ ec) m = (trie_nodes ?W ! m \<in> ?W)"
      using trm(1) by (auto simp: holds_bits_def stored_bit_append1)
    then show "\<exists>N P. indexes (terminal_bit_vector t) N P \<and> N \<le> 8 * length (bi_data (terminal_bit_vector t)) \<and>
        P = stored_bit (bi_data (terminal_bit_vector t)) \<and> length (trie_nodes ?W) \<le> N \<and>
        (\<forall>m < length (trie_nodes ?W). P m = (trie_nodes ?W ! m \<in> ?W))"
      using tix tdata by (intro exI [of _ "8 * length terminal"] exI [of _ "stored_bit (terminal @ ec)"]) (simp add: t_def)
  qed (use ne in simp_all)
  ultimately show ?thesis by blast
qed

text \<open>How large an image is.\<close>

lemma nonempty_prefixes: "{u. u \<noteq> [] \<and> prefix u w} \<subseteq> (\<lambda>k. take (Suc k) w) ` {..<length w}"
proof
  fix u assume "u \<in> {u. u \<noteq> [] \<and> prefix u w}"
  then have u: "u \<noteq> []" "u = take (length u) w" "length u \<le> length w" by (auto simp: prefix_def)
  have l: "Suc (length u - 1) = length u" using u(1) by (cases u) simp_all
  then have "u = take (Suc (length u - 1)) w" "length u - 1 < length w" using u(2,3) by (simp_all only:)
  then show "u \<in> (\<lambda>k. take (Suc k) w) ` {..<length w}" by blast
qed

lemma sum_set_le_sum_list: "(\<Sum>w \<in> set ws. length w) \<le> sum_list (map length ws)"
  by (induction ws) (auto simp: sum.insert_if intro: order_trans)

lemma trie_nodes_size: "length (trie_nodes (set ws)) \<le> Suc (sum_list (map length ws))"
proof -
  have "length (trie_nodes (set ws)) = card (set (trie_nodes (set ws)))"
    by (rule distinct_card [symmetric]) (rule distinct_trie_nodes, simp)
  also have "\<dots> \<le> card (insert [] (\<Union>w \<in> set ws. (\<lambda>k. take (Suc k) w) ` {..<length w}))"
  proof (rule card_mono)
    show "set (trie_nodes (set ws)) \<subseteq> insert [] (\<Union>w \<in> set ws. (\<lambda>k. take (Suc k) w) ` {..<length w})"
    proof
      fix u assume "u \<in> set (trie_nodes (set ws))"
      then have "u = [] \<or> (\<exists>w \<in> set ws. u \<in> {u. u \<noteq> [] \<and> prefix u w})" by (auto simp: set_trie_nodes)
      then show "u \<in> insert [] (\<Union>w \<in> set ws. (\<lambda>k. take (Suc k) w) ` {..<length w})"
        using nonempty_prefixes by blast
    qed
  qed simp
  also have "\<dots> \<le> Suc (card (\<Union>w \<in> set ws. (\<lambda>k. take (Suc k) w) ` {..<length w}))" by (rule card_insert_le_m1) simp_all
  also have "card (\<Union>w \<in> set ws. (\<lambda>k. take (Suc k) w) ` {..<length w}) \<le> (\<Sum>w \<in> set ws. card ((\<lambda>k. take (Suc k) w) ` {..<length w}))"
    by (rule card_UN_le) simp
  also have "\<dots> \<le> (\<Sum>w \<in> set ws. length w)" by (rule sum_mono) (use card_image_le in fastforce)
  also have "\<dots> \<le> sum_list (map length ws)" by (rule sum_set_le_sum_list)
  finally show ?thesis by simp
qed

lemma tree_bits_size: "length (tree_bits (kids (set ws)) (trie_nodes (set ws))) \<le> 2 + 2 * length (trie_nodes (set ws))"
proof -
  have "length (concat (map (kids (set ws)) (trie_nodes (set ws)))) = length (tl (trie_nodes (set ws)))"
    using trie_level_order [of "set ws"] unfolding level_order_def by (metis finite_set)
  then show ?thesis by (simp add: tree_bits_def length_units)
qed

lemma fill_padding32_size: "stream_ok s bs \<Longrightarrow> 8 * length (bs_image (fill_padding32 s)) \<le> length bs + 31"
proof -
  assume "stream_ok s bs"
  then have "8 * length (bs_image s) \<le> length bs + 7" by (simp add: stream_ok_def)
  moreover have "length (bs_image (fill_padding32 s)) \<le> length (bs_image s) + 3"
    by (auto simp: fill_padding32_def Let_def)
  ultimately show ?thesis by linarith
qed

lemma push_int32_small: "v < 2 ^ 31 \<Longrightarrow> \<exists>img'. push_int32 v img = Some img' \<and> length img' = length img + 4"
  by (simp add: push_int32_def)

text \<open>An image that a section of a dictionary file can hold.\<close>

definition image_fits :: "bytes \<Rightarrow> bool" where
  "image_fits img \<longleftrightarrow> img \<noteq> [] \<and> length img < 2 ^ 30"

text \<open>Building succeeds on words of a bounded total length, and the image represents them.\<close>

lemma build_represents:
  assumes ne: "[] \<notin> set ws" and small: "sum_list (map length ws) < 2 ^ 28"
  shows "\<exists>b b' t. add_words ws new_builder = Some b \<and> builder_build b = Some b' \<and> built_from b' (set ws) \<and>
    trie_open (builder_image b') c0 c1 s0 s1 t1 = Some t \<and> represents t (set ws) \<and> image_fits (builder_image b')"
proof -
  define b where "b = new_builder\<lparr>word_list := ws\<rparr>"
  have add: "add_words ws new_builder = Some b"
    using ne add_words_adds [of new_builder ws] by (simp add: b_def new_builder_def)
  define us where "us = remdups_adj (sort ws)"
  have us: "sorted_wrt (<) us" and set_us: "set us = set ws" by (simp_all add: us_def strict_sorted_words)
  then have ne': "[] \<notin> set us" using ne by simp
  define st where "st = output_levels 0 (zip us [0..<length us]) (build_start (length us) [])"
  define trie where "trie = bs_image (fill_padding32 (trie_stream st))"
  define terminal where "terminal = bs_image (fill_padding32 (terminal_stream st))"
  note out = output_trie [OF us ne', folded st_def]
  let ?tb = "True # False # concat (map (unary (kids (set us))) (if us = [] then [] else trie_nodes (set us)))"
  let ?mb = "map (\<lambda>u. u \<in> set us) (trie_nodes (set us))"
  have streams: "stream_ok (trie_stream st) ?tb" "stream_ok (terminal_stream st) ?mb" using out by (simp_all add: state_is_def)
  have trie: "holds_bits trie (tree_bits (kids (set us)) (trie_nodes (set us)))" "4 dvd length trie"
    unfolding trie_def using fill_padding32_holds [OF streams(1)] holds_tree_bits [of _ us] by auto
  have trm: "holds_bits terminal ?mb" "4 dvd length terminal"
    unfolding terminal_def using fill_padding32_holds [OF streams(2)] by auto
  have ec: "edge_characters st = chr_of 0 # map last (tl (trie_nodes (set us)))" using out by (simp add: state_is_def)
  have n: "length (trie_nodes (set us)) \<le> 2 ^ 28"
    using trie_nodes_size [of ws] small by (simp add: set_us)
  have "length ?tb \<le> length (tree_bits (kids (set us)) (trie_nodes (set us)))" by (simp add: tree_bits_def)
  then have "8 * length trie \<le> 33 + 2 * length (trie_nodes (set us))"
    using fill_padding32_size [OF streams(1)] tree_bits_size [of us] unfolding trie_def by linarith
  moreover have "8 * length terminal \<le> length (trie_nodes (set us)) + 31"
    using fill_padding32_size [OF streams(2)] unfolding terminal_def by simp
  moreover have "length (edge_characters st) = length (trie_nodes (set us))" by (simp add: ec trie_nodes_def)
  ultimately have sz: "length trie < 2 ^ 31" "length terminal < 2 ^ 31" "length (edge_characters st) < 2 ^ 31" "(8 :: nat) < 2 ^ 31"
    and fits: "length trie + 32 < 2 ^ 28" "length terminal + 32 < 2 ^ 28"
    using n by auto
  obtain i1 where i1: "push_int32 (length trie) [] = Some i1" using push_int32_small [OF sz(1)] by blast
  obtain i2 where i2: "push_int32 (length terminal) i1 = Some i2" using push_int32_small [OF sz(2)] by blast
  obtain i3 where i3: "push_int32 8 i2 = Some i3" using push_int32_small [OF sz(4)] by blast
  obtain i4 where i4: "push_int32 (length (edge_characters st)) i3 = Some i4" using push_int32_small [OF sz(3)] by blast
  note i = i1 i2 i3 i4
  define b' where "b' = \<lparr>built = True, word_list = us, id_list = ids st, builder_image = i4 @ trie @ terminal @ edge_characters st\<rparr>"
  have build: "builder_build b = Some b'"
    by (simp add: builder_build_def b_def new_builder_def Let_def i b'_def
        flip: us_def st_def trie_def terminal_def)
  note hdr = push_ints_read(1) [OF i sz(1,2,4,3)]
    push_ints_read(2-5) [OF i sz(1,2,4,3), where rest = "trie @ terminal @ edge_characters st"]
  have "\<exists>t. trie_open (builder_image b') c0 c1 s0 s1 t1 = Some t \<and> represents t (set ws)"
    using represents_image [OF us ne' trie trm fits ec, of i4 c0 c1 s0 s1 t1] hdr by (simp add: b'_def set_us)
  moreover have "built_from b' (set ws)"
  proof -
    note ids = built_ids [OF us ne' refl]
    have "ids st = fst (fold (assign_id (\<lambda>u. u \<in> set us) (word_position us)) (tl (trie_nodes (set us))) (replicate (length us) (- 1), 0))"
      using out by (auto simp: state_is_def dest: arg_cong [of _ _ fst])
    then show ?thesis using ids us set_us by (simp add: built_from_def b'_def)
  qed
  moreover have "image_fits (builder_image b')"
    using hdr(1) fits n by (simp add: image_fits_def b'_def ec trie_nodes_def)
  ultimately show ?thesis using add build by blast
qed

section \<open>Properties\<close>

text \<open> C6: for any list of non-empty words (up to a total length), \<open>Add\<close> and \<open>Build\<close> succeed, \<open>Open\<close> with
  caches of any sizes accepts the image, and then for every key \<open>HasKey\<close> tells whether it is one of the
  words and \<open>ExactSearch\<close> returns the id that \<open>GetId\<close> of the builder returns, \<open>-1\<close> for no word.\<close>

theorem built_trie_search:
  assumes "[] \<notin> set ws" "sum_list (map length ws) < 2 ^ 28"
  shows "\<exists>b b' t. add_words ws new_builder = Some b \<and> builder_build b = Some b' \<and>
    trie_open (builder_image b') c0 c1 s0 s1 t1 = Some t \<and>
    (\<forall>key. has_key t key = Some (key \<in> set ws) \<and> exact_search t key = get_id b' key \<and>
       (get_id b' key = Some (- 1) \<longleftrightarrow> key \<notin> set ws))"
proof -
  obtain b b' t where b: "add_words ws new_builder = Some b" "builder_build b = Some b'" "built_from b' (set ws)"
    "trie_open (builder_image b') c0 c1 s0 s1 t1 = Some t" "represents t (set ws)"
    using build_represents [OF assms, of c0 c1 s0 s1 t1] by blast
  have "has_key t key = Some (key \<in> set ws) \<and> exact_search t key = get_id b' key \<and>
       (get_id b' key = Some (- 1) \<longleftrightarrow> key \<notin> set ws)" for key
    using exact_search_represents [OF b(5)] get_id_built [OF b(3)] by simp
  then show ?thesis using b by blast
qed

theorem built_trie_search_witness:
  "\<exists>b b' t. add_words [''ka'', ''k'', ''ki''] new_builder = Some b \<and> builder_build b = Some b' \<and>
    trie_open (builder_image b') 0 0 2 3 1 = Some t \<and> has_key t ''k'' = Some True \<and> has_key t ''i'' = Some False"
  using built_trie_search [of "[''ka'', ''k'', ''ki'']" 0 0 2 3 1] by fastforce

text \<open> C19: in the image built from any words, \<open>RestoreKeyString\<close> of a word's id is the word, as long as it
  fits the buffer of \<open>kMaxDepth\<close> bytes; for a longer word, which \<open>Add\<close> accepts, it writes in front of it.\<close>

theorem built_trie_restore:
  assumes "[] \<notin> set ws" "sum_list (map length ws) < 2 ^ 28" "w \<in> set ws"
  shows "\<exists>b b' t key_id. add_words ws new_builder = Some b \<and> builder_build b = Some b' \<and>
    trie_open (builder_image b') c0 c1 s0 s1 t1 = Some t \<and> get_id b' w = Some key_id \<and>
    restore_key_string_of_id t key_id = (if length w \<le> max_depth then Some w else None)"
proof -
  obtain b b' t where b: "add_words ws new_builder = Some b" "builder_build b = Some b'" "built_from b' (set ws)"
    "trie_open (builder_image b') c0 c1 s0 s1 t1 = Some t" "represents t (set ws)"
    using build_represents [OF assms(1,2), of c0 c1 s0 s1 t1] by blast
  have "get_id b' w = Some (int (key_id (set ws) w))" using get_id_built [OF b(3)] assms(3) by simp
  then show ?thesis using b restore_represents [OF b(5) assms(3)] by blast
qed

theorem built_trie_restore_witness:
  "\<exists>b b' t key_id. add_words [''ka'', ''k''] new_builder = Some b \<and> builder_build b = Some b' \<and>
    trie_open (builder_image b') 1 1 0 0 0 = Some t \<and> get_id b' ''ka'' = Some key_id \<and>
    restore_key_string_of_id t key_id = Some ''ka''"
  using built_trie_restore [of "[''ka'', ''k'']" "''ka''" 1 1 0 0 0] by (simp add: max_depth_def)

text \<open> C20: in the image built from any words, \<open>PrefixSearch\<close> calls back for exactly the non-empty prefixes
  of the key that are words, shortest first, each with a node that has the id of that word.\<close>

theorem built_trie_prefix_search:
  assumes "[] \<notin> set ws" "sum_list (map length ws) < 2 ^ 28"
  shows "\<exists>b b' t calls. add_words ws new_builder = Some b \<and> builder_build b = Some b' \<and>
    trie_open (builder_image b') c0 c1 s0 s1 t1 = Some t \<and> prefix_search t key = Some calls \<and>
    map fst calls = filter (\<lambda>n. take n key \<in> set ws) [1..<Suc (length key)] \<and>
    list_all (\<lambda>(n, node). map_option int (key_id_of_terminal_node t node) = get_id b' (take n key)) calls"
proof -
  obtain b b' t where b: "add_words ws new_builder = Some b" "builder_build b = Some b'" "built_from b' (set ws)"
    "trie_open (builder_image b') c0 c1 s0 s1 t1 = Some t" "represents t (set ws)"
    using build_represents [OF assms, of c0 c1 s0 s1 t1] by blast
  obtain calls where calls: "prefix_search t key = Some calls"
    "map fst calls = filter (\<lambda>n. take n key \<in> set ws) [1..<Suc (length key)]"
    "\<forall>(n, node) \<in> set calls. key_id_of_terminal_node t node = Some (key_id (set ws) (take n key))"
    using prefix_search_represents [OF b(5)] by blast
  have "map_option int (key_id_of_terminal_node t node) = get_id b' (take n key)" if "(n, node) \<in> set calls" for n node
  proof -
    have "n \<in> set (map fst calls)" using that by force
    then have "take n key \<in> set ws" by (simp add: calls(2))
    then show ?thesis using calls(3) that get_id_built [OF b(3)] by auto
  qed
  then have "list_all (\<lambda>(n, node). map_option int (key_id_of_terminal_node t node) = get_id b' (take n key)) calls"
    by (auto simp: list_all_iff)
  then show ?thesis using b(1,2,4) calls(1,2) by blast
qed

theorem built_trie_prefix_search_witness:
  "\<exists>b b' t calls. add_words [''kya'', ''k''] new_builder = Some b \<and> builder_build b = Some b' \<and>
    trie_open (builder_image b') 0 0 1 1 0 = Some t \<and> prefix_search t ''kyan'' = Some calls \<and> map fst calls = [1, 3]"
  using built_trie_prefix_search [of "[''kya'', ''k'']" 0 0 1 1 0 "''kyan''"] by (fastforce simp: upt_rec)

end
