(* ===== verification/Bit_Vector_Array.thy ===== *)
theory Bit_Vector_Array
  imports Louds_Builder
begin

text \<open>
  Arrays of strings of various lengths over a bit vector (\<open>storage/louds/bit_vector_based_array.cc\<close>,
  \<open>storage/louds/bit_vector_based_array_builder.cc\<close>).  Lengths in the builder are \<open>size_t\<close> and wrap;
  the loop that counts the steps of an element may therefore run for ever and is partial.
  The theorems show that every element comes back from the image with its padding, for step lengths of
  at most one more than the base length, and that a longer step can wrap around.
\<close>

section \<open>The builder\<close>

record array_builder =
  array_built :: bool
  array_elements :: "bytes list"
  base_len :: "64 word"
  step_len :: "64 word"
  array_image :: bytes

definition new_array_builder :: array_builder where
  "new_array_builder =
     \<lparr>array_built = False, array_elements = [], base_len = 4, step_len = 1, array_image = []\<rparr>"

definition array_add :: "bytes \<Rightarrow> array_builder \<Rightarrow> array_builder option" where
  "array_add e b = (if array_built b then None else Some (b\<lparr>array_elements := array_elements b @ [e]\<rparr>))"

definition array_set_size :: "64 word \<Rightarrow> 64 word \<Rightarrow> array_builder \<Rightarrow> array_builder option" where
  "array_set_size base step b =
     (if array_built b then None else Some (b\<lparr>base_len := base, step_len := step\<rparr>))"

text \<open>How many steps an element needs.\<close>

partial_function (option) count_steps :: "64 word \<Rightarrow> 64 word \<Rightarrow> 64 word \<Rightarrow> nat \<Rightarrow> nat option" where
  "count_steps base step len num_steps =
     (if base < len then count_steps base step (len - step) (num_steps + 1) else Some num_steps)"

text \<open>One element: its bits, and its bytes with the padding (a \<open>size_t\<close> count).\<close>

definition output_element ::
  "64 word \<Rightarrow> 64 word \<Rightarrow> bytes \<Rightarrow> bit_stream \<times> bytes \<Rightarrow> (bit_stream \<times> bytes) option" where
  "output_element base step e sd =
     map_option
       (\<lambda>num_steps.
         let output_length = base + word_of_nat num_steps * step in
         (fold stream_push_bit (replicate num_steps True) (stream_push_bit False (fst sd)),
          snd sd @ e @ replicate (unat (output_length - word_of_nat (length e))) (chr_of 0)))
       (count_steps base step (word_of_nat (length e)) 0)"

fun output_elements ::
  "64 word \<Rightarrow> 64 word \<Rightarrow> bytes list \<Rightarrow> bit_stream \<times> bytes \<Rightarrow> (bit_stream \<times> bytes) option" where
  "output_elements base step [] sd = Some sd"
| "output_elements base step (e # es) sd =
     Option.bind (output_element base step e sd) (output_elements base step es)"

definition array_build :: "array_builder \<Rightarrow> array_builder option" where
  "array_build b =
     (if array_built b then None
      else
        Option.bind (output_elements (base_len b) (step_len b) (array_elements b) (empty_stream, [])) (\<lambda>(stream, data).
          let bits = bs_image (fill_padding32 (stream_push_bit False stream)) in
          map_option (\<lambda>img. b\<lparr>array_image := img @ bits @ data, array_built := True\<rparr>)
            (Option.bind (push_int32 (length bits) (array_image b)) (\<lambda>img.
             Option.bind (push_int32 (unat (base_len b)) img) (\<lambda>img.
             Option.bind (push_int32 (unat (step_len b)) img) (push_int32 0))))))"

section \<open>The array\<close>

definition kLb0CacheSize :: nat where "kLb0CacheSize = 1024"

definition kLb1CacheSize :: nat where "kLb1CacheSize = 0"

record bit_vector_array =
  va_index :: bit_index
  va_base :: nat
  va_step :: nat
  va_data :: bytes

definition array_open :: "bytes \<Rightarrow> bit_vector_array option" where
  "array_open img =
     Option.bind (load_int img 0) (\<lambda>index_length. Option.bind (load_int img 1) (\<lambda>base_length.
     Option.bind (load_int img 2) (\<lambda>step_length. Option.bind (load_int img 3) (\<lambda>padding.
       if padding \<noteq> 0 \<or> index_length < 0 \<or> base_length < 0 \<or> step_length < 0 then None
       else map_option
         (\<lambda>idx. \<lparr>va_index = idx, va_base = nat base_length, va_step = nat step_length,
            va_data = drop (nat index_length) (drop 16 img)\<rparr>)
         (init_bit_index 32 (drop 16 img) (nat index_length) kLb0CacheSize kLb1CacheSize)))))"

definition array_close :: "bit_vector_array \<Rightarrow> bit_vector_array" where
  "array_close a = \<lparr>va_index = reset_bit_index (va_index a), va_base = 0, va_step = 0, va_data = []\<rparr>"

text \<open>The linear search for the end of a run of set bits.\<close>

function run_end :: "bit_index \<Rightarrow> nat \<Rightarrow> nat option" where
  "run_end idx i =
     (case get_bit idx i of None \<Rightarrow> None | Some b \<Rightarrow> if b then run_end idx (i + 1) else Some i)"
  by pat_completeness auto
termination
proof (relation "measure (\<lambda>(idx, i). 8 * length (bi_data idx) - i)")
  fix idx i b assume "get_bit idx i = Some b" b
  then have "i div 8 < length (bi_data idx)" by (simp add: get_bit_def split: if_splits)
  then show "((idx, i + 1), idx, i) \<in> measure (\<lambda>(idx, i). 8 * length (bi_data idx) - i)"
    by (simp add: div_less_iff_less_mult)
qed simp

declare run_end.simps [simp del]

text \<open>
  Where \<open>Get\<close> finds an element: its index in the data and its length.  The sum for the index is a \<open>size_t\<close> that is
  narrowed to \<open>int\<close>, so the index of an element from 2 GB on is negative and its pointer in front of the data; such a
  pointer has nothing to read.  The positions of bits are below \<open>2 ^ 31\<close> by \<open>Init\<close> of the index.
\<close>

definition narrow_to_int :: "nat \<Rightarrow> int" where
  "narrow_to_int n = sint (word_of_nat n :: 32 word)"

definition array_locate :: "bit_vector_array \<Rightarrow> nat \<Rightarrow> (int \<times> nat) option" where
  "array_locate a index =
     Option.bind (select0 (va_index a) (index + 1)) (\<lambda>bit_pos.
     Option.bind (rank1 (va_index a) bit_pos) (\<lambda>rank.
     map_option
       (\<lambda>i. (narrow_to_int (va_base a * index + va_step a * rank), va_base a + va_step a * (i - bit_pos - 1)))
       (run_end (va_index a) (bit_pos + 1))))"

definition array_get :: "bit_vector_array \<Rightarrow> nat \<Rightarrow> bytes option" where
  "array_get a index =
     Option.bind (array_locate a index) (\<lambda>(data_index, len).
       if 0 \<le> data_index \<and> nat data_index + len \<le> length (va_data a)
       then Some (take len (drop (nat data_index) (va_data a))) else None)"

text \<open>The memory from the pointer on that \<open>Get\<close> returns, for callers that read on behind the element.\<close>

definition array_pointer :: "bit_vector_array \<Rightarrow> nat \<Rightarrow> bytes option" where
  "array_pointer a index =
     Option.bind (array_locate a index) (\<lambda>(data_index, len).
       if 0 \<le> data_index then Some (drop (nat data_index) (va_data a)) else None)"

lemma narrow_small: "n < 2 ^ 31 \<Longrightarrow> narrow_to_int n = int n"
  by (simp add: narrow_to_int_def signed_of_nat signed_take_bit_int_eq_self)

section \<open>Counting steps\<close>

definition steps :: "nat \<Rightarrow> nat \<Rightarrow> nat \<Rightarrow> nat" where
  "steps base step len = (len - base + step - 1) div step"

lemma steps_step: "base < len \<Longrightarrow> 0 < step \<Longrightarrow> step \<le> len \<Longrightarrow> steps base step len = Suc (steps base step (len - step))"
  using ceil_step [of "len - base" step]
  by (simp add: steps_def diff_right_commute add.commute)

lemma count_steps_exact:
  fixes base step len :: nat
  assumes "0 < step" "step \<le> base + 1" "base < 2 ^ 64"
  shows "len < 2 ^ 64 \<Longrightarrow>
    count_steps (word_of_nat base) (word_of_nat step) (word_of_nat len) n = Some (n + steps base step len)"
proof (induction len arbitrary: n rule: less_induct)
  case (less len)
  have cmp: "(word_of_nat base :: 64 word) < word_of_nat len \<longleftrightarrow> base < len"
    using assms(3) less.prems by (simp add: word_less_nat_alt unat_of_nat take_bit_nat_eq_self)
  show ?case
  proof (cases "base < len")
    case True
    then have le: "step \<le> len" using assms(2) by simp
    have "(word_of_nat len :: 64 word) - word_of_nat step = word_of_nat (len - step)" using le by (simp add: of_nat_diff)
    then have "count_steps (word_of_nat base) (word_of_nat step) (word_of_nat len) n =
        count_steps (word_of_nat base) (word_of_nat step) (word_of_nat (len - step)) (n + 1)"
      using True cmp by (subst count_steps.simps) simp
    also have "\<dots> = Some (n + 1 + steps base step (len - step))"
      using le assms(1) less.prems True by (intro less.IH) simp_all
    finally show ?thesis using steps_step [OF True assms(1) le] by simp
  next
    case False
    then have "steps base step len = 0" using assms(1) by (simp add: steps_def)
    then show ?thesis using False cmp by (subst count_steps.simps) simp
  qed
qed

lemma steps_covers: "0 < step \<Longrightarrow> len \<le> base + step * steps base step len"
  using ceil_covers [of step "len - base"] by (simp add: steps_def)


section \<open>The bits of an array\<close>

text \<open>A clear bit and a set bit for each step, for every element, and a clear bit at the end.\<close>

definition step_bits :: "nat \<Rightarrow> bool list" where
  "step_bits n = False # replicate n True"

definition array_bits :: "nat list \<Rightarrow> bool list" where
  "array_bits ns = concat (map step_bits ns) @ [False]"

lemma array_bits_nth:
  assumes "i < length ns"
  shows "array_bits ns = concat (map step_bits (take i ns)) @ step_bits (ns ! i) @
    (if Suc i < length ns then step_bits (ns ! Suc i) @ concat (map step_bits (drop (Suc (Suc i)) ns)) @ [False] else [False])"
proof -
  have "ns = take i ns @ ns ! i # drop (Suc i) ns" using assms by (rule id_take_nth_drop)
  then have "concat (map step_bits ns) = concat (map step_bits (take i ns)) @ step_bits (ns ! i) @ concat (map step_bits (drop (Suc i) ns))"
    by (metis concat.simps(2) concat_append list.simps(9) map_append)
  moreover have "drop (Suc i) ns = ns ! Suc i # drop (Suc (Suc i)) ns" if "Suc i < length ns"
    using that by (simp add: Cons_nth_drop_Suc)
  ultimately show ?thesis by (auto simp: array_bits_def)
qed

lemma length_step_bits: "length (concat (map step_bits ns)) = length ns + sum_list ns"
  by (induction ns) (auto simp: step_bits_def)

lemma ones_step_bits: "length (filter (\<lambda>b. b) (concat (map step_bits ns))) = sum_list ns"
  by (induction ns) (auto simp: step_bits_def)

text \<open>Where the bits of element \<open>i\<close> start, and what they are.\<close>

lemma array_bits_at:
  assumes i: "i < length ns" and P: "\<And>j. j < length (array_bits ns) \<Longrightarrow> P j = array_bits ns ! j"
  defines "pos \<equiv> i + sum_list (take i ns)"
  shows "\<not> P pos" and "j < ns ! i \<Longrightarrow> P (pos + 1 + j)" and "\<not> P (pos + 1 + ns ! i)"
    and "count_below P pos = sum_list (take i ns)" and "pos + 1 + ns ! i < length (array_bits ns)"
proof -
  obtain rest where e: "array_bits ns = concat (map step_bits (take i ns)) @ step_bits (ns ! i) @ False # rest"
    using array_bits_nth [OF i] by (cases "Suc i < length ns") (auto simp: step_bits_def)
  have len: "length (concat (map step_bits (take i ns))) = pos" using i by (simp add: length_step_bits pos_def)
  show bound: "pos + 1 + ns ! i < length (array_bits ns)" unfolding e using len by (simp add: step_bits_def)
  have at: "P (pos + k) = (step_bits (ns ! i) @ False # rest) ! k" if "k \<le> Suc (ns ! i)" for k
  proof -
    have "P (pos + k) = array_bits ns ! (pos + k)" using P bound that by simp
    also have "\<dots> = (step_bits (ns ! i) @ False # rest) ! k" unfolding e len [symmetric] by (rule nth_append_length_plus)
    finally show ?thesis .
  qed
  show "\<not> P pos" using at [of 0] by (simp add: step_bits_def)
  show "P (pos + 1 + j)" if "j < ns ! i" using at [of "Suc j"] that by (simp add: step_bits_def nth_append)
  show "\<not> P (pos + 1 + ns ! i)" using at [of "Suc (ns ! i)"] by (simp add: step_bits_def nth_append)
  have "count_below P pos = length (filter (\<lambda>b. b) (take pos (array_bits ns)))"
    by (rule count_below_take) (use bound P in auto)
  also have "take pos (array_bits ns) = concat (map step_bits (take i ns))" unfolding e using len by simp
  finally show "count_below P pos = sum_list (take i ns)" by (simp add: ones_step_bits)
qed

text \<open>The search for the end of a run.\<close>

lemma run_end_stops:
  assumes "\<And>j. j < n \<Longrightarrow> get_bit idx (i + j) = Some True" and "get_bit idx (i + n) = Some False"
  shows "run_end idx i = Some (i + n)"
  using assms
proof (induction n arbitrary: i)
  case 0
  then show ?case by (simp add: run_end.simps)
next
  case (Suc n)
  have "run_end idx i = run_end idx (Suc i)" using Suc.prems(1) [of 0] by (simp add: run_end.simps [of idx i])
  also have "\<dots> = Some (Suc i + n)"
    using Suc.prems(1) [of "Suc j" for j] Suc.prems(2) by (intro Suc.IH) auto
  finally show ?case by simp
qed

section \<open>Round trip\<close>

definition padded :: "nat \<Rightarrow> nat \<Rightarrow> bytes \<Rightarrow> bytes" where
  "padded base step e = e @ replicate (base + step * steps base step (length e) - length e) (chr_of 0)"

lemma length_padded: "0 < step \<Longrightarrow> length (padded base step e) = base + step * steps base step (length e)"
  using steps_covers [of step "length e" base] by (simp add: padded_def)

lemma output_element_exact:
  fixes base step :: nat
  assumes "0 < step" "step \<le> base + 1" "base < 2 ^ 31" "step < 2 ^ 31" "length e < 2 ^ 31" "stream_ok s bs"
  shows "\<exists>s'. output_element (word_of_nat base) (word_of_nat step) e (s, d) = Some (s', d @ padded base step e) \<and>
    stream_ok s' (bs @ step_bits (steps base step (length e)))"
proof -
  let ?n = "steps base step (length e)"
  have c: "count_steps (word_of_nat base) (word_of_nat step) (word_of_nat (length e)) 0 = Some ?n"
    using count_steps_exact [of step base "length e" 0] assms(1-5) by simp
  have le: "length e \<le> base + step * ?n" by (rule steps_covers) (rule assms(1))
  have "step * ?n \<le> length e - base + step - 1" by (simp add: steps_def)
  then have small: "base + step * ?n - length e < 2 ^ 64" using assms by simp
  have "(word_of_nat base :: 64 word) + word_of_nat ?n * word_of_nat step - word_of_nat (length e) =
      word_of_nat (base + step * ?n - length e)"
    using le by (simp add: of_nat_diff)
  then have pad: "unat ((word_of_nat base :: 64 word) + word_of_nat ?n * word_of_nat step - word_of_nat (length e)) =
      base + step * ?n - length e"
    using small by (simp only: unat_of_nat take_bit_nat_eq_self) (simp add: take_bit_nat_eq_self)
  have "stream_ok (fold stream_push_bit (replicate ?n True) (stream_push_bit False s)) (bs @ step_bits ?n)"
    using push_bits_ok [OF stream_push_bit_ok [OF assms(6), of False], of "replicate ?n True"] by (simp add: step_bits_def)
  then show ?thesis by (simp add: output_element_def c pad padded_def Let_def)
qed

lemma output_elements_exact:
  fixes base step :: nat
  assumes "0 < step" "step \<le> base + 1" "base < 2 ^ 31" "step < 2 ^ 31"
  shows "\<forall>e \<in> set es. length e < 2 ^ 31 \<Longrightarrow> stream_ok s bs \<Longrightarrow>
    \<exists>s'. output_elements (word_of_nat base) (word_of_nat step) es (s, d) = Some (s', d @ concat (map (padded base step) es)) \<and>
      stream_ok s' (bs @ concat (map (\<lambda>e. step_bits (steps base step (length e))) es))"
proof (induction es arbitrary: s bs d)
  case (Cons e es)
  obtain s1 where s1: "output_element (word_of_nat base) (word_of_nat step) e (s, d) = Some (s1, d @ padded base step e)"
    "stream_ok s1 (bs @ step_bits (steps base step (length e)))"
    using output_element_exact [OF assms, of e s bs d] Cons.prems by auto
  have "\<forall>e \<in> set es. length e < 2 ^ 31" using Cons.prems(1) by simp
  from Cons.IH [OF this s1(2), of "d @ padded base step e"] s1(1) show ?case by auto
qed simp


fun add_elements :: "bytes list \<Rightarrow> array_builder \<Rightarrow> array_builder option" where
  "add_elements [] b = Some b"
| "add_elements (e # es) b = Option.bind (array_add e b) (add_elements es)"

lemma add_elements_adds:
  "\<not> array_built b \<Longrightarrow> add_elements es b = Some (b\<lparr>array_elements := array_elements b @ es\<rparr>)"
  by (induction es arbitrary: b) (auto simp: array_add_def)

lemma steps_le: "0 < step \<Longrightarrow> steps base step len \<le> len"
proof -
  assume "0 < step"
  then have "step * steps base step len \<le> len - base + step - 1" by (simp add: steps_def)
  moreover have "len \<le> step * len" using \<open>0 < step\<close> by simp
  then have "len - base + step - 1 < step + step * len"
    using \<open>0 < step\<close> diff_le_self [of len base] by linarith
  then have "len - base + step - 1 < step * Suc len" by simp
  ultimately have "step * steps base step len < step * Suc len" by linarith
  then show ?thesis by (simp only: mult_less_cancel1 less_Suc_eq_le)
qed

lemma length_concat_padded:
  "0 < step \<Longrightarrow> length (concat (map (padded base step) es)) = base * length es + step * sum_list (map (\<lambda>e. steps base step (length e)) es)"
  by (induction es) (auto simp: length_padded algebra_simps)

lemma take_drop_concat:
  assumes "i < length es"
  shows "take (length (f (es ! i))) (drop (length (concat (map f (take i es)))) (concat (map f es))) = f (es ! i)"
    and "length (concat (map f (take i es))) + length (f (es ! i)) \<le> length (concat (map f es))"
proof -
  have "es = take i es @ es ! i # drop (Suc i) es" using assms by (rule id_take_nth_drop)
  then have e: "concat (map f es) = concat (map f (take i es)) @ f (es ! i) @ concat (map f (drop (Suc i) es))"
    by (metis concat.simps(2) concat_append list.simps(9) map_append)
  show "take (length (f (es ! i))) (drop (length (concat (map f (take i es)))) (concat (map f es))) = f (es ! i)"
    unfolding e by simp
  show "length (concat (map f (take i es))) + length (f (es ! i)) \<le> length (concat (map f es))"
    unfolding e by simp
qed

lemma array_get_at:
  assumes ix: "indexes (va_index a) N P" and N: "N \<le> 8 * length (bi_data (va_index a))" "P = stored_bit (bi_data (va_index a))"
    and bits: "length (array_bits ns) \<le> N" "\<And>j. j < length (array_bits ns) \<Longrightarrow> P j = array_bits ns ! j"
    and ns: "ns = map (\<lambda>e. steps base step (length e)) es" and step: "0 < step"
    and a: "va_base a = base" "va_step a = step" "va_data a = concat (map (padded base step) es)"
    and size: "length (concat (map (padded base step) es)) < 2 ^ 31" and i: "i < length es"
  shows "array_get a i = Some (padded base step (es ! i))"
    and "array_pointer a i = Some (concat (map (padded base step) (drop i es)))"
proof -
  define pos where "pos = i + sum_list (take i ns)"
  have i': "i < length ns" using i ns by simp
  note at = array_bits_at [OF i' bits(2), folded pos_def]
  have posN: "pos < N" using at(5) bits(1) by simp
  have "count_below (\<lambda>j. \<not> P j) pos = i" using at(4) by (simp add: count_below_not pos_def)
  then have sel: "select0 (va_index a) (Suc i) = Some pos" using bv.sel0_of_rank [OF ix at(1) posN] by simp
  have rank: "rank1 (va_index a) pos = Some (sum_list (take i ns))" using bv.rank [OF ix, of pos] posN at(4) by simp
  have get: "get_bit (va_index a) j = Some (P j)" if "j < length (array_bits ns)" for j
    using get_bit_stored [of j "va_index a"] that bits(1) N by simp
  have run: "run_end (va_index a) (Suc pos) = Some (Suc pos + ns ! i)"
  proof (rule run_end_stops)
    fix j assume "j < ns ! i"
    then show "get_bit (va_index a) (Suc pos + j) = Some True" using get [of "pos + 1 + j"] at(2) at(5) by simp
  next
    show "get_bit (va_index a) (Suc pos + ns ! i) = Some False" using get [of "pos + 1 + ns ! i"] at(3) at(5) by simp
  qed
  have idx: "base * i + step * sum_list (take i ns) = length (concat (map (padded base step) (take i es)))"
    using length_concat_padded [OF step, of base "take i es"] i by (simp add: ns take_map)
  have len: "base + step * (ns ! i) = length (padded base step (es ! i))"
    using length_padded [OF step, of base "es ! i"] i by (simp add: ns)
  have "length (concat (map (padded base step) (take i es))) < 2 ^ 31"
    using take_drop_concat(2) [OF i, of "padded base step"] size by linarith
  then have loc: "array_locate a i =
      Some (int (length (concat (map (padded base step) (take i es)))), length (padded base step (es ! i)))"
    unfolding array_locate_def by (simp add: sel rank run a idx len narrow_small)
  show "array_get a i = Some (padded base step (es ! i))"
    using take_drop_concat [OF i, of "padded base step"] by (simp add: array_get_def loc a)
  have "concat (map (padded base step) es) =
      concat (map (padded base step) (take i es)) @ concat (map (padded base step) (drop i es))"
    by (simp flip: concat_append map_append)
  then show "array_pointer a i = Some (concat (map (padded base step) (drop i es)))"
    by (simp add: array_pointer_def loc a)
qed

lemma array_built:
  fixes base step :: nat
  assumes step: "0 < step" "step \<le> base + 1" and small: "base < 2 ^ 31" "step < 2 ^ 31"
    and size: "length es + sum_list (map length es) < 2 ^ 30"
    and data: "base * length es + step * sum_list (map (\<lambda>e. steps base step (length e)) es) < 2 ^ 31"
  shows "\<exists>b b' a. Option.bind (add_elements es new_array_builder) (array_set_size (word_of_nat base) (word_of_nat step)) = Some b \<and>
    array_build b = Some b' \<and> array_open (array_image b') = Some a \<and>
    (\<forall>i < length es. array_get a i = Some (padded base step (es ! i)) \<and>
       array_pointer a i = Some (concat (map (padded base step) (drop i es)))) \<and>
    array_image b' \<noteq> [] \<and> length (array_image b') < 16 + 2 ^ 28 + length (concat (map (padded base step) es))"
proof -
  define b where "b = new_array_builder\<lparr>array_elements := es, base_len := word_of_nat base, step_len := word_of_nat step\<rparr>"
  have add: "Option.bind (add_elements es new_array_builder) (array_set_size (word_of_nat base) (word_of_nat step)) = Some b"
    using add_elements_adds [of new_array_builder es] by (simp add: array_set_size_def b_def new_array_builder_def)
  define ns where "ns = map (\<lambda>e. steps base step (length e)) es"
  have "length e < 2 ^ 31" if "e \<in> set es" for e
    using member_le_sum_list [of "length e" "map length es"] that size by simp
  then obtain s where s: "output_elements (word_of_nat base) (word_of_nat step) es (empty_stream, []) =
      Some (s, concat (map (padded base step) es))" "stream_ok s (concat (map step_bits ns))"
    using output_elements_exact [OF step small, of es empty_stream "[]" "[]"] empty_stream_ok
    by (auto simp: ns_def comp_def)
  define bits where "bits = bs_image (fill_padding32 (stream_push_bit False s))"
  have ok: "stream_ok (stream_push_bit False s) (array_bits ns)"
    using stream_push_bit_ok [OF s(2), of False] by (simp add: array_bits_def)
  have holds: "holds_bits bits (array_bits ns)" "4 dvd length bits"
    unfolding bits_def using fill_padding32_holds [OF ok] by simp_all
  have "sum_list ns \<le> sum_list (map length es)" unfolding ns_def by (rule sum_list_mono) (simp add: steps_le step(1))
  then have "length (array_bits ns) \<le> 2 ^ 30" using size by (simp add: array_bits_def length_step_bits) (simp add: ns_def)
  then have bl: "length bits < 2 ^ 31" "length bits + 32 < 2 ^ 28"
    using fill_padding32_size [OF ok] unfolding bits_def by simp_all
  obtain i1 where i1: "push_int32 (length bits) [] = Some i1" using push_int32_small [OF bl(1)] by blast
  obtain i2 where i2: "push_int32 base i1 = Some i2" using push_int32_small [OF small(1)] by blast
  obtain i3 where i3: "push_int32 step i2 = Some i3" using push_int32_small [OF small(2)] by blast
  obtain i4 where i4: "push_int32 0 i3 = Some i4" using push_int32_small [of 0 i3] by auto
  note i = i1 i2 i3 i4
  have data_size: "length (concat (map (padded base step) es)) < 2 ^ 31"
    using length_concat_padded [OF step(1), of base es] data by simp
  define data where "data = concat (map (padded base step) es)"
  define b' where "b' = b\<lparr>array_image := i4 @ bits @ data, array_built := True\<rparr>"
  have un: "unat (word_of_nat base :: 64 word) = base" "unat (word_of_nat step :: 64 word) = step"
    using small by (simp_all add: unat_of_nat take_bit_nat_eq_self)
  have build: "array_build b = Some b'"
    by (simp add: array_build_def b_def new_array_builder_def s Let_def un i b'_def data_def flip: bits_def)
  note hdr = push_ints_read(1) [OF i bl(1) small] push_ints_read(2-5) [OF i bl(1) small, where rest = "bits @ data"]
  obtain idx where idx: "init_bit_index 32 (bits @ data) (length bits) kLb0CacheSize kLb1CacheSize = Some idx"
    "indexes idx (8 * length bits) (stored_bit (bits @ data))" "bi_data idx = bits @ data"
    using indexes_init [OF index_fits_32 [OF holds(2) bl(2)], of "bits @ data" kLb0CacheSize kLb1CacheSize] by auto
  define a where "a = \<lparr>va_index = idx, va_base = base, va_step = step, va_data = data\<rparr>"
  have "array_open (array_image b') = Some a"
    using hdr idx(1) by (simp add: array_open_def b'_def a_def)
  moreover have "array_get a j = Some (padded base step (es ! j)) \<and>
      array_pointer a j = Some (concat (map (padded base step) (drop j es)))" if j: "j < length es" for j
  proof -
    have "indexes (va_index a) (8 * length bits) (stored_bit (bits @ data))" using idx(2) by (simp add: a_def)
    moreover have "length (array_bits ns) \<le> 8 * length bits" using holds(1) by (simp add: holds_bits_def)
    moreover have "stored_bit (bits @ data) k = array_bits ns ! k" if "k < length (array_bits ns)" for k
      using holds(1) that by (simp add: holds_bits_def stored_bit_append1)
    ultimately show ?thesis
      using array_get_at [OF _ _ _ _ _ ns_def step(1) _ _ _ data_size j, of a "8 * length bits" "stored_bit (bits @ data)"]
      by (simp add: a_def idx(3) data_def)
  qed
  moreover have "array_image b' \<noteq> [] \<and> length (array_image b') < 16 + 2 ^ 28 + length (concat (map (padded base step) es))"
    using hdr(1) bl(2) by (auto simp: b'_def data_def)
  ultimately show ?thesis using add build by blast
qed

section \<open>Properties\<close>

text \<open> C21: for a step length between 1 and the base length plus 1, every list of elements that with its padding has less
  than 2 GB (where \<open>Get\<close> narrows the index of an element to \<open>int\<close>), and less than \<open>2 ^ 30\<close> elements and bytes, is built into
  an image that \<open>Open\<close> accepts, and \<open>Get\<close> of every index returns the element followed by zero bytes, up to the base length
  and a whole number of steps.\<close>

theorem array_round_trip:
  fixes base step :: nat
  assumes step: "0 < step" "step \<le> base + 1" and small: "base < 2 ^ 31" "step < 2 ^ 31"
    and size: "length es + sum_list (map length es) < 2 ^ 30"
    and data: "base * length es + step * sum_list (map (\<lambda>e. steps base step (length e)) es) < 2 ^ 31"
  shows "\<exists>b b' a. Option.bind (add_elements es new_array_builder) (array_set_size (word_of_nat base) (word_of_nat step)) = Some b \<and>
    array_build b = Some b' \<and> array_open (array_image b') = Some a \<and>
    (\<forall>i < length es. array_get a i = Some (padded base step (es ! i)))"
  using array_built [OF assms] by blast

theorem array_round_trip_witness:
  "\<exists>b b' a. Option.bind (add_elements [''a'', ''abcdef''] new_array_builder) (array_set_size (word_of_nat 4) (word_of_nat 2)) = Some b \<and>
    array_build b = Some b' \<and> array_open (array_image b') = Some a \<and>
    array_get a 0 = Some [CHR ''a'', chr_of 0, chr_of 0, chr_of 0] \<and> array_get a 1 = Some ''abcdef''"
proof -
  have p: "padded 4 2 ''a'' = [CHR ''a'', chr_of 0, chr_of 0, chr_of 0]" "padded 4 2 ''abcdef'' = ''abcdef''"
    by (simp_all add: padded_def steps_def numeral_3_eq_3)
  obtain b b' a where r: "Option.bind (add_elements [''a'', ''abcdef''] new_array_builder) (array_set_size (word_of_nat 4) (word_of_nat 2)) = Some b"
    "array_build b = Some b'" "array_open (array_image b') = Some a"
    and get: "\<forall>i < length [''a'', ''abcdef'']. array_get a i = Some (padded 4 2 ([''a'', ''abcdef''] ! i))"
    using array_round_trip [of 2 4 "[''a'', ''abcdef'']"] by (auto simp: steps_def)
  have "array_get a 0 = Some (padded 4 2 ''a'')" "array_get a 1 = Some (padded 4 2 ''abcdef'')" using get by auto
  then show ?thesis unfolding p using r by blast
qed


lemma count_steps_grows:
  assumes "count_steps base step len n = Some m"
  shows "n \<le> m"
proof (rule count_steps.raw_induct [OF _ assms, where P = "\<lambda>base step len n m. n \<le> m"])
  fix rec :: "64 word \<Rightarrow> 64 word \<Rightarrow> 64 word \<Rightarrow> nat \<Rightarrow> nat option" and base step len :: "64 word" and n m :: nat
  assume 1: "\<And>base step len n m. rec base step len n = Some m \<Longrightarrow> n \<le> m"
    "(if base < len then rec base step (len - step) (n + 1) else Some n) = Some m"
  show "n \<le> m"
  proof (cases "base < len")
    case True
    then have "rec base step (len - step) (n + 1) = Some m" using 1(2) by simp
    from 1(1) [OF this] show ?thesis by simp
  next
    case False
    then show ?thesis using 1(2) by simp
  qed
qed

text \<open> C36: when an element is longer than the base length and shorter than the step length, the loop that
  counts its steps wraps around below zero: it does not end with the one step the element needs.\<close>

theorem step_count_wraps:
  fixes base step len :: nat
  assumes "base < len" "len < step" "step < 2 ^ 31"
  shows "steps base step len = 1 \<and>
    count_steps (word_of_nat base) (word_of_nat step) (word_of_nat len) 0 \<noteq> Some 1"
proof
  have "(len - base + step - 1) div step = 1" by (rule div_nat_eqI) (use assms in auto)
  then show "steps base step len = 1" by (simp add: steps_def)
  define wrapped where "wrapped = (word_of_nat len :: 64 word) - word_of_nat step"
  have lens: "unat (word_of_nat len :: 64 word) = len" "unat (word_of_nat step :: 64 word) = step" "unat (word_of_nat base :: 64 word) = base"
    using assms by (simp_all add: unat_of_nat take_bit_nat_eq_self)
  have "unat wrapped = 2 ^ 64 + len - step"
    unfolding wrapped_def using assms lens by (subst unat_sub_if_size) (simp add: word_size)
  then have big: "(word_of_nat base :: 64 word) < wrapped" using assms lens by (simp add: word_less_nat_alt)
  have first: "(word_of_nat base :: 64 word) < word_of_nat len" using assms lens by (simp add: word_less_nat_alt)
  have "count_steps (word_of_nat base) (word_of_nat step) (word_of_nat len) 0 =
      count_steps (word_of_nat base) (word_of_nat step) wrapped 1"
    using first by (subst count_steps.simps) (simp add: wrapped_def)
  also have "\<dots> = count_steps (word_of_nat base) (word_of_nat step) (wrapped - word_of_nat step) (Suc 1)"
    using big by (subst count_steps.simps) simp
  finally have e: "count_steps (word_of_nat base) (word_of_nat step) (word_of_nat len) 0 =
      count_steps (word_of_nat base) (word_of_nat step) (wrapped - word_of_nat step) (Suc 1)" .
  show "count_steps (word_of_nat base) (word_of_nat step) (word_of_nat len) 0 \<noteq> Some 1"
  proof
    assume "count_steps (word_of_nat base) (word_of_nat step) (word_of_nat len) 0 = Some 1"
    then have "Suc 1 \<le> 1" unfolding e by (rule count_steps_grows)
    then show False by simp
  qed
qed

theorem step_count_wraps_witness:
  "count_steps (word_of_nat 1) (word_of_nat 4) (word_of_nat (length ''ab'')) 0 \<noteq> Some 1"
  using step_count_wraps [of 1 "length ''ab''" 4] by simp

end
