(* ===== verification/Dictionary_Builder.thy ===== *)
theory Dictionary_Builder
  imports Key_Value_Codec Token_Codec Bit_Vector_Array "HOL-Library.Multiset"
begin

text \<open>
  \<open>SystemDictionaryBuilder\<close> (\<open>dictionary/system/system_dictionary_builder.cc\<close>): from the list of all tokens to the
  images of the value trie, the key trie, the token array and the table of the frequent pos pairs.
  \<open>japanese_util::HiraganaToKatakana\<close> is the parameter \<open>h2k\<close>.  The theorems show that the build goes through and what
  it stores for every key.
\<close>

section \<open>Operations\<close>

record key_info =
  ki_key :: bytes
  id_in_key_trie :: int
  ki_tokens :: "token_info list"

record dict_builder =
  value_trie_builder :: trie_builder
  key_trie_builder :: trie_builder
  token_array_builder :: array_builder
  frequent_pos :: "(32 word \<times> nat) list"

definition new_dict_builder :: dict_builder where
  "new_dict_builder = \<lparr>value_trie_builder = new_builder, key_trie_builder = new_builder,
     token_array_builder = new_array_builder, frequent_pos = []\<rparr>"

definition get_combined_pos :: "16 word \<Rightarrow> 16 word \<Rightarrow> 32 word" where
  "get_combined_pos lid rid = push_bit 16 (ucast lid) OR ucast rid"

abbreviation token_pos :: "token \<Rightarrow> 32 word" where
  "token_pos t \<equiv> get_combined_pos (token_lid t) (token_rid t)"

definition get_value_type :: "(bytes \<Rightarrow> bytes) \<Rightarrow> token \<Rightarrow> value_type" where
  "get_value_type h2k t =
     (if token_value t = token_key t then AS_IS_HIRAGANA
      else if token_value t = h2k (token_key t) then AS_IS_KATAKANA
      else DEFAULT_VALUE)"

text \<open>\<open>ReadTokens\<close>: a stable sort by key, then the tokens of one key are grouped.\<close>

definition new_key_info :: "bytes \<Rightarrow> key_info" where
  "new_key_info key = \<lparr>ki_key = key, id_in_key_trie = -1, ki_tokens = []\<rparr>"

definition add_token :: "(bytes \<Rightarrow> bytes) \<Rightarrow> token \<Rightarrow> key_info \<Rightarrow> key_info" where
  "add_token h2k t ki = ki\<lparr>ki_tokens := ki_tokens ki @ [(clear_info t)\<lparr>info_value_type := get_value_type h2k t\<rparr>]\<rparr>"

fun group_tokens :: "(bytes \<Rightarrow> bytes) \<Rightarrow> key_info \<Rightarrow> token list \<Rightarrow> key_info list" where
  "group_tokens h2k last_key_info [] = [last_key_info]"
| "group_tokens h2k last_key_info (t # ts) =
     (if ki_key last_key_info \<noteq> token_key t
      then last_key_info # group_tokens h2k (add_token h2k t (new_key_info (token_key t))) ts
      else group_tokens h2k (add_token h2k t last_key_info) ts)"

definition read_tokens :: "(bytes \<Rightarrow> bytes) \<Rightarrow> token list \<Rightarrow> key_info list option" where
  "read_tokens h2k tokens =
     (if list_ex (\<lambda>t. token_key t = [] \<or> token_value t = []) tokens then None
      else Some (case sort_key token_key tokens of
                   [] \<Rightarrow> []
                 | t # ts \<Rightarrow> group_tokens h2k (new_key_info (token_key t)) (t # ts)))"

abbreviation all_infos :: "key_info list \<Rightarrow> token_info list" where
  "all_infos kis \<equiv> concat (map ki_tokens kis)"

text \<open>A \<open>btree_map\<close> that counts: its entries in the order of the keys.\<close>

definition histogram :: "'a::linorder list \<Rightarrow> ('a \<times> nat) list" where
  "histogram xs = map (\<lambda>x. (x, count_list xs x)) (remdups_adj (sort xs))"

fun freq_threshold :: "(nat \<times> nat) list \<Rightarrow> nat \<Rightarrow> nat \<Rightarrow> nat \<times> nat" where
  "freq_threshold [] num_freq_pos threshold = (num_freq_pos, threshold)"
| "freq_threshold ((freq, n) # freqs) num_freq_pos threshold =
     (if 255 < num_freq_pos + n then (num_freq_pos, threshold)
      else freq_threshold freqs (num_freq_pos + n) freq)"

definition INT_MAX :: nat where
  "INT_MAX = 2 ^ 31 - 1"

definition build_frequent_pos :: "key_info list \<Rightarrow> (32 word \<times> nat) list option" where
  "build_frequent_pos kis =
     (let pos_map = histogram (map (\<lambda>info. token_pos (info_token info)) (all_infos kis));
          (num_freq_pos, threshold) = freq_threshold (rev (histogram (map snd pos_map))) 0 INT_MAX;
          frequent = filter (\<lambda>(pos, freq). threshold \<le> freq) pos_map
      in if length frequent \<noteq> num_freq_pos then None
         else Some (zip (map fst frequent) [0..<length frequent]))"

definition in_value_trie :: "token_info \<Rightarrow> bool" where
  "in_value_trie info \<longleftrightarrow> info_value_type info \<noteq> AS_IS_HIRAGANA \<and> info_value_type info \<noteq> AS_IS_KATAKANA"

definition build_value_trie :: "key_info list \<Rightarrow> trie_builder \<Rightarrow> trie_builder option" where
  "build_value_trie kis b =
     Option.bind (add_words (map (\<lambda>info. encode_value (token_value (info_token info))) (filter in_value_trie (all_infos kis))) b)
       builder_build"

definition build_key_trie :: "key_info list \<Rightarrow> trie_builder \<Rightarrow> trie_builder option" where
  "build_key_trie kis b = Option.bind (add_words (map (\<lambda>ki. encode_decode_key (ki_key ki)) kis) b) builder_build"

definition set_id_for_value :: "trie_builder \<Rightarrow> key_info \<Rightarrow> key_info option" where
  "set_id_for_value b ki =
     map_option (\<lambda>infos. ki\<lparr>ki_tokens := infos\<rparr>)
       (those (map (\<lambda>info. map_option (\<lambda>i. info\<lparr>id_in_value_trie := i\<rparr>) (get_id b (encode_value (token_value (info_token info)))))
          (ki_tokens ki)))"

definition set_id_for_key :: "trie_builder \<Rightarrow> key_info \<Rightarrow> key_info option" where
  "set_id_for_key b ki = map_option (\<lambda>i. ki\<lparr>id_in_key_trie := i\<rparr>) (get_id b (encode_decode_key (ki_key ki)))"

text \<open>The order of \<open>SortTokenInfo\<close>: lid and rid descending, then the value id and the attributes.\<close>

definition token_order :: "token_info \<Rightarrow> int list" where
  "token_order info =
     [- uint (token_lid (info_token info)), - uint (token_rid (info_token info)), id_in_value_trie info,
      uint (token_attributes (info_token info))]"

definition sort_token_info :: "key_info \<Rightarrow> key_info" where
  "sort_token_info ki = ki\<lparr>ki_tokens := sort_key token_order (ki_tokens ki)\<rparr>"

text \<open>\<open>SetCostType\<close>: the values with several readings, and the keys whose tokens may use the small encoding.\<close>

fun scan_heterophones :: "token_info list \<Rightarrow> bytes list \<times> (bytes \<rightharpoonup> bytes) \<Rightarrow> bytes list \<times> (bytes \<rightharpoonup> bytes)" where
  "scan_heterophones [] st = st"
| "scan_heterophones (info # infos) (heterophones, seen) =
     (let t = info_token info in
      scan_heterophones infos
        (if token_value t \<in> set heterophones then (heterophones, seen)
         else case seen (token_value t) of
                None \<Rightarrow> (heterophones, seen(token_value t \<mapsto> token_key t))
              | Some reading \<Rightarrow>
                  if reading = token_key t then (heterophones, seen)
                  else (token_value t # heterophones, seen)))"

fun has_repeated_pos :: "32 word list \<Rightarrow> token_info list \<Rightarrow> bool" where
  "has_repeated_pos seen [] = False"
| "has_repeated_pos seen (info # infos) =
     (let pos = token_pos (info_token info) in
      if pos \<in> set seen then True else has_repeated_pos (pos # seen) infos)"

definition has_homonyms_in_same_pos :: "key_info \<Rightarrow> bool" where
  "has_homonyms_in_same_pos ki = (if length (ki_tokens ki) = 1 then False else has_repeated_pos [] (ki_tokens ki))"

definition has_heterophones :: "bytes list \<Rightarrow> key_info \<Rightarrow> bool" where
  "has_heterophones heterophones ki =
     list_ex (\<lambda>info. token_value (info_token info) \<in> set heterophones) (ki_tokens ki)"

definition set_cost_type :: "nat \<Rightarrow> bytes list \<Rightarrow> key_info \<Rightarrow> key_info" where
  "set_cost_type min_key_len heterophones ki =
     (if chars_len (ki_key ki) < min_key_len \<or> has_homonyms_in_same_pos ki \<or> has_heterophones heterophones ki then ki
      else ki\<lparr>ki_tokens := map (\<lambda>info.
             if token_cost (info_token info) < 0x100 then info
             else info\<lparr>info_cost_type := CAN_USE_SMALL_ENCODING\<rparr>) (ki_tokens ki)\<rparr>)"

fun set_pos_types :: "(32 word \<times> nat) list \<Rightarrow> token_info option \<Rightarrow> token_info list \<Rightarrow> token_info list" where
  "set_pos_types frequent prev [] = []"
| "set_pos_types frequent prev (info # infos) =
     (let pos = token_pos (info_token info);
          info1 = (case map_of frequent pos of
                     None \<Rightarrow> info
                   | Some i \<Rightarrow> info\<lparr>info_pos_type := FREQUENT_POS, id_in_frequent_pos_map := int i\<rparr>);
          info2 = (case prev of
                     None \<Rightarrow> info1
                   | Some p \<Rightarrow> if token_pos (info_token p) = pos then info1\<lparr>info_pos_type := SAME_AS_PREV_POS\<rparr> else info1)
      in info2 # set_pos_types frequent (Some info2) infos)"

fun set_value_types :: "token_info option \<Rightarrow> token_info list \<Rightarrow> token_info list" where
  "set_value_types prev [] = []"
| "set_value_types prev (info # infos) =
     (let info1 = (case prev of
                     None \<Rightarrow> info
                   | Some p \<Rightarrow>
                       if in_value_trie info \<and> token_value (info_token info) = token_value (info_token p)
                       then info\<lparr>info_value_type := SAME_AS_PREV_VALUE\<rparr> else info)
      in info1 # set_value_types (Some info1) infos)"

text \<open>\<open>BuildTokenArray\<close>: the token lists in the order of the key ids, and the termination flag behind them.\<close>

fun fill_table :: "key_info list \<Rightarrow> key_info option list \<Rightarrow> key_info option list option" where
  "fill_table [] table = Some table"
| "fill_table (ki # kis) table =
     (if 0 \<le> id_in_key_trie ki \<and> nat (id_in_key_trie ki) < length table
      then fill_table kis (table[nat (id_in_key_trie ki) := Some ki]) else None)"

definition bytes_of_words :: "byte list \<Rightarrow> bytes" where
  "bytes_of_words ws = map (\<lambda>w. chr_of (unat w)) ws"

definition words_of_bytes :: "bytes \<Rightarrow> byte list" where
  "words_of_bytes s = map (\<lambda>c. word_of_nat (ord_of c)) s"

definition build_token_array :: "key_info list \<Rightarrow> array_builder \<Rightarrow> array_builder option" where
  "build_token_array kis b =
     Option.bind (fill_table kis (replicate (length kis) None)) (\<lambda>table.
     Option.bind (those table) (\<lambda>by_id.
     Option.bind (those (map (\<lambda>ki. encode_tokens (ki_tokens ki)) by_id)) (\<lambda>encoded.
     Option.bind (add_elements (map bytes_of_words encoded) b) (\<lambda>b1.
     Option.bind (array_add (bytes_of_words [kTokenTerminationFlag]) b1) array_build))))"

text \<open>\<open>BuildFromTokensInternal\<close>.\<close>

definition build_from_tokens ::
  "(bytes \<Rightarrow> bytes) \<Rightarrow> nat \<Rightarrow> token list \<Rightarrow> dict_builder \<Rightarrow> dict_builder option" where
  "build_from_tokens h2k min_key_len tokens b =
     Option.bind (read_tokens h2k tokens) (\<lambda>kis.
     Option.bind (build_frequent_pos kis) (\<lambda>frequent.
     Option.bind (build_value_trie kis (value_trie_builder b)) (\<lambda>vb.
     Option.bind (build_key_trie kis (key_trie_builder b)) (\<lambda>kb.
     Option.bind (those (map (set_id_for_value vb) kis)) (\<lambda>kis1.
     Option.bind (those (map (set_id_for_key kb) kis1)) (\<lambda>kis2.
       let kis3 = map sort_token_info kis2;
           heterophones = fst (scan_heterophones (all_infos kis3) ([], Map.empty));
           kis4 = map (set_cost_type min_key_len heterophones) kis3;
           kis5 = map (\<lambda>ki. ki\<lparr>ki_tokens := set_pos_types frequent None (ki_tokens ki)\<rparr>) kis4;
           kis6 = map (\<lambda>ki. ki\<lparr>ki_tokens := set_value_types None (ki_tokens ki)\<rparr>) kis5
       in map_option
            (\<lambda>ab. b\<lparr>value_trie_builder := vb, key_trie_builder := kb, token_array_builder := ab, frequent_pos := frequent\<rparr>)
            (build_token_array kis6 (token_array_builder b))))))))"

text \<open>The sections of \<open>WriteToStream\<close>.\<close>

record dict_sections =
  value_section :: bytes
  key_section :: bytes
  token_section :: bytes
  pos_section :: "32 word list"

definition frequent_pos_array :: "(32 word \<times> nat) list \<Rightarrow> 32 word list" where
  "frequent_pos_array frequent = fold (\<lambda>(pos, i) arr. arr[i := pos]) frequent (replicate 256 0)"

definition write_sections :: "dict_builder \<Rightarrow> dict_sections option" where
  "write_sections b =
     Option.bind (image_of (value_trie_builder b)) (\<lambda>v.
     Option.bind (image_of (key_trie_builder b)) (\<lambda>k.
     if array_built (token_array_builder b)
     then Some \<lparr>value_section = v, key_section = k, token_section = array_image (token_array_builder b),
                pos_section = frequent_pos_array (frequent_pos b)\<rparr>
     else None))"

section \<open>The tokens of a key\<close>

definition after_read :: "(bytes \<Rightarrow> bytes) \<Rightarrow> token \<Rightarrow> token_info" where
  "after_read h2k t = (clear_info t)\<lparr>info_value_type := get_value_type h2k t\<rparr>"

definition key_group :: "(bytes \<Rightarrow> bytes) \<Rightarrow> token list \<Rightarrow> bytes \<Rightarrow> key_info" where
  "key_group h2k tokens key =
     \<lparr>ki_key = key, id_in_key_trie = -1, ki_tokens = map (after_read h2k) (filter (\<lambda>t. token_key t = key) tokens)\<rparr>"

lemma sorted_keys_Cons:
  "sorted (map f (t # ts)) \<Longrightarrow>
     remdups_adj (map f (t # ts)) = f t # remdups_adj (map f (filter (\<lambda>t'. f t' \<noteq> f t) ts))"
proof (induction ts)
  case (Cons u us)
  show ?case
  proof (cases "f u = f t")
    case True
    then show ?thesis using Cons by simp
  next
    case False
    then have "f t < f u" using Cons.prems by auto
    then have "filter (\<lambda>t'. f t' \<noteq> f t) us = us" using Cons.prems by (intro filter_True) auto
    then show ?thesis using False by simp
  qed
qed simp

lemma group_tokens_groups:
  "sorted (map token_key ts) \<Longrightarrow> \<forall>t \<in> set ts. ki_key cur \<le> token_key t \<Longrightarrow>
     group_tokens h2k cur ts =
       cur\<lparr>ki_tokens := ki_tokens cur @ map (after_read h2k) (filter (\<lambda>t. token_key t = ki_key cur) ts)\<rparr>
       # map (key_group h2k ts) (remdups_adj (map token_key (filter (\<lambda>t. token_key t \<noteq> ki_key cur) ts)))"
proof (induction h2k cur ts rule: group_tokens.induct)
  case (2 h2k cur t ts)
  show ?case
  proof (cases "ki_key cur = token_key t")
    case True
    have "\<forall>t' \<in> set ts. ki_key (add_token h2k t cur) \<le> token_key t'" using 2(3,4) True by (simp add: add_token_def)
    moreover have "sorted (map token_key ts)" using 2(3) by simp
    ultimately have ih: "group_tokens h2k (add_token h2k t cur) ts =
       cur\<lparr>ki_tokens := (ki_tokens cur @ [after_read h2k t]) @ map (after_read h2k) (filter (\<lambda>t. token_key t = ki_key cur) ts)\<rparr>
       # map (key_group h2k ts) (remdups_adj (map token_key (filter (\<lambda>t. token_key t \<noteq> ki_key cur) ts)))"
      using 2(2) True by (simp add: add_token_def after_read_def)
    have "key_group h2k (t # ts) k = key_group h2k ts k" if "k \<in> set (map token_key (filter (\<lambda>t. token_key t \<noteq> ki_key cur) ts))" for k
      using that True by (auto simp: key_group_def)
    then have "map (key_group h2k (t # ts)) (remdups_adj (map token_key (filter (\<lambda>t. token_key t \<noteq> ki_key cur) ts))) =
        map (key_group h2k ts) (remdups_adj (map token_key (filter (\<lambda>t. token_key t \<noteq> ki_key cur) ts)))"
      by (intro map_cong) auto
    then show ?thesis using ih True by simp
  next
    case False
    let ?next = "add_token h2k t (new_key_info (token_key t))"
    have "\<forall>t' \<in> set ts. ki_key ?next \<le> token_key t'" using 2(3) by (simp add: add_token_def new_key_info_def)
    moreover have "sorted (map token_key ts)" using 2(3) by simp
    ultimately have ih: "group_tokens h2k ?next ts =
       key_group h2k (t # ts) (token_key t)
       # map (key_group h2k ts) (remdups_adj (map token_key (filter (\<lambda>t'. token_key t' \<noteq> token_key t) ts)))"
      using 2(1) False by (simp add: add_token_def after_read_def new_key_info_def key_group_def)
    have lt: "ki_key cur < token_key t'" if "t' \<in> set (t # ts)" for t'
      using 2(3,4) False that by (auto intro: le_neq_trans less_le_trans)
    have none: "filter (\<lambda>t'. token_key t' = ki_key cur) (t # ts) = []"
      "filter (\<lambda>t'. token_key t' \<noteq> ki_key cur) (t # ts) = t # ts"
    proof -
      have "\<forall>x \<in> set (t # ts). token_key x \<noteq> ki_key cur" using lt less_irrefl by metis
      then show "filter (\<lambda>t'. token_key t' = ki_key cur) (t # ts) = []" "filter (\<lambda>t'. token_key t' \<noteq> ki_key cur) (t # ts) = t # ts"
        by (intro filter_False filter_True; simp)+
    qed
    have r: "remdups_adj (map token_key (t # ts)) = token_key t # remdups_adj (map token_key (filter (\<lambda>t'. token_key t' \<noteq> token_key t) ts))"
      by (rule sorted_keys_Cons) (rule 2(3))
    have "key_group h2k (t # ts) k = key_group h2k ts k" if "k \<in> set (map token_key (filter (\<lambda>t'. token_key t' \<noteq> token_key t) ts))" for k
      using that by (auto simp: key_group_def)
    then have m: "map (key_group h2k (t # ts)) (remdups_adj (map token_key (filter (\<lambda>t'. token_key t' \<noteq> token_key t) ts))) =
        map (key_group h2k ts) (remdups_adj (map token_key (filter (\<lambda>t'. token_key t' \<noteq> token_key t) ts)))"
      by (intro map_cong) auto
    show ?thesis unfolding none unfolding r unfolding list.map m using ih False by simp
  qed
qed simp

lemma read_tokens_groups:
  assumes "\<forall>t \<in> set tokens. token_key t \<noteq> [] \<and> token_value t \<noteq> []"
  shows "read_tokens h2k tokens = Some (map (key_group h2k tokens) (remdups_adj (sort (map token_key tokens))))"
proof (cases "sort_key token_key tokens")
  case Nil
  then have "tokens = []" by (metis length_0_conv length_sort)
  then show ?thesis by (simp add: read_tokens_def)
next
  case (Cons t ts)
  define xs where "xs = sort_key token_key tokens"
  have xs: "xs = t # ts" using Cons by (simp add: xs_def)
  have s: "sorted (map token_key xs)" by (simp add: xs_def)
  then have "\<forall>t' \<in> set xs. ki_key (new_key_info (token_key t)) \<le> token_key t'" by (auto simp: xs new_key_info_def)
  note g = group_tokens_groups [OF s this, of h2k]
  have k: "key_group h2k xs k = key_group h2k tokens k" for k
    by (simp add: key_group_def xs_def sort_key_stable)
  have keys: "sort (map token_key tokens) = map token_key xs"
    by (rule properties_for_sort) (simp_all add: xs_def mset_map)
  have "group_tokens h2k (new_key_info (token_key t)) xs =
      key_group h2k xs (token_key t) # map (key_group h2k xs) (remdups_adj (map token_key (filter (\<lambda>t'. token_key t' \<noteq> token_key t) ts)))"
    unfolding g by (simp add: key_group_def new_key_info_def xs)
  also have "\<dots> = map (key_group h2k xs) (remdups_adj (map token_key xs))"
    using sorted_keys_Cons [of token_key t ts] s unfolding xs by simp
  also have "\<dots> = map (key_group h2k tokens) (remdups_adj (sort (map token_key tokens)))"
    unfolding keys using k by simp
  finally have "group_tokens h2k (new_key_info (token_key t)) (t # ts) =
      map (key_group h2k tokens) (remdups_adj (sort (map token_key tokens)))" by (simp only: xs)
  then show ?thesis using assms Cons by (simp add: read_tokens_def list_ex_iff)
qed

section \<open>Frequent pos pairs\<close>

lemma histogram_keys: "map fst (histogram xs) = remdups_adj (sort xs)"
  by (simp add: histogram_def comp_def)

lemma distinct_remdups_adj_sort: "distinct (remdups_adj (sort xs))" for xs :: "'a::linorder list"
  using strict_sorted_iff sorted_remdups_strict [of "sort xs"] by auto

lemma histogram_sum:
  "sum_list (map snd (filter (\<lambda>(x, n). P x) (histogram xs))) = length (filter P xs)" for xs :: "'a::linorder list"
proof -
  have "sum_list (map snd (filter (\<lambda>(x, n). P x) (histogram xs))) = sum_list (map (count_list xs) (filter P (remdups_adj (sort xs))))"
    by (simp add: histogram_def filter_map comp_def)
  also have "\<dots> = sum (count_list xs) (set (filter P (remdups_adj (sort xs))))"
    by (rule sum_list_distinct_conv_sum_set) (simp add: distinct_remdups_adj_sort)
  also have "\<dots> = sum (count_list xs) {x \<in> set xs. P x}" by (simp add: set_filter)
  also have "\<dots> = length (filter P xs)"
  proof -
    have c: "count_list (filter P xs) x = (if P x then count_list xs x else 0)" for x by (induction xs) auto
    have "length (filter P xs) = sum (count_list (filter P xs)) (set (filter P xs))" by (simp add: sum_count_set)
    also have "\<dots> = sum (count_list xs) {x \<in> set xs. P x}" by (intro sum.cong) (auto simp: c)
    finally show ?thesis by simp
  qed
  finally show ?thesis .
qed

lemma freq_threshold_counts:
  assumes "freq_threshold l num thr = (num', thr')" "sorted_wrt (>) (map fst l)" "\<forall>(f, n) \<in> set l. f < thr" "num \<le> 255"
  shows "num' = num + sum_list (map snd (filter (\<lambda>(f, n). thr' \<le> f) l)) \<and> thr' \<le> thr \<and> num' \<le> 255"
  using assms
proof (induction l num thr rule: freq_threshold.induct)
  case (2 freq n freqs num thr)
  show ?case
  proof (cases "255 < num + n")
    case True
    then have r: "num' = num" "thr' = thr" using 2(2) by simp_all
    have "filter (\<lambda>(f, n). thr' \<le> f) ((freq, n) # freqs) = []" using 2(4) r by (intro filter_False) auto
    then show ?thesis using r 2(5) by simp
  next
    case False
    have "\<forall>(f, n) \<in> set freqs. f < freq" using 2(3) by auto
    then have "num' = (num + n) + sum_list (map snd (filter (\<lambda>(f, n). thr' \<le> f) freqs)) \<and> thr' \<le> freq \<and> num' \<le> 255"
      using 2(1) [OF False] 2(2,3) False by simp
    then show ?thesis using 2(4) by auto
  qed
qed simp

lemma build_frequent_pos_ok:
  assumes "length (all_infos kis) < INT_MAX"
  shows "\<exists>frequent. build_frequent_pos kis = Some frequent \<and> length frequent \<le> 255 \<and> distinct (map fst frequent) \<and>
     map snd frequent = [0..<length frequent]"
proof -
  define ps where "ps = map (\<lambda>info. token_pos (info_token info)) (all_infos kis)"
  define pm where "pm = histogram ps"
  define fm where "fm = rev (histogram (map snd pm))"
  obtain num thr where r: "freq_threshold fm 0 INT_MAX = (num, thr)" by (cases "freq_threshold fm 0 INT_MAX")
  have "map fst fm = rev (remdups_adj (sort (map snd pm)))" by (simp add: fm_def histogram_keys flip: rev_map)
  then have s: "sorted_wrt (>) (map fst fm)"
    using sorted_remdups_strict [of "sort (map snd pm)"] by (simp add: sorted_wrt_rev)
  have "f < INT_MAX" if "(f, n) \<in> set fm" for f n
  proof -
    have "f \<in> set (map fst fm)" using that by force
    then have "f \<in> snd ` set pm" unfolding \<open>map fst fm = _\<close> by simp
    then obtain x where "f = count_list ps x" by (auto simp: pm_def histogram_def)
    then have "f \<le> length ps" by (simp add: count_le_length)
    then show ?thesis using assms by (simp add: ps_def)
  qed
  then have c: "num = sum_list (map snd (filter (\<lambda>(f, n). thr \<le> f) fm))" "num \<le> 255"
    using freq_threshold_counts [OF r s] by auto
  have "sum_list (map snd (filter (\<lambda>(f, n). thr \<le> f) fm)) = sum_list (map snd (filter (\<lambda>(f, n). thr \<le> f) (histogram (map snd pm))))"
    by (simp add: fm_def flip: rev_filter rev_map)
  also have "\<dots> = length (filter (\<lambda>f. thr \<le> f) (map snd pm))" by (rule histogram_sum)
  also have "\<dots> = length (filter (\<lambda>(pos, freq). thr \<le> freq) pm)" by (simp add: filter_map comp_def case_prod_unfold)
  finally have n: "length (filter (\<lambda>(pos, freq). thr \<le> freq) pm) = num" using c(1) by simp
  define fr where "fr = filter (\<lambda>(pos, freq). thr \<le> freq) pm"
  have "distinct (map fst pm)" unfolding pm_def histogram_keys by (rule distinct_remdups_adj_sort)
  then have "distinct (map fst fr)" by (simp add: fr_def distinct_map_filter)
  moreover have "build_frequent_pos kis = Some (zip (map fst fr) [0..<length fr])"
    using r n by (simp add: build_frequent_pos_def fr_def pm_def ps_def fm_def Let_def)
  ultimately show ?thesis using n c(2) by (simp add: fr_def)
qed

section \<open>Ids of the tries\<close>

lemma filter_takeWhile_ne: "P w \<Longrightarrow> filter P (takeWhile (\<lambda>u. u \<noteq> w) xs) = takeWhile (\<lambda>u. u \<noteq> w) (filter P xs)"
  by (induction xs) auto

lemma takeWhile_shorter: "w \<in> set xs \<Longrightarrow> length (takeWhile (\<lambda>u. u \<noteq> w) xs) < length xs"
  by (induction xs) auto

lemma key_id_index:
  assumes "finite W" "w \<in> W"
  shows "key_id W w < card W" and "filter (\<lambda>u. u \<in> W) (trie_nodes W) ! key_id W w = w"
proof -
  let ?fs = "filter (\<lambda>u. u \<in> W) (trie_nodes W)"
  have k: "key_id W w = length (takeWhile (\<lambda>u. u \<noteq> w) ?fs)" using assms(2) by (simp add: key_id_def filter_takeWhile_ne)
  have s: "set ?fs = W" using assms(1) by (auto simp: set_trie_nodes)
  moreover have "distinct ?fs" using distinct_trie_nodes assms(1) by simp
  ultimately have l: "length ?fs = card W" by (metis distinct_card)
  have "w \<in> set ?fs" using s assms(2) by simp
  then have lt: "key_id W w < length ?fs" unfolding k by (rule takeWhile_shorter)
  then show "key_id W w < card W" using l by simp
  show "?fs ! key_id W w = w" using nth_length_takeWhile [of "\<lambda>u. u \<noteq> w" ?fs] lt unfolding k by simp
qed

section \<open>What is stored for a key\<close>

text \<open>The infos of a key as they are encoded, behind a token \<open>prev\<close>: every way to leave out the pos or the value
  is justified by the token before, the tables or the key.\<close>

definition pos_ok :: "(32 word \<times> nat) list \<Rightarrow> token option \<Rightarrow> token_info \<Rightarrow> bool" where
  "pos_ok frequent prev info \<longleftrightarrow>
     (case info_pos_type info of
        DEFAULT_POS \<Rightarrow> True
      | FREQUENT_POS \<Rightarrow> \<exists>n. map_of frequent (token_pos (info_token info)) = Some n \<and> id_in_frequent_pos_map info = int n
      | SAME_AS_PREV_POS \<Rightarrow> \<exists>p. prev = Some p \<and> token_pos p = token_pos (info_token info))"

definition value_ok :: "(bytes \<Rightarrow> bytes) \<Rightarrow> bytes set \<Rightarrow> token option \<Rightarrow> token_info \<Rightarrow> bool" where
  "value_ok h2k W prev info \<longleftrightarrow>
     (let t = info_token info in
      case info_value_type info of
        AS_IS_HIRAGANA \<Rightarrow> token_value t = token_key t
      | AS_IS_KATAKANA \<Rightarrow> token_value t = h2k (token_key t)
      | SAME_AS_PREV_VALUE \<Rightarrow> \<exists>p. prev = Some p \<and> token_value p = token_value t
      | DEFAULT_VALUE \<Rightarrow> encode_value (token_value t) \<in> W \<and> id_in_value_trie info = int (key_id W (encode_value (token_value t))))"

definition info_ok :: "(bytes \<Rightarrow> bytes) \<Rightarrow> bytes set \<Rightarrow> (32 word \<times> nat) list \<Rightarrow> token option \<Rightarrow> token_info \<Rightarrow> bool" where
  "info_ok h2k W frequent prev info \<longleftrightarrow>
     pos_ok frequent prev info \<and> value_ok h2k W prev info \<and>
     (info_cost_type info = CAN_USE_SMALL_ENCODING \<longrightarrow> 0x100 \<le> token_cost (info_token info))"

fun infos_ok :: "(bytes \<Rightarrow> bytes) \<Rightarrow> bytes set \<Rightarrow> (32 word \<times> nat) list \<Rightarrow> token option \<Rightarrow> token_info list \<Rightarrow> bool" where
  "infos_ok h2k W frequent prev [] = True"
| "infos_ok h2k W frequent prev (info # infos) =
     (info_ok h2k W frequent prev info \<and> infos_ok h2k W frequent (Some (info_token info)) infos)"

text \<open>Before the types are set: no pos type, and a value type that looks at the key only.\<close>

definition plain_info :: "(bytes \<Rightarrow> bytes) \<Rightarrow> bytes set \<Rightarrow> token_info \<Rightarrow> bool" where
  "plain_info h2k W info \<longleftrightarrow>
     info_pos_type info = DEFAULT_POS \<and> value_ok h2k W None info \<and>
     (info_cost_type info = CAN_USE_SMALL_ENCODING \<longrightarrow> 0x100 \<le> token_cost (info_token info))"

lemma set_pos_types_tokens: "map info_token (set_pos_types frequent prev infos) = map info_token infos"
  by (induction frequent prev infos rule: set_pos_types.induct) (auto simp: Let_def split: option.splits)

lemma set_value_types_tokens: "map info_token (set_value_types prev infos) = map info_token infos"
  by (induction prev infos rule: set_value_types.induct) (auto simp: Let_def split: option.splits)

lemma set_types_ok:
  "list_all (plain_info h2k W) infos \<Longrightarrow> map_option info_token prev = map_option info_token prev' \<Longrightarrow>
     infos_ok h2k W frequent (map_option info_token prev) (set_value_types prev' (set_pos_types frequent prev infos))"
proof (induction infos arbitrary: prev prev')
  case (Cons info infos)
  define info1 where "info1 = (case map_of frequent (token_pos (info_token info)) of
       None \<Rightarrow> info | Some i \<Rightarrow> info\<lparr>info_pos_type := FREQUENT_POS, id_in_frequent_pos_map := int i\<rparr>)"
  define info2 where "info2 = (case prev of None \<Rightarrow> info1
     | Some p \<Rightarrow> if token_pos (info_token p) = token_pos (info_token info) then info1\<lparr>info_pos_type := SAME_AS_PREV_POS\<rparr> else info1)"
  define info3 where "info3 = (case prev' of None \<Rightarrow> info2
     | Some p \<Rightarrow> if in_value_trie info2 \<and> token_value (info_token info2) = token_value (info_token p)
                then info2\<lparr>info_value_type := SAME_AS_PREV_VALUE\<rparr> else info2)"
  have eq: "set_value_types prev' (set_pos_types frequent prev (info # infos)) =
      info3 # set_value_types (Some info3) (set_pos_types frequent (Some info2) infos)"
    unfolding set_pos_types.simps Let_def set_value_types.simps info1_def info2_def info3_def by (rule refl)
  have p: "plain_info h2k W info" "list_all (plain_info h2k W) infos" using Cons.prems(1) by simp_all
  have t1: "info_token info1 = info_token info" "info_value_type info1 = info_value_type info"
    "info_cost_type info1 = info_cost_type info" "id_in_value_trie info1 = id_in_value_trie info" "pos_ok frequent None info1"
    using p(1) by (auto simp: info1_def pos_ok_def plain_info_def split: option.splits)
  have t2: "info_token info2 = info_token info" "info_value_type info2 = info_value_type info"
    "info_cost_type info2 = info_cost_type info" "id_in_value_trie info2 = id_in_value_trie info"
    "pos_ok frequent (map_option info_token prev) info2"
    using t1 by (auto simp: info2_def pos_ok_def split: option.splits pos_type.splits)
  have v: "value_ok h2k W None info2" using p(1) t2(1,2,4)
    by (cases "info_value_type info") (simp_all add: plain_info_def value_ok_def Let_def)
  have t3: "info_token info3 = info_token info" "info_cost_type info3 = info_cost_type info" "info_pos_type info3 = info_pos_type info2"
    "id_in_frequent_pos_map info3 = id_in_frequent_pos_map info2" "value_ok h2k W (map_option info_token prev) info3"
    using t2(1,3) v Cons.prems(2) by (auto simp: info3_def value_ok_def Let_def split: option.splits value_type.splits)
  have "pos_ok frequent (map_option info_token prev) info3" using t2(5) t3(1,3,4) t2(1)
    by (cases "info_pos_type info2") (simp_all add: pos_ok_def)
  then have "info_ok h2k W frequent (map_option info_token prev) info3"
    using t3 p(1) by (simp add: info_ok_def plain_info_def)
  moreover have "infos_ok h2k W frequent (map_option info_token (Some info2)) (set_value_types (Some info3) (set_pos_types frequent (Some info2) infos))"
    using Cons.IH [OF p(2), of "Some info2" "Some info3"] t2(1) t3(1) by simp
  ultimately show ?case unfolding eq using t2(1) t3(1) by simp
qed simp

section \<open>The build goes through\<close>

lemma those_nth:
  assumes "\<And>i. i < length xs \<Longrightarrow> xs ! i = Some (f i)"
  shows "those xs = Some (map f [0..<length xs])"
proof -
  have "xs = map (\<lambda>i. Some (f i)) [0..<length xs]" using assms by (intro nth_equalityI) auto
  then show ?thesis using those_map_all [of "[0..<length xs]" "\<lambda>i. Some (f i)" f] by simp
qed

lemma fill_table_fills:
  "\<forall>ki \<in> set kis. \<exists>n. id_in_key_trie ki = int n \<and> n < length table \<Longrightarrow> distinct (map id_in_key_trie kis) \<Longrightarrow>
     \<exists>table'. fill_table kis table = Some table' \<and> length table' = length table \<and>
       (\<forall>ki \<in> set kis. table' ! nat (id_in_key_trie ki) = Some ki) \<and>
       (\<forall>n. int n \<notin> id_in_key_trie ` set kis \<longrightarrow> table' ! n = table ! n)"
proof (induction kis arbitrary: table)
  case (Cons ki kis)
  then obtain n where n: "id_in_key_trie ki = int n" "n < length table" by auto
  have "\<forall>ki \<in> set kis. \<exists>m. id_in_key_trie ki = int m \<and> m < length (table[n := Some ki])" using Cons.prems(1) by simp
  moreover have "distinct (map id_in_key_trie kis)" using Cons.prems(2) by simp
  ultimately obtain table' where t: "fill_table kis (table[n := Some ki]) = Some table'" "length table' = length table"
    "\<forall>ki \<in> set kis. table' ! nat (id_in_key_trie ki) = Some ki"
    "\<forall>m. int m \<notin> id_in_key_trie ` set kis \<longrightarrow> table' ! m = table[n := Some ki] ! m"
    using Cons.IH [of "table[n := Some ki]"] by auto
  have "int n \<notin> id_in_key_trie ` set kis" using Cons.prems(2) n(1) by auto
  then have "table' ! n = Some ki" using t(4) n(2) by simp
  then show ?case using t n by (intro exI [of _ table']) auto
qed simp

lemma mset_groups:
  "distinct keys \<Longrightarrow> \<forall>t \<in> set ts. f t \<in> set keys \<Longrightarrow> mset (concat (map (\<lambda>k. filter (\<lambda>t. f t = k) ts) keys)) = mset ts"
proof (induction ts)
  case (Cons t ts)
  have "mset (concat (map (\<lambda>k. filter (\<lambda>t'. f t' = k) (t # ts)) ks)) =
      (if f t \<in> set ks then {#t#} else {#}) + mset (concat (map (\<lambda>k. filter (\<lambda>t. f t = k) ts) ks))" if "distinct ks" for ks
    using that by (induction ks) auto
  then show ?case using Cons by simp
qed simp

definition dict_input :: "token list \<Rightarrow> bool" where
  "dict_input tokens \<longleftrightarrow>
     list_all (\<lambda>t. token_key t \<noteq> [] \<and> token_value t \<noteq> [] \<and> plain_text (token_key t) \<and> plain_text (token_value t) \<and>
       unat (token_lid t) \<le> 0xfff \<and> unat (token_rid t) \<le> 0xfff \<and> 0 \<le> token_cost t \<and> token_cost t \<le> 0x7fff) tokens \<and>
     length tokens \<le> 0x3f0000 \<and>
     sum_list (map (\<lambda>t. length (encode_value (token_value t))) tokens) < 2 ^ 28 \<and>
     sum_list (map (\<lambda>t. length (encode_decode_key (token_key t))) tokens) < 2 ^ 28"

definition dict_keys :: "token list \<Rightarrow> bytes list" where
  "dict_keys tokens = remdups_adj (sort (map token_key tokens))"

lemma dict_keys_facts [simp]: "distinct (dict_keys tokens)" "set (dict_keys tokens) = token_key ` set tokens"
  by (simp_all add: dict_keys_def distinct_remdups_adj_sort)

lemma mset_group_tokens:
  "mset (map info_token (all_infos (map (key_group h2k tokens) (dict_keys tokens)))) = mset tokens"
proof -
  have "map info_token (all_infos (map (key_group h2k tokens) ks)) = concat (map (\<lambda>k. filter (\<lambda>t. token_key t = k) tokens) ks)" for ks
    by (induction ks) (simp_all add: key_group_def after_read_def clear_info_def comp_def)
  then show ?thesis using mset_groups [of "dict_keys tokens" tokens token_key] by simp
qed

lemma encode_value_nonempty: "plain_text s \<Longrightarrow> s \<noteq> [] \<Longrightarrow> encode_value s \<noteq> []"
  using value_round_trip [of s] by (auto simp: decode_value.simps [of "[]"])

lemma encode_key_nonempty: "plain_text s \<Longrightarrow> s \<noteq> [] \<Longrightarrow> encode_decode_key s \<noteq> []"
proof
  assume "plain_text s" "s \<noteq> []" "encode_decode_key s = []"
  then have "encode_decode_key [] = s" using key_round_trip [of s] by simp
  then show False using \<open>s \<noteq> []\<close> by (simp add: encode_decode_key_def utf8_to_utf32.simps [of "[]"])
qed

lemma encode_key_inj: "inj_on encode_decode_key {s. plain_text s}"
  by (rule inj_on_inverseI [of _ encode_decode_key]) (simp add: key_round_trip)

lemma sum_list_mset: "mset xs = mset ys \<Longrightarrow> sum_list (map f xs) = sum_list (map f ys)" for f :: "'a \<Rightarrow> nat"
  by (metis mset_map sum_mset_sum_list)

lemma sum_list_sub_le: "sum_list (map f (filter P xs)) \<le> sum_list (map f xs)" for f :: "'a \<Rightarrow> nat"
  by (induction xs) auto

section \<open>The words of the tries\<close>

definition value_words :: "(bytes \<Rightarrow> bytes) \<Rightarrow> token list \<Rightarrow> bytes set" where
  "value_words h2k tokens = (\<lambda>t. encode_value (token_value t)) ` {t \<in> set tokens. get_value_type h2k t = DEFAULT_VALUE}"

definition key_words :: "token list \<Rightarrow> bytes set" where
  "key_words tokens = encode_decode_key ` token_key ` set tokens"

abbreviation groups :: "(bytes \<Rightarrow> bytes) \<Rightarrow> token list \<Rightarrow> key_info list" where
  "groups h2k tokens \<equiv> map (key_group h2k tokens) (dict_keys tokens)"

lemma dict_input_token:
  assumes "dict_input tokens" "t \<in> set tokens"
  shows "token_key t \<noteq> []" "token_value t \<noteq> []" "plain_text (token_key t)" "plain_text (token_value t)"
    "unat (token_lid t) \<le> 0xfff" "unat (token_rid t) \<le> 0xfff" "0 \<le> token_cost t" "token_cost t \<le> 0x7fff"
  using assms by (auto simp: dict_input_def list_all_iff)

lemma get_value_type_cases:
  "get_value_type h2k t = DEFAULT_VALUE \<longleftrightarrow> token_value t \<noteq> token_key t \<and> token_value t \<noteq> h2k (token_key t)"
  "get_value_type h2k t \<noteq> SAME_AS_PREV_VALUE"
  by (auto simp: get_value_type_def)

lemma in_value_trie_read: "in_value_trie (after_read h2k t) \<longleftrightarrow> get_value_type h2k t = DEFAULT_VALUE"
  using get_value_type_cases(2) [of h2k t] by (cases "get_value_type h2k t") (auto simp: in_value_trie_def after_read_def)

lemma set_groups: "set (all_infos (groups h2k tokens)) = after_read h2k ` set tokens"
  by (auto simp: key_group_def)

lemma after_read_token [simp]: "info_token (after_read h2k t) = t"
  by (simp add: after_read_def clear_info_def)

lemma remdups_adj_sum: "sum_list (map f (remdups_adj xs)) \<le> sum_list (map f xs)" for f :: "'a \<Rightarrow> nat"
  by (induction xs rule: remdups_adj.induct) auto

lemma dict_keys_sum: "sum_list (map f (dict_keys tokens)) \<le> sum_list (map (\<lambda>t. f (token_key t)) tokens)" for f :: "bytes \<Rightarrow> nat"
proof -
  have "sum_list (map f (dict_keys tokens)) \<le> sum_list (map f (sort (map token_key tokens)))"
    unfolding dict_keys_def by (rule remdups_adj_sum)
  also have "\<dots> = sum_list (map f (map token_key tokens))" by (rule sum_list_mset) simp
  finally show ?thesis by (simp add: comp_def)
qed

lemma card_value_words: "card (value_words h2k tokens) \<le> length tokens"
proof -
  have "card (value_words h2k tokens) \<le> card (set tokens)"
    unfolding value_words_def by (rule surj_card_le [where f = "\<lambda>t. encode_value (token_value t)"]) (auto intro: finite_subset)
  then show ?thesis using card_length [of tokens] by simp
qed

lemma value_trie_built:
  assumes d: "dict_input tokens"
  shows "\<exists>vb vt. build_value_trie (groups h2k tokens) new_builder = Some vb \<and> built_from vb (value_words h2k tokens) \<and>
    trie_open (builder_image vb) c0 c1 s0 s1 t1 = Some vt \<and> represents vt (value_words h2k tokens) \<and> image_fits (builder_image vb)"
proof -
  define ws where "ws = map (\<lambda>info. encode_value (token_value (info_token info))) (filter in_value_trie (all_infos (groups h2k tokens)))"
  have set_ws: "set ws = value_words h2k tokens"
  proof -
    have "{info \<in> after_read h2k ` set tokens. in_value_trie info} = after_read h2k ` {t \<in> set tokens. get_value_type h2k t = DEFAULT_VALUE}"
      using in_value_trie_read by auto
    then show ?thesis unfolding ws_def value_words_def set_map set_filter set_groups by (simp add: image_image)
  qed
  have "encode_value (token_value t) \<noteq> []" if "t \<in> set tokens" for t
    using dict_input_token [OF d that] encode_value_nonempty by blast
  then have ne: "[] \<notin> set ws" unfolding set_ws value_words_def by force
  let ?f = "\<lambda>t. length (encode_value (token_value t))"
  have "sum_list (map length ws) = sum_list (map (\<lambda>info. ?f (info_token info)) (filter in_value_trie (all_infos (groups h2k tokens))))"
    by (simp add: ws_def comp_def)
  also have "\<dots> \<le> sum_list (map (\<lambda>info. ?f (info_token info)) (all_infos (groups h2k tokens)))" by (rule sum_list_sub_le)
  also have "\<dots> = sum_list (map ?f (map info_token (all_infos (groups h2k tokens))))" by (simp add: comp_def)
  also have "\<dots> = sum_list (map ?f tokens)" by (rule sum_list_mset [OF mset_group_tokens])
  also have "\<dots> < 2 ^ 28" using d by (simp add: dict_input_def)
  finally have "sum_list (map length ws) < 2 ^ 28" .
  then obtain b vb vt where "add_words ws new_builder = Some b" "builder_build b = Some vb" "built_from vb (set ws)"
    "trie_open (builder_image vb) c0 c1 s0 s1 t1 = Some vt" "represents vt (set ws)" "image_fits (builder_image vb)"
    using build_represents [OF ne, of c0 c1 s0 s1 t1] by blast
  then show ?thesis unfolding set_ws build_value_trie_def ws_def [symmetric] by auto
qed

lemma key_trie_built:
  assumes d: "dict_input tokens"
  shows "\<exists>kb kt. build_key_trie (groups h2k tokens) new_builder = Some kb \<and> built_from kb (key_words tokens) \<and>
    trie_open (builder_image kb) c0 c1 s0 s1 t1 = Some kt \<and> represents kt (key_words tokens) \<and> image_fits (builder_image kb)"
proof -
  define ws where "ws = map encode_decode_key (dict_keys tokens)"
  have ws: "map (\<lambda>ki. encode_decode_key (ki_key ki)) (groups h2k tokens) = ws" by (simp add: ws_def key_group_def comp_def)
  have set_ws: "set ws = key_words tokens" by (simp add: ws_def key_words_def)
  have "encode_decode_key (token_key t) \<noteq> []" if "t \<in> set tokens" for t
    using dict_input_token [OF d that] encode_key_nonempty by blast
  then have ne: "[] \<notin> set ws" unfolding set_ws key_words_def by force
  have "sum_list (map length ws) = sum_list (map (\<lambda>k. length (encode_decode_key k)) (dict_keys tokens))" by (simp add: ws_def comp_def)
  also have "\<dots> < 2 ^ 28"
    using dict_keys_sum [of "\<lambda>k. length (encode_decode_key k)" tokens] d unfolding dict_input_def by linarith
  finally have "sum_list (map length ws) < 2 ^ 28" .
  then obtain b kb kt where "add_words ws new_builder = Some b" "builder_build b = Some kb" "built_from kb (set ws)"
    "trie_open (builder_image kb) c0 c1 s0 s1 t1 = Some kt" "represents kt (set ws)" "image_fits (builder_image kb)"
    using build_represents [OF ne, of c0 c1 s0 s1 t1] by blast
  then show ?thesis unfolding set_ws build_key_trie_def ws by auto
qed

section \<open>A small dictionary\<close>

text \<open>The key U+3042 with the values U+4E9C and U+3042.\<close>

definition sample_tokens :: "token list" where
  "sample_tokens = map (\<lambda>v. \<lparr>token_key = utf8_text [0x3042], token_value = utf8_text [v], token_cost = 300, token_lid = 7,
     token_rid = 8, token_attributes = 0\<rparr>) [0x4e9c, 0x3042]"

lemma sample_texts: "plain_text (utf8_text [0x3042])" "plain_text (utf8_text [0x4e9c])"
  "utf8_to_utf32 (utf8_text [0x3042]) = [0x3042]" "utf8_to_utf32 (utf8_text [0x4e9c]) = [0x4e9c]"
  by (rule plain_text_of_codes; simp)+

lemma sample_differ: "utf8_text [0x3042] \<noteq> utf8_text [0x4e9c]" "utf8_text [0x3042] \<noteq> []" "utf8_text [0x4e9c] \<noteq> []"
proof -
  show "utf8_text [0x3042] \<noteq> utf8_text [0x4e9c]"
  proof
    assume "utf8_text [0x3042] = utf8_text [0x4e9c]"
    then have "utf8_to_utf32 (utf8_text [0x3042]) = utf8_to_utf32 (utf8_text [0x4e9c])" by (rule arg_cong)
    then show False unfolding sample_texts(3,4) by simp
  qed
  have "utf8_to_utf32 [] = []" by (simp add: utf8_to_utf32.simps)
  then show "utf8_text [0x3042] \<noteq> []" "utf8_text [0x4e9c] \<noteq> []"
    using sample_texts(3,4) by (metis list.distinct(1))+
qed

lemma sample_input: "dict_input sample_tokens"
proof -
  have v: "length (encode_value (utf8_text [0x4e9c])) \<le> 4" "length (encode_value (utf8_text [0x3042])) \<le> 4"
    using encode_value_length [OF sample_texts(2)] encode_value_length [OF sample_texts(1)] unfolding sample_texts(3,4) by simp_all
  have k: "length (encode_decode_key (utf8_text [0x3042])) \<le> 10"
    unfolding encode_key_text [OF sample_texts(1)] sample_texts(3) by (simp add: utf8_spec_length)
  have "length (encode_value (utf8_text [0x4e9c])) + length (encode_value (utf8_text [0x3042])) < 2 ^ 28" using v by simp
  moreover have "length (encode_decode_key (utf8_text [0x3042])) + length (encode_decode_key (utf8_text [0x3042])) < 2 ^ 28"
    using k by simp
  ultimately show ?thesis using sample_texts(1,2) sample_differ(2,3) by (simp add: dict_input_def sample_tokens_def)
qed

lemma sample_values: "value_words id sample_tokens = {encode_value (utf8_text [0x4e9c])}"
proof -
  have "{t \<in> set sample_tokens. get_value_type id t = DEFAULT_VALUE} = {hd sample_tokens}"
    using sample_differ(1) by (auto simp: sample_tokens_def get_value_type_def)
  then show ?thesis by (simp add: value_words_def sample_tokens_def)
qed

end
