(* ===== verification/Dictionary_Store.thy ===== *)
theory Dictionary_Store
  imports Dictionary_Builder
begin

text \<open>
  What \<open>SystemDictionaryBuilder\<close> leaves behind: the build of a list of tokens in the ranges of the codec succeeds,
  the two tries represent the encoded values and keys, and the token array holds, in the order of the key ids, the
  encoded tokens of every key and the termination flag.
\<close>

section \<open>Ids\<close>

lemma those_Some [simp]: "those (map (\<lambda>x. Some (g x)) xs) = Some (map g xs)"
  by (induction xs) auto

definition trie_id :: "bytes set \<Rightarrow> bytes \<Rightarrow> int" where
  "trie_id W w = (if w \<in> W then int (key_id W w) else - 1)"

definition with_value_id :: "bytes set \<Rightarrow> token_info \<Rightarrow> token_info" where
  "with_value_id W info = info\<lparr>id_in_value_trie := trie_id W (encode_value (token_value (info_token info)))\<rparr>"

lemma set_id_for_value_built:
  "built_from vb W \<Longrightarrow> set_id_for_value vb ki = Some (ki\<lparr>ki_tokens := map (with_value_id W) (ki_tokens ki)\<rparr>)"
  by (simp add: set_id_for_value_def get_id_built with_value_id_def trie_id_def)

lemma set_id_for_key_built:
  "built_from kb K \<Longrightarrow> set_id_for_key kb ki = Some (ki\<lparr>id_in_key_trie := trie_id K (encode_decode_key (ki_key ki))\<rparr>)"
  by (simp add: set_id_for_key_def get_id_built trie_id_def)

text \<open>The key info that ends up in the token array.\<close>

definition key_info_with_ids :: "(bytes \<Rightarrow> bytes) \<Rightarrow> bytes set \<Rightarrow> bytes set \<Rightarrow> token list \<Rightarrow> bytes \<Rightarrow> key_info" where
  "key_info_with_ids h2k W K tokens key =
     \<lparr>ki_key = key, id_in_key_trie = trie_id K (encode_decode_key key),
      ki_tokens = map (with_value_id W) (map (after_read h2k) (filter (\<lambda>t. token_key t = key) tokens))\<rparr>"

definition typed_key_info ::
  "nat \<Rightarrow> bytes list \<Rightarrow> (32 word \<times> nat) list \<Rightarrow> key_info \<Rightarrow> key_info" where
  "typed_key_info n heterophones frequent ki =
     (let ki4 = set_cost_type n heterophones (sort_token_info ki) in
      ki4\<lparr>ki_tokens := set_value_types None (set_pos_types frequent None (ki_tokens ki4))\<rparr>)"

lemma set_cost_type_facts:
  "map info_token (ki_tokens (set_cost_type n het ki)) = map info_token (ki_tokens ki)"
  "id_in_key_trie (set_cost_type n het ki) = id_in_key_trie ki"
  "list_all (plain_info h2k W) (ki_tokens ki) \<Longrightarrow> list_all (plain_info h2k W) (ki_tokens (set_cost_type n het ki))"
proof -
  have p: "plain_info h2k W (info\<lparr>info_cost_type := CAN_USE_SMALL_ENCODING\<rparr>)"
    if "plain_info h2k W info" "\<not> token_cost (info_token info) < 0x100" for info
    using that by (cases "info_value_type info") (simp_all add: plain_info_def value_ok_def Let_def)
  show "map info_token (ki_tokens (set_cost_type n het ki)) = map info_token (ki_tokens ki)"
    by (auto simp: set_cost_type_def)
  show "id_in_key_trie (set_cost_type n het ki) = id_in_key_trie ki" by (simp add: set_cost_type_def)
  show "list_all (plain_info h2k W) (ki_tokens (set_cost_type n het ki))" if "list_all (plain_info h2k W) (ki_tokens ki)"
    using that p by (auto simp: set_cost_type_def list_all_iff)
qed

lemma plain_after_read:
  assumes "t \<in> set tokens"
  shows "plain_info h2k (value_words h2k tokens) (with_value_id (value_words h2k tokens) (after_read h2k t))"
proof -
  have "get_value_type h2k t = DEFAULT_VALUE \<Longrightarrow> encode_value (token_value t) \<in> value_words h2k tokens"
    using assms by (auto simp: value_words_def)
  then show ?thesis
    by (cases "get_value_type h2k t")
      (auto simp: plain_info_def value_ok_def with_value_id_def after_read_def clear_info_def trie_id_def get_value_type_def
        split: if_splits)
qed

lemma typed_infos:
  fixes h2k tokens key n het frequent K
  defines "W \<equiv> value_words h2k tokens"
  defines "ki \<equiv> typed_key_info n het frequent (key_info_with_ids h2k W K tokens key)"
  shows "infos_ok h2k W frequent None (ki_tokens ki)"
    and "mset (map info_token (ki_tokens ki)) = mset (filter (\<lambda>t. token_key t = key) tokens)"
    and "id_in_key_trie ki = trie_id K (encode_decode_key key)"
proof -
  let ?ki2 = "key_info_with_ids h2k W K tokens key"
  let ?ki4 = "set_cost_type n het (sort_token_info ?ki2)"
  have "list_all (plain_info h2k W) (ki_tokens ?ki2)"
    using plain_after_read [of _ tokens h2k] by (auto simp: key_info_with_ids_def list_all_iff W_def)
  then have "list_all (plain_info h2k W) (ki_tokens (sort_token_info ?ki2))" by (simp add: sort_token_info_def list_all_iff)
  then have "list_all (plain_info h2k W) (ki_tokens ?ki4)" by (rule set_cost_type_facts)
  then show "infos_ok h2k W frequent None (ki_tokens ki)"
    using set_types_ok [of h2k W "ki_tokens ?ki4" None None frequent] by (simp add: ki_def typed_key_info_def Let_def)
  have "map info_token (ki_tokens ki) = map info_token (ki_tokens (sort_token_info ?ki2))"
    by (simp add: ki_def typed_key_info_def Let_def set_value_types_tokens set_pos_types_tokens set_cost_type_facts)
  then have "mset (map info_token (ki_tokens ki)) = mset (map info_token (ki_tokens ?ki2))"
    by (simp add: sort_token_info_def)
  also have "map info_token (ki_tokens ?ki2) = filter (\<lambda>t. token_key t = key) tokens"
    by (simp add: key_info_with_ids_def with_value_id_def comp_def)
  finally show "mset (map info_token (ki_tokens ki)) = mset (filter (\<lambda>t. token_key t = key) tokens)" .
  show "id_in_key_trie ki = trie_id K (encode_decode_key key)"
    by (simp add: ki_def typed_key_info_def Let_def set_cost_type_facts sort_token_info_def key_info_with_ids_def)
qed

section \<open>Encoding the tokens of a key\<close>

lemma infos_ok_nth:
  "infos_ok h2k W frequent prev infos \<Longrightarrow> i < length infos \<Longrightarrow>
     info_ok h2k W frequent (if i = 0 then prev else Some (info_token (infos ! (i - 1)))) (infos ! i)"
proof (induction infos arbitrary: prev i)
  case (Cons info infos)
  show ?case
  proof (cases i)
    case (Suc j)
    then have "info_ok h2k W frequent (if j = 0 then Some (info_token info) else Some (info_token (infos ! (j - 1)))) (infos ! j)"
      using Cons.IH [of "Some (info_token info)" j] Cons.prems by simp
    then show ?thesis using Suc by (cases j) simp_all
  qed (use Cons.prems in simp)
qed simp

definition frequent_ok :: "(32 word \<times> nat) list \<Rightarrow> bool" where
  "frequent_ok frequent \<longleftrightarrow> length frequent \<le> 255 \<and> distinct (map fst frequent) \<and> map snd frequent = [0..<length frequent]"

lemma frequent_index: "frequent_ok frequent \<Longrightarrow> map_of frequent pos = Some n \<Longrightarrow> n < 255"
proof -
  assume f: "frequent_ok frequent" "map_of frequent pos = Some n"
  then have "(pos, n) \<in> set frequent" by (simp add: map_of_SomeD)
  then have "n \<in> set (map snd frequent)" by force
  then have "n \<in> set [0..<length frequent]" using f(1) by (simp only: frequent_ok_def)
  then show ?thesis using f(1) by (simp add: frequent_ok_def)
qed

lemma stored_infos_encode:
  assumes d: "dict_input tokens" and fr: "frequent_ok frequent" and W: "finite W" "card W \<le> 0x3f0000"
    and ok: "infos_ok h2k W frequent None infos" and sub: "info_token ` set infos \<subseteq> set tokens" and i: "i < length infos"
  shows "encodable_info (i = 0) (infos ! i)" and "codable (infos ! i)"
    and "info_value_type (infos ! i) = DEFAULT_VALUE \<Longrightarrow> id_in_value_trie (infos ! i) < 0x3f0000"
proof -
  let ?o = "infos ! i"
  have "info_token ?o \<in> set tokens" using sub i by auto
  note t = dict_input_token [OF d this]
  note o = infos_ok_nth [OF ok i]
  have first: "i = 0 \<Longrightarrow> info_pos_type ?o \<noteq> SAME_AS_PREV_POS \<and> info_value_type ?o \<noteq> SAME_AS_PREV_VALUE"
    using o by (auto simp: info_ok_def pos_ok_def value_ok_def Let_def)
  have fp: "info_pos_type ?o = FREQUENT_POS \<Longrightarrow> 0 \<le> id_in_frequent_pos_map ?o \<and> id_in_frequent_pos_map ?o < 256"
    using o frequent_index [OF fr] by (force simp: info_ok_def pos_ok_def)
  have v: "info_value_type ?o = DEFAULT_VALUE \<Longrightarrow> 0 \<le> id_in_value_trie ?o \<and> id_in_value_trie ?o < 0x3f0000"
  proof -
    assume "info_value_type ?o = DEFAULT_VALUE"
    then obtain w where "w \<in> W" "id_in_value_trie ?o = int (key_id W w)" using o by (auto simp: info_ok_def value_ok_def Let_def)
    then show ?thesis using key_id_index(1) [OF W(1), of w] W(2) by simp
  qed
  then show "info_value_type ?o = DEFAULT_VALUE \<Longrightarrow> id_in_value_trie ?o < 0x3f0000" by blast
  show "encodable_info (i = 0) ?o" using t first fp v by (auto simp: encodable_info_def)
  show "codable ?o" using t fp v by (auto simp: codable_def)
qed

section \<open>The token array\<close>

lemma those_map_nth:
  assumes "those (map f xs) = Some ys" "i < length xs"
  shows "f (xs ! i) = Some (ys ! i)"
  using assms
proof (induction xs arbitrary: ys i)
  case (Cons x xs)
  then show ?case by (cases i) (auto split: option.splits)
qed simp

lemma add_elements_snoc: "add_elements (es @ [e]) b = Option.bind (add_elements es b) (array_add e)"
  by (induction es arbitrary: b) (auto simp: array_add_def split: Option.bind_splits)

text \<open>The table of \<open>BuildTokenArray\<close> is filled when the ids are a numbering of the keys.\<close>

lemma table_by_id:
  assumes ids: "\<forall>ki \<in> set kis. \<exists>n. id_in_key_trie ki = int n \<and> n < length kis" and dist: "distinct (map id_in_key_trie kis)"
  shows "\<exists>by_id. Option.bind (fill_table kis (replicate (length kis) None)) those = Some by_id \<and> length by_id = length kis \<and>
     set by_id \<subseteq> set kis \<and> (\<forall>ki \<in> set kis. by_id ! nat (id_in_key_trie ki) = ki)"
proof -
  have "\<forall>ki \<in> set kis. \<exists>n. id_in_key_trie ki = int n \<and> n < length (replicate (length kis) (None :: key_info option))"
    using ids by simp
  from fill_table_fills [OF this dist] obtain table where t: "fill_table kis (replicate (length kis) None) = Some table"
    "length table = length kis" "\<forall>ki \<in> set kis. table ! nat (id_in_key_trie ki) = Some ki" by auto
  let ?ns = "map (\<lambda>ki. nat (id_in_key_trie ki)) kis"
  have "inj_on nat (set (map id_in_key_trie kis))" using ids by (auto intro!: inj_onI) (metis nat_int)
  then have "distinct (map nat (map id_in_key_trie kis))" using dist by (simp only: distinct_map simp_thms)
  then have dn: "distinct ?ns" by (simp add: comp_def)
  have "set ?ns \<subseteq> {..<length kis}" using ids by fastforce
  moreover have "card (set ?ns) = length kis" using distinct_card [OF dn] by simp
  ultimately have all: "set ?ns = {..<length kis}" by (metis card_subset_eq card_lessThan finite_lessThan)
  define f where "f = (\<lambda>n. the (table ! n))"
  have some: "table ! n = Some (f n) \<and> f n \<in> set kis" if "n < length table" for n
  proof -
    have "n \<in> set ?ns" using that t(2) all by simp
    then obtain ki where "ki \<in> set kis" "n = nat (id_in_key_trie ki)" by auto
    then show ?thesis using t(3) by (simp add: f_def)
  qed
  then have th: "those table = Some (map f [0..<length table])" by (intro those_nth) blast
  have nth: "map f [0..<length table] ! nat (id_in_key_trie ki) = ki" if "ki \<in> set kis" for ki
  proof -
    have "nat (id_in_key_trie ki) < length table" using ids that t(2) by fastforce
    then show ?thesis using t(3) that by (simp add: f_def)
  qed
  have "set (map f [0..<length table]) \<subseteq> set kis" using some by auto
  then show ?thesis using t(1,2) th nth by (intro exI [of _ "map f [0..<length table]"]) simp
qed

lemma length_bytes_of_words [simp]: "length (bytes_of_words ws) = length ws"
  by (simp add: bytes_of_words_def)

lemma words_of_bytes_of_words [simp]: "words_of_bytes (bytes_of_words ws) = ws"
proof -
  have "ord_of (chr_of (unat w)) = unat w" for w :: byte using unsigned_less [of w] by (intro byte_char) simp
  then show ?thesis by (simp add: words_of_bytes_def bytes_of_words_def comp_def)
qed

definition token_blocks :: "byte list list \<Rightarrow> bytes list" where
  "token_blocks encoded = map bytes_of_words encoded @ [bytes_of_words [kTokenTerminationFlag]]"

lemma token_array_built:
  assumes ids: "\<forall>ki \<in> set kis. \<exists>n. id_in_key_trie ki = int n \<and> n < length kis" and dist: "distinct (map id_in_key_trie kis)"
    and enc: "\<forall>ki \<in> set kis. \<exists>bs. encode_tokens (ki_tokens ki) = Some bs \<and> length bs \<le> 9 * length (ki_tokens ki)"
    and small: "sum_list (map (\<lambda>ki. length (ki_tokens ki)) kis) \<le> 0x3f0000" "length kis \<le> 0x3f0000"
  shows "\<exists>ab ta encoded. build_token_array kis new_array_builder = Some ab \<and> array_built ab \<and>
     array_open (array_image ab) = Some ta \<and> length encoded = length kis \<and>
     (\<forall>ki \<in> set kis. encode_tokens (ki_tokens ki) = Some (encoded ! nat (id_in_key_trie ki))) \<and>
     (\<forall>i < length (token_blocks encoded).
        array_pointer ta i = Some (concat (map (padded 4 1) (drop i (token_blocks encoded))))) \<and>
     image_fits (array_image ab)"
proof -
  obtain by_id where b: "Option.bind (fill_table kis (replicate (length kis) None)) those = Some by_id"
    "length by_id = length kis" "set by_id \<subseteq> set kis" "\<forall>ki \<in> set kis. by_id ! nat (id_in_key_trie ki) = ki"
    using table_by_id [OF ids dist] by blast
  define g where "g = (\<lambda>ki :: key_info. the (encode_tokens (ki_tokens ki)))"
  have g: "encode_tokens (ki_tokens ki) = Some (g ki) \<and> length (g ki) \<le> 9 * length (ki_tokens ki)" if "ki \<in> set kis" for ki
    using enc that by (fastforce simp: g_def)
  define encoded where "encoded = map g by_id"
  have th: "those (map (\<lambda>ki. encode_tokens (ki_tokens ki)) by_id) = Some encoded"
    unfolding encoded_def by (rule those_map_all) (use g b(3) in blast)
  have at: "encode_tokens (ki_tokens ki) = Some (encoded ! nat (id_in_key_trie ki))" if "ki \<in> set kis" for ki
  proof -
    have "nat (id_in_key_trie ki) < length by_id" using ids that b(2) by fastforce
    then show ?thesis using g [OF that] b(4) that by (simp add: encoded_def)
  qed
  let ?es = "token_blocks encoded"
  have "mset by_id = mset kis"
  proof -
    have "distinct kis" using dist by (simp add: distinct_map)
    have "kis \<noteq> [] \<longrightarrow> set kis \<subseteq> set by_id"
    proof (intro impI subsetI)
      fix ki assume ki: "ki \<in> set kis"
      have "nat (id_in_key_trie ki) < length by_id" using ids ki b(2) by fastforce
      then show "ki \<in> set by_id" using b(4) ki nth_mem by metis
    qed
    then have "set by_id = set kis" using b(3) by (cases "kis = []") auto
    moreover from this have "distinct by_id" using b(2) distinct_card [OF \<open>distinct kis\<close>] by (simp add: card_distinct)
    ultimately show ?thesis using \<open>distinct kis\<close> by (simp add: set_eq_iff_mset_eq_distinct)
  qed
  then have "sum_list (map (\<lambda>ki. length (ki_tokens ki)) by_id) = sum_list (map (\<lambda>ki. length (ki_tokens ki)) kis)"
    by (rule sum_list_mset)
  moreover have "sum_list (map (\<lambda>ki. length (g ki)) by_id) \<le> sum_list (map (\<lambda>ki. 9 * length (ki_tokens ki)) by_id)"
    using g b(3) by (intro sum_list_mono) blast
  moreover have "sum_list (map (\<lambda>ki. 9 * length (ki_tokens ki)) by_id) = 9 * sum_list (map (\<lambda>ki. length (ki_tokens ki)) by_id)"
    by (simp add: sum_list_const_mult)
  ultimately have "sum_list (map (\<lambda>ki. length (g ki)) by_id) \<le> 9 * 0x3f0000" using small(1) by linarith
  then have size: "length ?es + sum_list (map length ?es) < 2 ^ 26" "length ?es < 2 ^ 25"
    using small(2) b(2) by (simp_all add: token_blocks_def encoded_def comp_def)
  have steps: "sum_list (map (\<lambda>e. steps 4 1 (length e)) ?es) \<le> sum_list (map length ?es)"
    by (intro sum_list_mono steps_le) simp
  then have data: "4 * length ?es + 1 * sum_list (map (\<lambda>e. steps 4 1 (length e)) ?es) < 2 ^ 31" using size by simp
  obtain b0 ab ta where a: "Option.bind (add_elements ?es new_array_builder) (array_set_size (word_of_nat 4) (word_of_nat 1)) = Some b0"
    "array_build b0 = Some ab" "array_open (array_image ab) = Some ta"
    "\<forall>i < length ?es. array_pointer ta i = Some (concat (map (padded 4 1) (drop i ?es)))"
    "array_image ab \<noteq> []" "length (array_image ab) < 16 + 2 ^ 28 + length (concat (map (padded 4 1) ?es))"
    using array_built [of 1 4 ?es, OF _ _ _ _ _ data] size by auto
  have "add_elements ?es new_array_builder = Some (new_array_builder\<lparr>array_elements := ?es\<rparr>)"
    using add_elements_adds [of new_array_builder ?es] by (simp add: new_array_builder_def)
  then have b0: "add_elements ?es new_array_builder = Some b0"
    using a(1) by (simp add: array_set_size_def new_array_builder_def)
  then have "Option.bind (add_elements (map bytes_of_words encoded) new_array_builder) (array_add (bytes_of_words [kTokenTerminationFlag])) = Some b0"
    by (simp add: token_blocks_def add_elements_snoc)
  then have "Option.bind (add_elements (map bytes_of_words encoded) new_array_builder)
      (\<lambda>b1. Option.bind (array_add (bytes_of_words [kTokenTerminationFlag]) b1) array_build) = Some ab"
    using a(2) by (auto simp: bind_eq_Some_conv)
  then have "build_token_array kis new_array_builder = Some ab"
    using b(1) th by (auto simp: build_token_array_def bind_eq_Some_conv)
  moreover have "array_built ab" using a(2) by (auto simp: array_build_def Let_def bind_eq_Some_conv split: if_splits)
  moreover have "length encoded = length kis" using b(2) by (simp add: encoded_def)
  moreover have "length (concat (map (padded 4 1) ?es)) < 2 ^ 29"
    using length_concat_padded [of 1 4 ?es] steps size by simp
  then have "image_fits (array_image ab)" using a(5,6) by (simp add: image_fits_def)
  ultimately show ?thesis using a(3,4) at by blast
qed

section \<open>The frequent pos pairs\<close>

lemma fold_frequent:
  "distinct (map snd frequent) \<Longrightarrow> \<forall>(pos, n) \<in> set frequent. n < length arr \<Longrightarrow>
     length (fold (\<lambda>(pos, i) arr. arr[i := pos]) frequent arr) = length arr \<and>
     (\<forall>(pos, n) \<in> set frequent. fold (\<lambda>(pos, i) arr. arr[i := pos]) frequent arr ! n = pos) \<and>
     (\<forall>n. n \<notin> set (map snd frequent) \<longrightarrow> fold (\<lambda>(pos, i) arr. arr[i := pos]) frequent arr ! n = arr ! n)"
proof (induction frequent arbitrary: arr)
  case (Cons x frequent)
  obtain pos n where x: "x = (pos, n)" by fastforce
  let ?F = "fold (\<lambda>(pos, i) arr. arr[i := pos]) frequent (arr[n := pos])"
  have "distinct (map snd frequent)" "\<forall>(pos', n') \<in> set frequent. n' < length (arr[n := pos])" using Cons.prems by auto
  from Cons.IH [OF this] have ih: "length ?F = length (arr[n := pos])" "\<forall>(pos', n') \<in> set frequent. ?F ! n' = pos'"
    "\<forall>n'. n' \<notin> set (map snd frequent) \<longrightarrow> ?F ! n' = arr[n := pos] ! n'" by blast+
  have "n \<notin> set (map snd frequent)" "n < length arr" using Cons.prems x by auto
  then have "?F ! n = pos" using ih(3) by simp
  then show ?case using ih x by auto
qed simp

lemma frequent_lookup:
  assumes "frequent_ok frequent" "map_of frequent pos = Some n"
  shows "n < length (frequent_pos_array frequent)" and "frequent_pos_array frequent ! n = pos"
proof -
  have d: "distinct (map snd frequent)" using assms(1) by (simp add: frequent_ok_def)
  have r: "\<forall>(pos, n) \<in> set frequent. n < length (replicate 256 (0 :: 32 word))"
  proof clarify
    fix p m assume "(p, m) \<in> set frequent"
    then have "m \<in> set (map snd frequent)" by force
    then have "m \<in> set [0..<length frequent]" using assms(1) by (simp only: frequent_ok_def)
    then show "m < length (replicate 256 (0 :: 32 word))" using assms(1) by (simp add: frequent_ok_def)
  qed
  note f = fold_frequent [OF d r]
  have "(pos, n) \<in> set frequent" using assms(2) by (rule map_of_SomeD)
  then show "n < length (frequent_pos_array frequent)" "frequent_pos_array frequent ! n = pos"
    using f r unfolding frequent_pos_array_def by auto
qed

lemma combined_pos_parts:
  "ucast (drop_bit 16 (get_combined_pos lid rid)) = lid" "ucast (get_combined_pos lid rid AND 0xffff) = rid"
proof -
  have m: "(x :: 32 word) AND 0xffff = take_bit 16 x" for x by (simp add: take_bit_eq_mask mask_eq_exp_minus_1)
  show "ucast (drop_bit 16 (get_combined_pos lid rid)) = lid"
    unfolding get_combined_pos_def
    by (rule bit_word_eqI) (auto simp: bit_push_bit_iff bit_drop_bit_eq bit_or_iff bit_ucast_iff dest: bit_imp_le_length)
  show "ucast (get_combined_pos lid rid AND 0xffff) = rid"
    unfolding get_combined_pos_def m
    by (rule bit_word_eqI) (auto simp: bit_push_bit_iff bit_take_bit_iff bit_or_iff bit_ucast_iff)
qed

section \<open>The whole build\<close>

definition token_store :: "(bytes \<Rightarrow> bytes) \<Rightarrow> token list \<Rightarrow> (32 word \<times> nat) list \<Rightarrow> bit_vector_array \<Rightarrow> bool" where
  "token_store h2k tokens frequent ta \<longleftrightarrow>
     (\<exists>encoded infos. length encoded = card (key_words tokens) \<and>
        (\<forall>i < length (token_blocks encoded). array_pointer ta i = Some (concat (map (padded 4 1) (drop i (token_blocks encoded))))) \<and>
        (\<forall>key \<in> token_key ` set tokens.
           encode_tokens (infos key) = Some (encoded ! key_id (key_words tokens) (encode_decode_key key)) \<and>
           infos_ok h2k (value_words h2k tokens) frequent None (infos key) \<and>
           mset (map info_token (infos key)) = mset (filter (\<lambda>t. token_key t = key) tokens)))"

lemma key_words_card:
  assumes d: "dict_input tokens"
  shows "card (key_words tokens) = length (dict_keys tokens)" and "inj_on encode_decode_key (token_key ` set tokens)"
proof -
  have p: "token_key ` set tokens \<subseteq> {s. plain_text s}" using dict_input_token [OF d] by auto
  then show i: "inj_on encode_decode_key (token_key ` set tokens)" using encode_key_inj inj_on_subset by blast
  have "card (key_words tokens) = card (token_key ` set tokens)" unfolding key_words_def by (rule card_image [OF i])
  then show "card (key_words tokens) = length (dict_keys tokens)" using distinct_card [of "dict_keys tokens"] by simp
qed

lemma length_dict_keys: "length (dict_keys tokens) \<le> length tokens"
  using dict_keys_sum [of "\<lambda>_. 1" tokens] by (simp add: sum_list_triv)

lemma key_ids:
  assumes d: "dict_input tokens"
  defines "K \<equiv> key_words tokens"
  shows "key \<in> token_key ` set tokens \<Longrightarrow> trie_id K (encode_decode_key key) = int (key_id K (encode_decode_key key))"
    and "key \<in> token_key ` set tokens \<Longrightarrow> key_id K (encode_decode_key key) < length (dict_keys tokens)"
    and "inj_on (\<lambda>key. trie_id K (encode_decode_key key)) (token_key ` set tokens)"
proof -
  have fin: "finite K" by (simp add: K_def key_words_def)
  have inK: "encode_decode_key key \<in> K" if "key \<in> token_key ` set tokens" for key using that by (auto simp: K_def key_words_def)
  show t: "trie_id K (encode_decode_key key) = int (key_id K (encode_decode_key key))" if "key \<in> token_key ` set tokens" for key
    using inK [OF that] by (simp add: trie_id_def)
  show "key_id K (encode_decode_key key) < length (dict_keys tokens)" if "key \<in> token_key ` set tokens"
    using key_id_index(1) [OF fin inK [OF that]] key_words_card(1) [OF d] by (simp add: K_def)
  show "inj_on (\<lambda>key. trie_id K (encode_decode_key key)) (token_key ` set tokens)"
  proof (rule inj_onI)
    fix x y assume xy: "x \<in> token_key ` set tokens" "y \<in> token_key ` set tokens"
      "trie_id K (encode_decode_key x) = trie_id K (encode_decode_key y)"
    then have "key_id K (encode_decode_key x) = key_id K (encode_decode_key y)" using t by simp
    then have "encode_decode_key x = encode_decode_key y"
      using key_id_index(2) [OF fin inK [OF xy(1)]] key_id_index(2) [OF fin inK [OF xy(2)]] by argo
    then show "x = y" by (rule inj_onD [OF key_words_card(2) [OF d] _ xy(1,2)])
  qed
qed

lemma dictionary_built:
  assumes d: "dict_input tokens"
  shows "\<exists>b secs vt kt ta frequent. build_from_tokens h2k n tokens new_dict_builder = Some b \<and> write_sections b = Some secs \<and>
    trie_open (value_section secs) c0 c1 s0 s1 t1 = Some vt \<and> represents vt (value_words h2k tokens) \<and>
    trie_open (key_section secs) c0' c1' s0' s1' t1' = Some kt \<and> represents kt (key_words tokens) \<and>
    array_open (token_section secs) = Some ta \<and> pos_section secs = frequent_pos_array frequent \<and> frequent_ok frequent \<and>
    token_store h2k tokens frequent ta \<and> list_all image_fits [value_section secs, key_section secs, token_section secs]"
proof -
  let ?W = "value_words h2k tokens" and ?K = "key_words tokens"
  have ne: "\<forall>t \<in> set tokens. token_key t \<noteq> [] \<and> token_value t \<noteq> []" using dict_input_token [OF d] by auto
  have rd: "read_tokens h2k tokens = Some (groups h2k tokens)" using read_tokens_groups [OF ne] by (simp add: dict_keys_def)
  have len: "length tokens \<le> 0x3f0000" using d by (simp add: dict_input_def)
  have "length (all_infos (groups h2k tokens)) = length tokens"
    using arg_cong [OF mset_group_tokens [of h2k tokens], of size] by simp
  then have "length (all_infos (groups h2k tokens)) < INT_MAX" using len by (simp add: INT_MAX_def)
  from build_frequent_pos_ok [OF this] obtain frequent where fr: "build_frequent_pos (groups h2k tokens) = Some frequent" "frequent_ok frequent"
    by (auto simp: frequent_ok_def)
  obtain vb vt where v: "build_value_trie (groups h2k tokens) new_builder = Some vb" "built_from vb ?W"
    "trie_open (builder_image vb) c0 c1 s0 s1 t1 = Some vt" "represents vt ?W" "image_fits (builder_image vb)" using value_trie_built [OF d] by blast
  obtain kb kt where k: "build_key_trie (groups h2k tokens) new_builder = Some kb" "built_from kb ?K"
    "trie_open (builder_image kb) c0' c1' s0' s1' t1' = Some kt" "represents kt ?K" "image_fits (builder_image kb)" using key_trie_built [OF d] by blast
  define kis2 where "kis2 = map (key_info_with_ids h2k ?W ?K tokens) (dict_keys tokens)"
  define het where "het = fst (scan_heterophones (all_infos (map sort_token_info kis2)) ([], Map.empty))"
  define kis where "kis = map (typed_key_info n het frequent) kis2"
  have ids: "Option.bind (those (map (set_id_for_value vb) (groups h2k tokens))) (\<lambda>kis1. those (map (set_id_for_key kb) kis1)) = Some kis2"
  proof -
    let ?f = "\<lambda>ki. ki\<lparr>ki_tokens := map (with_value_id ?W) (ki_tokens ki)\<rparr>"
      and ?g = "\<lambda>ki. ki\<lparr>id_in_key_trie := trie_id ?K (encode_decode_key (ki_key ki))\<rparr>"
    have "those (map (set_id_for_value vb) (groups h2k tokens)) = Some (map ?f (groups h2k tokens))"
      by (rule those_map_all) (rule set_id_for_value_built [OF v(2)])
    moreover have "those (map (set_id_for_key kb) (map ?f (groups h2k tokens))) = Some (map ?g (map ?f (groups h2k tokens)))"
      by (rule those_map_all) (rule set_id_for_key_built [OF k(2)])
    moreover have "map ?g (map ?f (groups h2k tokens)) = kis2"
      by (simp add: kis2_def key_info_with_ids_def key_group_def)
    ultimately show ?thesis by (simp only: bind.bind_lunit)
  qed
  have typed: "map (\<lambda>ki. ki\<lparr>ki_tokens := set_value_types None (ki_tokens ki)\<rparr>)
      (map (\<lambda>ki. ki\<lparr>ki_tokens := set_pos_types frequent None (ki_tokens ki)\<rparr>) (map (set_cost_type n het) (map sort_token_info kis2))) = kis"
    by (simp add: kis_def typed_key_info_def Let_def)
  have build: "build_from_tokens h2k n tokens new_dict_builder = map_option
      (\<lambda>ab. new_dict_builder\<lparr>value_trie_builder := vb, key_trie_builder := kb, token_array_builder := ab, frequent_pos := frequent\<rparr>)
      (build_token_array kis new_array_builder)"
  proof -
    obtain kis1 where "those (map (set_id_for_value vb) (groups h2k tokens)) = Some kis1" "those (map (set_id_for_key kb) kis1) = Some kis2"
      using ids by (auto simp: bind_eq_Some_conv)
    then show ?thesis unfolding build_from_tokens_def rd bind.bind_lunit
      by (simp add: fr(1) v(1) k(1) new_dict_builder_def Let_def typed del: map_map flip: het_def)
  qed
  define info where "info = (\<lambda>key. typed_key_info n het frequent (key_info_with_ids h2k ?W ?K tokens key))"
  have info_eq: "info key = typed_key_info n het frequent (key_info_with_ids h2k ?W ?K tokens key)" for key by (simp add: info_def)
  have kis: "kis = map info (dict_keys tokens)" by (simp add: kis_def kis2_def info_def)
  note ti = typed_infos [where h2k = h2k and tokens = tokens and n = n and het = het and frequent = frequent and K = ?K, folded info_eq]
  have sub: "info_token ` set (ki_tokens (info key)) \<subseteq> set tokens" for key
  proof -
    have "set (map info_token (ki_tokens (info key))) = set (filter (\<lambda>t. token_key t = key) tokens)" by (rule mset_eq_setD [OF ti(2)])
    then show ?thesis by auto
  qed
  have fin: "finite ?W" "card ?W \<le> 0x3f0000" using card_value_words [of h2k tokens] len by (auto simp: value_words_def)
  have enc: "\<exists>bs. encode_tokens (ki_tokens (info key)) = Some bs \<and> length bs \<le> 9 * length (ki_tokens (info key))"
    if key: "key \<in> token_key ` set tokens" for key
  proof -
    have "mset (map info_token (ki_tokens (info key))) \<noteq> {#}" unfolding ti(2) using key by auto
    then have ne: "ki_tokens (info key) \<noteq> []" by auto
    note e = stored_infos_encode [OF d fr(2) fin ti(1) sub]
    show ?thesis using encode_tokens_total [OF ne e(1)] e(3) [of 0 key] ne by auto
  qed
  let ?id = "\<lambda>key. trie_id ?K (encode_decode_key key)"
  have i1: "\<forall>ki \<in> set kis. \<exists>m. id_in_key_trie ki = int m \<and> m < length kis"
    using key_ids(1,2) [OF d] by (auto simp: kis ti(3))
  have i2: "distinct (map id_in_key_trie kis)"
  proof -
    have "map id_in_key_trie kis = map ?id (dict_keys tokens)" by (simp add: kis ti(3) comp_def)
    then show ?thesis using key_ids(3) [OF d] by (simp add: distinct_map)
  qed
  have i3: "\<forall>ki \<in> set kis. \<exists>bs. encode_tokens (ki_tokens ki) = Some bs \<and> length bs \<le> 9 * length (ki_tokens ki)"
    using enc by (auto simp: kis)
  have "length (ki_tokens (info key)) = length (filter (\<lambda>t. token_key t = key) tokens)" for key
    using mset_eq_length [OF ti(2) [of key]] by simp
  then have "sum_list (map (\<lambda>ki. length (ki_tokens ki)) kis) = length (concat (map (\<lambda>key. filter (\<lambda>t. token_key t = key) tokens) (dict_keys tokens)))"
    by (simp add: kis length_concat comp_def)
  also have "\<dots> = length tokens"
    by (rule mset_eq_length) (rule mset_groups; simp)
  finally have i4: "sum_list (map (\<lambda>ki. length (ki_tokens ki)) kis) \<le> 0x3f0000" using len by simp
  have i5: "length kis \<le> 0x3f0000" using length_dict_keys [of tokens] len by (simp add: kis)
  obtain ab ta encoded where a: "build_token_array kis new_array_builder = Some ab" "array_built ab"
    "array_open (array_image ab) = Some ta" "length encoded = length kis"
    "\<forall>ki \<in> set kis. encode_tokens (ki_tokens ki) = Some (encoded ! nat (id_in_key_trie ki))"
    "\<forall>i < length (token_blocks encoded). array_pointer ta i = Some (concat (map (padded 4 1) (drop i (token_blocks encoded))))" "image_fits (array_image ab)"
    using token_array_built [OF i1 i2 i3 i4 i5] by blast
  have "encode_tokens (ki_tokens (info key)) = Some (encoded ! key_id ?K (encode_decode_key key))" if "key \<in> token_key ` set tokens" for key
  proof -
    have "info key \<in> set kis" using that by (simp add: kis)
    then show ?thesis using a(5) key_ids(1) [OF d that] by (auto simp: ti(3))
  qed
  then have "token_store h2k tokens frequent ta"
    unfolding token_store_def using a(4,6) ti(1,2) key_words_card(1) [OF d]
    by (intro exI [of _ encoded] exI [of _ "\<lambda>key. ki_tokens (info key)"]) (simp add: kis)
  then show ?thesis using build a(1-3,7) v k fr(2)
    by (intro exI [of _ "new_dict_builder\<lparr>value_trie_builder := vb, key_trie_builder := kb, token_array_builder := ab, frequent_pos := frequent\<rparr>"])
      (auto simp: write_sections_def image_of_def built_from_def)
qed

end
