(* ===== verification/System_Dictionary.thy ===== *)
theory System_Dictionary
  imports Dictionary_Store
begin

text \<open>
  \<open>SystemDictionary\<close> (\<open>dictionary/system/system_dictionary.cc\<close>, \<open>token_decode_iterator.h\<close>,
  \<open>key_expansion_table.h\<close>): opening the sections, decoding the tokens of a key, and the exact, prefix, predictive and
  reverse lookups with their callbacks.  A callback passes a state of its own along and answers how to go on.
  A read outside the images and a \<open>LOG(FATAL)\<close> are \<open>None\<close>.  \<open>japanese_util\<close> is the pair of parameters \<open>h2k\<close>
  (hiragana to katakana) and \<open>k2h\<close> (katakana to hiragana).
\<close>

section \<open>Key expansion\<close>

text \<open>\<open>KeyExpansionTable\<close>: 256 rows of 256 bits in words of 32; \<open>char\<close> is unsigned in this build.\<close>

type_synonym expansion_table = "32 word list list"

definition set_bit_at :: "char \<Rightarrow> char \<Rightarrow> expansion_table \<Rightarrow> expansion_table" where
  "set_bit_at key value table =
     (let k = ord_of key; v = ord_of value in
      table[k := (table ! k)[v div 32 := ((table ! k) ! (v div 32)) OR push_bit (v mod 32) 1]])"

definition new_expansion_table :: expansion_table where
  "new_expansion_table = fold (\<lambda>i. set_bit_at (chr_of i) (chr_of i)) [0..<256] (replicate 256 (replicate 8 0))"

definition expansion_add :: "char \<Rightarrow> bytes \<Rightarrow> expansion_table \<Rightarrow> expansion_table" where
  "expansion_add key data table = fold (set_bit_at key) data table"

definition is_hit :: "32 word list \<Rightarrow> char \<Rightarrow> bool" where
  "is_hit row value = (drop_bit (ord_of value mod 32) (row ! (ord_of value div 32)) AND 1 \<noteq> 0)"

definition expand_key :: "expansion_table \<Rightarrow> char \<Rightarrow> 32 word list" where
  "expand_key table key = table ! ord_of key"

definition kHiraganaExpansionTable :: "char32 list list" where
  "kHiraganaExpansionTable =
     [[0x3042, 0x3042, 0x3041], [0x3044, 0x3044, 0x3043], [0x3046, 0x3046, 0x3045, 0x3094],
      [0x3048, 0x3048, 0x3047], [0x304a, 0x304a, 0x3049], [0x304b, 0x304b, 0x304c],
      [0x304d, 0x304d, 0x304e], [0x304f, 0x304f, 0x3050], [0x3051, 0x3051, 0x3052],
      [0x3053, 0x3053, 0x3054], [0x3055, 0x3055, 0x3056], [0x3057, 0x3057, 0x3058],
      [0x3059, 0x3059, 0x305a], [0x305b, 0x305b, 0x305c], [0x305d, 0x305d, 0x305e],
      [0x305f, 0x305f, 0x3060], [0x3061, 0x3061, 0x3062], [0x3064, 0x3064, 0x3063, 0x3065],
      [0x3063, 0x3063, 0x3065], [0x3066, 0x3066, 0x3067], [0x3068, 0x3068, 0x3069],
      [0x306f, 0x306f, 0x3070, 0x3071], [0x3072, 0x3072, 0x3073, 0x3074], [0x3075, 0x3075, 0x3076, 0x3077],
      [0x3078, 0x3078, 0x3079, 0x307a], [0x307b, 0x307b, 0x307c, 0x307d], [0x3084, 0x3084, 0x3083],
      [0x3086, 0x3086, 0x3085], [0x3088, 0x3088, 0x3087], [0x308f, 0x308f, 0x308e]]"

definition add_expansion_row :: "char32 list \<Rightarrow> expansion_table \<Rightarrow> expansion_table" where
  "add_expansion_row row table =
     (let encoded = encode_decode_key (utf8_text row) in
      if length encoded = 1 then table else expansion_add (hd encoded) (tl encoded) table)"

definition build_hiragana_expansion_table :: expansion_table where
  "build_hiragana_expansion_table = fold add_expansion_row kHiraganaExpansionTable new_expansion_table"

section \<open>Opening\<close>

definition kMinTokenArrayBlobSize :: nat where "kMinTokenArrayBlobSize = 4"
definition kKeyTrieLb0CacheSize :: nat where "kKeyTrieLb0CacheSize = 1 * 1024"
definition kKeyTrieLb1CacheSize :: nat where "kKeyTrieLb1CacheSize = 1 * 1024"
definition kKeyTrieSelect0CacheSize :: nat where "kKeyTrieSelect0CacheSize = 4 * 1024"
definition kKeyTrieSelect1CacheSize :: nat where "kKeyTrieSelect1CacheSize = 4 * 1024"
definition kKeyTrieTermvecCacheSize :: nat where "kKeyTrieTermvecCacheSize = 1 * 1024"
definition kValueTrieLb0CacheSize :: nat where "kValueTrieLb0CacheSize = 1 * 1024"
definition kValueTrieLb1CacheSize :: nat where "kValueTrieLb1CacheSize = 1 * 1024"
definition kValueTrieSelect0CacheSize :: nat where "kValueTrieSelect0CacheSize = 1 * 1024"
definition kValueTrieSelect1CacheSize :: nat where "kValueTrieSelect1CacheSize = 16 * 1024"
definition kValueTrieTermvecCacheSize :: nat where "kValueTrieTermvecCacheSize = 4 * 1024"

text \<open>A result of the reverse lookup: the offset of the tokens and the id of the key.\<close>

type_synonym reverse_result = "int \<times> int"

record system_dictionary =
  key_trie :: louds_trie
  value_trie :: louds_trie
  token_array :: bit_vector_array
  dict_frequent_pos :: "32 word list"
  hiragana_expansion_table :: expansion_table
  reverse_lookup_index :: "reverse_result list list option"
  reverse_lookup_cache :: "(int \<times> reverse_result) list option"

definition get_token_array_ptr :: "system_dictionary \<Rightarrow> nat \<Rightarrow> byte list option" where
  "get_token_array_ptr sd i = map_option words_of_bytes (array_pointer (token_array sd) i)"

section \<open>The iterator over the tokens of a key\<close>

datatype iterator_state = HAS_NEXT | LAST_TOKEN | ITER_DONE

record token_iterator =
  iter_key :: bytes
  iter_state :: iterator_state
  iter_ptr :: "byte list"
  iter_info :: token_info

definition lookup_value :: "louds_trie \<Rightarrow> int \<Rightarrow> bytes option" where
  "lookup_value t i = Option.bind (restore_key_string_of_id t i) decode_value"

text \<open>The switch over the value type in \<open>NextInternal\<close>.  The katakana of the key is computed once; it is empty for the
  empty key.  \<open>Clear\<close> sets the accent encoding type to \<open>ENCODED_IN_VALUE\<close> and nothing else writes it, so no accent is
  appended.\<close>

definition fill_value :: "(bytes \<Rightarrow> bytes) \<Rightarrow> louds_trie \<Rightarrow> bytes \<Rightarrow> int \<Rightarrow> token_info \<Rightarrow> token_info option" where
  "fill_value h2k t key prev_id info =
     (case info_value_type info of
        DEFAULT_VALUE \<Rightarrow>
          map_option (\<lambda>v. info\<lparr>info_token := (info_token info)\<lparr>token_value := v\<rparr>\<rparr>) (lookup_value t (id_in_value_trie info))
      | SAME_AS_PREV_VALUE \<Rightarrow> Some (info\<lparr>id_in_value_trie := prev_id\<rparr>)
      | AS_IS_HIRAGANA \<Rightarrow> Some (info\<lparr>info_token := (info_token info)\<lparr>token_value := token_key (info_token info)\<rparr>\<rparr>)
      | AS_IS_KATAKANA \<Rightarrow>
          Some (info\<lparr>info_token := (info_token info)\<lparr>token_value := (if key = [] then [] else h2k key)\<rparr>\<rparr>))"

definition fill_pos :: "32 word list \<Rightarrow> token_info \<Rightarrow> token_info option" where
  "fill_pos frequent info =
     (if info_pos_type info = FREQUENT_POS then
        if 0 \<le> id_in_frequent_pos_map info \<and> nat (id_in_frequent_pos_map info) < length frequent then
          let pos = frequent ! nat (id_in_frequent_pos_map info) in
          Some (info\<lparr>info_token := (info_token info)\<lparr>token_lid := ucast (drop_bit 16 pos), token_rid := ucast (pos AND 0xffff)\<rparr>\<rparr>)
        else None
      else Some info)"

definition next_internal :: "(bytes \<Rightarrow> bytes) \<Rightarrow> system_dictionary \<Rightarrow> token_iterator \<Rightarrow> token_iterator option" where
  "next_internal h2k sd it =
     (let prev_id = id_in_value_trie (iter_info it);
          info0 = clear_info ((info_token (iter_info it))\<lparr>token_attributes := 0\<rparr>)
      in Option.bind (decode_token (iter_ptr it) info0) (\<lambda>(again, info1, read_bytes).
         Option.bind (fill_value h2k (value_trie sd) (iter_key it) prev_id info1) (\<lambda>info2.
         map_option (\<lambda>info3.
             it\<lparr>iter_state := (if again then iter_state it else LAST_TOKEN), iter_ptr := drop read_bytes (iter_ptr it),
                iter_info := info3\<rparr>)
           (fill_pos (dict_frequent_pos sd) info2))))"

definition new_iterator :: "(bytes \<Rightarrow> bytes) \<Rightarrow> system_dictionary \<Rightarrow> bytes \<Rightarrow> byte list \<Rightarrow> token_iterator option" where
  "new_iterator h2k sd key ptr =
     next_internal h2k sd
       \<lparr>iter_key = key, iter_state = HAS_NEXT, iter_ptr = ptr,
        iter_info = clear_info \<lparr>token_key = key, token_value = [], token_cost = 0, token_lid = 0, token_rid = 0, token_attributes = 0\<rparr>\<rparr>"

definition iterator_next :: "(bytes \<Rightarrow> bytes) \<Rightarrow> system_dictionary \<Rightarrow> token_iterator \<Rightarrow> token_iterator option" where
  "iterator_next h2k sd it =
     (if iter_state it = LAST_TOKEN then Some (it\<lparr>iter_state := ITER_DONE\<rparr>) else next_internal h2k sd it)"

lemma next_internal_shorter:
  "next_internal h2k sd it = Some it' \<Longrightarrow> length (iter_ptr it') < length (iter_ptr it) \<and>
     (iter_state it' = iter_state it \<or> iter_state it' = LAST_TOKEN)"
  by (auto simp: next_internal_def Let_def bind_eq_Some_conv dest!: decode_token_reads)

text \<open>The loop \<open>for (TokenDecodeIterator iter(...); !iter.Done(); iter.Next())\<close> with a body that goes on after
  \<open>TRAVERSE_CONTINUE\<close> only.\<close>

datatype result_type = TRAVERSE_DONE | TRAVERSE_NEXT_KEY | TRAVERSE_CULL | TRAVERSE_CONTINUE

function for_tokens ::
  "(bytes \<Rightarrow> bytes) \<Rightarrow> system_dictionary \<Rightarrow> (token_info \<Rightarrow> 's \<Rightarrow> result_type \<times> 's) \<Rightarrow> token_iterator \<Rightarrow> 's \<Rightarrow>
     (result_type \<times> 's) option" where
  "for_tokens h2k sd f it st =
     (if iter_state it = ITER_DONE then Some (TRAVERSE_CONTINUE, st)
      else let (r, st') = f (iter_info it) st in
        if r \<noteq> TRAVERSE_CONTINUE then Some (r, st')
        else (case iterator_next h2k sd it of None \<Rightarrow> None | Some it' \<Rightarrow> for_tokens h2k sd f it' st'))"
  by pat_completeness auto
termination
  by (relation "measure (\<lambda>(h2k, sd, f, it, st). 2 * length (iter_ptr it) + (if iter_state it = ITER_DONE then 0 else 1))")
    (auto simp: iterator_next_def dest!: next_internal_shorter split: if_splits)

declare for_tokens.simps [simp del]

definition tokens_of_key ::
  "(bytes \<Rightarrow> bytes) \<Rightarrow> system_dictionary \<Rightarrow> bytes \<Rightarrow> nat \<Rightarrow> (token_info \<Rightarrow> 's \<Rightarrow> result_type \<times> 's) \<Rightarrow> 's \<Rightarrow>
     (result_type \<times> 's) option" where
  "tokens_of_key h2k sd key i f st =
     Option.bind (get_token_array_ptr sd i) (\<lambda>ptr.
     Option.bind (new_iterator h2k sd key ptr) (\<lambda>it. for_tokens h2k sd f it st))"

section \<open>Callbacks and exact lookup\<close>

record 's callback =
  on_key :: "bytes \<Rightarrow> 's \<Rightarrow> result_type \<times> 's"
  on_actual_key :: "bytes \<Rightarrow> bytes \<Rightarrow> nat \<Rightarrow> 's \<Rightarrow> result_type \<times> 's"
  on_token :: "bytes \<Rightarrow> bytes \<Rightarrow> token \<Rightarrow> 's \<Rightarrow> result_type \<times> 's"
  is_kana_modifier_insensitive :: bool

definition dict_has_key :: "system_dictionary \<Rightarrow> bytes \<Rightarrow> bool option" where
  "dict_has_key sd key = has_key (key_trie sd) (encode_decode_key key)"

definition dict_has_value :: "(bytes \<Rightarrow> bytes) \<Rightarrow> (bytes \<Rightarrow> bytes) \<Rightarrow> system_dictionary \<Rightarrow> bytes \<Rightarrow> bool option" where
  "dict_has_value h2k k2h sd value =
     Option.bind (has_key (value_trie sd) (encode_value value)) (\<lambda>in_trie.
       if in_trie then Some True
       else
         let key = k2h value in
         Option.bind (exact_search (key_trie sd) (encode_decode_key key)) (\<lambda>key_id.
           if key_id = -1 then Some False
           else map_option snd
             (tokens_of_key h2k sd key (nat key_id)
                (\<lambda>info found. if value = token_value (info_token info) then (TRAVERSE_DONE, True) else (TRAVERSE_CONTINUE, found))
                False)))"

definition lookup_exact ::
  "(bytes \<Rightarrow> bytes) \<Rightarrow> system_dictionary \<Rightarrow> bytes \<Rightarrow> 's callback \<Rightarrow> 's \<Rightarrow> 's option" where
  "lookup_exact h2k sd key cb st =
     Option.bind (exact_search (key_trie sd) (encode_decode_key key)) (\<lambda>key_id.
       if key_id = -1 then Some st
       else
         let (r1, st1) = on_key cb key st in
         if r1 \<noteq> TRAVERSE_CONTINUE then Some st1
         else
           let (r2, st2) = on_actual_key cb key key 0 st1 in
           if r2 \<noteq> TRAVERSE_CONTINUE then Some st2
           else map_option snd
             (tokens_of_key h2k sd key (nat key_id) (\<lambda>info. on_token cb key key (info_token info)) st2))"

section \<open>The tokens that come back\<close>

text \<open>What the codec keeps of a token.\<close>

definition restored_token :: "token_info \<Rightarrow> token" where
  "restored_token orig = (info_token orig)
     \<lparr>token_cost := kept_cost orig,
      token_attributes := (if token_attributes (info_token orig) AND SPELLING_CORRECTION \<noteq> 0 then SPELLING_CORRECTION else 0)\<rparr>"

lemma decoded_fields:
  fixes orig :: token_info and t :: token
  defines "r \<equiv> decoded orig (clear_info (t\<lparr>token_attributes := 0\<rparr>))"
  shows "info_pos_type r = info_pos_type orig" "info_value_type r = info_value_type orig"
    "info_value_type orig = DEFAULT_VALUE \<Longrightarrow> id_in_value_trie r = id_in_value_trie orig"
    "info_value_type orig \<noteq> DEFAULT_VALUE \<Longrightarrow> id_in_value_trie r = - 1"
    "info_pos_type orig = FREQUENT_POS \<Longrightarrow> id_in_frequent_pos_map r = id_in_frequent_pos_map orig"
    "token_key (info_token r) = token_key t" "token_value (info_token r) = token_value t"
    "token_cost (info_token r) = kept_cost orig" "token_attributes (info_token r) = token_attributes (restored_token orig)"
    "info_pos_type orig = DEFAULT_POS \<Longrightarrow> token_lid (info_token r) = token_lid (info_token orig)"
    "info_pos_type orig = DEFAULT_POS \<Longrightarrow> token_rid (info_token r) = token_rid (info_token orig)"
    "info_pos_type orig \<noteq> DEFAULT_POS \<Longrightarrow> token_lid (info_token r) = token_lid t"
    "info_pos_type orig \<noteq> DEFAULT_POS \<Longrightarrow> token_rid (info_token r) = token_rid t"
  by (cases "info_pos_type orig"; simp add: r_def decoded_def restore_value_def restore_cost_def restore_pos_def restore_attributes_def
      clear_info_def restored_token_def)+

text \<open>What an opened dictionary stores.\<close>

definition dict_stores :: "(bytes \<Rightarrow> bytes) \<Rightarrow> token list \<Rightarrow> system_dictionary \<Rightarrow> bool" where
  "dict_stores h2k tokens sd \<longleftrightarrow>
     represents (value_trie sd) (value_words h2k tokens) \<and> represents (key_trie sd) (key_words tokens) \<and>
     (\<exists>frequent. dict_frequent_pos sd = frequent_pos_array frequent \<and> frequent_ok frequent \<and>
        token_store h2k tokens frequent (token_array sd))"

text \<open>Values in the value trie have to fit the buffer of \<open>RestoreKeyString\<close>.\<close>

definition values_fit :: "(bytes \<Rightarrow> bytes) \<Rightarrow> token list \<Rightarrow> bool" where
  "values_fit h2k tokens = (\<forall>w \<in> value_words h2k tokens. length w \<le> max_depth)"

lemma lookup_value_stored:
  assumes t: "represents t W" and w: "encode_value v \<in> W" "length (encode_value v) \<le> max_depth" "plain_text v"
  shows "lookup_value t (int (key_id W (encode_value v))) = Some v"
  using restore_represents [OF t w(1)] w(2,3) by (simp add: lookup_value_def value_round_trip)

lemma fill_value_stored:
  assumes v: "value_ok h2k W prev orig" and W: "represents t W" "\<forall>w \<in> W. length w \<le> max_depth" "plain_text (token_value (info_token orig))"
    and k: "token_key (info_token orig) = key" "key \<noteq> []"
    and r: "info_value_type r = info_value_type orig" "info_value_type orig = DEFAULT_VALUE \<Longrightarrow> id_in_value_trie r = id_in_value_trie orig"
      "token_key (info_token r) = key" "\<forall>p. prev = Some p \<longrightarrow> token_value (info_token r) = token_value p"
  shows "\<exists>i. fill_value h2k t key prev_id r =
    Some (r\<lparr>info_token := (info_token r)\<lparr>token_value := token_value (info_token orig)\<rparr>, id_in_value_trie := i\<rparr>)"
proof (cases "info_value_type orig")
  case DEFAULT_VALUE
  let ?w = "encode_value (token_value (info_token orig))"
  have "?w \<in> W" "id_in_value_trie orig = int (key_id W ?w)" using v DEFAULT_VALUE by (simp_all add: value_ok_def Let_def)
  then have "lookup_value t (id_in_value_trie r) = Some (token_value (info_token orig))"
    using lookup_value_stored [OF W(1)] W(2,3) r(2) [OF DEFAULT_VALUE] by simp
  then show ?thesis using DEFAULT_VALUE r(1) by (intro exI [of _ "id_in_value_trie r"]) (simp add: fill_value_def)
next
  case SAME_AS_PREV_VALUE
  then obtain p where "prev = Some p" "token_value p = token_value (info_token orig)" using v by (auto simp: value_ok_def Let_def)
  then have "token_value (info_token r) = token_value (info_token orig)" using r(4) by simp
  then have "(info_token r)\<lparr>token_value := token_value (info_token orig)\<rparr> = info_token r" by simp
  then show ?thesis using SAME_AS_PREV_VALUE r(1) by (intro exI [of _ prev_id]) (simp add: fill_value_def)
next
  case AS_IS_HIRAGANA
  then show ?thesis using v r(1,3) k by (intro exI [of _ "id_in_value_trie r"]) (simp add: fill_value_def value_ok_def)
next
  case AS_IS_KATAKANA
  then show ?thesis using v r(1) k by (intro exI [of _ "id_in_value_trie r"]) (simp add: fill_value_def value_ok_def)
qed

lemma fill_pos_stored:
  assumes p: "pos_ok frequent prev orig" and f: "frequent_ok frequent"
    and r: "info_pos_type r = info_pos_type orig" "info_pos_type orig = FREQUENT_POS \<Longrightarrow> id_in_frequent_pos_map r = id_in_frequent_pos_map orig"
      "info_pos_type orig = DEFAULT_POS \<Longrightarrow> token_lid (info_token r) = token_lid (info_token orig)"
      "info_pos_type orig = DEFAULT_POS \<Longrightarrow> token_rid (info_token r) = token_rid (info_token orig)"
      "\<forall>q. info_pos_type orig = SAME_AS_PREV_POS \<longrightarrow> prev = Some q \<longrightarrow>
         token_lid (info_token r) = token_lid q \<and> token_rid (info_token r) = token_rid q"
  shows "fill_pos (frequent_pos_array frequent) r = Some (r\<lparr>info_token := (info_token r)
    \<lparr>token_lid := token_lid (info_token orig), token_rid := token_rid (info_token orig)\<rparr>\<rparr>)"
proof (cases "info_pos_type orig")
  case DEFAULT_POS
  then show ?thesis using r by (simp add: fill_pos_def)
next
  case FREQUENT_POS
  then obtain n where n: "map_of frequent (token_pos (info_token orig)) = Some n" "id_in_frequent_pos_map r = int n"
    using p r(2) by (auto simp: pos_ok_def)
  show ?thesis using FREQUENT_POS r(1) n(2) frequent_lookup [OF f n(1)]
    by (simp add: fill_pos_def Let_def combined_pos_parts)
next
  case SAME_AS_PREV_POS
  then obtain q where q: "prev = Some q" "token_pos q = token_pos (info_token orig)" using p by (auto simp: pos_ok_def)
  have "token_lid q = token_lid (info_token orig)" "token_rid q = token_rid (info_token orig)"
    using combined_pos_parts [of "token_lid q" "token_rid q"] combined_pos_parts [of "token_lid (info_token orig)" "token_rid (info_token orig)"]
      q(2) by metis+
  then show ?thesis using SAME_AS_PREV_POS r(1,5) q(1) by (simp add: fill_pos_def)
qed

text \<open>One step of the iterator over stored tokens.\<close>

definition behind_token :: "token option \<Rightarrow> bytes \<Rightarrow> token_iterator \<Rightarrow> bool" where
  "behind_token prev key it \<longleftrightarrow> iter_key it = key \<and> token_key (info_token (iter_info it)) = key \<and>
     (\<forall>p. prev = Some p \<longrightarrow> token_value (info_token (iter_info it)) = token_value p \<and>
        token_lid (info_token (iter_info it)) = token_lid p \<and> token_rid (info_token (iter_info it)) = token_rid p)"

lemma next_internal_stored:
  assumes e: "encode_token infos i = Some bs" and c: "codable (infos ! i)"
    and ok: "info_ok h2k W frequent prev (infos ! i)" and f: "frequent_ok frequent" "dict_frequent_pos sd = frequent_pos_array frequent"
    and W: "represents (value_trie sd) W" "\<forall>w \<in> W. length w \<le> max_depth" "plain_text (token_value (info_token (infos ! i)))"
    and k: "token_key (info_token (infos ! i)) = key" "key \<noteq> []"
    and it: "behind_token prev key it" "iter_ptr it = bs @ rest"
  shows "\<exists>it'. next_internal h2k sd it = Some it' \<and> iter_ptr it' = rest \<and>
    iter_state it' = (if i \<noteq> length infos - 1 then iter_state it else LAST_TOKEN) \<and>
    info_token (iter_info it') = restored_token (infos ! i) \<and> info_value_type (iter_info it') = info_value_type (infos ! i) \<and>
    behind_token (Some (info_token (infos ! i))) key it'"
proof -
  let ?o = "infos ! i" and ?t = "info_token (iter_info it)"
  define r where "r = decoded ?o (clear_info (?t\<lparr>token_attributes := 0\<rparr>))"
  note rf = decoded_fields [of ?o ?t, folded r_def]
  have it': "token_key ?t = key" "iter_key it = key"
    "\<forall>p. prev = Some p \<longrightarrow> token_value ?t = token_value p \<and> token_lid ?t = token_lid p \<and> token_rid ?t = token_rid p"
    using it(1) by (simp_all add: behind_token_def)
  have d: "decode_token (iter_ptr it) (clear_info (?t\<lparr>token_attributes := 0\<rparr>)) = Some (i \<noteq> length infos - 1, r, length bs)"
    unfolding it(2) r_def by (rule token_round_trip(1) [OF e c])
  have ok': "value_ok h2k W prev ?o" "pos_ok frequent prev ?o" using ok by (simp_all add: info_ok_def)
  obtain j where fv: "fill_value h2k (value_trie sd) key (id_in_value_trie (iter_info it)) r =
      Some (r\<lparr>info_token := (info_token r)\<lparr>token_value := token_value (info_token ?o)\<rparr>, id_in_value_trie := j\<rparr>)"
    using fill_value_stored [OF ok'(1) W k rf(2,3), where prev_id = "id_in_value_trie (iter_info it)"] rf(6,7) it' by auto
  define r2 where "r2 = r\<lparr>info_token := (info_token r)\<lparr>token_value := token_value (info_token ?o)\<rparr>, id_in_value_trie := j\<rparr>"
  have "fill_pos (frequent_pos_array frequent) r2 = Some (r2\<lparr>info_token := (info_token r2)
      \<lparr>token_lid := token_lid (info_token ?o), token_rid := token_rid (info_token ?o)\<rparr>\<rparr>)"
    by (rule fill_pos_stored [OF ok'(2) f(1)]) (use rf it' in \<open>simp_all add: r2_def\<close>)
  then obtain r3 where r3: "fill_pos (frequent_pos_array frequent) r2 = Some r3" "r3 = r2\<lparr>info_token := (info_token r2)
      \<lparr>token_lid := token_lid (info_token ?o), token_rid := token_rid (info_token ?o)\<rparr>\<rparr>" by blast
  have t3: "info_token r3 = restored_token ?o"
    using rf(6,8,9) it'(1) k(1) by (simp add: r3(2) r2_def restored_token_def)
  have v3: "info_value_type r3 = info_value_type ?o" using rf(2) by (simp add: r3(2) r2_def)
  have n: "next_internal h2k sd it = Some (it\<lparr>iter_state := (if i \<noteq> length infos - 1 then iter_state it else LAST_TOKEN),
      iter_ptr := rest, iter_info := r3\<rparr>)"
    using d fv r3(1) it(2) it'(2) by (simp add: next_internal_def Let_def f(2) flip: r2_def)
  have "behind_token (Some (info_token ?o)) key (it\<lparr>iter_state := s, iter_ptr := rest, iter_info := r3\<rparr>)" for s
    using it'(2) k(1) by (simp add: behind_token_def t3 restored_token_def)
  then show ?thesis using n t3 v3 by simp
qed

text \<open>The loop over the tokens as a fold that a callback may interrupt.\<close>

fun run_while_continue :: "('a \<Rightarrow> 's \<Rightarrow> result_type \<times> 's) \<Rightarrow> 'a list \<Rightarrow> 's \<Rightarrow> result_type \<times> 's" where
  "run_while_continue f [] st = (TRAVERSE_CONTINUE, st)"
| "run_while_continue f (x # xs) st =
     (let (r, st') = f x st in if r \<noteq> TRAVERSE_CONTINUE then (r, st') else run_while_continue f xs st')"

lemma run_while_continue_map: "run_while_continue f (map g xs) st = run_while_continue (\<lambda>x. f (g x)) xs st"
  by (induction f "map g xs" st arbitrary: xs rule: run_while_continue.induct) (auto split: prod.splits)

definition decoded_as :: "token_info list \<Rightarrow> token_info list \<Rightarrow> bool" where
  "decoded_as infos xs \<longleftrightarrow> map info_token xs = map restored_token infos \<and> map info_value_type xs = map info_value_type infos"

lemma for_tokens_stored:
  assumes e: "encode_token_list infos [i..<length infos] = Some bs" and i: "i < length infos"
    and ok: "infos_ok h2k W frequent None infos" "\<forall>j < length infos. codable (infos ! j)"
    and f: "frequent_ok frequent" "dict_frequent_pos sd = frequent_pos_array frequent"
    and W: "represents (value_trie sd) W" "\<forall>w \<in> W. length w \<le> max_depth" "\<forall>info \<in> set infos. plain_text (token_value (info_token info))"
    and k: "\<forall>info \<in> set infos. token_key (info_token info) = key" "key \<noteq> []"
    and it: "behind_token (if i = 0 then None else Some (info_token (infos ! (i - 1)))) key it" "iter_ptr it = bs @ rest" "iter_state it = HAS_NEXT"
  shows "\<exists>it' xs. next_internal h2k sd it = Some it' \<and> decoded_as (drop i infos) xs \<and>
    (\<forall>g (st :: 's). for_tokens h2k sd g it' st = Some (run_while_continue g xs st))"
  using e i it
proof (induction "length infos - i" arbitrary: i bs it)
  case (Suc n)
  have "[i..<length infos] = i # [Suc i..<length infos]" using Suc.prems(2) by (rule upt_conv_Cons)
  then obtain b bs' where b: "encode_token infos i = Some b" "encode_token_list infos [Suc i..<length infos] = Some bs'" "bs = b @ bs'"
    using Suc.prems(1) by (auto simp: bind_eq_Some_conv)
  let ?o = "infos ! i"
  have o: "?o \<in> set infos" using Suc.prems(2) by simp
  have ptr: "iter_ptr it = b @ (bs' @ rest)" using Suc.prems(4) b(3) by simp
  obtain it' where it': "next_internal h2k sd it = Some it'" "iter_ptr it' = bs' @ rest"
    "iter_state it' = (if i \<noteq> length infos - 1 then HAS_NEXT else LAST_TOKEN)"
    "info_token (iter_info it') = restored_token ?o" "info_value_type (iter_info it') = info_value_type ?o"
    "behind_token (Some (info_token ?o)) key it'"
    using next_internal_stored [OF b(1) ok(2) [rule_format, OF Suc.prems(2)] infos_ok_nth [OF ok(1) Suc.prems(2)] f W(1,2)
        W(3) [rule_format, OF o] k(1) [rule_format, OF o] k(2) Suc.prems(3) ptr] Suc.prems(5) by auto
  have d: "drop i infos = ?o # drop (Suc i) infos" using Suc.prems(2) by (simp add: Cons_nth_drop_Suc)
  show ?case
  proof (cases "Suc i < length infos")
    case True
    then have hn: "iter_state it' = HAS_NEXT" using it'(3) by auto
    then have next': "iterator_next h2k sd it' = next_internal h2k sd it'" by (simp add: iterator_next_def)
    have "n = length infos - Suc i" using Suc.hyps(2) by simp
    moreover have "behind_token (if Suc i = 0 then None else Some (info_token (infos ! (Suc i - 1)))) key it'" using it'(6) by simp
    moreover note hn
    ultimately obtain it'' xs where r: "next_internal h2k sd it' = Some it''" "decoded_as (drop (Suc i) infos) xs"
      "\<forall>g (st :: 's). for_tokens h2k sd g it'' st = Some (run_while_continue g xs st)"
      using Suc.hyps(1) [of "Suc i" bs' it'] b(2) True it'(2) by blast
    have "for_tokens h2k sd g it' st = Some (run_while_continue g (iter_info it' # xs) st)" for g and st :: 's
      using r(1,3) hn by (simp add: for_tokens.simps [of _ _ _ it'] next' split: prod.splits)
    moreover have "decoded_as (drop i infos) (iter_info it' # xs)" using r(2) it'(4,5) by (simp add: decoded_as_def d)
    ultimately show ?thesis using it'(1) by blast
  next
    case False
    then have l: "iter_state it' = LAST_TOKEN" "drop (Suc i) infos = []" using it'(3) Suc.prems(2) by auto
    have "for_tokens h2k sd g it' st = Some (run_while_continue g [iter_info it'] st)" for g and st :: 's
      using l(1) by (simp add: for_tokens.simps [of _ _ _ it'] iterator_next_def for_tokens.simps split: prod.splits)
    moreover have "decoded_as (drop i infos) [iter_info it']" using it'(4,5) l(2) by (simp add: decoded_as_def d)
    ultimately show ?thesis using it'(1) by blast
  qed
qed simp

text \<open>What is kept of a token: everything but the attributes behind spelling correction and the low bits of some costs.\<close>

definition kept_token :: "token \<Rightarrow> token \<Rightarrow> bool" where
  "kept_token t t' \<longleftrightarrow>
     token_key t' = token_key t \<and> token_value t' = token_value t \<and> token_lid t' = token_lid t \<and> token_rid t' = token_rid t \<and>
     token_attributes t' = (if token_attributes t AND SPELLING_CORRECTION \<noteq> 0 then SPELLING_CORRECTION else 0) \<and>
     (token_cost t' = token_cost t \<or> 0x100 \<le> token_cost t \<and> token_cost t' = token_cost t - token_cost t mod 256)"

definition stored_tokens :: "token list \<Rightarrow> bytes \<Rightarrow> token list \<Rightarrow> bool" where
  "stored_tokens tokens key ts \<longleftrightarrow>
     (\<exists>us. mset us = mset (filter (\<lambda>t. token_key t = key) tokens) \<and> list_all2 kept_token us ts)"

lemma kept_restored:
  assumes "info_ok h2k W frequent prev info"
  shows "kept_token (info_token info) (restored_token info)"
  using assms by (cases "info_cost_type info") (auto simp: kept_token_def restored_token_def kept_cost_def info_ok_def Let_def)

lemma words_of_bytes_append [simp]: "words_of_bytes (a @ b) = words_of_bytes a @ words_of_bytes b"
  by (simp add: words_of_bytes_def)

lemma tokens_of_key_stored:
  assumes d: "dict_input tokens" and s: "dict_stores h2k tokens sd" and fit: "values_fit h2k tokens" and key: "key \<in> token_key ` set tokens"
  shows "\<exists>xs. stored_tokens tokens key (map info_token xs) \<and>
    (\<forall>g (st :: 's). tokens_of_key h2k sd key (key_id (key_words tokens) (encode_decode_key key)) g st = Some (run_while_continue g xs st))"
proof -
  let ?W = "value_words h2k tokens" and ?i = "key_id (key_words tokens) (encode_decode_key key)"
  obtain frequent where fr: "dict_frequent_pos sd = frequent_pos_array frequent" "frequent_ok frequent"
    "token_store h2k tokens frequent (token_array sd)" and W: "represents (value_trie sd) ?W"
    using s unfolding dict_stores_def by blast
  obtain encoded infos where st: "length encoded = card (key_words tokens)"
    "\<forall>i < length (token_blocks encoded). array_pointer (token_array sd) i = Some (concat (map (padded 4 1) (drop i (token_blocks encoded))))"
    "encode_tokens infos = Some (encoded ! ?i)" "infos_ok h2k ?W frequent None infos"
    "mset (map info_token infos) = mset (filter (\<lambda>t. token_key t = key) tokens)"
    using fr(3) key unfolding token_store_def by blast
  have set: "info_token ` set infos = {t \<in> set tokens. token_key t = key}" using mset_eq_setD [OF st(5)] by simp
  have ne: "infos \<noteq> []" using set key by auto
  have "?i < length encoded" using key_ids(2) [OF d key] key_words_card(1) [OF d] st(1) by simp
  then have "drop ?i (token_blocks encoded) = bytes_of_words (encoded ! ?i) # drop (Suc ?i) (token_blocks encoded)"
    "?i < length (token_blocks encoded)"
    by (simp_all add: token_blocks_def Cons_nth_drop_Suc [symmetric] nth_append)
  then obtain rest where ptr: "get_token_array_ptr sd ?i = Some (encoded ! ?i @ rest)"
    using st(2) by (auto simp: get_token_array_ptr_def padded_def)
  have e: "encode_token_list infos [0..<length infos] = Some (encoded ! ?i)"
    using st(3) by (auto simp: encode_tokens_def bind_eq_Some_conv split: if_splits)
  have sub: "info_token ` set infos \<subseteq> set tokens" using set by blast
  have fin: "finite ?W" "card ?W \<le> 0x3f0000"
    using card_value_words [of h2k tokens] d by (auto simp: value_words_def dict_input_def)
  have cod: "\<forall>j < length infos. codable (infos ! j)"
    using stored_infos_encode(2) [OF d fr(2) fin st(4) sub] by blast
  have kk: "\<forall>info \<in> set infos. token_key (info_token info) = key" "key \<noteq> []"
    using set key dict_input_token(1) [OF d] by auto
  have pl: "\<forall>info \<in> set infos. plain_text (token_value (info_token info))" using sub dict_input_token(4) [OF d] by blast
  define it where "it = \<lparr>iter_key = key, iter_state = HAS_NEXT, iter_ptr = encoded ! ?i @ rest,
     iter_info = clear_info \<lparr>token_key = key, token_value = [], token_cost = 0, token_lid = 0, token_rid = 0, token_attributes = 0\<rparr>\<rparr>"
  have b: "behind_token (if (0::nat) = 0 then None else Some (info_token (infos ! (0 - 1)))) key it"
    by (simp add: behind_token_def it_def clear_info_def)
  have "0 < length infos" "\<forall>w \<in> ?W. length w \<le> max_depth" "iter_ptr it = encoded ! ?i @ rest" "iter_state it = HAS_NEXT"
    using ne fit by (simp_all add: values_fit_def it_def)
  from for_tokens_stored [OF e this(1) st(4) cod fr(2,1) W this(2) pl kk b this(3,4)]
  obtain it' xs where r: "next_internal h2k sd it = Some it'" "decoded_as infos xs"
    "\<forall>g (st :: 's). for_tokens h2k sd g it' st = Some (run_while_continue g xs st)" by auto
  have "tokens_of_key h2k sd key ?i g st = Some (run_while_continue g xs st)" for g and st :: 's
    using ptr r(1,3) by (simp add: tokens_of_key_def new_iterator_def it_def)
  moreover have "list_all2 kept_token (map info_token infos) (map restored_token infos)"
  proof -
    have "kept_token (info_token info) (restored_token info)" if "info \<in> set infos" for info
      using that kept_restored infos_ok_nth [OF st(4)] by (metis in_set_conv_nth)
    then show ?thesis by (simp add: list.rel_map list_all2_same)
  qed
  then have "stored_tokens tokens key (map info_token xs)"
    using st(5) r(2) unfolding stored_tokens_def decoded_as_def by metis
  ultimately show ?thesis by blast
qed

end
