(* ===== verification/Dictionary_Lookup.thy ===== *)
theory Dictionary_Lookup
  imports System_Dictionary
begin

text \<open>
  The lookups of \<open>SystemDictionary\<close> beyond the exact one (\<open>dictionary/system/system_dictionary.cc\<close>): opening with the
  index for the reverse lookup, prefix lookup with and without key expansion, predictive lookup and reverse lookup.
  The theorems show that a dictionary built from tokens answers the exact and the prefix lookup with the tokens of
  the key, in one order for every callback.
\<close>

section \<open>The scan of the token array\<close>

record scan_result =
  scan_value_id :: int
  scan_index :: nat
  scan_tokens_offset :: nat

text \<open>\<open>TokenScanIterator\<close>: all results until the termination flag, over the memory \<open>ptr\<close> of the tokens.\<close>

lemma reverse_read_positive: "read_token_for_reverse_lookup ptr = Some (again, i, n) \<Longrightarrow> 0 < n"
proof -
  assume r: "read_token_for_reverse_lookup ptr = Some (again, i, n)"
  have "read_value_info ptr f o1 = Some (j, o2) \<Longrightarrow> o1 \<le> o2" for f o1 j o2
    by (auto simp: read_value_info_def read_value_id_def Let_def bind_eq_Some_conv split: if_splits)
  then show "0 < n" using r by (fastforce simp: read_token_for_reverse_lookup_def Let_def bind_eq_Some_conv split: if_splits)
qed

function scan_from :: "byte list \<Rightarrow> nat \<Rightarrow> nat \<Rightarrow> nat \<Rightarrow> scan_result list option" where
  "scan_from ptr offset tokens_offset index =
     (case read_byte ptr offset of
        None \<Rightarrow> None
      | Some b \<Rightarrow>
          if b = kTokenTerminationFlag then Some []
          else
            (case read_token_for_reverse_lookup (drop offset ptr) of
               None \<Rightarrow> None
             | Some (again, value_id, read_bytes) \<Rightarrow>
                 let r = \<lparr>scan_value_id = value_id, scan_index = index, scan_tokens_offset = tokens_offset\<rparr> in
                 if again then map_option ((#) r) (scan_from ptr (offset + read_bytes) tokens_offset index)
                 else
                   let tokens_size = max (offset + read_bytes - tokens_offset) kMinTokenArrayBlobSize;
                       next_offset = tokens_offset + tokens_size
                   in map_option ((#) r) (scan_from ptr next_offset next_offset (index + 1))))"
  by pat_completeness auto
termination
  by (relation "measure (\<lambda>(ptr, offset, tokens_offset, index). length ptr - offset)")
    (auto simp: read_byte_def dest!: reverse_read_positive split: if_splits)

declare scan_from.simps [simp del]

definition scan_tokens_all :: "system_dictionary \<Rightarrow> scan_result list option" where
  "scan_tokens_all sd = Option.bind (get_token_array_ptr sd 0) (\<lambda>ptr. scan_from ptr 0 0 0)"

section \<open>The index for the reverse lookup\<close>

definition no_result :: reverse_result where
  "no_result = (-1, -1)"

text \<open>The three passes of the constructor: the largest id, the number of results for every id, the results.\<close>

definition count_results :: "scan_result list \<Rightarrow> nat list \<Rightarrow> nat list" where
  "count_results rs sizes =
     fold (\<lambda>r sizes. if scan_value_id r \<noteq> -1 then sizes[nat (scan_value_id r) := sizes ! nat (scan_value_id r) + 1] else sizes) rs sizes"

fun put_first :: "reverse_result \<Rightarrow> reverse_result list \<Rightarrow> reverse_result list" where
  "put_first r [] = []"
| "put_first r (x # xs) = (if x = no_result then r # xs else x # put_first r xs)"

definition fill_index :: "scan_result list \<Rightarrow> reverse_result list list \<Rightarrow> reverse_result list list" where
  "fill_index rs index =
     fold (\<lambda>r index. if scan_value_id r = -1 then index
       else index[nat (scan_value_id r) :=
         put_first (int (scan_tokens_offset r), int (scan_index r)) (index ! nat (scan_value_id r))]) rs index"

definition new_reverse_lookup_index :: "system_dictionary \<Rightarrow> reverse_result list list option" where
  "new_reverse_lookup_index sd =
     Option.bind (scan_tokens_all sd) (\<lambda>rs.
       let value_id_max = fold (\<lambda>r m. max m (scan_value_id r)) rs (-1) in
       if value_id_max < 0 then None
       else
         let sizes = count_results rs (replicate (nat (value_id_max + 1)) 0)
         in Some (fill_index rs (map (\<lambda>n. replicate n no_result) sizes)))"

definition fill_result_map :: "reverse_result list list \<Rightarrow> int list \<Rightarrow> (int \<times> reverse_result) list option" where
  "fill_result_map index id_set =
     map_option concat (those (map (\<lambda>i.
       if 0 \<le> i \<and> nat i < length index then Some (map (\<lambda>r. (i, r)) (index ! nat i)) else None) id_set))"

text \<open>\<open>OpenDictionaryFile\<close>; the file layer delivers the four sections.\<close>

definition init_reverse_lookup_index :: "system_dictionary \<Rightarrow> system_dictionary option" where
  "init_reverse_lookup_index sd =
     (if reverse_lookup_index sd \<noteq> None then Some sd
      else map_option (\<lambda>index. sd\<lparr>reverse_lookup_index := Some index\<rparr>) (new_reverse_lookup_index sd))"

definition open_dictionary :: "dict_sections \<Rightarrow> bool \<Rightarrow> system_dictionary option" where
  "open_dictionary secs enable_reverse_lookup_index =
     Option.bind (trie_open (key_section secs) kKeyTrieLb0CacheSize kKeyTrieLb1CacheSize kKeyTrieSelect0CacheSize
       kKeyTrieSelect1CacheSize kKeyTrieTermvecCacheSize) (\<lambda>kt.
     Option.bind (trie_open (value_section secs) kValueTrieLb0CacheSize kValueTrieLb1CacheSize kValueTrieSelect0CacheSize
       kValueTrieSelect1CacheSize kValueTrieTermvecCacheSize) (\<lambda>vt.
     Option.bind (array_open (token_section secs)) (\<lambda>ta.
       let sd = \<lparr>key_trie = kt, value_trie = vt, token_array = ta, dict_frequent_pos = pos_section secs,
                 hiragana_expansion_table = build_hiragana_expansion_table,
                 reverse_lookup_index = None, reverse_lookup_cache = None\<rparr>
       in if enable_reverse_lookup_index then init_reverse_lookup_index sd else Some sd)))"

section \<open>Prefix lookup\<close>

text \<open>The callbacks for one key of the trie.  The loop of the caller stops after \<open>TRAVERSE_DONE\<close> and
  \<open>TRAVERSE_CULL\<close>.\<close>

definition visit_terminal ::
  "(bytes \<Rightarrow> bytes) \<Rightarrow> system_dictionary \<Rightarrow> 's callback \<Rightarrow> (token_info \<Rightarrow> bool) \<Rightarrow> bytes \<Rightarrow> bytes \<Rightarrow> nat \<Rightarrow> louds_node \<Rightarrow> 's \<Rightarrow>
     (result_type \<times> 's) option" where
  "visit_terminal h2k sd cb token_filter key_prefix actual_prefix num_expanded node st =
     (let (r1, st1) = on_key cb key_prefix st in
      if r1 \<noteq> TRAVERSE_CONTINUE then Some (r1, st1)
      else
        let (r2, st2) = on_actual_key cb key_prefix actual_prefix num_expanded st1 in
        if r2 \<noteq> TRAVERSE_CONTINUE then Some (r2, st2)
        else Option.bind (key_id_of_terminal_node (key_trie sd) node) (\<lambda>i.
          tokens_of_key h2k sd actual_prefix i
            (\<lambda>info st. if token_filter info then on_token cb key_prefix actual_prefix (info_token info) st
                      else (TRAVERSE_CONTINUE, st)) st2))"

text \<open>\<open>RunCallbackOnEachPrefix\<close>, with the part \<open>encoded\<close> of the encoded key that is behind the node.\<close>

fun run_callback_on_each_prefix ::
  "(bytes \<Rightarrow> bytes) \<Rightarrow> system_dictionary \<Rightarrow> bytes \<Rightarrow> 's callback \<Rightarrow> (token_info \<Rightarrow> bool) \<Rightarrow> bytes \<Rightarrow> bytes \<Rightarrow> louds_node \<Rightarrow> 's \<Rightarrow>
     's option" where
  "run_callback_on_each_prefix h2k sd key cb token_filter encoded [] node st = Some st"
| "run_callback_on_each_prefix h2k sd key cb token_filter encoded (c # cs) node st =
     Option.bind (move_to_child_by_label (key_trie sd) c node) (\<lambda>(found, m).
       if \<not> found then Some st
       else Option.bind (is_terminal_node (key_trie sd) m) (\<lambda>terminal.
         let encoded_prefix = encoded @ [c] in
         if \<not> terminal then run_callback_on_each_prefix h2k sd key cb token_filter encoded_prefix cs m st
         else
           let prefix = take (encoded_decoded_key_length encoded_prefix) key in
           Option.bind (visit_terminal h2k sd cb token_filter prefix prefix 0 m st) (\<lambda>(r, st').
             if r = TRAVERSE_DONE \<or> r = TRAVERSE_CULL then Some st'
             else run_callback_on_each_prefix h2k sd key cb token_filter encoded_prefix cs m st')))"

text \<open>The children of a node with their labels, from a sibling on.\<close>

function siblings :: "louds_trie \<Rightarrow> louds_node \<Rightarrow> (char \<times> louds_node) list option" where
  "siblings t n =
     (case is_valid_node (lt_louds t) n of
        None \<Rightarrow> None
      | Some False \<Rightarrow> Some []
      | Some True \<Rightarrow>
          (case edge_label t n of
             None \<Rightarrow> None
           | Some c \<Rightarrow> map_option ((#) (c, n)) (siblings t (move_to_next_sibling n))))"
  by pat_completeness auto
termination
  by (relation "measure (\<lambda>(t, n). length (edge_character t) + 1 - node_id n)")
    (auto simp: edge_label_def move_to_next_sibling_def split: if_splits)

declare siblings.simps [simp del]

definition children :: "louds_trie \<Rightarrow> louds_node \<Rightarrow> (char \<times> louds_node) list option" where
  "children t n = Option.bind (move_to_first_child (lt_louds t) n) (siblings t)"

text \<open>A loop over children that ends early with \<open>TRAVERSE_DONE\<close>.\<close>

fun until_done :: "('a \<Rightarrow> 's \<Rightarrow> (result_type \<times> 's) option) \<Rightarrow> 'a list \<Rightarrow> 's \<Rightarrow> (result_type \<times> 's) option" where
  "until_done f [] st = Some (TRAVERSE_CONTINUE, st)"
| "until_done f (x # xs) st =
     Option.bind (f x st) (\<lambda>(r, st'). if r = TRAVERSE_DONE then Some (TRAVERSE_DONE, st') else until_done f xs st')"

lemma until_done_cong [fundef_cong]:
  assumes "xs = ys" "st = st'" "\<And>x s. x \<in> set ys \<Longrightarrow> f x s = g x s"
  shows "until_done f xs st = until_done g ys st'"
proof -
  have "(\<forall>x \<in> set ys. \<forall>s. f x s = g x s) \<Longrightarrow> until_done f ys st = until_done g ys st" for st
  proof (induction ys arbitrary: st)
    case (Cons y ys)
    then show ?case by (cases "g y st") auto
  qed simp
  then show ?thesis using assms by simp
qed

text \<open>\<open>LookupPrefixWithKeyExpansionImpl\<close>: \<open>encoded\<close> is the part of the encoded key behind the node and \<open>actual\<close> the
  content of \<open>actual_key_buffer\<close>, both of length \<open>key_pos\<close>; a character behind the end of the buffer is \<open>None\<close>.\<close>

fun lookup_prefix_with_key_expansion ::
  "(bytes \<Rightarrow> bytes) \<Rightarrow> system_dictionary \<Rightarrow> bytes \<Rightarrow> expansion_table \<Rightarrow> 's callback \<Rightarrow> bytes \<Rightarrow> bytes \<Rightarrow> louds_node \<Rightarrow> nat \<Rightarrow> bytes \<Rightarrow>
     's \<Rightarrow> (result_type \<times> 's) option" where
  "lookup_prefix_with_key_expansion h2k sd key table cb encoded rest node num_expanded actual st =
     Option.bind (is_terminal_node (key_trie sd) node) (\<lambda>terminal.
     Option.bind
       (if terminal then
          let prefix = take (encoded_decoded_key_length encoded) key in
          visit_terminal h2k sd cb (\<lambda>_. True) prefix (encode_decode_key actual) num_expanded node st
        else Some (TRAVERSE_NEXT_KEY, st)) (\<lambda>(r, st').
     if r = TRAVERSE_DONE \<or> r = TRAVERSE_CULL then Some (r, st')
     else
       (case rest of
          [] \<Rightarrow> Some (TRAVERSE_CONTINUE, st')
        | current_char # cs \<Rightarrow>
            Option.bind (children (key_trie sd) node)
              (\<lambda>nodes. until_done
                 (\<lambda>(c, m) st.
                    if \<not> is_hit (expand_key table current_char) c then Some (TRAVERSE_CONTINUE, st)
                    else if max_depth < length encoded then None
                    else lookup_prefix_with_key_expansion h2k sd key table cb (encoded @ [current_char]) cs m
                           (num_expanded + (if c \<noteq> current_char then 1 else 0)) (actual @ [c]) st)
                 nodes st'))))"

declare lookup_prefix_with_key_expansion.simps [simp del]

text \<open>\<open>LookupPrefix\<close> hands \<open>key.data()\<close> on, a string that ends at the first byte 0.\<close>

definition c_string :: "bytes \<Rightarrow> bytes" where
  "c_string s = takeWhile (\<lambda>c. c \<noteq> chr_of 0) s"

definition lookup_prefix ::
  "(bytes \<Rightarrow> bytes) \<Rightarrow> system_dictionary \<Rightarrow> bytes \<Rightarrow> 's callback \<Rightarrow> 's \<Rightarrow> 's option" where
  "lookup_prefix h2k sd key cb st =
     (let encoded_key = encode_decode_key key in
      if \<not> is_kana_modifier_insensitive cb
      then run_callback_on_each_prefix h2k sd (c_string key) cb (\<lambda>_. True) [] encoded_key root_node st
      else map_option snd
        (lookup_prefix_with_key_expansion h2k sd (c_string key) (hiragana_expansion_table sd) cb [] encoded_key root_node 0 [] st))"

section \<open>Prefixes of keys\<close>

lemma utf8_to_utf32_append:
  "\<forall>c \<in> set cs. c < 0x80000000 \<Longrightarrow> utf8_to_utf32 (utf8_text cs @ r) = cs @ utf8_to_utf32 r"
  by (induction cs) (simp_all add: utf8_to_utf32.simps [of "utf8_spec _ @ _"] split_first_spec)

lemma plain_text_bound: "plain_text s \<Longrightarrow> \<forall>c \<in> set (utf8_to_utf32 s). c < 0x80000000"
  by (auto simp: plain_text_def list_all_iff)

lemma encode_key_prefix:
  assumes "plain_text a" "plain_text b" "prefix a b"
  shows "prefix (encode_decode_key a) (encode_decode_key b)"
proof -
  obtain r where r: "b = a @ r" using assms(3) by (auto simp: prefix_def)
  have "utf8_to_utf32 (utf8_text (utf8_to_utf32 a) @ r) = utf8_to_utf32 a @ utf8_to_utf32 r"
    by (rule utf8_to_utf32_append [OF plain_text_bound [OF assms(1)]])
  then have "utf8_to_utf32 b = utf8_to_utf32 a @ utf8_to_utf32 r" using plain_text_spec [OF assms(1)] r by simp
  then show ?thesis by (simp add: encode_key_text [OF assms(1)] encode_key_text [OF assms(2)])
qed

lemma encode_key_prefix_iff:
  assumes "plain_text a" "plain_text b"
  shows "prefix (encode_decode_key a) (encode_decode_key b) \<longleftrightarrow> prefix a b"
  using encode_key_prefix [OF assms] encode_key_prefix [OF encode_key_plain(1) encode_key_plain(1), of a b] assms
  by (auto simp: key_round_trip)

lemma plain_text_no_zero:
  assumes "plain_text s"
  shows "chr_of 0 \<notin> set s"
proof -
  have "chr_of 0 \<notin> set (encode_decode_key (encode_decode_key s))" by (rule encode_key_no_zero) (rule encode_key_plain(1) [OF assms])
  then show ?thesis by (simp add: key_round_trip [OF assms])
qed

lemma c_string_plain: "plain_text s \<Longrightarrow> c_string s = s"
  using plain_text_no_zero [of s] by (auto simp: c_string_def takeWhile_eq_all_conv)

text \<open>Two lists of prefixes of one string, each from short to long, are equal when they have the same elements.\<close>

lemma prefix_lists_eq:
  assumes "\<forall>x \<in> set xs. prefix x s" "sorted_wrt (<) (map length xs)" "\<forall>x \<in> set ys. prefix x s" "sorted_wrt (<) (map length ys)"
    and "set xs = set ys"
  shows "xs = ys"
proof -
  have l: "map length xs = map length ys" using assms(2,4,5) by (intro strict_sorted_equal) auto
  have t: "zs = map (\<lambda>n. take n s) (map length zs)" if "\<forall>x \<in> set zs. prefix x s" for zs
    using that by (induction zs) (auto simp: prefix_def)
  show ?thesis using t [OF assms(1)] t [OF assms(3)] l by metis
qed

definition stored_prefixes :: "token list \<Rightarrow> bytes \<Rightarrow> bytes list" where
  "stored_prefixes tokens key = filter (\<lambda>p. p \<in> token_key ` set tokens) (map (\<lambda>j. take j key) [1..<Suc (length key)])"

lemma plain_key_stored:
  assumes d: "dict_input tokens" and p: "plain_text key"
  shows "encode_decode_key key \<in> key_words tokens \<longleftrightarrow> key \<in> token_key ` set tokens"
proof
  assume "encode_decode_key key \<in> key_words tokens"
  then obtain t where "t \<in> set tokens" "encode_decode_key key = encode_decode_key (token_key t)" by (auto simp: key_words_def)
  moreover from this have "key = token_key t"
    using dict_input_token(3) [OF d] p encode_key_inj by (simp add: inj_on_def)
  ultimately show "key \<in> token_key ` set tokens" by blast
qed (auto simp: key_words_def)

lemma sorted_takes: "sorted_wrt (<) (map length (filter P (map (\<lambda>j. take j s) [1..<Suc (length s)])))"
proof -
  have "sorted_wrt (\<lambda>x y. length x < length y) (map (\<lambda>j. take j s) [1..<Suc (length s)])"
    by (auto simp: sorted_wrt_map sorted_wrt_iff_nth_less simp del: upt_Suc)
  then have "sorted_wrt (\<lambda>x y. length x < length y) (filter P (map (\<lambda>j. take j s) [1..<Suc (length s)]))" by (rule sorted_wrt_filter)
  then show ?thesis by (simp add: sorted_wrt_map)
qed

lemma set_takes: "set (filter P (map (\<lambda>j. take j s) [1..<Suc (length s)])) = {p. P p \<and> prefix p s \<and> p \<noteq> []}"
proof -
  have "\<exists>j. Suc 0 \<le> j \<and> j \<le> length s \<and> p = take j s" if "prefix p s" "p \<noteq> []" for p
    using that by (intro exI [of _ "length p"]) (auto simp: prefix_def Suc_le_eq)
  then have "p \<in> (\<lambda>j. take j s) ` {1..<Suc (length s)}" if "prefix p s" "p \<noteq> []" for p using that by fastforce
  then show ?thesis by (auto simp: take_is_prefix simp del: upt_Suc)
qed

lemma decoded_prefixes:
  assumes d: "dict_input tokens" and key: "plain_text key"
  shows "map encode_decode_key (filter (\<lambda>p. p \<in> key_words tokens) (map (\<lambda>j. take j (encode_decode_key key)) [1..<Suc (length (encode_decode_key key))]))
    = stored_prefixes tokens key"
proof (rule prefix_lists_eq [where s = key])
  let ?enc = "encode_decode_key key"
  let ?ps = "filter (\<lambda>p. p \<in> key_words tokens) (map (\<lambda>j. take j ?enc) [1..<Suc (length ?enc)])"
  have kw: "plain_text p \<and> encode_decode_key p \<in> token_key ` set tokens \<and> plain_text (encode_decode_key p)"
    if pk: "p \<in> key_words tokens" for p
  proof -
    obtain t where t: "t \<in> set tokens" "p = encode_decode_key (token_key t)" using pk by (auto simp: key_words_def)
    then show ?thesis using dict_input_token(3) [OF d t(1)] encode_key_plain(1) by (auto simp: key_round_trip)
  qed
  have ps: "set ?ps = {p. p \<in> key_words tokens \<and> prefix p ?enc \<and> p \<noteq> []}" by (rule set_takes)
  have dec: "prefix (encode_decode_key p) key" if "p \<in> key_words tokens" "prefix p ?enc" for p
    using encode_key_prefix_iff [of "encode_decode_key p" key] kw [OF that(1)] key that(2) by (simp add: key_round_trip)
  show pre: "\<forall>x \<in> set (map encode_decode_key ?ps). prefix x key" using ps dec by auto
  have "sorted_wrt (\<lambda>p q. length (encode_decode_key p) < length (encode_decode_key q)) ?ps"
  proof (rule sorted_wrt_mono_rel)
    show "sorted_wrt (\<lambda>p q. length p < length q) ?ps"
      using sorted_takes [of "\<lambda>p. p \<in> key_words tokens" ?enc] unfolding sorted_wrt_map .
  next
    fix p q assume pq: "p \<in> set ?ps" "q \<in> set ?ps" "length p < length q"
    then have k: "p \<in> key_words tokens" "q \<in> key_words tokens" "prefix p ?enc" "prefix q ?enc" using ps by auto
    then have "prefix p q" using pq(3) by (meson prefix_length_prefix less_imp_le)
    then have "prefix (encode_decode_key p) (encode_decode_key q)" using encode_key_prefix kw k(1,2) by blast
    moreover have "encode_decode_key p \<noteq> encode_decode_key q"
    proof
      assume "encode_decode_key p = encode_decode_key q"
      then have "p = q" using encode_key_inj kw k(1,2) by (simp add: inj_on_def)
      then show False using pq(3) by simp
    qed
    ultimately show "length (encode_decode_key p) < length (encode_decode_key q)" by (simp add: prefix_length_less strict_prefix_def)
  qed
  then show "sorted_wrt (<) (map length (map encode_decode_key ?ps))" by (simp add: sorted_wrt_map)
  show "\<forall>x \<in> set (stored_prefixes tokens key). prefix x key" unfolding stored_prefixes_def set_takes by simp
  show "sorted_wrt (<) (map length (stored_prefixes tokens key))" unfolding stored_prefixes_def by (rule sorted_takes)
  show "set (map encode_decode_key ?ps) = set (stored_prefixes tokens key)"
  proof (intro equalityI subsetI)
    fix x assume "x \<in> set (map encode_decode_key ?ps)"
    then obtain p where p: "x = encode_decode_key p" "p \<in> key_words tokens" "prefix p ?enc" using ps by auto
    then have "x \<in> token_key ` set tokens" "prefix x key" using kw dec by auto
    moreover from this have "x \<noteq> []" using dict_input_token(1) [OF d] by auto
    ultimately show "x \<in> set (stored_prefixes tokens key)" unfolding stored_prefixes_def set_takes by simp
  next
    fix x assume "x \<in> set (stored_prefixes tokens key)"
    then have x: "x \<in> token_key ` set tokens" "prefix x key" "x \<noteq> []" unfolding stored_prefixes_def set_takes by auto
    then have px: "plain_text x" using dict_input_token(3) [OF d] by auto
    have "encode_decode_key x \<in> key_words tokens" using x(1) by (auto simp: key_words_def)
    moreover have "prefix (encode_decode_key x) ?enc" by (rule encode_key_prefix [OF px key x(2)])
    moreover have "encode_decode_key x \<noteq> []" by (rule encode_key_nonempty [OF px x(3)])
    ultimately have "encode_decode_key x \<in> set ?ps" unfolding ps by simp
    then show "x \<in> set (map encode_decode_key ?ps)" using key_round_trip [OF px] by (metis image_eqI set_map)
  qed
qed

section \<open>The lookups of a built dictionary\<close>

text \<open>What a callback sees of one key and its tokens, and of a list of keys.\<close>

definition visit_key :: "'s callback \<Rightarrow> bytes \<Rightarrow> token list \<Rightarrow> 's \<Rightarrow> result_type \<times> 's" where
  "visit_key cb key ts st =
     (let (r1, st1) = on_key cb key st in
      if r1 \<noteq> TRAVERSE_CONTINUE then (r1, st1)
      else
        let (r2, st2) = on_actual_key cb key key 0 st1 in
        if r2 \<noteq> TRAVERSE_CONTINUE then (r2, st2) else run_while_continue (on_token cb key key) ts st2)"

fun visit_keys :: "'s callback \<Rightarrow> (bytes \<Rightarrow> token list) \<Rightarrow> bytes list \<Rightarrow> 's \<Rightarrow> 's" where
  "visit_keys cb tokens_of [] st = st"
| "visit_keys cb tokens_of (key # keys) st =
     (let (r, st') = visit_key cb key (tokens_of key) st in
      if r = TRAVERSE_DONE \<or> r = TRAVERSE_CULL then st' else visit_keys cb tokens_of keys st')"

lemma length_frequent_pos_array: "length (frequent_pos_array frequent) = 256"
proof -
  have "length (fold (\<lambda>(pos, i) arr. arr[i := pos]) frequent arr) = length arr" for arr :: "32 word list"
    by (induction frequent arbitrary: arr) (auto split: prod.split)
  then show ?thesis by (simp add: frequent_pos_array_def)
qed

lemma build_opens:
  assumes d: "dict_input tokens"
  shows "\<exists>b secs sd. build_from_tokens h2k n tokens new_dict_builder = Some b \<and> write_sections b = Some secs \<and>
    open_dictionary secs False = Some sd \<and> dict_stores h2k tokens sd \<and>
    list_all image_fits [value_section secs, key_section secs, token_section secs] \<and> length (pos_section secs) = 256"
proof -
  from dictionary_built [OF d, of h2k n kValueTrieLb0CacheSize kValueTrieLb1CacheSize kValueTrieSelect0CacheSize
      kValueTrieSelect1CacheSize kValueTrieTermvecCacheSize kKeyTrieLb0CacheSize kKeyTrieLb1CacheSize kKeyTrieSelect0CacheSize
      kKeyTrieSelect1CacheSize kKeyTrieTermvecCacheSize]
  obtain b secs vt kt ta frequent where b: "build_from_tokens h2k n tokens new_dict_builder = Some b" "write_sections b = Some secs"
    "trie_open (value_section secs) kValueTrieLb0CacheSize kValueTrieLb1CacheSize kValueTrieSelect0CacheSize
      kValueTrieSelect1CacheSize kValueTrieTermvecCacheSize = Some vt" "represents vt (value_words h2k tokens)"
    "trie_open (key_section secs) kKeyTrieLb0CacheSize kKeyTrieLb1CacheSize kKeyTrieSelect0CacheSize
      kKeyTrieSelect1CacheSize kKeyTrieTermvecCacheSize = Some kt" "represents kt (key_words tokens)"
    "array_open (token_section secs) = Some ta" "pos_section secs = frequent_pos_array frequent" "frequent_ok frequent"
    "token_store h2k tokens frequent ta" "list_all image_fits [value_section secs, key_section secs, token_section secs]" by blast
  then show ?thesis by (auto simp: length_frequent_pos_array open_dictionary_def Let_def dict_stores_def)
qed

lemma tokens_of_exists:
  assumes d: "dict_input tokens" and s: "dict_stores h2k tokens sd" and fit: "values_fit h2k tokens"
  shows "\<exists>tokens_of. \<forall>key \<in> token_key ` set tokens. stored_tokens tokens key (tokens_of key) \<and>
    (\<forall>f (st :: 's). tokens_of_key h2k sd key (key_id (key_words tokens) (encode_decode_key key)) (\<lambda>info. f (info_token info)) st =
       Some (run_while_continue f (tokens_of key) st))"
proof -
  have "\<exists>ts. stored_tokens tokens key ts \<and>
    (\<forall>f (st :: 's). tokens_of_key h2k sd key (key_id (key_words tokens) (encode_decode_key key)) (\<lambda>info. f (info_token info)) st =
       Some (run_while_continue f ts st))" if k: "key \<in> token_key ` set tokens" for key
  proof -
    obtain xs where xs: "stored_tokens tokens key (map info_token xs)"
      "\<forall>g (st :: 's). tokens_of_key h2k sd key (key_id (key_words tokens) (encode_decode_key key)) g st = Some (run_while_continue g xs st)"
      using tokens_of_key_stored [OF d s fit k] by blast
    then show ?thesis by (intro exI [of _ "map info_token xs"]) (simp add: run_while_continue_map)
  qed
  then show ?thesis by metis
qed

lemma lookup_exact_stored:
  assumes d: "dict_input tokens" and s: "dict_stores h2k tokens sd" and p: "plain_text key"
    and ts: "key \<in> token_key ` set tokens \<Longrightarrow>
      tokens_of_key h2k sd key (key_id (key_words tokens) (encode_decode_key key)) (\<lambda>info. on_token cb key key (info_token info)) =
        (\<lambda>st. Some (run_while_continue (on_token cb key key) ts st))"
  shows "lookup_exact h2k sd key cb st = Some (if key \<in> token_key ` set tokens then snd (visit_key cb key ts st) else st)"
proof -
  have K: "represents (key_trie sd) (key_words tokens)" using s by (simp add: dict_stores_def)
  show ?thesis
  proof (cases "key \<in> token_key ` set tokens")
    case True
    then have "exact_search (key_trie sd) (encode_decode_key key) = Some (int (key_id (key_words tokens) (encode_decode_key key)))"
      using exact_search_represents(1) [OF K] plain_key_stored [OF d p] by simp
    then show ?thesis using True ts by (simp add: lookup_exact_def visit_key_def split: prod.splits)
  next
    case False
    then have "exact_search (key_trie sd) (encode_decode_key key) = Some (- 1)"
      using exact_search_represents(1) [OF K] plain_key_stored [OF d p] by simp
    then show ?thesis using False by (simp add: lookup_exact_def)
  qed
qed

lemma run_prefixes_stored:
  fixes cb :: "'s callback"
  assumes K: "represents (key_trie sd) K"
    and visit: "\<And>p m st. p \<in> K \<Longrightarrow> stands_at (key_trie sd) K p m \<Longrightarrow> prefix p full \<Longrightarrow>
      visit_terminal h2k sd cb (\<lambda>_. True) (encode_decode_key p) (encode_decode_key p) 0 m st =
        Some (visit_key cb (encode_decode_key p) (tokens_of (encode_decode_key p)) st)"
    and len: "\<And>p. p \<in> K \<Longrightarrow> prefix p full \<Longrightarrow> take (encoded_decoded_key_length p) key = encode_decode_key p"
  shows "stands_at (key_trie sd) K encoded node \<Longrightarrow> encoded @ cs = full \<Longrightarrow>
    run_callback_on_each_prefix h2k sd key cb (\<lambda>_. True) encoded cs node st =
      Some (visit_keys cb tokens_of (map encode_decode_key
        (filter (\<lambda>p. p \<in> K) (map (\<lambda>j. encoded @ take j cs) [1..<Suc (length cs)]))) st)"
proof (induction cs arbitrary: encoded node st)
  case (Cons c cs)
  have up: "map (\<lambda>j. encoded @ take j (c # cs)) [1..<Suc (length (c # cs))] =
      (encoded @ [c]) # map (\<lambda>j. (encoded @ [c]) @ take j cs) [1..<Suc (length cs)]"
  proof -
    have "[1..<Suc (length (c # cs))] = 1 # map Suc [1..<Suc (length cs)]"
      unfolding map_Suc_upt by (simp add: upt_conv_Cons del: upt_Suc)
    then show ?thesis by (simp del: upt_Suc)
  qed
  obtain m where m: "move_to_child_by_label (key_trie sd) c node = Some (\<exists>w \<in> K. prefix (encoded @ [c]) w, m)"
    "(\<exists>w \<in> K. prefix (encoded @ [c]) w) \<longrightarrow> stands_at (key_trie sd) K (encoded @ [c]) m"
    using child_search [OF K Cons.prems(1)] by blast
  show ?case
  proof (cases "\<exists>w \<in> K. prefix (encoded @ [c]) w")
    case False
    then have "filter (\<lambda>p. p \<in> K) (map (\<lambda>j. encoded @ take j (c # cs)) [1..<Suc (length (c # cs))]) = []"
      unfolding up by (auto simp: filter_empty_conv simp del: upt_Suc)
    then show ?thesis using m(1) False by simp
  next
    case True
    then have at: "stands_at (key_trie sd) K (encoded @ [c]) m" using m(2) by blast
    note ih = Cons.IH [OF at]
    have full: "(encoded @ [c]) @ cs = full" using Cons.prems(2) by simp
    then have pf: "prefix (encoded @ [c]) full" by (metis prefixI)
    show ?thesis
    proof (cases "encoded @ [c] \<in> K")
      case in_K: True
      note l = len [OF in_K pf] and v = visit [OF in_K at pf]
      show ?thesis unfolding up using m(1) True in_K
        by (simp add: terminal_facts(1) [OF K at] l v ih [OF full] Let_def del: upt_Suc split: prod.splits)
    next
      case False
      then show ?thesis unfolding up using m(1) True
        by (simp add: terminal_facts(1) [OF K at] ih [OF full] Let_def del: upt_Suc)
    qed
  qed
qed simp

lemma lookup_prefix_stored:
  fixes cb :: "'s callback"
  assumes d: "dict_input tokens" and s: "dict_stores h2k tokens sd" and p: "plain_text key" and cb: "\<not> is_kana_modifier_insensitive cb"
    and ts: "\<forall>key \<in> token_key ` set tokens. \<forall>st.
      tokens_of_key h2k sd key (key_id (key_words tokens) (encode_decode_key key)) (\<lambda>info. on_token cb key key (info_token info)) st =
        Some (run_while_continue (on_token cb key key) (tokens_of key) st)"
  shows "lookup_prefix h2k sd key cb st = Some (visit_keys cb tokens_of (stored_prefixes tokens key) st)"
proof -
  let ?K = "key_words tokens" and ?enc = "encode_decode_key key"
  have K: "represents (key_trie sd) ?K" using s by (simp add: dict_stores_def)
  have kw: "plain_text p \<and> encode_decode_key p \<in> token_key ` set tokens \<and> plain_text (encode_decode_key p) \<and>
      encode_decode_key (encode_decode_key p) = p" if pk: "p \<in> ?K" for p
  proof -
    obtain t where t: "t \<in> set tokens" "p = encode_decode_key (token_key t)" using pk by (auto simp: key_words_def)
    then show ?thesis using dict_input_token(3) [OF d t(1)] encode_key_plain(1) by (auto simp: key_round_trip)
  qed
  have visit: "visit_terminal h2k sd cb (\<lambda>_. True) (encode_decode_key p) (encode_decode_key p) 0 m st =
      Some (visit_key cb (encode_decode_key p) (tokens_of (encode_decode_key p)) st)"
    if "p \<in> ?K" "stands_at (key_trie sd) ?K p m" for p m st
  proof -
    have "encode_decode_key p \<in> token_key ` set tokens" "encode_decode_key (encode_decode_key p) = p" using kw [OF that(1)] by simp_all
    then show ?thesis using terminal_facts(2) [OF K that(2)] ts [rule_format, of "encode_decode_key p"]
      by (simp add: visit_terminal_def visit_key_def split: prod.splits)
  qed
  have len: "take (encoded_decoded_key_length p) key = encode_decode_key p" if "p \<in> ?K" "prefix p ?enc" for p
  proof -
    have "prefix (encode_decode_key p) key"
      using encode_key_prefix_iff [of "encode_decode_key p" key] kw [OF that(1)] p that(2) by simp
    then show ?thesis using encoded_key_length [of p] kw [OF that(1)] by (auto simp: prefix_def)
  qed
  have "run_callback_on_each_prefix h2k sd key cb (\<lambda>_. True) [] ?enc root_node st =
      Some (visit_keys cb tokens_of (map encode_decode_key (filter (\<lambda>p. p \<in> ?K) (map (\<lambda>j. [] @ take j ?enc) [1..<Suc (length ?enc)]))) st)"
    by (rule run_prefixes_stored [OF K visit len root_stands [OF K]]) simp_all
  then show ?thesis using decoded_prefixes [OF d p] cb c_string_plain [OF p] by (simp add: lookup_prefix_def del: upt_Suc)
qed

section \<open>Properties\<close>

text \<open>
  C1: (dictionary) for any list of tokens in the ranges of the codec, building and writing the system dictionary
  succeeds and the written sections open; then \<open>HasKey\<close> is exact, and \<open>LookupExact\<close> of a key calls \<open>OnKey\<close> and
  \<open>OnActualKey\<close> once and \<open>OnToken\<close>, until the callback stops it, for exactly the tokens given for the key, each with its
  value, pos ids and spelling-correction attribute and with its cost up to the low eight bits; \<open>LookupPrefix\<close> does so for
  exactly the keys that are prefixes of the given one, shortest first.
\<close>

theorem dictionary_lookup:
  fixes cb :: "'s callback"
  assumes "dict_input tokens" "values_fit h2k tokens" "\<not> is_kana_modifier_insensitive cb"
  shows "\<exists>b secs sd tokens_of. build_from_tokens h2k n tokens new_dict_builder = Some b \<and> write_sections b = Some secs \<and>
    open_dictionary secs False = Some sd \<and>
    (\<forall>key \<in> token_key ` set tokens. stored_tokens tokens key (tokens_of key)) \<and>
    (\<forall>key st. plain_text key \<longrightarrow>
       dict_has_key sd key = Some (key \<in> token_key ` set tokens) \<and>
       lookup_exact h2k sd key cb st = Some (if key \<in> token_key ` set tokens then snd (visit_key cb key (tokens_of key) st) else st) \<and>
       lookup_prefix h2k sd key cb st = Some (visit_keys cb tokens_of (stored_prefixes tokens key) st))"
proof -
  obtain b secs sd where b: "build_from_tokens h2k n tokens new_dict_builder = Some b" "write_sections b = Some secs"
    "open_dictionary secs False = Some sd" "dict_stores h2k tokens sd" using build_opens [OF assms(1)] by blast
  from tokens_of_exists [OF assms(1) b(4) assms(2)] obtain tokens_of where t: "\<forall>key \<in> token_key ` set tokens. stored_tokens tokens key (tokens_of key) \<and>
    (\<forall>f (st :: 's). tokens_of_key h2k sd key (key_id (key_words tokens) (encode_decode_key key)) (\<lambda>info. f (info_token info)) st =
       Some (run_while_continue f (tokens_of key) st))" by (elim exE) (rule that)
  have ts1: "\<forall>key \<in> token_key ` set tokens. stored_tokens tokens key (tokens_of key)" using t by simp
  have ts2: "\<forall>key \<in> token_key ` set tokens. \<forall>st.
      tokens_of_key h2k sd key (key_id (key_words tokens) (encode_decode_key key)) (\<lambda>info. on_token cb key key (info_token info)) st =
        Some (run_while_continue (on_token cb key key) (tokens_of key) st)"
  proof (intro ballI allI)
    fix key st assume "key \<in> token_key ` set tokens"
    from bspec [OF t this] show "tokens_of_key h2k sd key (key_id (key_words tokens) (encode_decode_key key))
        (\<lambda>info. on_token cb key key (info_token info)) st = Some (run_while_continue (on_token cb key key) (tokens_of key) st)"
      by simp
  qed
  have "dict_has_key sd key = Some (key \<in> token_key ` set tokens)" if "plain_text key" for key
    using exact_search_represents(2) [of "key_trie sd" "key_words tokens"] b(4) plain_key_stored [OF assms(1) that]
    by (simp add: dict_has_key_def dict_stores_def)
  moreover have "lookup_exact h2k sd key cb st = Some (if key \<in> token_key ` set tokens then snd (visit_key cb key (tokens_of key) st) else st)"
    if "plain_text key" for key st
    by (rule lookup_exact_stored [OF assms(1) b(4) that]) (use ts2 in auto)
  moreover have "lookup_prefix h2k sd key cb st = Some (visit_keys cb tokens_of (stored_prefixes tokens key) st)"
    if "plain_text key" for key st
    by (rule lookup_prefix_stored [OF assms(1) b(4) that assms(3) ts2])
  ultimately show ?thesis using b ts1 by blast
qed

text \<open>A callback that takes the values of the tokens and stops at the third.\<close>

definition take_values :: "bytes list callback" where
  "take_values = \<lparr>on_key = (\<lambda>_ st. (TRAVERSE_CONTINUE, st)), on_actual_key = (\<lambda>_ _ _ st. (TRAVERSE_CONTINUE, st)),
     on_token = (\<lambda>_ _ t st. (if length st < 2 then TRAVERSE_CONTINUE else TRAVERSE_DONE, st @ [token_value t])),
     is_kana_modifier_insensitive = False\<rparr>"

theorem dictionary_lookup_witness:
  "\<exists>sd. dict_has_key sd (utf8_text [0x3042]) = Some True \<and>
     lookup_exact id sd (utf8_text [0x4e9c]) take_values [] = Some []"
proof -
  let ?a = "utf8_text [0x3042]" and ?v = "utf8_text [0x4e9c]"
  have f: "values_fit id sample_tokens"
    using encode_value_length [OF sample_texts(2)] unfolding values_fit_def sample_values sample_texts(4) by (simp add: max_depth_def)
  have m: "\<not> is_kana_modifier_insensitive take_values" by (simp add: take_values_def)
  have k: "token_key ` set sample_tokens = {?a}" by (auto simp: sample_tokens_def)
  from dictionary_lookup [OF sample_input f m, of 0] obtain sd tokens_of where sd: "\<forall>key st. plain_text key \<longrightarrow>
       dict_has_key sd key = Some (key \<in> token_key ` set sample_tokens) \<and>
       lookup_exact id sd key take_values st =
         Some (if key \<in> token_key ` set sample_tokens then snd (visit_key take_values key (tokens_of key) st) else st) \<and>
       lookup_prefix id sd key take_values st = Some (visit_keys take_values tokens_of (stored_prefixes sample_tokens key) st)"
    by (elim exE conjE) (rule that)
  have "dict_has_key sd ?a = Some True" using sd sample_texts(1) unfolding k by simp
  moreover have "lookup_exact id sd ?v take_values [] = Some []" using sd sample_texts(2) sample_differ(1) unfolding k by simp
  ultimately show ?thesis by blast
qed

end
