(* ===== verification/Dictionary_File.thy ===== *)
theory Dictionary_File
  imports Dictionary_Lookup Base_Words "HOL-Library.Signed_Division"
begin

text \<open>
  The file of the system dictionary: the container format of \<open>dictionary/file/codec.cc\<close> with its fingerprints as names
  (\<open>WriteInt32\<close> is \<open>store32\<close>), the lookup of sections of \<open>dictionary/file/dictionary_file.cc\<close>, and
  \<open>SystemDictionary::Builder::Build\<close> for an image in memory.  A read outside the image and a loop without end are \<open>None\<close>, an error
  status is \<open>Inl\<close>.  The theorems show that a dictionary file opens as the sections it was written from, and that an image
  with a negative section size makes the reader loop.
\<close>

section \<open>Writing sections\<close>

record file_codec =
  codec_seed :: "32 word"

definition filemagic :: "32 word" where "filemagic = 20110701"

definition new_file_codec :: file_codec where
  "new_file_codec = \<lparr>codec_seed = 2135654146\<rparr>"

record file_section =
  section_image :: bytes
  section_name :: bytes

text \<open>Sums of type \<open>int\<close> that leave its range are \<open>None\<close>, in \<open>RoundUp4\<close> and when the loop of \<open>Pad4\<close> counts up.\<close>

definition round_up4 :: "int \<Rightarrow> int option" where
  "round_up4 len = (let r = len smod 4; n = len + ((4 - r) smod 4) in if n < 2 ^ 31 then Some n else None)"

function pad4 :: "int \<Rightarrow> bytes option" where
  "pad4 i =
     (if i smod 4 = 0 then Some []
      else if 2 ^ 31 \<le> i + 1 then None
      else map_option ((#) (chr_of 0)) (pad4 (i + 1)))"
  by pat_completeness auto
termination
  by (relation "measure (\<lambda>i. nat (2 ^ 31 - i))") auto

declare pad4.simps [simp del]

text \<open>The size of the image is converted to \<open>int32_t\<close> and \<open>int\<close>.\<close>

definition write_section :: "file_section \<Rightarrow> bytes option" where
  "write_section s =
     map_option (\<lambda>padding. store32 (word_of_nat (length (section_image s))) @ section_name s @ section_image s @ padding)
       (pad4 (narrow_to_int (length (section_image s))))"

definition write_header :: "file_codec \<Rightarrow> bytes" where
  "write_header codec = store32 filemagic @ store32 (codec_seed codec)"

definition section_order :: "file_section list \<Rightarrow> file_section list" where
  "section_order secs = (if length secs = 4 then [secs ! 0, secs ! 2, secs ! 1, secs ! 3] else secs)"

definition write_file :: "file_codec \<Rightarrow> file_section list \<Rightarrow> bytes option" where
  "write_file codec secs =
     map_option (\<lambda>written. write_header codec @ concat written @ store32 0) (those (map write_section (section_order secs)))"

definition get_section_name :: "file_codec \<Rightarrow> bytes \<Rightarrow> bytes" where
  "get_section_name codec name =
     (let fp = legacy_fingerprint_with_seed name (codec_seed codec)
      in map (\<lambda>k. chr_of (unat (drop_bit (8 * k) fp AND 0xFF))) [0..<8])"

section \<open>Reading sections\<close>

datatype status_code = FAILED_PRECONDITION | OUT_OF_RANGE | UNKNOWN

text \<open>A section that was read: where its data begins, its size and its fingerprint.\<close>

type_synonym section_view = "int \<times> int \<times> bytes"

definition load_at :: "bytes \<Rightarrow> int \<Rightarrow> int option" where
  "load_at img ptr = (if ptr < 0 then None else map_option sint (load32 img (nat ptr)))"

definition image_slice :: "bytes \<Rightarrow> int \<Rightarrow> int \<Rightarrow> bytes option" where
  "image_slice img ptr n =
     (if 0 \<le> ptr \<and> 0 \<le> n \<and> ptr + n \<le> int (length img) then Some (take (nat n) (drop (nat ptr) img)) else None)"

partial_function (option) read_section_list ::
  "bytes \<Rightarrow> int \<Rightarrow> section_view list \<Rightarrow> (status_code + section_view list) option" where
  "read_section_list img ptr views =
     (if int (length img) - ptr < 4 then Some (Inl OUT_OF_RANGE)
      else Option.bind (load_at img ptr) (\<lambda>data_size.
        let ptr1 = ptr + 4 in
        if data_size = 0 then
          Some (if ptr1 \<noteq> int (length img) then Inl FAILED_PRECONDITION else Inr views)
        else
          Option.bind (round_up4 data_size) (\<lambda>padded_data_size.
            if int (length img) < ptr1 + 8 + padded_data_size then Some (Inl OUT_OF_RANGE)
            else Option.bind (image_slice img ptr1 8) (\<lambda>fingerprint.
              read_section_list img (ptr1 + 8 + padded_data_size) (views @ [(ptr1 + 8, data_size, fingerprint)])))))"

definition read_sections :: "file_codec \<Rightarrow> bool \<Rightarrow> bytes \<Rightarrow> (status_code + file_codec \<times> section_view list) option" where
  "read_sections codec aligned img =
     (if length img < 12 \<or> \<not> aligned then Some (Inl FAILED_PRECONDITION)
      else Option.bind (load32 img 0) (\<lambda>magic.
        if magic \<noteq> filemagic then Some (Inl FAILED_PRECONDITION)
        else Option.bind (load32 img 4) (\<lambda>seed.
          map_option (map_sum id (\<lambda>views. (codec\<lparr>codec_seed := seed\<rparr>, views))) (read_section_list img 8 []))))"

text \<open>\<open>GetSection\<close>: the first section with the fingerprint of the name.\<close>

definition get_section :: "file_codec \<Rightarrow> section_view list \<Rightarrow> bytes \<Rightarrow> (int \<times> int) option" where
  "get_section codec views name =
     map_option (\<lambda>(ptr, n, fp). (ptr, n)) (find (\<lambda>(ptr, n, fp). fp = get_section_name codec name) views)"

section \<open>The file of a dictionary\<close>

definition kKeySectionName :: bytes where "kKeySectionName = ''k''"
definition kValueSectionName :: bytes where "kValueSectionName = ''v''"
definition kTokensSectionName :: bytes where "kTokensSectionName = ''t''"
definition kPosSectionName :: bytes where "kPosSectionName = ''p''"

text \<open>\<open>WriteToStream\<close> of the builder: the four sections in the order value, key, tokens, pos.\<close>

definition dictionary_file :: "file_codec \<Rightarrow> dict_sections \<Rightarrow> bytes option" where
  "dictionary_file codec secs =
     write_file codec
       [\<lparr>section_image = value_section secs, section_name = get_section_name codec kValueSectionName\<rparr>,
        \<lparr>section_image = key_section secs, section_name = get_section_name codec kKeySectionName\<rparr>,
        \<lparr>section_image = token_section secs, section_name = get_section_name codec kTokensSectionName\<rparr>,
        \<lparr>section_image = concat (map store32 (pos_section secs)), section_name = get_section_name codec kPosSectionName\<rparr>]"

text \<open>\<open>MakeAlignedConstSpan\<close> for words of 32 bits, in an aligned image.\<close>

definition make_aligned_const_span :: "int \<Rightarrow> bytes \<Rightarrow> 32 word list option" where
  "make_aligned_const_span ptr data =
     (if ptr mod 4 \<noteq> 0 \<or> length data < 4 \<or> length data mod 4 \<noteq> 0 then Some []
      else those (map (\<lambda>i. load32 data (4 * i)) [0..<length data div 4]))"

text \<open>\<open>Builder::Build\<close> for an image: reading the sections, then \<open>OpenDictionaryFile\<close>.\<close>

definition build_from_image :: "file_codec \<Rightarrow> bool \<Rightarrow> bytes \<Rightarrow> bool \<Rightarrow> (status_code + system_dictionary) option" where
  "build_from_image codec aligned img enable_reverse_lookup_index =
     Option.bind (read_sections codec aligned img) (\<lambda>r.
       case r of
         Inl status \<Rightarrow> Some (Inl status)
       | Inr (codec', views) \<Rightarrow>
           (case (get_section codec' views kKeySectionName, get_section codec' views kValueSectionName,
                  get_section codec' views kTokensSectionName, get_section codec' views kPosSectionName) of
              (Some (kp, kn), Some (vp, vn), Some (tp, tn), Some (pp, pn)) \<Rightarrow>
                Option.bind (image_slice img kp kn) (\<lambda>key_image.
                Option.bind (image_slice img vp vn) (\<lambda>value_image.
                Option.bind (image_slice img tp tn) (\<lambda>token_image.
                Option.bind (Option.bind (image_slice img pp pn) (make_aligned_const_span pp)) (\<lambda>pos.
                  map_option Inr
                    (open_dictionary \<lparr>value_section = value_image, key_section = key_image, token_section = token_image,
                       pos_section = pos\<rparr> enable_reverse_lookup_index)))))
            | _ \<Rightarrow> Some (Inl UNKNOWN)))"

section \<open>Reading a written file\<close>

definition padding :: "nat \<Rightarrow> bytes" where
  "padding n = replicate ((4 - n mod 4) mod 4) (chr_of 0)"

lemma smod_nat: "int n smod 4 = int (n mod 4)"
  by (cases "n = 0") (simp_all add: smod_int_alt_def zmod_int)

text \<open>The largest size whose padding fits \<open>int\<close>.\<close>

lemma padded_bound: "n < 2 ^ 31 - 3 \<Longrightarrow> n + length (padding n) < 2 ^ 31"
  by (simp add: padding_def)

lemma round_up4_padding: "n < 2 ^ 31 - 3 \<Longrightarrow> round_up4 (int n) = Some (int n + int (length (padding n)))"
proof -
  assume "n < 2 ^ 31 - 3"
  from padded_bound [OF this] have b: "int n + int (length (padding n)) < 2 ^ 31" by simp
  have "n mod 4 < 4" by simp
  then have "(4 - int (n mod 4)) smod 4 = int ((4 - n mod 4) mod 4)"
    by (simp add: smod_int_alt_def zmod_int of_nat_diff)
  then have "int n + ((4 - int n smod 4) smod 4) = int n + int (length (padding n))" by (simp add: smod_nat padding_def)
  then show ?thesis using b by (simp add: round_up4_def Let_def)
qed

lemma pad4_step: "n mod 4 \<noteq> 0 \<Longrightarrow> n < 2 ^ 31 - 1 \<Longrightarrow> pad4 (int n) = map_option ((#) (chr_of 0)) (pad4 (int (Suc n)))"
  by (subst pad4.simps) (simp add: smod_nat add.commute)

lemma pad4_padding: "n < 2 ^ 31 - 3 \<Longrightarrow> pad4 (int n) = Some (padding n)"
proof -
  assume n: "n < 2 ^ 31 - 3"
  have lt: "n < 2 ^ 31 - 1" "Suc n < 2 ^ 31 - 1" "Suc (Suc n) < 2 ^ 31 - 1" using n by simp_all
  have stop: "pad4 (int m) = Some []" if "m mod 4 = 0" for m using that by (subst pad4.simps) (simp add: smod_nat)
  consider "n mod 4 = 0" | "n mod 4 = 1" | "n mod 4 = 2" | "n mod 4 = 3" by linarith
  then show ?thesis
  proof cases
    case 1
    then show ?thesis by (simp add: stop padding_def)
  next
    case 2
    then have m: "Suc n mod 4 = 2" "Suc (Suc n) mod 4 = 3" "Suc (Suc (Suc n)) mod 4 = 0" by presburger+
    have "pad4 (int n) = Some [chr_of 0, chr_of 0, chr_of 0]"
      by (simp only: pad4_step [OF _ lt(1)] pad4_step [OF _ lt(2)] pad4_step [OF _ lt(3)] stop [OF m(3)] 2 m(1,2) option.map
          one_neq_zero zero_neq_numeral [symmetric] not_False_eq_True)
    moreover have "padding n = [chr_of 0, chr_of 0, chr_of 0]" unfolding padding_def 2 by code_simp
    ultimately show ?thesis by (simp only:)
  next
    case 3
    then have m: "Suc n mod 4 = 3" "Suc (Suc n) mod 4 = 0" by presburger+
    have "pad4 (int n) = Some [chr_of 0, chr_of 0]"
      by (simp only: pad4_step [OF _ lt(1)] pad4_step [OF _ lt(2)] stop [OF m(2)] 3 m(1) option.map
          zero_neq_numeral [symmetric] not_False_eq_True)
    moreover have "padding n = [chr_of 0, chr_of 0]" unfolding padding_def 3 by code_simp
    ultimately show ?thesis by (simp only:)
  next
    case 4
    then have "Suc n mod 4 = 0" by presburger
    then have "pad4 (int n) = Some [chr_of 0]" 
      by (simp only: pad4_step [OF _ lt(1)] stop 4 option.map zero_neq_numeral [symmetric] not_False_eq_True)
    moreover have "padding n = [chr_of 0]" unfolding padding_def 4 by code_simp
    ultimately show ?thesis by (simp only:)
  qed
qed

text \<open>Sections with a size that the reader accepts: not empty, with a padded size of type \<open>int\<close>, named by eight bytes.\<close>

definition section_fits :: "file_section \<Rightarrow> bool" where
  "section_fits s \<longleftrightarrow> 0 < length (section_image s) \<and> length (section_image s) < 2 ^ 31 - 3 \<and> length (section_name s) = 8"

definition section_bytes :: "file_section \<Rightarrow> bytes" where
  "section_bytes s =
     store32 (word_of_nat (length (section_image s))) @ section_name s @ section_image s @ padding (length (section_image s))"

lemma write_section_fits: "section_fits s \<Longrightarrow> write_section s = Some (section_bytes s)"
  by (simp add: write_section_def section_bytes_def section_fits_def narrow_small pad4_padding)

fun views_from :: "int \<Rightarrow> file_section list \<Rightarrow> section_view list" where
  "views_from ptr [] = []"
| "views_from ptr (s # ss) =
     (ptr + 12, int (length (section_image s)), section_name s) # views_from (ptr + int (length (section_bytes s))) ss"

lemma read_written_sections:
  "list_all section_fits secs \<Longrightarrow>
     read_section_list (pre @ concat (map section_bytes secs) @ store32 0) (int (length pre)) views =
       Some (Inr (views @ views_from (int (length pre)) secs))"
proof (induction secs arbitrary: pre views)
  case Nil
  have "load_at (pre @ store32 0) (int (length pre)) = Some 0"
    using load32_store32 [of pre 0 "[]"] by (simp add: load_at_def)
  then show ?case by (simp add: read_section_list.simps)
next
  case (Cons s secs)
  let ?n = "length (section_image s)" and ?tail = "concat (map section_bytes secs) @ store32 0"
  let ?img = "pre @ section_bytes s @ ?tail"
  have n: "0 < ?n" "?n < 2 ^ 31 - 3" "length (section_name s) = 8" using Cons.prems by (simp_all add: section_fits_def)
  have w: "section_bytes s = store32 (word_of_nat ?n) @ section_name s @ section_image s @ padding ?n"
    by (simp add: section_bytes_def)
  have "sint (word_of_nat ?n :: 32 word) = int ?n" using n(2) by (simp add: signed_of_nat signed_take_bit_int_eq_self)
  then have l: "load_at ?img (int (length pre)) = Some (int ?n)"
    using load32_store32 [of pre "word_of_nat ?n"] by (simp add: load_at_def w)
  have len: "length (section_bytes s) = 12 + ?n + length (padding ?n)" using n(3) by (simp add: w)
  have r: "round_up4 (int ?n) = Some (int ?n + int (length (padding ?n)))" using n(2) by (rule round_up4_padding)
  have fp: "image_slice ?img (int (length pre) + 4) 8 = Some (section_name s)"
    using n(3) by (simp add: image_slice_def w nat_add_distrib)
  have "read_section_list ?img (int (length pre)) views =
      read_section_list ?img (int (length (pre @ section_bytes s))) (views @ [(int (length pre) + 12, int ?n, section_name s)])"
    using l fp n(1) len by (subst read_section_list.simps) (simp add: r Let_def add.assoc)
  also have "\<dots> = Some (Inr ((views @ [(int (length pre) + 12, int ?n, section_name s)]) @
      views_from (int (length (pre @ section_bytes s))) secs))"
    using Cons.IH [of "pre @ section_bytes s"] Cons.prems by simp
  finally show ?case by simp
qed

section \<open>The names of the sections\<close>

text \<open>The upper half of the four fingerprints, with the seed of the codec.\<close>

lemma section_mixes:
  "mix (0x9e377a24, 0x9e3779b9, 0x7f4b7f03) = (0x22080211, 0xd74ed15b, 0xa25bd1d3)"
  "mix (0x9e377a2f, 0x9e3779b9, 0x7f4b7f03) = (0x3a9d1d17, 0xaa15c263, 0xbb34390d)"
  "mix (0x9e377a2d, 0x9e3779b9, 0x7f4b7f03) = (0x2435dc1b, 0xcfe97bff, 0x93f4903a)"
  "mix (0x9e377a29, 0x9e3779b9, 0x7f4b7f03) = (0x25fee4b1, 0xed52dea9, 0x74e85bd0)"
proof -
  show "mix (0x9e377a24, 0x9e3779b9, 0x7f4b7f03) = (0x22080211, 0xd74ed15b, 0xa25bd1d3)"
    by (rule mix_steps [where ax = "0x80b77b33" and b_x = "0x294f4c83" and cx = "0xd545fd37" and ay = "0x822f6526" and b_y = "0xb4ffea26" and cy = "0x9bb152ba"]; simp)
  show "mix (0x9e377a2f, 0x9e3779b9, 0x7f4b7f03) = (0x3a9d1d17, 0xaa15c263, 0xbb34390d)"
    by (rule mix_steps [where ax = "0x80b77b28" and b_x = "0x294f578e" and cx = "0xd545e637" and ay = "0x822f693d" and b_y = "0xb8e7081a" and cy = "0x9fe84ca0"]; simp)
  show "mix (0x9e377a2d, 0x9e3779b9, 0x7f4b7f03) = (0x2435dc1b, 0xcfe97bff, 0x93f4903a)"
    by (rule mix_steps [where ax = "0x80b77b2a" and b_x = "0x294f558c" and cx = "0xd545e437" and ay = "0x822f1539" and b_y = "0xc4e35c1c" and cy = "0x88146802"]; simp)
  show "mix (0x9e377a29, 0x9e3779b9, 0x7f4b7f03) = (0x25fee4b1, 0xed52dea9, 0x74e85bd0)"
    by (rule mix_steps [where ax = "0x80b77b36" and b_x = "0x294f4980" and cx = "0xd545f037" and ay = "0x822f1520" and b_y = "0xc4fa4429" and cy = "0x883b44cf"]; simp)
qed

lemma section_fingerprints:
  "legacy_fingerprint32_with_seed ''k'' 2135654146 = 0xa25bd1d3"
  "legacy_fingerprint32_with_seed ''v'' 2135654146 = 0xbb34390d"
  "legacy_fingerprint32_with_seed ''t'' 2135654146 = 0x93f4903a"
  "legacy_fingerprint32_with_seed ''p'' 2135654146 = 0x74e85bd0"
  by (simp_all add: one_byte_fingerprint section_mixes)

lemma section_names_distinct:
  "distinct (map (get_section_name new_file_codec) [kKeySectionName, kValueSectionName, kTokensSectionName, kPosSectionName])"
proof -
  have d: "get_section_name new_file_codec a \<noteq> get_section_name new_file_codec b"
    if "legacy_fingerprint32_with_seed a 2135654146 = x" "legacy_fingerprint32_with_seed b 2135654146 = y" "x \<noteq> 0" "y \<noteq> 0" "x \<noteq> y"
    for a b x y
  proof
    assume "get_section_name new_file_codec a = get_section_name new_file_codec b"
    then have "legacy_fingerprint_with_seed a 2135654146 = legacy_fingerprint_with_seed b 2135654146"
      unfolding get_section_name_def Let_def new_file_codec_def file_codec.simps by (rule word_bytes_inj)
    then have "(ucast x :: 64 word) = ucast y" using upper_half [of a 2135654146] upper_half [of b 2135654146] that by metis
    then have "unat (ucast x :: 64 word) = unat (ucast y :: 64 word)" by simp
    moreover have "unat (ucast v :: 64 word) = unat v" for v :: "32 word"
    proof -
      have "unat v < 2 ^ 32" using unsigned_less [of v] by simp
      then show ?thesis by (simp add: unsigned_ucast_eq take_bit_nat_eq_self)
    qed
    ultimately have "unat x = unat y" by simp
    then have "x = y" by (rule unsigned_word_eqI)
    then show False using that(5) by simp
  qed
  show ?thesis
    using d [OF section_fingerprints(1,2)] d [OF section_fingerprints(1,3)] d [OF section_fingerprints(1,4)]
      d [OF section_fingerprints(2,3)] d [OF section_fingerprints(2,4)] d [OF section_fingerprints(3,4)]
    by (simp add: kKeySectionName_def kValueSectionName_def kTokensSectionName_def kPosSectionName_def)
qed

section \<open>A dictionary file opens as its sections\<close>

lemma slice_inside: "image_slice (a @ b @ c) (int (length a)) (int (length b)) = Some b"
  by (simp add: image_slice_def)

lemma padded_length: "(n + length (padding n)) mod 4 = 0"
proof -
  have "n mod 4 = 0 \<or> n mod 4 = 1 \<or> n mod 4 = 2 \<or> n mod 4 = 3" by linarith
  moreover have "(n + length (padding n)) mod 4 = (n mod 4 + length (padding n)) mod 4" by (rule mod_add_left_eq [symmetric])
  ultimately show ?thesis unfolding padding_def by auto
qed

lemma sections_are_viewed:
  "list_all section_fits secs \<Longrightarrow> length pre mod 4 = 0 \<Longrightarrow>
     list_all2 (\<lambda>s (ptr, n, fp). image_slice (pre @ concat (map section_bytes secs) @ rest) ptr n = Some (section_image s) \<and>
         fp = section_name s \<and> ptr mod 4 = 0) secs (views_from (int (length pre)) secs)"
proof (induction secs arbitrary: pre)
  case (Cons s secs)
  let ?n = "length (section_image s)" and ?tail = "concat (map section_bytes secs) @ rest"
  have w: "section_bytes s = store32 (word_of_nat ?n) @ section_name s @ section_image s @ padding ?n" "length (section_name s) = 8"
    using Cons.prems(1) by (simp_all add: section_bytes_def section_fits_def)
  have "image_slice ((pre @ store32 (word_of_nat ?n) @ section_name s) @ section_image s @ (padding ?n @ ?tail))
      (int (length (pre @ store32 (word_of_nat ?n) @ section_name s))) (int ?n) = Some (section_image s)" by (rule slice_inside)
  moreover have "int (length (pre @ store32 (word_of_nat ?n) @ section_name s)) = int (length pre) + 12" using w(2) by simp
  ultimately have "image_slice (pre @ section_bytes s @ ?tail) (int (length pre) + 12) (int ?n) = Some (section_image s)" by (simp add: w(1))
  moreover have "(int (length pre) + 12) mod 4 = 0" using Cons.prems(2) by presburger
  moreover have "length (section_bytes s) = 4 * 3 + (?n + length (padding ?n))" using w(2) by (simp add: w(1))
  then have "length (section_bytes s) mod 4 = 0" by (simp only: mod_mult_self4 padded_length)
  then have "length (pre @ section_bytes s) mod 4 = 0" using Cons.prems(2) by (simp add: mod_add_eq [of "length pre" 4, symmetric])
  note Cons.IH [OF _ this]
  ultimately show ?case using Cons.prems(1) by simp
qed simp

lemma aligned_words: "ptr mod 4 = 0 \<Longrightarrow> ws \<noteq> [] \<Longrightarrow> make_aligned_const_span ptr (concat (map store32 ws)) = Some ws"
proof -
  assume p: "ptr mod 4 = 0" and ne: "ws \<noteq> []"
  have "those (map (\<lambda>i. load32 (concat (map store32 ws)) (4 * i)) [0..<length ws]) = Some (map (\<lambda>i. ws ! i) [0..<length ws])"
    by (rule those_map_all) (simp add: load32_concat)
  then show ?thesis using p ne by (simp add: make_aligned_const_span_def words_length map_nth del: upt_Suc)
qed

text \<open>Sections that the file can hold.\<close>

definition sections_fit :: "dict_sections \<Rightarrow> bool" where
  "sections_fit secs \<longleftrightarrow>
     list_all (\<lambda>s. s \<noteq> [] \<and> length s < 2 ^ 31 - 3) [value_section secs, key_section secs, token_section secs] \<and>
     pos_section secs \<noteq> [] \<and> length (pos_section secs) < 2 ^ 29"

text \<open>
  C4: (dictionary file) for four sections that are not empty and whose padded sizes are of type \<open>int\<close>, \<open>WriteToStream\<close>
  writes a file that opens as exactly these sections: \<open>Builder::Build\<close> of the image, in memory that is aligned, is
  \<open>OpenDictionaryFile\<close> of them.  The names of the four sections have different fingerprints.
\<close>

theorem dictionary_file_opens:
  assumes "sections_fit secs"
  shows "\<exists>img. dictionary_file new_file_codec secs = Some img \<and>
    build_from_image new_file_codec True img index = map_option Inr (open_dictionary secs index)"
proof -
  let ?name = "get_section_name new_file_codec"
  let ?v = "\<lparr>section_image = value_section secs, section_name = ?name kValueSectionName\<rparr>"
  let ?k = "\<lparr>section_image = key_section secs, section_name = ?name kKeySectionName\<rparr>"
  let ?t = "\<lparr>section_image = token_section secs, section_name = ?name kTokensSectionName\<rparr>"
  let ?p = "\<lparr>section_image = concat (map store32 (pos_section secs)), section_name = ?name kPosSectionName\<rparr>"
  let ?secs = "[?v, ?t, ?k, ?p]" and ?h = "write_header new_file_codec"
  define img where "img = ?h @ concat (map section_bytes ?secs) @ store32 0"
  have fits: "list_all section_fits ?secs"
    using assms by (simp add: sections_fit_def section_fits_def words_length get_section_name_def Let_def)
  then have "those (map write_section ?secs) = Some (map section_bytes ?secs)"
    by (intro those_map_all) (auto simp: list_all_iff write_section_fits simp del: section_fits_def)
  then have f: "dictionary_file new_file_codec secs = Some img"
    by (simp add: img_def dictionary_file_def write_file_def section_order_def del: those.simps)
  have h: "length ?h = 8" by (simp add: write_header_def)
  have l: "load32 img 0 = Some filemagic" "load32 img 4 = Some (codec_seed new_file_codec)" "12 \<le> length img"
    using load32_store32 [of "[]" filemagic] load32_store32 [of "store32 filemagic" "codec_seed new_file_codec"] h
    by (simp_all add: img_def write_header_def)
  have "read_section_list img (int (length ?h)) [] = Some (Inr ([] @ views_from (int (length ?h)) ?secs))"
    unfolding img_def by (rule read_written_sections [OF fits])
  then have r: "read_sections new_file_codec True img = Some (Inr (new_file_codec, views_from 8 ?secs))"
    using l h by (simp add: read_sections_def)
  have "length ?h mod 4 = 0" by (simp add: h)
  from sections_are_viewed [OF fits this, of "store32 0"] have
    v: "list_all2 (\<lambda>s (ptr, n, fp). image_slice img ptr n = Some (section_image s) \<and> fp = section_name s \<and> ptr mod 4 = 0) ?secs (views_from 8 ?secs)"
    by (simp only: img_def h of_nat_numeral)
  obtain v1 v2 v3 v4 where vs: "views_from 8 ?secs = [v1, v2, v3, v4]" by simp
  obtain vp vn vf tp tn tf kp kn kf pp pn pf where vw: "v1 = (vp, vn, vf)" "v2 = (tp, tn, tf)" "v3 = (kp, kn, kf)" "v4 = (pp, pn, pf)"
    by (metis prod_cases3)
  note at = v [unfolded vs vw list_all2_Cons prod.case file_section.simps]
  have d: "?name kKeySectionName \<noteq> ?name kValueSectionName" "?name kKeySectionName \<noteq> ?name kTokensSectionName"
    "?name kKeySectionName \<noteq> ?name kPosSectionName" "?name kValueSectionName \<noteq> ?name kTokensSectionName"
    "?name kValueSectionName \<noteq> ?name kPosSectionName" "?name kTokensSectionName \<noteq> ?name kPosSectionName"
    using section_names_distinct by simp_all
  have gs: "get_section new_file_codec [(vp, vn, vf), (tp, tn, tf), (kp, kn, kf), (pp, pn, pf)] kKeySectionName = Some (kp, kn)"
    "get_section new_file_codec [(vp, vn, vf), (tp, tn, tf), (kp, kn, kf), (pp, pn, pf)] kValueSectionName = Some (vp, vn)"
    "get_section new_file_codec [(vp, vn, vf), (tp, tn, tf), (kp, kn, kf), (pp, pn, pf)] kTokensSectionName = Some (tp, tn)"
    "get_section new_file_codec [(vp, vn, vf), (tp, tn, tf), (kp, kn, kf), (pp, pn, pf)] kPosSectionName = Some (pp, pn)"
    using at d d [symmetric] by (simp_all add: get_section_def)
  have "make_aligned_const_span pp (concat (map store32 (pos_section secs))) = Some (pos_section secs)"
    by (rule aligned_words) (use at assms in \<open>simp_all add: sections_fit_def\<close>)
  then have "build_from_image new_file_codec True img index = map_option Inr (open_dictionary secs index)"
    unfolding build_from_image_def r bind.bind_lunit sum.case prod.case vs vw gs option.case
    using at by (cases secs) simp
  with f show ?thesis by blast
qed

lemma built_sections_fit:
  assumes "list_all image_fits [value_section secs, key_section secs, token_section secs]" "length (pos_section secs) = 256"
  shows "sections_fit secs"
  using assms by (auto simp: sections_fit_def image_fits_def)

theorem dictionary_file_opens_witness:
  "\<exists>b secs img sd. build_from_tokens id 0 sample_tokens new_dict_builder = Some b \<and> write_sections b = Some secs \<and>
     dictionary_file new_file_codec secs = Some img \<and> build_from_image new_file_codec True img False = Some (Inr sd) \<and>
     dict_has_key sd (utf8_text [0x3042]) = Some True"
proof -
  obtain b secs sd where b: "build_from_tokens id 0 sample_tokens new_dict_builder = Some b" "write_sections b = Some secs"
    "open_dictionary secs False = Some sd" "dict_stores id sample_tokens sd"
    "list_all image_fits [value_section secs, key_section secs, token_section secs]" "length (pos_section secs) = 256"
    using build_opens [OF sample_input, of id 0] by blast
  from dictionary_file_opens [OF built_sections_fit [OF b(5,6)], of False] obtain img where
    "dictionary_file new_file_codec secs = Some img" "build_from_image new_file_codec True img False = Some (Inr sd)"
    using b(3) by auto
  moreover have "dict_has_key sd (utf8_text [0x3042]) = Some True"
    using exact_search_represents(2) [of "key_trie sd" "key_words sample_tokens"] b(4) plain_key_stored [OF sample_input sample_texts(1)]
    by (simp add: dict_has_key_def dict_stores_def sample_tokens_def)
  ultimately show ?thesis using b(1,2) by blast
qed

section \<open>Sections of negative size\<close>

definition looping_image :: "32 word \<Rightarrow> bytes" where
  "looping_image seed = store32 filemagic @ store32 seed @ store32 (- 12) @ ''sections''"

lemma looping_image_facts:
  "load_at (looping_image seed) 8 = Some (- 12)" "image_slice (looping_image seed) 12 8 = Some ''sections''"
  "length (looping_image seed) = 20" "round_up4 (- 12) = Some (- 12)"
  using load32_store32 [of "store32 filemagic @ store32 seed" "- 12" "''sections''"]
  by (simp_all add: load_at_def image_slice_def looping_image_def round_up4_def smod_int_alt_def)

lemma looping_image_reader: "read_section_list (looping_image seed) 8 views \<noteq> Some y"
proof
  assume r: "read_section_list (looping_image seed) 8 views = Some y"
  have "\<not> (looping_image seed = looping_image seed \<and> (8 :: int) = 8)"
  proof (rule read_section_list.raw_induct [OF _ r, where P = "\<lambda>img ptr views y. \<not> (img = looping_image seed \<and> ptr = 8)"],
      goal_cases step)
    case (step reader img ptr views y)
    show ?case
    proof
      assume "img = looping_image seed \<and> ptr = 8"
      then have "reader (looping_image seed) 8 (views @ [(20, - 12, ''sections'')]) = Some y"
        using step(2) by (simp add: looping_image_facts Let_def)
      then show False using step(1) by blast
    qed
  qed
  then show False by simp
qed

text \<open>
  C33: (dictionary file) a negative size of a section passes the checks of \<open>ReadSections\<close>: on a well-formed header with a
  section of size -12 the read pointer moves back to the section, which is read again and again.
\<close>

theorem negative_section_size_loops:
  "read_sections codec True (looping_image seed) = None"
proof -
  have "read_section_list (looping_image seed) 8 views = None" for views using looping_image_reader by (meson not_Some_eq)
  then show ?thesis
    using load32_store32 [of "[]" filemagic] load32_store32 [of "store32 filemagic" seed]
    by (simp add: read_sections_def looping_image_def)
qed

end
