(* ===== verification/Dictionary_Predictive.thy ===== *)
theory Dictionary_Predictive
  imports Dictionary_Lookup
begin

text \<open>
  The predictive lookup of \<open>SystemDictionary\<close> (\<open>dictionary/system/system_dictionary.cc\<close>): a breadth-first search
  over the key trie that expands the characters of the key, and the callbacks for the keys it collects.  The theorems
  show that the search returns and collects, level by level, exactly the keys that follow the given one, and that all
  keys up to some length are collected.
\<close>

section \<open>Predictive lookup\<close>

text \<open>\<open>PredictiveLookupSearchState\<close>: the node, its depth and the number of expanded characters.\<close>

type_synonym search_state = "louds_node \<times> nat \<times> nat"

text \<open>The keys as long as the longest, once enough entries are collected.\<close>

fun collect_same_length :: "louds_trie \<Rightarrow> nat \<Rightarrow> search_state list \<Rightarrow> search_state list \<Rightarrow> search_state list option" where
  "collect_same_length t max_key_len [] result = Some result"
| "collect_same_length t max_key_len ((node, key_pos, num_expanded) # queue) result =
     (if max_key_len < key_pos then Some result
      else Option.bind (is_terminal_node t node) (\<lambda>terminal.
        collect_same_length t max_key_len queue (if terminal then result @ [(node, key_pos, num_expanded)] else result)))"

text \<open>The children that the expansion of a character lets through, and all children.\<close>

definition hit_children :: "expansion_table \<Rightarrow> char \<Rightarrow> search_state \<Rightarrow> (char \<times> louds_node) list \<Rightarrow> search_state list" where
  "hit_children table target_char state cs =
     (case state of (node, key_pos, num_expanded) \<Rightarrow>
        map (\<lambda>(c, m). (m, key_pos + 1, num_expanded + (if c \<noteq> target_char then 1 else 0)))
          (filter (\<lambda>(c, m). is_hit (expand_key table target_char) c) cs))"

definition all_children :: "search_state \<Rightarrow> (char \<times> louds_node) list \<Rightarrow> search_state list" where
  "all_children state cs = (case state of (node, key_pos, num_expanded) \<Rightarrow> map (\<lambda>(c, m). (m, key_pos + 1, num_expanded)) cs)"

partial_function (option) collect_predictive_nodes ::
  "louds_trie \<Rightarrow> bytes \<Rightarrow> expansion_table \<Rightarrow> nat \<Rightarrow> search_state list \<Rightarrow> search_state list \<Rightarrow> search_state list option" where
  "collect_predictive_nodes t encoded_key table limit queue result =
     (if queue = [] then Some result
      else
        let state = hd queue; key_pos = fst (snd state) in
        if key_pos < length encoded_key then
          Option.bind (children t (fst state)) (\<lambda>cs.
            collect_predictive_nodes t encoded_key table limit
              (tl queue @ hit_children table (encoded_key ! key_pos) state cs) result)
        else
          Option.bind (is_terminal_node t (fst state)) (\<lambda>terminal.
            let result' = (if terminal then result @ [state] else result) in
            if limit < length result' then collect_same_length t key_pos (tl queue) result'
            else Option.bind (children t (fst state)) (\<lambda>cs.
              collect_predictive_nodes t encoded_key table limit (tl queue @ all_children state cs) result')))"

definition kLookupLimit :: nat where "kLookupLimit = 64"

text \<open>The callbacks for the collected keys; \<open>TRAVERSE_CULL\<close> from \<open>OnKey\<close> and \<open>OnActualKey\<close> is fatal, from \<open>OnToken\<close> it
  goes on.\<close>

fun predictive_callbacks ::
  "(bytes \<Rightarrow> bytes) \<Rightarrow> system_dictionary \<Rightarrow> bytes \<Rightarrow> bytes \<Rightarrow> 's callback \<Rightarrow> search_state list \<Rightarrow> 's \<Rightarrow> 's option" where
  "predictive_callbacks h2k sd key encoded_key cb [] st = Some st"
| "predictive_callbacks h2k sd key encoded_key cb ((node, key_pos, num_expanded) # states) st =
     Option.bind (restore_key_string (key_trie sd) node) (\<lambda>encoded_actual_key.
       let decoded_key = key @ encode_decode_key (drop (length encoded_key) encoded_actual_key);
           (r1, st1) = on_key cb decoded_key st
       in case r1 of
            TRAVERSE_DONE \<Rightarrow> Some st1
          | TRAVERSE_NEXT_KEY \<Rightarrow> predictive_callbacks h2k sd key encoded_key cb states st1
          | TRAVERSE_CULL \<Rightarrow> None
          | TRAVERSE_CONTINUE \<Rightarrow>
              let actual_key = (if 0 < num_expanded then encode_decode_key encoded_actual_key else decoded_key);
                  (r2, st2) = on_actual_key cb decoded_key actual_key num_expanded st1
              in case r2 of
                   TRAVERSE_DONE \<Rightarrow> Some st2
                 | TRAVERSE_NEXT_KEY \<Rightarrow> predictive_callbacks h2k sd key encoded_key cb states st2
                 | TRAVERSE_CULL \<Rightarrow> None
                 | TRAVERSE_CONTINUE \<Rightarrow>
                     Option.bind (key_id_of_terminal_node (key_trie sd) node) (\<lambda>i.
                     Option.bind (tokens_of_key h2k sd actual_key i
                       (\<lambda>info st. let (r, st') = on_token cb decoded_key actual_key (info_token info) st in
                          (if r = TRAVERSE_CULL then TRAVERSE_CONTINUE else r, st')) st2) (\<lambda>(r3, st3).
                     if r3 = TRAVERSE_DONE then Some st3
                     else predictive_callbacks h2k sd key encoded_key cb states st3)))"

definition lookup_predictive ::
  "(bytes \<Rightarrow> bytes) \<Rightarrow> system_dictionary \<Rightarrow> bytes \<Rightarrow> 's callback \<Rightarrow> 's \<Rightarrow> 's option" where
  "lookup_predictive h2k sd key cb st =
     (if key = [] then Some st
      else
        let encoded_key = encode_decode_key key in
        if max_depth < length encoded_key then Some st
        else
          let table = (if is_kana_modifier_insensitive cb then hiragana_expansion_table sd else new_expansion_table) in
          Option.bind (collect_predictive_nodes (key_trie sd) encoded_key table kLookupLimit [(root_node, 0, 0)] [])
            (\<lambda>states. predictive_callbacks h2k sd key encoded_key cb states st))"

section \<open>The children of a node\<close>

lemma siblings_tree:
  assumes t: "represents t W" and k: "k < length (trie_nodes W)" and v: "trie_nodes W ! k = v"
  shows "j \<le> length (kids W v) \<Longrightarrow> siblings t (tree_node (kids W) (trie_nodes W) k j) =
    Some (map (\<lambda>i. (last (kids W v ! i), tree_node (kids W) (trie_nodes W) k i)) [j..<length (kids W v)])"
proof (induction "length (kids W v) - j" arbitrary: j)
  case 0
  then have "is_valid_node (lt_louds t) (tree_node (kids W) (trie_nodes W) k j) = Some False"
    using valid_tree [OF represents_facts(3) [OF t] k, of j] v by simp
  then show ?case using 0 by (simp add: siblings.simps [of t])
next
  case (Suc d)
  let ?n = "tree_node (kids W) (trie_nodes W) k j"
  have j: "j < length (kids W (trie_nodes W ! k))" using Suc v by simp
  have "is_valid_node (lt_louds t) ?n = Some True"
    using valid_tree [OF represents_facts(3) [OF t] k, of j] j by simp
  moreover have "edge_label t ?n = Some (last (kids W v ! j))" using child_stands(2) [OF t k j] v by simp
  moreover have "siblings t (tree_node (kids W) (trie_nodes W) k (Suc j)) =
      Some (map (\<lambda>i. (last (kids W v ! i), tree_node (kids W) (trie_nodes W) k i)) [Suc j..<length (kids W v)])"
    by (rule Suc.hyps(1)) (use Suc.hyps(2) in auto)
  ultimately show ?case using j v by (simp add: siblings.simps [of t ?n] next_sibling_tree upt_conv_Cons)
qed

lemma children_stored:
  assumes t: "represents t W" and n: "stands_at t W v n"
  obtains cs where "children t n = Some cs" "kids W v = map (\<lambda>(c, m). v @ [c]) cs" "\<forall>(c, m) \<in> set cs. stands_at t W (v @ [c]) m"
proof -
  note rep = represents_facts [OF t]
  obtain k where k: "k < length (trie_nodes W)" "trie_nodes W ! k = v" "node_id n = Suc k"
    by (rule stands_at_cases [OF n])
  define cs where "cs = map (\<lambda>i. (last (kids W v ! i), tree_node (kids W) (trie_nodes W) k i)) [0..<length (kids W v)]"
  have c: "children t n = Some cs"
    using first_child_tree [OF rep(3) k(1,3)] siblings_tree [OF t k(1,2), of 0] by (simp add: children_def cs_def)
  have snoc: "v @ [last (kids W v ! i)] = kids W v ! i" if "i < length (kids W v)" for i
    using kids_snoc [OF rep(1) nth_mem [OF that]] by simp
  have "kids W v = map (\<lambda>(c, m). v @ [c]) cs"
    by (rule nth_equalityI) (simp_all add: cs_def snoc)
  moreover have "\<forall>(c, m) \<in> set cs. stands_at t W (v @ [c]) m"
    using child_stands(1) [OF t k(1)] by (auto simp: cs_def snoc k(2))
  ultimately show thesis using that c by blast
qed

section \<open>The search over the levels of the trie\<close>

text \<open>A text follows another one when each of its characters is an expansion of the one at the same place.\<close>

definition follows :: "expansion_table \<Rightarrow> bytes \<Rightarrow> bytes \<Rightarrow> bool" where
  "follows table a w = list_all (\<lambda>(x, y). is_hit (expand_key table x) y) (zip a w)"

definition differences :: "bytes \<Rightarrow> bytes \<Rightarrow> nat" where
  "differences a w = length (filter (\<lambda>(x, y). y \<noteq> x) (zip a w))"

lemma zip_snoc: "zip a (w @ [c]) = zip a w @ (if length w < length a then [(a ! length w, c)] else [])"
  using zip_append2 [of a w "[]"] by (simp add: zip_append2 Cons_nth_drop_Suc [symmetric])

lemma follows_snoc:
  "follows table a (w @ [c]) \<longleftrightarrow> follows table a w \<and> (length w < length a \<longrightarrow> is_hit (expand_key table (a ! length w)) c)"
  by (simp add: follows_def zip_snoc)

lemma differences_snoc:
  "differences a (w @ [c]) = differences a w + (if length w < length a \<and> c \<noteq> a ! length w then 1 else 0)"
  by (simp add: differences_def zip_snoc)

lemma empty_follows [simp]: "follows table a []" "differences a [] = 0"
  by (simp_all add: follows_def differences_def)

text \<open>What a state of the search stands for.\<close>

definition search_at :: "louds_trie \<Rightarrow> bytes set \<Rightarrow> bytes \<Rightarrow> bytes \<Rightarrow> search_state \<Rightarrow> bool" where
  "search_at t W a w state \<longleftrightarrow> stands_at t W w (fst state) \<and> snd state = (length w, differences a w)"

abbreviation following_kids :: "expansion_table \<Rightarrow> bytes set \<Rightarrow> bytes \<Rightarrow> bytes \<Rightarrow> bytes list" where
  "following_kids table W a w \<equiv> filter (follows table a) (kids W w)"

lemma hit_children_at:
  assumes k: "kids W w = map (\<lambda>(c, m). w @ [c]) cs" "\<forall>(c, m) \<in> set cs. stands_at t W (w @ [c]) m"
    and s: "search_at t W a w state" "follows table a w" "length w < length a"
  shows "list_all2 (search_at t W a) (following_kids table W a w) (hit_children table (a ! length w) state cs)"
proof -
  obtain node where st: "state = (node, length w, differences a w)" using s(1) by (cases state) (auto simp: search_at_def)
  have f: "filter (follows table a) (map (\<lambda>(c, m). w @ [c]) cs) =
      map (\<lambda>(c, m). w @ [c]) (filter (\<lambda>(c, m). is_hit (expand_key table (a ! length w)) c) cs)"
    unfolding filter_map by (rule arg_cong [where f = "map _"], rule filter_cong) (use s(2,3) in \<open>auto simp: follows_snoc\<close>)
  show ?thesis unfolding k(1) f st hit_children_def
    by (auto simp: list.rel_map list_all2_same search_at_def differences_snoc s(3) dest!: bspec [OF k(2)])
qed

lemma all_children_at:
  assumes k: "kids W w = map (\<lambda>(c, m). w @ [c]) cs" "\<forall>(c, m) \<in> set cs. stands_at t W (w @ [c]) m"
    and s: "search_at t W a w state" "follows table a w" "\<not> length w < length a"
  shows "list_all2 (search_at t W a) (following_kids table W a w) (all_children state cs)"
proof -
  obtain node where st: "state = (node, length w, differences a w)" using s(1) by (cases state) (auto simp: search_at_def)
  have f: "filter (follows table a) (map (\<lambda>(c, m). w @ [c]) cs) = map (\<lambda>(c, m). w @ [c]) cs"
    by (rule filter_True) (use s(2,3) in \<open>auto simp: follows_snoc\<close>)
  show ?thesis unfolding k(1) f st all_children_def
    by (auto simp: list.rel_map list_all2_same search_at_def differences_snoc s(3) dest!: bspec [OF k(2)])
qed

text \<open>The words that are collected, and the search through one level.\<close>

abbreviation collected :: "bytes set \<Rightarrow> bytes \<Rightarrow> bytes list \<Rightarrow> bytes list" where
  "collected W a ws \<equiv> filter (\<lambda>w. w \<in> W \<and> length a \<le> length w) ws"

lemma collect_same_length_at:
  assumes t: "represents t W"
  shows "list_all2 (search_at t W a) ws qs \<Longrightarrow> list_all2 (search_at t W a) us rs \<Longrightarrow> \<forall>w \<in> set ws. length w = d \<Longrightarrow>
    \<forall>u \<in> set us. length u = Suc d \<Longrightarrow> length a \<le> d \<Longrightarrow> list_all2 (search_at t W a) xs result \<Longrightarrow>
    \<exists>result'. collect_same_length t d (qs @ rs) result = Some result' \<and> list_all2 (search_at t W a) (xs @ collected W a ws) result'"
proof (induction ws arbitrary: qs xs result)
  case Nil
  then show ?case
  proof (cases rs)
    case (Cons r rs')
    then obtain u us' where "us = u # us'" "search_at t W a u r" using Nil.prems(2) by (auto simp: list_all2_Cons2)
    then have "d < fst (snd r)" using Nil.prems(4) by (auto simp: search_at_def)
    then show ?thesis using Nil Cons by (cases r) auto
  qed auto
next
  case (Cons w ws)
  then obtain q qs' where q: "qs = q # qs'" "search_at t W a w q" "list_all2 (search_at t W a) ws qs'"
    by (auto simp: list_all2_Cons1)
  obtain node where st: "q = (node, length w, differences a w)" "stands_at t W w node"
    using q(2) by (cases q) (auto simp: search_at_def)
  note term_at = terminal_facts(1) [OF t st(2)]
  let ?r = "if w \<in> W then result @ [q] else result" and ?x = "if w \<in> W then xs @ [w] else xs"
  have lens: "\<forall>w \<in> set ws. length w = d" using Cons.prems(3) by simp
  have xr: "list_all2 (search_at t W a) ?x ?r" using Cons.prems(6) q(2) by (simp add: list_all2_appendI)
  obtain result' where "collect_same_length t d (qs' @ rs) ?r = Some result'"
    "list_all2 (search_at t W a) (?x @ collected W a ws) result'"
    using Cons.IH [OF q(3) Cons.prems(2) lens Cons.prems(4,5) xr] by blast
  moreover have "?x @ collected W a ws = xs @ collected W a (w # ws)" using Cons.prems(3,5) by simp
  ultimately show ?case using q(1) st(1) term_at Cons.prems(3) by auto
qed

lemma collect_level:
  assumes t: "represents t W"
  shows "list_all2 (search_at t W a) ws qs \<Longrightarrow> list_all2 (search_at t W a) us rs \<Longrightarrow>
    \<forall>w \<in> set ws. length w = d \<and> follows table a w \<Longrightarrow> \<forall>u \<in> set us. length u = Suc d \<Longrightarrow>
    list_all2 (search_at t W a) xs result \<Longrightarrow> length xs \<le> limit \<Longrightarrow>
    if limit < length (xs @ collected W a ws)
    then \<exists>result'. collect_predictive_nodes t a table limit (qs @ rs) result = Some result' \<and>
           list_all2 (search_at t W a) (xs @ collected W a ws) result'
    else \<exists>rs' result'. list_all2 (search_at t W a) (us @ concat (map (following_kids table W a) ws)) rs' \<and>
           list_all2 (search_at t W a) (xs @ collected W a ws) result' \<and>
           collect_predictive_nodes t a table limit (qs @ rs) result = collect_predictive_nodes t a table limit rs' result'"
proof (induction ws arbitrary: qs us rs xs result)
  case Nil
  then show ?case by (auto simp: not_less)
next
  case (Cons w ws)
  obtain q qs' where q: "qs = q # qs'" "search_at t W a w q" "list_all2 (search_at t W a) ws qs'"
    using Cons.prems(1) by (auto simp: list_all2_Cons1)
  have at: "stands_at t W w (fst q)" "fst (snd q) = length w" using q(2) by (simp_all add: search_at_def)
  note term_at = terminal_facts(1) [OF t at(1)]
  obtain cs where cs: "children t (fst q) = Some cs" "kids W w = map (\<lambda>(c, m). w @ [c]) cs"
    "\<forall>(c, m) \<in> set cs. stands_at t W (w @ [c]) m" by (rule children_stored [OF t at(1)])
  have w: "length w = d" "follows table a w" "\<forall>w \<in> set ws. length w = d \<and> follows table a w" using Cons.prems(3) by simp_all
  have kid_len: "\<forall>u \<in> set (us @ following_kids table W a w). length u = Suc d"
    using Cons.prems(4) w(1) cs(2) by auto
  note step = collect_predictive_nodes.simps [of t a table limit "q # qs' @ rs" result]
  let ?r = "if w \<in> W then result @ [q] else result" and ?x = "if w \<in> W then xs @ [w] else xs"
  have xr: "list_all2 (search_at t W a) ?x ?r" using Cons.prems(5) q(2) by (simp add: list_all2_appendI)
  show ?case
  proof (cases "length w < length a")
    case True
    have "collect_predictive_nodes t a table limit (qs @ rs) result =
        collect_predictive_nodes t a table limit (qs' @ (rs @ hit_children table (a ! length w) q cs)) result"
      using True q(1) at(2) cs(1) by (simp add: step Let_def)
    moreover have "list_all2 (search_at t W a) (us @ following_kids table W a w) (rs @ hit_children table (a ! length w) q cs)"
      using list_all2_appendI [OF Cons.prems(2) hit_children_at [OF cs(2,3) q(2) w(2) True]] .
    note r = Cons.IH [OF q(3) this w(3) kid_len Cons.prems(5,6)]
    moreover have "collected W a (w # ws) = collected W a ws" using True by simp
    ultimately show ?thesis by (simp cong: if_cong)
  next
    case False
    have x: "?x @ collected W a ws = xs @ collected W a (w # ws)" using False by simp
    show ?thesis
    proof (cases "limit < length ?r")
      case True
      have d: "length a \<le> d" using False w(1) by simp
      have "\<forall>u \<in> set us. length u = Suc d" by (rule Cons.prems(4))
      then obtain result' where r: "collect_same_length t d (qs' @ rs) ?r = Some result'"
        "list_all2 (search_at t W a) (?x @ collected W a ws) result'"
        using collect_same_length_at [OF t q(3) Cons.prems(2) _ _ d xr] w(3) by blast
      have "limit < length ?x" using True list_all2_lengthD [OF xr] by simp
      then have "limit < length (xs @ collected W a (w # ws))" unfolding x [symmetric] by simp
      moreover have "collect_predictive_nodes t a table limit (qs @ rs) result = Some result'"
        using False True q(1) at(2) term_at r(1) w(1) by (auto simp: step Let_def)
      ultimately show ?thesis using r(2) unfolding x by auto
    next
      case small: False
      have "collect_predictive_nodes t a table limit (qs @ rs) result =
          collect_predictive_nodes t a table limit (qs' @ (rs @ all_children q cs)) ?r"
        using False small q(1) at(2) cs(1) term_at by (auto simp: step Let_def)
      moreover have "list_all2 (search_at t W a) (us @ following_kids table W a w) (rs @ all_children q cs)"
        using list_all2_appendI [OF Cons.prems(2) all_children_at [OF cs(2,3) q(2) w(2) False]] .
      moreover have "length ?x \<le> limit" using small list_all2_lengthD [OF xr] by simp
      note Cons.IH [OF q(3) calculation(2) w(3) kid_len xr this]
      ultimately show ?thesis unfolding x by (simp cong: if_cong)
    qed
  qed
qed

text \<open>The levels of the trie, from the root on, and the nodes on them that follow a text.\<close>

definition tree_level :: "bytes set \<Rightarrow> nat \<Rightarrow> bytes list" where
  "tree_level W d = (if d = 0 then [[]] else level W d)"

lemma tree_level_facts:
  assumes "finite W"
  shows "w \<in> set (tree_level W d) \<Longrightarrow> length w = d" and "distinct (tree_level W d)"
    and "tree_level W (Suc d) = concat (map (kids W) (tree_level W d))" and "max_length W < d \<Longrightarrow> tree_level W d = []"
    and "w \<in> W \<Longrightarrow> w \<in> set (tree_level W (length w))"
proof -
  show "w \<in> set (tree_level W d) \<Longrightarrow> length w = d" 
    using level_length [OF assms] by (auto simp: tree_level_def split: if_splits)
  show "distinct (tree_level W d)" using level_facts(3) [OF assms] by (simp add: tree_level_def)
  show "tree_level W (Suc d) = concat (map (kids W) (tree_level W d))"
    unfolding tree_level_def
    by (cases "d = 0") (use kids_root [OF assms] in simp, use level_step [OF assms, of d] in simp)
  show "max_length W < d \<Longrightarrow> tree_level W d = []" using level_beyond [OF assms] by (simp add: tree_level_def)
  show "w \<in> W \<Longrightarrow> w \<in> set (tree_level W (length w))"
    unfolding tree_level_def using level_facts(1) [OF assms, of "length w"]
    by (cases "w = []") (auto intro!: exI [of _ w])
qed

definition search_level :: "expansion_table \<Rightarrow> bytes set \<Rightarrow> bytes \<Rightarrow> nat \<Rightarrow> bytes list" where
  "search_level table W a d = filter (follows table a) (tree_level W d)"

lemma following_kids_concat:
  assumes "finite W"
  shows "filter (follows table a) (concat (map (kids W) ws)) = concat (map (following_kids table W a) (filter (follows table a) ws))"
proof (induction ws)
  case (Cons w ws)
  have "following_kids table W a w = []" if "\<not> follows table a w"
  proof (rule filter_False, intro ballI)
    fix u assume "u \<in> set (kids W w)"
    then have "u = w @ [last u]" using kids_snoc [OF assms] by blast
    then show "\<not> follows table a u" using that follows_snoc [of table a w "last u"] by simp
  qed
  then show ?case using Cons by simp
qed simp

lemma search_level_Suc:
  "finite W \<Longrightarrow> search_level table W a (Suc d) = concat (map (following_kids table W a) (search_level table W a d))"
  by (simp add: search_level_def tree_level_facts(3) following_kids_concat)

definition collected_levels :: "expansion_table \<Rightarrow> bytes set \<Rightarrow> bytes \<Rightarrow> nat list \<Rightarrow> bytes list" where
  "collected_levels table W a ds = concat (map (\<lambda>d. collected W a (search_level table W a d)) ds)"

lemma collect_from_level:
  assumes t: "represents t W"
  shows "list_all2 (search_at t W a) (search_level table W a d) qs \<Longrightarrow>
    list_all2 (search_at t W a) (collected_levels table W a [0..<d]) result \<Longrightarrow>
    length (collected_levels table W a [0..<d]) \<le> limit \<Longrightarrow>
    \<exists>D result'. collect_predictive_nodes t a table limit qs result = Some result' \<and>
      list_all2 (search_at t W a) (collected_levels table W a [0..<D]) result' \<and>
      (max_length W < D \<or> limit < length result' \<and> length (collected_levels table W a [0..<D - 1]) \<le> limit)"
proof (induction "Suc (max_length W) - d" arbitrary: d qs result)
  case 0
  have W: "finite W" by (rule represents_facts(1) [OF t])
  have "search_level table W a d = []" using 0(1) by (simp add: search_level_def tree_level_facts(4) [OF W])
  then have "qs = []" using 0(2) by simp
  then have "collect_predictive_nodes t a table limit qs result = Some result"
    by (simp add: collect_predictive_nodes.simps [of t a table limit "[]"])
  then show ?case using 0 by (intro exI [of _ d] exI [of _ result]) auto
next
  case (Suc n)
  have W: "finite W" by (rule represents_facts(1) [OF t])
  let ?L = "search_level table W a d"
  have lens: "\<forall>w \<in> set ?L. length w = d \<and> follows table a w"
    by (auto simp: search_level_def tree_level_facts(1) [OF W])
  have nxt: "collected_levels table W a [0..<d] @ collected W a ?L = collected_levels table W a [0..<Suc d]"
    by (simp add: collected_levels_def)
  have "list_all2 (search_at t W a) [] []" "\<forall>u \<in> set []. length u = Suc d" by simp_all
  note l = collect_level [OF t Suc.prems(1) this(1) lens this(2) Suc.prems(2,3), unfolded nxt append_Nil append_Nil2
      search_level_Suc [OF W, symmetric]]
  show ?case
  proof (cases "limit < length (collected_levels table W a [0..<Suc d])")
    case True
    then obtain result' where r: "collect_predictive_nodes t a table limit qs result = Some result'"
      "list_all2 (search_at t W a) (collected_levels table W a [0..<Suc d]) result'" using l by auto
    then have "limit < length result'" using True list_all2_lengthD by metis
    then show ?thesis using r Suc.prems(3) by (intro exI [of _ "Suc d"] exI [of _ result']) simp
  next
    case False
    then obtain rs' result' where r: "list_all2 (search_at t W a) (search_level table W a (Suc d)) rs'"
      "list_all2 (search_at t W a) (collected_levels table W a [0..<Suc d]) result'"
      "collect_predictive_nodes t a table limit qs result = collect_predictive_nodes t a table limit rs' result'" using l by auto
    show ?thesis unfolding r(3)
      by (rule Suc.hyps(1) [OF _ r(1,2)]) (use Suc.hyps(2) False in auto)
  qed
qed

lemma collected_levels_snoc:
  "collected_levels table W a [0..<Suc D] = collected_levels table W a [0..<D] @ collected W a (search_level table W a D)"
  by (simp add: collected_levels_def)

lemma collected_levels_facts:
  assumes W: "finite W"
  shows "set (collected_levels table W a [0..<D]) = {w \<in> W. length a \<le> length w \<and> length w < D \<and> follows table a w}"
    and "distinct (collected_levels table W a [0..<D])"
    and "sorted (map length (collected_levels table W a [0..<D]))"
proof -
  note tl = tree_level_facts [OF W]
  show set: "set (collected_levels table W a [0..<D]) = {w \<in> W. length a \<le> length w \<and> length w < D \<and> follows table a w}" for D
    using tl(1,5) by (fastforce simp: collected_levels_def search_level_def)
  show "distinct (collected_levels table W a [0..<D])"
  proof (induction D)
    case (Suc D)
    have "distinct (collected W a (search_level table W a D))" using tl(2) by (simp add: search_level_def)
    moreover have "length w = D" if "w \<in> set (collected W a (search_level table W a D))" for w
      using that tl(1) by (auto simp: search_level_def)
    then have "set (collected_levels table W a [0..<D]) \<inter> set (collected W a (search_level table W a D)) = {}"
      unfolding set by fastforce
    ultimately show ?case using Suc unfolding collected_levels_snoc distinct_append by blast
  qed (simp add: collected_levels_def)
  show "sorted (map length (collected_levels table W a [0..<D]))"
  proof (induction D)
    case (Suc D)
    have len: "length w = D" if "w \<in> set (collected W a (search_level table W a D))" for w
      using that tl(1) by (auto simp: search_level_def)
    then have "map length (collected W a (search_level table W a D)) = replicate (length (collected W a (search_level table W a D))) D"
      by (intro replicate_eqI) auto
    then have s1: "sorted (map length (collected W a (search_level table W a D)))" by (simp only: sorted_replicate)
    have s2: "\<forall>x \<in> set (map length (collected_levels table W a [0..<D])).
        \<forall>y \<in> set (map length (collected W a (search_level table W a D))). x \<le> y"
    proof (intro ballI)
      fix x y assume xy: "x \<in> set (map length (collected_levels table W a [0..<D]))"
        "y \<in> set (map length (collected W a (search_level table W a D)))"
      have "x < D" using xy(1) unfolding set_map set by clarsimp
      moreover have "y = D" using xy(2) len unfolding set_map by blast
      ultimately show "x \<le> y" by simp
    qed
    show ?case unfolding collected_levels_snoc map_append sorted_append by (intro conjI Suc.IH s1 s2)
  qed (simp add: collected_levels_def)
qed

text \<open>What the search collects: all words up to some length that follow the key, shortest first; none is left out, or
  the limit is exceeded and was not exceeded by the shorter ones.\<close>

definition predicted_words :: "expansion_table \<Rightarrow> bytes set \<Rightarrow> bytes \<Rightarrow> nat \<Rightarrow> bytes list \<Rightarrow> bool" where
  "predicted_words table W a limit ws \<longleftrightarrow> distinct ws \<and> sorted (map length ws) \<and>
     (\<exists>D. set ws = {w \<in> W. length a \<le> length w \<and> length w < D \<and> follows table a w} \<and>
        ((\<forall>w \<in> W. length w < D) \<or>
         limit < length ws \<and> card {w \<in> W. length a \<le> length w \<and> length w < D - 1 \<and> follows table a w} \<le> limit))"

lemma collect_predictive_nodes_spec:
  assumes t: "represents t W"
  shows "\<exists>states ws. collect_predictive_nodes t a table limit [(root_node, 0, 0)] [] = Some states \<and>
    list_all2 (search_at t W a) ws states \<and> predicted_words table W a limit ws"
proof -
  have W: "finite W" by (rule represents_facts(1) [OF t])
  have "list_all2 (search_at t W a) (search_level table W a 0) [(root_node, 0, 0)]"
    using root_stands [OF t] by (simp add: search_level_def tree_level_def search_at_def)
  moreover have "list_all2 (search_at t W a) (collected_levels table W a [0..<0]) []"
    "length (collected_levels table W a [0..<0]) \<le> limit" by (simp_all add: collected_levels_def)
  ultimately obtain D states where r: "collect_predictive_nodes t a table limit [(root_node, 0, 0)] [] = Some states"
    "list_all2 (search_at t W a) (collected_levels table W a [0..<D]) states"
    "max_length W < D \<or> limit < length states \<and> length (collected_levels table W a [0..<D - 1]) \<le> limit"
    using collect_from_level [OF t] by blast
  let ?ws = "collected_levels table W a [0..<D]"
  note c = collected_levels_facts [OF W]
  have n: "card {w \<in> W. length a \<le> length w \<and> length w < D - 1 \<and> follows table a w} = length (collected_levels table W a [0..<D - 1])"
    unfolding c(1) [symmetric] by (rule distinct_card) (rule c(2))
  have all: "\<forall>w \<in> W. length w < D" if "max_length W < D"
    using that max_length_bound [OF W] by (meson le_less_trans)
  have len: "length ?ws = length states" using r(2) by (rule list_all2_lengthD)
  have "(\<forall>w \<in> W. length w < D) \<or>
         limit < length ?ws \<and> card {w \<in> W. length a \<le> length w \<and> length w < D - 1 \<and> follows table a w} \<le> limit"
    using r(3) all unfolding len n by argo
  then have "predicted_words table W a limit ?ws"
    unfolding predicted_words_def by (intro conjI exI [of _ D] c)
  then show ?thesis using r(1,2) by blast
qed

lemma restore_at: "represents t W \<Longrightarrow> stands_at t W w n \<Longrightarrow> length w \<le> max_depth \<Longrightarrow> restore_key_string t n = Some w"
  using climb_represents [of t W w n max_depth "[]"] by (simp add: restore_key_string_def)

section \<open>The expansion tables\<close>

definition table_sized :: "expansion_table \<Rightarrow> bool" where
  "table_sized table \<longleftrightarrow> length table = 256 \<and> (\<forall>row \<in> set table. length row = 8)"

lemma ord_of_less: "ord_of c < 256"
  by simp

lemma set_bit_at_hits:
  assumes "table_sized table"
  shows "table_sized (set_bit_at k v table)"
    and "is_hit (expand_key (set_bit_at k v table) x) y \<longleftrightarrow> x = k \<and> y = v \<or> is_hit (expand_key table x) y"
proof -
  have row: "length (table ! ord_of k) = 8" "ord_of k < length table" using assms nth_mem [of "ord_of k" table] by (auto simp: table_sized_def)
  show "table_sized (set_bit_at k v table)"
    using assms row(1) by (auto simp: table_sized_def set_bit_at_def Let_def dest!: set_update_subset_insert [THEN subsetD])
  have hit: "is_hit r y = bit (r ! (ord_of y div 32)) (ord_of y mod 32)" for r y
    by (simp add: is_hit_def bit_iff_odd and_one_eq odd_iff_mod_2_eq_one drop_bit_eq_div)
  have ord_eq: "ord_of a = ord_of b \<longleftrightarrow> a = b" for a b :: char by simp
  have "bit ((table ! ord_of k)[ord_of v div 32 := table ! ord_of k ! (ord_of v div 32) OR push_bit (ord_of v mod 32) 1] !
      (ord_of y div 32)) (ord_of y mod 32) \<longleftrightarrow> y = v \<or> bit (table ! ord_of k ! (ord_of y div 32)) (ord_of y mod 32)"
  proof (cases "ord_of y div 32 = ord_of v div 32")
    case True
    have "ord_of v div 32 < length (table ! ord_of k)" 
      unfolding row(1) by (rule less_mult_imp_div_less) (use ord_of_less [of v] in simp)
    moreover have "ord_of y mod 32 = ord_of v mod 32 \<longleftrightarrow> y = v"
      using True ord_eq [of y v] by (metis div_mod_decomp)
    ultimately show ?thesis using True by (auto simp: bit_or_iff bit_exp_iff)
  next
    case False
    then show ?thesis by auto
  qed
  then show "is_hit (expand_key (set_bit_at k v table) x) y \<longleftrightarrow> x = k \<and> y = v \<or> is_hit (expand_key table x) y"
    using row(2) ord_eq [of x k] by (auto simp: hit expand_key_def set_bit_at_def Let_def nth_list_update)
qed

lemma fold_set_bits:
  "table_sized table \<Longrightarrow> table_sized (fold (\<lambda>(k, v). set_bit_at k v) kvs table) \<and>
     (\<forall>x y. is_hit (expand_key (fold (\<lambda>(k, v). set_bit_at k v) kvs table) x) y \<longleftrightarrow> (x, y) \<in> set kvs \<or> is_hit (expand_key table x) y)"
proof (induction kvs arbitrary: table)
  case (Cons kv kvs)
  obtain k v where kv: "kv = (k, v)" by (cases kv)
  note b = set_bit_at_hits [OF Cons.prems, of k v]
  show ?case using Cons.IH [OF b(1)] by (auto simp: kv b(2))
qed simp

text \<open>The table of a sensitive lookup expands every character to itself alone.\<close>

lemma new_expansion_table_hits:
  "table_sized new_expansion_table" "is_hit (expand_key new_expansion_table x) y \<longleftrightarrow> x = y"
proof -
  let ?kvs = "map (\<lambda>i. (chr_of i, chr_of i)) [0..<256]"
  let ?zero = "replicate 256 (replicate 8 0) :: expansion_table"
  have n: "new_expansion_table = fold (\<lambda>(k, v). set_bit_at k v) ?kvs ?zero"
    by (simp add: new_expansion_table_def fold_map comp_def del: upt_Suc)
  have z: "table_sized ?zero" by (simp add: table_sized_def)
  have "\<not> is_hit (expand_key ?zero x) y"
    using ord_of_less [of x] less_mult_imp_div_less [of "ord_of y" 8 32] ord_of_less [of y]
    by (simp add: is_hit_def expand_key_def nth_replicate)
  moreover have "(x, y) \<in> set ?kvs \<longleftrightarrow> x = y"
  proof
    assume "x = y"
    then show "(x, y) \<in> set ?kvs" by (auto simp del: upt_Suc intro!: image_eqI [of _ _ "ord_of y"])
  qed auto
  ultimately show "table_sized new_expansion_table" "is_hit (expand_key new_expansion_table x) y \<longleftrightarrow> x = y"
    using fold_set_bits [OF z, of ?kvs] unfolding n by simp_all
qed

lemma follows_plain: "length a \<le> length w \<Longrightarrow> follows new_expansion_table a w \<longleftrightarrow> prefix a w"
proof (induction a arbitrary: w)
  case (Cons x a)
  then show ?case by (cases w) (auto simp: follows_def new_expansion_table_hits(2))
qed (simp add: follows_def)

lemma no_differences: "length a \<le> length w \<Longrightarrow> differences a w = 0 \<longleftrightarrow> prefix a w"
proof (induction a arbitrary: w)
  case (Cons x a)
  then show ?case by (cases w) (auto simp: differences_def)
qed (simp add: differences_def)

section \<open>The callbacks\<close>

text \<open>The key that is shown for a stored key: the given text with the decoded rest of the stored key.\<close>

definition predicted_key :: "bytes \<Rightarrow> bytes \<Rightarrow> bytes" where
  "predicted_key key k = key @ encode_decode_key (drop (length (encode_decode_key key)) (encode_decode_key k))"

lemma predicted_key_prefix:
  assumes "plain_text key" "plain_text k" "prefix key k"
  shows "predicted_key key k = k"
proof -
  obtain r where r: "k = key @ r" using assms(3) by (auto simp: prefix_def)
  let ?A = "utf8_to_utf32 key" and ?R = "utf8_to_utf32 r"
  have "utf8_to_utf32 (utf8_text ?A @ r) = ?A @ ?R" by (rule utf8_to_utf32_append [OF plain_text_bound [OF assms(1)]])
  then have K: "utf8_to_utf32 k = ?A @ ?R" using plain_text_spec [OF assms(1)] r by simp
  then have "list_all (\<lambda>c. 0 < c \<and> c \<le> 0x10FFFF) ?R" using assms(2) by (simp add: plain_text_def)
  then have R: "plain_text (utf8_text (map swap_code ?R))" "utf8_to_utf32 (utf8_text (map swap_code ?R)) = map swap_code ?R"
    using plain_text_of_codes [of "map swap_code ?R"] swap_code_range by (auto simp: list_all_iff)
  have "encode_decode_key k = encode_decode_key key @ utf8_text (map swap_code ?R)"
    by (simp add: encode_key_text [OF assms(1)] encode_key_text [OF assms(2)] K)
  then have "predicted_key key k = key @ encode_decode_key (utf8_text (map swap_code ?R))" by (simp add: predicted_key_def)
  also have "\<dots> = key @ utf8_text ?R" unfolding encode_key_text [OF R(1)] R(2) by (simp add: comp_def swap_code_involutive)
  also have "\<dots> = k" using plain_text_spec [OF assms(1)] plain_text_spec [OF assms(2)] by (simp add: K)
  finally show ?thesis .
qed

fun visit_predicted :: "'s callback \<Rightarrow> bytes \<Rightarrow> (bytes \<Rightarrow> token list) \<Rightarrow> bytes list \<Rightarrow> 's \<Rightarrow> 's option" where
  "visit_predicted cb key tokens_of [] st = Some st"
| "visit_predicted cb key tokens_of (k # ks) st =
     (let shown = predicted_key key k; (r1, st1) = on_key cb shown st in
      case r1 of
        TRAVERSE_DONE \<Rightarrow> Some st1
      | TRAVERSE_NEXT_KEY \<Rightarrow> visit_predicted cb key tokens_of ks st1
      | TRAVERSE_CULL \<Rightarrow> None
      | TRAVERSE_CONTINUE \<Rightarrow>
          let (r2, st2) = on_actual_key cb shown k (differences (encode_decode_key key) (encode_decode_key k)) st1 in
          case r2 of
            TRAVERSE_DONE \<Rightarrow> Some st2
          | TRAVERSE_NEXT_KEY \<Rightarrow> visit_predicted cb key tokens_of ks st2
          | TRAVERSE_CULL \<Rightarrow> None
          | TRAVERSE_CONTINUE \<Rightarrow>
              let (r3, st3) = run_while_continue
                (\<lambda>t st. let (r, st') = on_token cb shown k t st in (if r = TRAVERSE_CULL then TRAVERSE_CONTINUE else r, st'))
                (tokens_of k) st2
              in if r3 = TRAVERSE_DONE then Some st3 else visit_predicted cb key tokens_of ks st3)"

definition keys_fit :: "token list \<Rightarrow> bool" where
  "keys_fit tokens \<longleftrightarrow> list_all (\<lambda>t. length (encode_decode_key (token_key t)) \<le> max_depth) tokens"

lemma predictive_callbacks_stored:
  fixes cb :: "'s callback"
  assumes d: "dict_input tokens" and K: "represents (key_trie sd) (key_words tokens)" and fit: "keys_fit tokens"
    and p: "plain_text key"
    and ts: "\<forall>k \<in> token_key ` set tokens. \<forall>f (st :: 's).
      tokens_of_key h2k sd k (key_id (key_words tokens) (encode_decode_key k)) (\<lambda>info. f (info_token info)) st =
        Some (run_while_continue f (tokens_of k) st)"
  shows "set ks \<subseteq> token_key ` set tokens \<Longrightarrow> \<forall>k \<in> set ks. length (encode_decode_key key) \<le> length (encode_decode_key k) \<Longrightarrow>
    list_all2 (search_at (key_trie sd) (key_words tokens) (encode_decode_key key)) (map encode_decode_key ks) states \<Longrightarrow>
    predictive_callbacks h2k sd key (encode_decode_key key) cb states st = visit_predicted cb key tokens_of ks st"
proof (induction ks arbitrary: states st)
  case (Cons k ks)
  let ?e = "encode_decode_key key" and ?ek = "encode_decode_key k"
  obtain q states' where q: "states = q # states'" "search_at (key_trie sd) (key_words tokens) ?e ?ek q"
    "list_all2 (search_at (key_trie sd) (key_words tokens) ?e) (map encode_decode_key ks) states'"
    using Cons.prems(3) by (auto simp: list_all2_Cons1)
  obtain node where n: "q = (node, length ?ek, differences ?e ?ek)" "stands_at (key_trie sd) (key_words tokens) ?ek node"
    using q(2) by (cases q) (auto simp: search_at_def)
  have k: "k \<in> token_key ` set tokens" using Cons.prems(1) by simp
  then have pk: "plain_text k" "length ?ek \<le> max_depth"
    using dict_input_token(3) [OF d] fit by (auto simp: keys_fit_def list_all_iff)
  have restore: "restore_key_string (key_trie sd) node = Some ?ek" by (rule restore_at [OF K n(2) pk(2)])
  have actual: "(if 0 < differences ?e ?ek then encode_decode_key ?ek else predicted_key key k) = k"
  proof (cases "0 < differences ?e ?ek")
    case False
    then have "prefix ?e ?ek" using no_differences [of ?e ?ek] Cons.prems(2) by simp
    then show ?thesis using False predicted_key_prefix [OF p pk(1)] encode_key_prefix_iff [OF p pk(1)] by simp
  qed (simp add: key_round_trip [OF pk(1)])
  have i: "key_id_of_terminal_node (key_trie sd) node = Some (key_id (key_words tokens) ?ek)" by (rule terminal_facts(2) [OF K n(2)])
  have tk: "tokens_of_key h2k sd k (key_id (key_words tokens) ?ek)
      (\<lambda>info st. let (r, st') = on_token cb (predicted_key key k) k (info_token info) st in (if r = TRAVERSE_CULL then TRAVERSE_CONTINUE else r, st')) st =
    Some (run_while_continue (\<lambda>t st. let (r, st') = on_token cb (predicted_key key k) k t st in
      (if r = TRAVERSE_CULL then TRAVERSE_CONTINUE else r, st')) (tokens_of k) st)" for st
    using ts [THEN bspec, OF k, THEN spec, of "\<lambda>t st. let (r, st') = on_token cb (predicted_key key k) k t st in
      (if r = TRAVERSE_CULL then TRAVERSE_CONTINUE else r, st')"] by simp
  have IH: "predictive_callbacks h2k sd key ?e cb states' st = visit_predicted cb key tokens_of ks st" for st
    by (rule Cons.IH [OF _ _ q(3)]) (use Cons.prems(1,2) in simp_all)
  obtain r1 st1 where k1: "on_key cb (predicted_key key k) st = (r1, st1)" by fastforce
  obtain r2 st2 where k2: "on_actual_key cb (predicted_key key k) k (differences ?e ?ek) st1 = (r2, st2)" by fastforce
  have "predictive_callbacks h2k sd key ?e cb ((node, length ?ek, differences ?e ?ek) # states') st = visit_predicted cb key tokens_of (k # ks) st"
    unfolding predictive_callbacks.simps visit_predicted.simps restore bind.bind_lunit predicted_key_def [symmetric] Let_def k1 prod.case actual k2 i
      tk [unfolded Let_def] IH
    by (cases r1; cases r2) (simp_all only: result_type.case split_def prod.case)
  then show ?case unfolding q(1) n(1) .
qed simp

section \<open>The keys that are predicted\<close>

definition predicts :: "'s callback \<Rightarrow> bytes \<Rightarrow> bytes \<Rightarrow> bool" where
  "predicts cb key k \<longleftrightarrow>
     (if is_kana_modifier_insensitive cb
      then length (encode_decode_key key) \<le> length (encode_decode_key k) \<and>
        follows build_hiragana_expansion_table (encode_decode_key key) (encode_decode_key k)
      else prefix key k)"

abbreviation encoded_length :: "bytes \<Rightarrow> nat" where
  "encoded_length k \<equiv> length (encode_decode_key k)"

definition predicted_keys :: "'s callback \<Rightarrow> token list \<Rightarrow> bytes \<Rightarrow> bytes list \<Rightarrow> bool" where
  "predicted_keys cb tokens key ks \<longleftrightarrow> distinct ks \<and> sorted (map encoded_length ks) \<and>
     (\<exists>D. set ks = {k \<in> token_key ` set tokens. predicts cb key k \<and> encoded_length k < D} \<and>
        ((\<forall>k \<in> token_key ` set tokens. encoded_length k < D) \<or>
         kLookupLimit < length ks \<and>
         card {k \<in> token_key ` set tokens. predicts cb key k \<and> encoded_length k < D - 1} \<le> kLookupLimit))"

lemma predicts_follows:
  fixes cb :: "'s callback"
  assumes "plain_text key" "plain_text k"
  defines "table \<equiv> if is_kana_modifier_insensitive cb then build_hiragana_expansion_table else new_expansion_table"
  shows "predicts cb key k \<longleftrightarrow> encoded_length key \<le> encoded_length k \<and> follows table (encode_decode_key key) (encode_decode_key k)"
  using encode_key_prefix_iff [OF assms(1,2)] follows_plain [of "encode_decode_key key" "encode_decode_key k"]
  by (auto simp: predicts_def table_def dest: prefix_length_le)

text \<open>The words of the trie and the keys they stand for.\<close>

lemma predicted_words_keys:
  fixes cb :: "'s callback"
  assumes d: "dict_input tokens" and p: "plain_text key"
    and table: "table = (if is_kana_modifier_insensitive cb then build_hiragana_expansion_table else new_expansion_table)"
    and ws: "predicted_words table (key_words tokens) (encode_decode_key key) kLookupLimit ws"
  shows "predicted_keys cb tokens key (map encode_decode_key ws)" "map encode_decode_key (map encode_decode_key ws) = ws"
proof -
  let ?K = "token_key ` set tokens" and ?e = encode_decode_key
  let ?W = "\<lambda>D. {w \<in> key_words tokens. length (?e key) \<le> length w \<and> length w < D \<and> follows table (?e key) w}"
  let ?k = "\<lambda>D. {k \<in> ?K. predicts cb key k \<and> encoded_length k < D}"
  have pl: "plain_text k" if "k \<in> ?K" for k using that dict_input_token(3) [OF d] by auto
  have inj: "inj_on ?e ?K" using encode_key_inj pl by (simp add: inj_on_def)
  have W: "?W D = ?e ` ?k D" for D
    using predicts_follows [OF p pl, where cb = cb, folded table] by (fastforce simp: key_words_def)
  obtain D where D: "distinct ws" "sorted (map length ws)" "set ws = ?W D"
    "(\<forall>w \<in> key_words tokens. length w < D) \<or> kLookupLimit < length ws \<and> card (?W (D - 1)) \<le> kLookupLimit"
    using ws unfolding predicted_words_def by blast
  have bk: "?e (?e w) = w" "w \<in> ?e ` ?K" if "w \<in> set ws" for w
    using that key_round_trip pl unfolding D(3) key_words_def by auto
  show ws': "map ?e (map ?e ws) = ws" using bk(1) by (simp add: map_idI)
  have inj2: "inj_on ?e (set ws)" using bk(1) by (metis inj_onI)
  have "?e ` set ws = ?e ` ?e ` ?k D" unfolding D(3) W ..
  also have "\<dots> = ?k D" unfolding image_image
  proof (rule trans [OF image_cong])
    show "?e (?e k) = id k" if "k \<in> ?k D" for k using that key_round_trip [OF pl] by simp
  qed simp_all
  finally have "?e ` set ws = ?k D" .
  then have s: "set (map ?e ws) = ?k D" by (simp only: set_map)
  have dist: "distinct (map ?e ws)" using D(1) inj2 by (simp add: distinct_map)
  have "map encoded_length (map ?e ws) = map length (map ?e (map ?e ws))" by simp
  then have srt: "sorted (map encoded_length (map ?e ws))" using D(2) by (simp only: ws')
  have "card (?W (D - 1)) = card (?k (D - 1))"
    unfolding W by (rule card_image) (rule inj_on_subset [OF inj Collect_restrict])
  then have "(\<forall>k \<in> ?K. encoded_length k < D) \<or> kLookupLimit < length (map ?e ws) \<and> card (?k (D - 1)) \<le> kLookupLimit"
    using D(4) by (auto simp: key_words_def)
  then show "predicted_keys cb tokens key (map ?e ws)"
    unfolding predicted_keys_def by (intro conjI dist srt exI [of _ D] s)
qed

section \<open>Property of the predictive lookup\<close>

text \<open>
  C2: (predictive lookup) for a dictionary built from any tokens whose values and keys fit the buffers, and for every
  text that is not empty, \<open>LookupPredictive\<close> returns (or dies where a callback culls), calling back for the predicted keys
  with their tokens.  These are distinct stored keys, shortest first: all keys that have the text as a prefix, or, for a
  callback that is kana modifier insensitive, that follow it in the expansion table; the search stops after a length at which the
  limit of 64 keys is exceeded, and not before.  A key with the text as a prefix is shown as itself.
\<close>

theorem predictive_lookup:
  fixes cb :: "'s callback"
  assumes "dict_input tokens" "values_fit h2k tokens" "keys_fit tokens" "plain_text key" "key \<noteq> []"
  shows "\<exists>b secs sd tokens_of ks. build_from_tokens h2k n tokens new_dict_builder = Some b \<and> write_sections b = Some secs \<and>
    open_dictionary secs False = Some sd \<and>
    (\<forall>k \<in> token_key ` set tokens. stored_tokens tokens k (tokens_of k)) \<and>
    predicted_keys cb tokens key ks \<and> (\<forall>k \<in> set ks. prefix key k \<longrightarrow> predicted_key key k = k) \<and>
    (\<forall>st. lookup_predictive h2k sd key cb st = visit_predicted cb key tokens_of ks st)"
proof -
  let ?K = "token_key ` set tokens" and ?e = encode_decode_key
  define table where "table = (if is_kana_modifier_insensitive cb then build_hiragana_expansion_table else new_expansion_table)"
  obtain b secs sd where b: "build_from_tokens h2k n tokens new_dict_builder = Some b" "write_sections b = Some secs"
    "open_dictionary secs False = Some sd" "dict_stores h2k tokens sd" using build_opens [OF assms(1)] by blast
  have hira: "hiragana_expansion_table sd = build_hiragana_expansion_table"
    using b(3) by (auto simp: open_dictionary_def Let_def bind_eq_Some_conv)
  have t: "represents (key_trie sd) (key_words tokens)" using b(4) by (simp add: dict_stores_def)
  from tokens_of_exists [OF assms(1) b(4) assms(2)] obtain tokens_of where ts: "\<forall>key \<in> ?K. stored_tokens tokens key (tokens_of key) \<and>
    (\<forall>f (st :: 's). tokens_of_key h2k sd key (key_id (key_words tokens) (?e key)) (\<lambda>info. f (info_token info)) st =
       Some (run_while_continue f (tokens_of key) st))" by (elim exE) (rule that)
  obtain states ws where c: "collect_predictive_nodes (key_trie sd) (?e key) table kLookupLimit [(root_node, 0, 0)] [] = Some states"
    "list_all2 (search_at (key_trie sd) (key_words tokens) (?e key)) ws states"
    "predicted_words table (key_words tokens) (?e key) kLookupLimit ws"
    using collect_predictive_nodes_spec [OF t] by blast
  define ks where "ks = map ?e ws"
  have ks: "predicted_keys cb tokens key ks" "map ?e ks = ws"
    unfolding ks_def by (rule predicted_words_keys [OF assms(1,4) table_def c(3)])+
  then have sub: "set ks \<subseteq> ?K" "\<forall>k \<in> set ks. predicts cb key k" by (auto simp: predicted_keys_def)
  have pl: "plain_text k" if "k \<in> set ks" for k using that sub(1) dict_input_token(3) [OF assms(1)] by auto
  have len: "\<forall>k \<in> set ks. encoded_length key \<le> encoded_length k" using sub(2) predicts_follows [OF assms(4) pl] by blast
  have calls: "predictive_callbacks h2k sd key (?e key) cb states st = visit_predicted cb key tokens_of ks st" for st
    by (rule predictive_callbacks_stored [OF assms(1) t assms(3,4) _ sub(1) len]) (use ts c(2) ks(2) in simp_all)
  have "lookup_predictive h2k sd key cb st = visit_predicted cb key tokens_of ks st" for st
  proof (cases "max_depth < encoded_length key")
    case True
    have "encoded_length k \<le> max_depth" if "k \<in> set ks" for k
      using that sub(1) assms(3) by (auto simp: keys_fit_def list_all_iff)
    then have "ks = []" using True len by (cases ks) fastforce+
    then show ?thesis using True by (simp add: lookup_predictive_def)
  next
    case False
    have "(if is_kana_modifier_insensitive cb then hiragana_expansion_table sd else new_expansion_table) = table"
      by (simp add: table_def hira)
    then show ?thesis using False assms(5) c(1) calls by (simp add: lookup_predictive_def Let_def)
  qed
  moreover have "\<forall>k \<in> set ks. prefix key k \<longrightarrow> predicted_key key k = k" using predicted_key_prefix [OF assms(4) pl] by blast
  moreover have "\<forall>k \<in> ?K. stored_tokens tokens k (tokens_of k)" using ts by simp
  ultimately show ?thesis using b(1-3) ks(1) by blast
qed

lemma take_values_returns: "\<exists>r. visit_predicted take_values key tokens_of ks st = Some r"
  by (induction ks arbitrary: st) (auto simp: take_values_def split: prod.splits)

theorem predictive_lookup_witness:
  "\<exists>secs sd r. open_dictionary secs False = Some sd \<and> lookup_predictive id sd (utf8_text [0x3042]) take_values [] = Some r"
proof -
  let ?a = "utf8_text [0x3042]"
  have f: "values_fit id sample_tokens"
    using encode_value_length [OF sample_texts(2)] unfolding values_fit_def sample_values sample_texts(4) by (simp add: max_depth_def)
  have "length (encode_decode_key ?a) \<le> max_depth"
    unfolding encode_key_text [OF sample_texts(1)] sample_texts(3) by (simp add: utf8_spec_length max_depth_def)
  then have k: "keys_fit sample_tokens" by (simp add: keys_fit_def sample_tokens_def)
  from predictive_lookup [OF sample_input f k sample_texts(1) sample_differ(2), of 0 take_values] obtain secs sd tokens_of ks where
    "open_dictionary secs False = Some sd \<and> (\<forall>st. lookup_predictive id sd ?a take_values st = visit_predicted take_values ?a tokens_of ks st)"
    by (elim exE conjE) (rule that, rule conjI)
  then show ?thesis using take_values_returns [of ?a tokens_of ks "[]"] by metis
qed

end
