(* ===== verification/Dictionary_Reverse.thy ===== *)
theory Dictionary_Reverse
  imports Dictionary_Predictive
begin

text \<open>
  The reverse lookup of \<open>SystemDictionary\<close> (\<open>dictionary/system/system_dictionary.cc\<close>).  The theorems show that the
  scan for the reverse lookup passes over exactly the stored tokens, and that the index and the cache for the reverse
  lookup give what the scan gives.
\<close>

section \<open>Reverse lookup\<close>

text \<open>A \<open>btree_set\<close> of ids is a strictly sorted list, the \<open>btree_multimap\<close> of the results a list in which the entries of an
  id are in the order of their insertion.\<close>

definition insert_ids :: "int list \<Rightarrow> int list \<Rightarrow> int list" where
  "insert_ids new old = remdups_adj (sort (old @ new))"

definition add_key_ids_of_all_prefixes :: "louds_trie \<Rightarrow> bytes \<Rightarrow> int list \<Rightarrow> int list option" where
  "add_key_ids_of_all_prefixes t key key_ids =
     Option.bind (prefix_search t key) (\<lambda>calls.
     map_option (\<lambda>found. insert_ids (map int found) key_ids) (those (map (\<lambda>(n, node). key_id_of_terminal_node t node) calls)))"

definition scan_tokens :: "system_dictionary \<Rightarrow> int list \<Rightarrow> (int \<times> reverse_result) list \<Rightarrow> (int \<times> reverse_result) list option" where
  "scan_tokens sd id_set results =
     map_option (\<lambda>rs. results @
         map (\<lambda>r. (scan_value_id r, (int (scan_tokens_offset r), int (scan_index r))))
           (filter (\<lambda>r. scan_value_id r \<noteq> -1 \<and> scan_value_id r \<in> set id_set) rs))
       (scan_tokens_all sd)"

definition is_available :: "(int \<times> reverse_result) list \<Rightarrow> int list \<Rightarrow> bool" where
  "is_available results id_set = list_all (\<lambda>i. i \<in> fst ` set results) id_set"

function ids_of_suffixes :: "louds_trie \<Rightarrow> bytes \<Rightarrow> int list \<Rightarrow> int list option" where
  "ids_of_suffixes t str id_set =
     (if str = [] then Some id_set
      else (case add_key_ids_of_all_prefixes t (encode_value str) id_set of
              None \<Rightarrow> None
            | Some id_set' \<Rightarrow> ids_of_suffixes t (drop (one_char_len (hd str)) str) id_set'))"
  by pat_completeness auto
termination
  by (relation "measure (\<lambda>(t, str, id_set). length str)") auto

declare ids_of_suffixes.simps [simp del]

definition populate_reverse_lookup_cache :: "system_dictionary \<Rightarrow> bytes \<Rightarrow> system_dictionary option" where
  "populate_reverse_lookup_cache sd str =
     (if reverse_lookup_index sd \<noteq> None then Some sd
      else Option.bind (ids_of_suffixes (value_trie sd) str []) (\<lambda>id_set.
        map_option (\<lambda>results. sd\<lparr>reverse_lookup_cache := Some results\<rparr>) (scan_tokens sd id_set [])))"

definition clear_reverse_lookup_cache :: "system_dictionary \<Rightarrow> system_dictionary" where
  "clear_reverse_lookup_cache sd = sd\<lparr>reverse_lookup_cache := None\<rparr>"

text \<open>\<open>ReverseLookupCallbackWrapper\<close> overrides \<open>OnToken\<close> alone.\<close>

definition reverse_lookup_callback_wrapper :: "'s callback \<Rightarrow> 's callback" where
  "reverse_lookup_callback_wrapper cb =
     \<lparr>on_key = (\<lambda>key st. (TRAVERSE_CONTINUE, st)),
      on_actual_key = (\<lambda>key actual_key num_expanded st. (TRAVERSE_CONTINUE, st)),
      on_token = (\<lambda>key actual_key t. on_token cb key actual_key (t\<lparr>token_key := token_value t, token_value := token_key t\<rparr>)),
      is_kana_modifier_insensitive = False\<rparr>"

definition t13n_filter :: "(bytes \<Rightarrow> bytes) \<Rightarrow> token_info \<Rightarrow> bool" where
  "t13n_filter k2h info =
     (if token_attributes (info_token info) AND SPELLING_CORRECTION \<noteq> 0 then False
      else if info_value_type info \<noteq> AS_IS_HIRAGANA \<and> info_value_type info \<noteq> AS_IS_KATAKANA
      then token_key (info_token info) = k2h (token_value (info_token info))
      else True)"

definition register_reverse_lookup_tokens_for_t13n ::
  "(bytes \<Rightarrow> bytes) \<Rightarrow> (bytes \<Rightarrow> bytes) \<Rightarrow> system_dictionary \<Rightarrow> bytes \<Rightarrow> 's callback \<Rightarrow> 's \<Rightarrow> 's option" where
  "register_reverse_lookup_tokens_for_t13n h2k k2h sd value cb st =
     (let hiragana_value = k2h value in
      run_callback_on_each_prefix h2k sd hiragana_value cb (t13n_filter k2h) [] (encode_decode_key hiragana_value) root_node st)"

text \<open>The tokens of one result: \<open>for_tokens\<close> over the token array from the offset on.  The answer of \<open>OnToken\<close> is not used.\<close>

definition register_result ::
  "(bytes \<Rightarrow> bytes) \<Rightarrow> system_dictionary \<Rightarrow> byte list \<Rightarrow> 's callback \<Rightarrow> int \<Rightarrow> reverse_result \<Rightarrow> 's \<Rightarrow> 's option" where
  "register_result h2k sd ptr cb value_id r st =
     (case r of (tokens_offset, id_in_key) \<Rightarrow>
      Option.bind (restore_key_string_of_id (key_trie sd) id_in_key) (\<lambda>encoded_key.
        let tokens_key = encode_decode_key encoded_key;
            (res, st1) = on_key cb tokens_key st
        in if res \<noteq> TRAVERSE_CONTINUE then Some st1
           else if tokens_offset < 0 then None
           else
             Option.bind (new_iterator h2k sd tokens_key (drop (nat tokens_offset) ptr)) (\<lambda>it.
             map_option snd (for_tokens h2k sd
               (\<lambda>info st.
                  if token_attributes (info_token info) AND SPELLING_CORRECTION \<noteq> 0 \<or> id_in_value_trie info \<noteq> value_id
                  then (TRAVERSE_CONTINUE, st)
                  else (TRAVERSE_CONTINUE, snd (on_token cb tokens_key tokens_key (info_token info) st)))
               it st1))))"

fun bind_all :: "('a \<Rightarrow> 's \<Rightarrow> 's option) \<Rightarrow> 'a list \<Rightarrow> 's \<Rightarrow> 's option" where
  "bind_all f [] st = Some st"
| "bind_all f (x # xs) st = Option.bind (f x st) (bind_all f xs)"

definition register_reverse_lookup_results ::
  "(bytes \<Rightarrow> bytes) \<Rightarrow> system_dictionary \<Rightarrow> int list \<Rightarrow> (int \<times> reverse_result) list \<Rightarrow> 's callback \<Rightarrow> 's \<Rightarrow> 's option" where
  "register_reverse_lookup_results h2k sd id_set results cb st =
     Option.bind (get_token_array_ptr sd 0) (\<lambda>ptr.
       bind_all (\<lambda>value_id. bind_all (\<lambda>(_, r). register_result h2k sd ptr cb value_id r) (filter (\<lambda>(i, r). i = value_id) results))
         id_set st)"

definition register_reverse_lookup_tokens_for_value ::
  "(bytes \<Rightarrow> bytes) \<Rightarrow> system_dictionary \<Rightarrow> bytes \<Rightarrow> 's callback \<Rightarrow> 's \<Rightarrow> 's option" where
  "register_reverse_lookup_tokens_for_value h2k sd value cb st =
     Option.bind (add_key_ids_of_all_prefixes (value_trie sd) (encode_value value) []) (\<lambda>id_set.
     Option.bind
       (case reverse_lookup_index sd of
          Some index \<Rightarrow> fill_result_map index id_set
        | None \<Rightarrow>
            (case reverse_lookup_cache sd of
               Some results \<Rightarrow> if is_available results id_set then Some results else scan_tokens sd id_set []
             | None \<Rightarrow> scan_tokens sd id_set []))
       (\<lambda>results. register_reverse_lookup_results h2k sd id_set results cb st))"

definition lookup_reverse ::
  "(bytes \<Rightarrow> bytes) \<Rightarrow> (bytes \<Rightarrow> bytes) \<Rightarrow> system_dictionary \<Rightarrow> bytes \<Rightarrow> 's callback \<Rightarrow> 's \<Rightarrow> 's option" where
  "lookup_reverse h2k k2h sd str cb st =
     (let wrapper = reverse_lookup_callback_wrapper cb in
      Option.bind (register_reverse_lookup_tokens_for_t13n h2k k2h sd str wrapper st)
        (register_reverse_lookup_tokens_for_value h2k sd str wrapper))"

section \<open>The index gives what the scan gives\<close>

definition result_of :: "scan_result \<Rightarrow> reverse_result" where
  "result_of r = (int (scan_tokens_offset r), int (scan_index r))"

lemma result_of_is_result [simp]: "result_of r \<noteq> no_result" "no_result \<noteq> result_of r"
  by (simp_all add: result_of_def no_result_def)

definition results_for :: "scan_result list \<Rightarrow> nat \<Rightarrow> scan_result list" where
  "results_for rs v = filter (\<lambda>r. scan_value_id r = int v) rs"

lemma put_first_slot: "no_result \<notin> set ds \<Longrightarrow> put_first r (ds @ replicate (Suc k) no_result) = ds @ r # replicate k no_result"
  by (induction ds) auto

lemma count_results_for:
  assumes "\<forall>r \<in> set rs. - 1 \<le> scan_value_id r \<and> scan_value_id r < int (length sizes)"
  shows "length (count_results rs sizes) = length sizes \<and>
    (\<forall>v < length sizes. count_results rs sizes ! v = sizes ! v + length (results_for rs v))"
  using assms
proof (induction rs arbitrary: sizes)
  case (Cons r rs)
  define sizes' where "sizes' = (if scan_value_id r \<noteq> -1
    then sizes[nat (scan_value_id r) := sizes ! nat (scan_value_id r) + 1] else sizes)"
  have "count_results (r # rs) sizes = count_results rs sizes'" by (simp add: count_results_def sizes'_def)
  moreover have "length sizes' = length sizes" by (simp add: sizes'_def)
  moreover have "sizes' ! v + length (results_for rs v) = sizes ! v + length (results_for (r # rs) v)" if "v < length sizes" for v
    using Cons.prems that by (auto simp: sizes'_def results_for_def nth_list_update)
  ultimately show ?case using Cons.IH [of sizes'] Cons.prems by simp
qed (simp add: count_results_def results_for_def)

lemma fill_index_for:
  assumes "\<forall>r \<in> set rs. - 1 \<le> scan_value_id r \<and> scan_value_id r < int (length index)"
    and "\<forall>v < length index. index ! v = D v @ replicate (length (results_for rs v)) no_result \<and> no_result \<notin> set (D v)"
  shows "length (fill_index rs index) = length index \<and>
    (\<forall>v < length index. fill_index rs index ! v = D v @ map result_of (results_for rs v))"
  using assms
proof (induction rs arbitrary: index D)
  case (Cons r rs)
  show ?case
  proof (cases "scan_value_id r = -1")
    case True
    have "results_for (r # rs) v = results_for rs v" for v using True by (simp add: results_for_def)
    moreover have "fill_index (r # rs) index = fill_index rs index" using True by (simp add: fill_index_def)
    ultimately show ?thesis using Cons.IH [of index D] Cons.prems by simp
  next
    case False
    define u where "u = nat (scan_value_id r)"
    have u: "scan_value_id r = int u" "u < length index" using Cons.prems(1) False by (auto simp: u_def)
    define index' where "index' = index[u := put_first (result_of r) (index ! u)]"
    define D' where "D' = D(u := D u @ [result_of r])"
    have rf: "results_for (r # rs) v = (if v = u then [r] else []) @ results_for rs v" for v
      using u(1) by (simp add: results_for_def)
    have "index' ! v = D' v @ replicate (length (results_for rs v)) no_result \<and> no_result \<notin> set (D' v)" if "v < length index'" for v
    proof (cases "v = u")
      case True
      then have "index ! u = D u @ replicate (Suc (length (results_for rs u))) no_result" "no_result \<notin> set (D u)"
        using Cons.prems(2) u(2) rf [of u] by auto
      then show ?thesis using True put_first_slot [of "D u" "result_of r" "length (results_for rs u)"] u(2) result_of_is_result
        by (auto simp: index'_def D'_def)
    next
      case False
      then show ?thesis using Cons.prems(2) that rf [of v] by (simp add: index'_def D'_def)
    qed
    moreover have "fill_index (r # rs) index = fill_index rs index'"
      using u(1) by (simp add: fill_index_def index'_def result_of_def)
    moreover have "length index' = length index" by (simp add: index'_def)
    ultimately have "length (fill_index (r # rs) index) = length index \<and>
        (\<forall>v < length index. fill_index (r # rs) index ! v = D' v @ map result_of (results_for rs v))"
      using Cons.IH [of index' D'] Cons.prems(1) by simp
    then show ?thesis by (auto simp: D'_def rf)
  qed
qed (simp add: fill_index_def results_for_def)

lemma scan_ids_bound: "scan_from ptr offset tokens_offset index = Some rs \<Longrightarrow> \<forall>r \<in> set rs. - 1 \<le> scan_value_id r"
proof (induction ptr offset tokens_offset index arbitrary: rs rule: scan_from.induct)
  case (1 ptr offset tokens_offset index)
  have "- 1 \<le> i" if "read_token_for_reverse_lookup p = Some (again, i, n)" for p again i n
  proof -
    have "read_value_info p f o1 = Some (j, o2) \<Longrightarrow> - 1 \<le> j" for f o1 j o2
      by (auto simp: read_value_info_def split: if_splits intro: order_trans [of _ 0])
    then show ?thesis using that by (auto simp: read_token_for_reverse_lookup_def Let_def bind_eq_Some_conv)
  qed
  then show ?case using 1 by (auto simp: scan_from.simps [of ptr offset tokens_offset index] Let_def split: option.splits if_splits)
qed

lemma fold_max_scan:
  "(\<forall>r \<in> set rs. scan_value_id r \<le> fold (\<lambda>r m. max m (scan_value_id r)) rs m0) \<and> m0 \<le> fold (\<lambda>r m. max m (scan_value_id r)) rs m0"
proof (induction rs arbitrary: m0)
  case (Cons r rs)
  show ?case using Cons.IH [of "max m0 (scan_value_id r)"] by auto
qed simp

lemma index_holds_results:
  assumes "new_reverse_lookup_index sd = Some index"
  shows "\<exists>rs. scan_tokens_all sd = Some rs \<and> (\<forall>v < length index. index ! v = map result_of (results_for rs v))"
proof -
  obtain rs where rs: "scan_tokens_all sd = Some rs" using assms by (auto simp: new_reverse_lookup_index_def bind_eq_Some_conv)
  define top where "top = fold (\<lambda>r m. max m (scan_value_id r)) rs (-1)"
  define sizes where "sizes = count_results rs (replicate (nat (top + 1)) 0)"
  have i: "\<not> top < 0" "index = fill_index rs (map (\<lambda>n. replicate n no_result) sizes)"
    using assms rs by (auto simp: new_reverse_lookup_index_def Let_def top_def sizes_def split: if_splits)
  have "\<forall>r \<in> set rs. - 1 \<le> scan_value_id r"
    using rs scan_ids_bound by (auto simp: scan_tokens_all_def bind_eq_Some_conv)
  moreover have "\<forall>r \<in> set rs. scan_value_id r < int (nat (top + 1))"
    using fold_max_scan [of rs "-1"] i(1) unfolding top_def [symmetric] by fastforce
  ultimately have b: "\<forall>r \<in> set rs. - 1 \<le> scan_value_id r \<and> scan_value_id r < int (nat (top + 1))" by blast
  then have s: "length sizes = nat (top + 1)" "\<forall>v < nat (top + 1). sizes ! v = length (results_for rs v)"
    using count_results_for [of rs "replicate (nat (top + 1)) 0"] by (auto simp: sizes_def)
  let ?ix = "map (\<lambda>n. replicate n no_result) sizes"
  have "\<forall>v < length ?ix. ?ix ! v = [] @ replicate (length (results_for rs v)) no_result \<and> no_result \<notin> set ([] :: reverse_result list)"
    using s by simp
  from fill_index_for [of rs ?ix "\<lambda>_. []", OF _ this] have "length index = length ?ix"
    "\<forall>v < length ?ix. index ! v = map result_of (results_for rs v)" using b s(1) i(2) by auto
  then show ?thesis using rs by auto
qed

lemma results_of_id:
  assumes "i \<in> set id_set" "distinct id_set" "\<forall>i \<in> set id_set. 0 \<le> i"
  shows "filter (\<lambda>(j, r). j = i) (concat (map (\<lambda>i. map (\<lambda>r. (i, r)) (g i)) id_set)) = map (\<lambda>r. (i, r)) (g i)"
proof -
  have none: "filter (\<lambda>(j, r). j = i) (concat (map (\<lambda>i. map (\<lambda>r. (i, r)) (g i)) ids)) = []" if "i \<notin> set ids" for ids
    using that by (auto simp: filter_empty_conv)
  have here: "filter (\<lambda>(j, r). j = i) (map (\<lambda>r. (i, r)) (g i)) = map (\<lambda>r. (i, r)) (g i)" by (simp add: filter_map comp_def)
  have away: "filter (\<lambda>(j, r). j = i) (map (\<lambda>r. (k, r)) (g k)) = []" if "k \<noteq> i" for k using that by (simp add: filter_map comp_def)
  have "i \<in> set ids \<Longrightarrow> distinct ids \<Longrightarrow>
      filter (\<lambda>(j, r). j = i) (concat (map (\<lambda>i. map (\<lambda>r. (i, r)) (g i)) ids)) = map (\<lambda>r. (i, r)) (g i)" for ids
  proof (induction ids)
    case (Cons k ks)
    then show ?case using none [of ks] here away [of k] by (cases "k = i") auto
  qed simp
  then show ?thesis using assms by blast
qed

lemma bind_all_cong:
  "(\<And>x st. x \<in> set xs \<Longrightarrow> f x st = g x st) \<Longrightarrow> bind_all f xs st = bind_all g xs st"
  by (induction xs arbitrary: st) (auto intro!: bind_option_cong)

lemma register_results_cong:
  assumes "\<And>i. i \<in> set id_set \<Longrightarrow> filter (\<lambda>(j, r). j = i) results = filter (\<lambda>(j, r). j = i) results'"
  shows "register_reverse_lookup_results h2k sd id_set results cb st = register_reverse_lookup_results h2k sd id_set results' cb st"
  unfolding register_reverse_lookup_results_def using assms by (intro bind_option_cong refl bind_all_cong) simp

text \<open>The lookups look at the images alone, not at the index and the cache.\<close>

definition same_images :: "system_dictionary \<Rightarrow> system_dictionary \<Rightarrow> bool" where
  "same_images sd sd' \<longleftrightarrow> key_trie sd' = key_trie sd \<and> value_trie sd' = value_trie sd \<and> token_array sd' = token_array sd \<and>
     dict_frequent_pos sd' = dict_frequent_pos sd"

lemma same_images_iterator:
  assumes "same_images sd sd'"
  shows "get_token_array_ptr sd' = get_token_array_ptr sd" "next_internal h2k sd' = next_internal h2k sd"
    "new_iterator h2k sd' = new_iterator h2k sd" "iterator_next h2k sd' = iterator_next h2k sd"
    "scan_tokens_all sd' = scan_tokens_all sd"
proof -
  show n: "next_internal h2k sd' = next_internal h2k sd" using assms by (simp add: fun_eq_iff next_internal_def same_images_def)
  show g: "get_token_array_ptr sd' = get_token_array_ptr sd" using assms by (simp add: fun_eq_iff get_token_array_ptr_def same_images_def)
  show "new_iterator h2k sd' = new_iterator h2k sd" by (simp add: fun_eq_iff new_iterator_def n)
  show "iterator_next h2k sd' = iterator_next h2k sd" by (simp add: fun_eq_iff iterator_next_def n)
  show "scan_tokens_all sd' = scan_tokens_all sd" by (simp add: scan_tokens_all_def g)
qed

lemma same_images_for_tokens:
  "same_images sd sd' \<Longrightarrow> for_tokens h2k sd' f it st = for_tokens h2k sd f it st"
proof (induction h2k sd f it st rule: for_tokens.induct)
  case (1 h2k sd f it st)
  note next' = same_images_iterator(4) [OF 1(2), of h2k]
  obtain r st' where r: "f (iter_info it) st = (r, st')" by fastforce
  show ?case
  proof (cases "iter_state it = ITER_DONE \<or> r \<noteq> TRAVERSE_CONTINUE")
    case True
    then show ?thesis using r by (auto simp: for_tokens.simps [of h2k _ f it st])
  next
    case False
    have "for_tokens h2k sd' f it' st' = for_tokens h2k sd f it' st'" if "iterator_next h2k sd it = Some it'" for it'
      using 1(1) [OF _ r [symmetric] refl _ that 1(2)] False by simp
    then show ?thesis using False r by (simp add: for_tokens.simps [of h2k _ f it st] next' split: option.split)
  qed
qed

lemma same_images_visit:
  assumes "same_images sd sd'"
  shows "tokens_of_key h2k sd' key i f st = tokens_of_key h2k sd key i f st"
    and "visit_terminal h2k sd' cb keep p a n node st = visit_terminal h2k sd cb keep p a n node st"
    and "register_result h2k sd' ptr cb v r st = register_result h2k sd ptr cb v r st"
proof -
  note s = same_images_iterator [OF assms] same_images_for_tokens [OF assms]
  have kt: "key_trie sd' = key_trie sd" using assms by (simp add: same_images_def)
  show t: "tokens_of_key h2k sd' key i f st = tokens_of_key h2k sd key i f st" for key i f st
    by (simp add: tokens_of_key_def s)
  show "visit_terminal h2k sd' cb keep p a n node st = visit_terminal h2k sd cb keep p a n node st"
    using assms by (simp add: visit_terminal_def t same_images_def split: prod.splits)
  show "register_result h2k sd' ptr cb v r st = register_result h2k sd ptr cb v r st"
    unfolding register_result_def s kt by (rule refl)
qed

lemma same_images_prefixes:
  assumes "same_images sd sd'"
  shows "run_callback_on_each_prefix h2k sd' key cb keep encoded cs node st = run_callback_on_each_prefix h2k sd key cb keep encoded cs node st"
proof (induction cs arbitrary: encoded node st)
  case (Cons c cs)
  have kt: "key_trie sd' = key_trie sd" using assms by (simp add: same_images_def)
  show ?case unfolding run_callback_on_each_prefix.simps kt same_images_visit(2) [OF assms] Cons.IH by (rule refl)
qed simp

lemma same_images_t13n:
  "same_images sd sd' \<Longrightarrow>
     register_reverse_lookup_tokens_for_t13n h2k k2h sd' value cb = register_reverse_lookup_tokens_for_t13n h2k k2h sd value cb"
  by (simp add: fun_eq_iff register_reverse_lookup_tokens_for_t13n_def same_images_prefixes)

lemma same_images_results:
  assumes "same_images sd sd'"
  shows "register_reverse_lookup_results h2k sd' id_set results cb st = register_reverse_lookup_results h2k sd id_set results cb st"
proof -
  show ?thesis unfolding register_reverse_lookup_results_def same_images_visit(3) [OF assms] same_images_iterator [OF assms] by (rule refl)
qed

lemma added_ids:
  assumes "add_key_ids_of_all_prefixes t key [] = Some id_set"
  shows "\<forall>i \<in> set id_set. 0 \<le> i" and "distinct id_set"
proof -
  obtain found where "id_set = insert_ids (map int found) []" using assms by (auto simp: add_key_ids_of_all_prefixes_def bind_eq_Some_conv)
  then show "\<forall>i \<in> set id_set. 0 \<le> i" "distinct id_set" by (auto simp: insert_ids_def distinct_remdups_adj_sort)
qed

lemma scanned_results_of_id:
  assumes "scan_tokens_all sd = Some rs" "i \<in> set id_set" "0 \<le> i"
  shows "\<exists>results. scan_tokens sd id_set [] = Some results \<and>
    filter (\<lambda>(j, r). j = i) results = map (\<lambda>r. (i, r)) (map result_of (results_for rs (nat i)))"
proof -
  have "map (\<lambda>r. (scan_value_id r, result_of r)) (filter (\<lambda>r. scan_value_id r = i) (filter (\<lambda>r. scan_value_id r \<noteq> -1 \<and> scan_value_id r \<in> set id_set) rs))
      = map (\<lambda>r. (i, result_of r)) (filter (\<lambda>r. scan_value_id r = i) rs)"
    using assms(2,3) by (induction rs) auto
  then show ?thesis using assms(1,3)
    by (simp add: scan_tokens_def filter_map comp_def results_for_def result_of_def)
qed

lemma indexed_results_of_id:
  assumes ix: "\<forall>v < length index. index ! v = map result_of (results_for rs v)"
    and id_set: "\<forall>i \<in> set id_set. 0 \<le> i \<and> i < int (length index)" "distinct id_set"
  shows "\<exists>results. fill_result_map index id_set = Some results \<and>
    (\<forall>i \<in> set id_set. filter (\<lambda>(j, r). j = i) results = map (\<lambda>r. (i, r)) (map result_of (results_for rs (nat i))))"
proof -
  define g where "g = (\<lambda>i. map result_of (results_for rs (nat i)))"
  have "those (map (\<lambda>i. if 0 \<le> i \<and> nat i < length index then Some (map (\<lambda>r. (i, r)) (index ! nat i)) else None) id_set) =
      Some (map (\<lambda>i. map (\<lambda>r. (i, r)) (g i)) id_set)"
    using ix id_set(1) by (intro those_map_all) (auto simp: g_def)
  then have "fill_result_map index id_set = Some (concat (map (\<lambda>i. map (\<lambda>r. (i, r)) (g i)) id_set))" by (simp add: fill_result_map_def)
  then show ?thesis using results_of_id [of _ id_set g] id_set unfolding g_def by blast
qed

lemma reverse_lookup_same:
  assumes plain: "reverse_lookup_index sd = None" "reverse_lookup_cache sd = None"
    and index: "new_reverse_lookup_index sd = Some index" and cache: "populate_reverse_lookup_cache sd str0 = Some sd'"
    and ids: "add_key_ids_of_all_prefixes (value_trie sd) (encode_value str) [] = Some id_set" "\<forall>i \<in> set id_set. i < int (length index)"
  shows "lookup_reverse h2k k2h (sd\<lparr>reverse_lookup_index := Some index\<rparr>) str cb st = lookup_reverse h2k k2h sd str cb st \<and>
    lookup_reverse h2k k2h sd' str cb st = lookup_reverse h2k k2h sd str cb st"
proof -
  note nonneg = added_ids [OF ids(1)]
  obtain rs where rs: "scan_tokens_all sd = Some rs" "\<forall>v < length index. index ! v = map result_of (results_for rs v)"
    using index_holds_results [OF index] by blast
  obtain results where scanned: "scan_tokens sd id_set [] = Some results" using rs(1) by (simp add: scan_tokens_def)
  have of_id: "filter (\<lambda>(j, r). j = i) results = map (\<lambda>r. (i, r)) (map result_of (results_for rs (nat i)))" if "i \<in> set id_set" for i
    using scanned_results_of_id [OF rs(1) that] nonneg(1) that scanned by auto
  have by_scan: "register_reverse_lookup_tokens_for_value h2k sd str cb' st' = register_reverse_lookup_results h2k sd id_set results cb' st'"
    for cb' and st' :: 'a
    using plain ids(1) scanned by (simp add: register_reverse_lookup_tokens_for_value_def)
  let ?sdi = "sd\<lparr>reverse_lookup_index := Some index\<rparr>"
  have si: "same_images sd ?sdi" by (simp add: same_images_def)
  obtain results_i where ri: "fill_result_map index id_set = Some results_i"
    "\<forall>i \<in> set id_set. filter (\<lambda>(j, r). j = i) results_i = map (\<lambda>r. (i, r)) (map result_of (results_for rs (nat i)))"
    using indexed_results_of_id [OF rs(2), of id_set] nonneg ids(2) by auto
  have "register_reverse_lookup_tokens_for_value h2k ?sdi str cb' st' = register_reverse_lookup_results h2k sd id_set results cb' st'"
    for cb' and st' :: 'a
    using ids(1) ri(1) register_results_cong [of id_set results_i results h2k sd cb' st'] ri(2) of_id
    by (simp add: register_reverse_lookup_tokens_for_value_def same_images_results [OF si])
  then have i: "lookup_reverse h2k k2h ?sdi str cb st = lookup_reverse h2k k2h sd str cb st"
    by (simp add: lookup_reverse_def Let_def same_images_t13n [OF si] by_scan cong: bind_option_cong)
  obtain id_set' cached where c: "scan_tokens sd id_set' [] = Some cached" "sd' = sd\<lparr>reverse_lookup_cache := Some cached\<rparr>"
    using cache plain by (auto simp: populate_reverse_lookup_cache_def bind_eq_Some_conv)
  have sc: "same_images sd sd'" using c(2) by (simp add: same_images_def)
  have "register_reverse_lookup_tokens_for_value h2k sd' str cb' st' = register_reverse_lookup_results h2k sd id_set results cb' st'"
    for cb' and st' :: 'a
  proof (cases "is_available cached id_set")
    case True
    have "filter (\<lambda>(j, r). j = i) cached = filter (\<lambda>(j, r). j = i) results" if i: "i \<in> set id_set" for i
    proof -
      have "i \<in> fst ` set cached" using True i by (auto simp: is_available_def list_all_iff)
      then have "i \<in> set id_set'" using c(1) rs(1) by (auto simp: scan_tokens_def)
      then show ?thesis using scanned_results_of_id [OF rs(1), of i id_set'] c(1) nonneg(1) i of_id by auto
    qed
    then show ?thesis using True ids(1) c(2) plain register_results_cong [of id_set cached results h2k sd cb' st']
      by (simp add: register_reverse_lookup_tokens_for_value_def same_images_results [OF sc, unfolded c(2)])
  next
    case False
    have "scan_tokens sd' id_set [] = Some results" using scanned same_images_iterator(5) [OF sc] by (simp add: scan_tokens_def)
    then show ?thesis using False ids(1) c(2) plain
      by (simp add: register_reverse_lookup_tokens_for_value_def same_images_results [OF sc, unfolded c(2)])
  qed
  then have "lookup_reverse h2k k2h sd' str cb st = lookup_reverse h2k k2h sd str cb st"
    by (simp add: lookup_reverse_def Let_def same_images_t13n [OF sc] by_scan cong: bind_option_cong)
  then show ?thesis using i by blast
qed

section \<open>The scan of a built dictionary\<close>

definition stored_value_id :: "token_info \<Rightarrow> int" where
  "stored_value_id info = (if info_value_type info = DEFAULT_VALUE then id_in_value_trie info else - 1)"

definition scannable :: "token_info \<Rightarrow> bool" where
  "scannable info \<longleftrightarrow> codable info \<and>
     (info_value_type info = DEFAULT_VALUE \<longrightarrow> 0 \<le> id_in_value_trie info \<and> id_in_value_trie info < 0x3f0000)"

text \<open>The tokens of one key, from the token \<open>i\<close> on; the next key follows behind at least four bytes.\<close>

lemma scan_tokens_of_key:
  "encode_token_list infos [i..<length infos] = Some bs \<Longrightarrow> i < length infos \<Longrightarrow> \<forall>info \<in> set infos. scannable info \<Longrightarrow>
     drop offset ptr = bs @ rest \<Longrightarrow> start \<le> offset \<Longrightarrow>
     scan_from ptr offset start index =
       map_option (\<lambda>rs. map (\<lambda>info. \<lparr>scan_value_id = stored_value_id info, scan_index = index, scan_tokens_offset = start\<rparr>) (drop i infos) @ rs)
         (scan_from ptr (start + max (offset + length bs - start) 4) (start + max (offset + length bs - start) 4) (index + 1))"
proof (induction "length infos - i" arbitrary: i bs offset)
  case (Suc n)
  have "[i..<length infos] = i # [Suc i..<length infos]" using Suc.prems(2) by (rule upt_conv_Cons)
  then obtain b bs' where b: "encode_token infos i = Some b" "encode_token_list infos [Suc i..<length infos] = Some bs'" "bs = b @ bs'"
    using Suc.prems(1) by (auto simp: bind_eq_Some_conv)
  let ?o = "infos ! i"
  have sc: "scannable ?o" using Suc.prems(2,3) by simp
  have first: "b \<noteq> []" "hd b \<noteq> kTokenTerminationFlag" using encode_token_first [OF b(1)] sc by (auto simp: scannable_def)
  have d: "drop offset ptr = b @ (bs' @ rest)" using Suc.prems(4) b(3) by simp
  then have o: "offset < length ptr" using first(1) by (metis append_is_Nil_conv drop_eq_Nil not_le)
  have rb: "read_byte ptr offset = Some (hd b)"
    using o d first(1) by (metis read_byte_def hd_drop_conv_nth hd_append2)
  have rt: "read_token_for_reverse_lookup (drop offset ptr) = Some (i \<noteq> length infos - 1, stored_value_id ?o, length b)"
    unfolding d using token_round_trip(2) [OF b(1)] sc by (simp add: scannable_def stored_value_id_def)
  have dr: "drop i infos = ?o # drop (Suc i) infos" using Suc.prems(2) by (simp add: Cons_nth_drop_Suc)
  note step = scan_from.simps [of ptr offset start index]
  show ?case
  proof (cases "Suc i < length infos")
    case True
    have d': "drop (offset + length b) ptr = bs' @ rest" using arg_cong [OF d, of "drop (length b)"] by (simp add: add.commute)
    have ne: "i \<noteq> length infos - 1" using True by simp
    have "n = length infos - Suc i" using Suc.hyps(2) by simp
    note ih = Suc.hyps(1) [OF this b(2) True Suc.prems(3) d']
    have len: "offset + length b + length bs' = offset + length bs" by (simp add: b(3))
    let ?next = "start + max (offset + length bs - start) 4"
    have "start \<le> offset + length b" using Suc.prems(5) by simp
    note ih' = ih [OF this, unfolded len]
    show ?thesis using ih' rb rt first(2) ne
      by (cases "scan_from ptr ?next ?next (index + 1)") (simp_all add: step Let_def dr)
  next
    case False
    then have "(i \<noteq> length infos - 1) = False" "bs' = []" "drop i infos = [?o]" using Suc.prems(2) b(2) by (auto simp: dr)
    then show ?thesis using rb rt first(2) b(3)
      by (cases "scan_from ptr (start + max (offset + length b - start) 4) (start + max (offset + length b - start) 4) (index + 1)")
        (simp_all add: step Let_def kMinTokenArrayBlobSize_def)
  qed
qed simp

definition block_offset :: "byte list list \<Rightarrow> nat \<Rightarrow> nat" where
  "block_offset encoded k = length (concat (map (padded 4 1) (map bytes_of_words (take k encoded))))"

definition block_results :: "(nat \<Rightarrow> token_info list) \<Rightarrow> byte list list \<Rightarrow> nat \<Rightarrow> scan_result list" where
  "block_results infos encoded k =
     map (\<lambda>info. \<lparr>scan_value_id = stored_value_id info, scan_index = k, scan_tokens_offset = block_offset encoded k\<rparr>) (infos k)"

lemma padded4_length: "length (padded 4 1 e) = max (length e) 4"
  by (simp add: length_padded steps_def)

lemma drop_blocks:
  assumes "k \<le> length encoded"
  shows "drop (block_offset encoded k) (words_of_bytes (concat (map (padded 4 1) (token_blocks encoded)))) =
    words_of_bytes (concat (map (padded 4 1) (drop k (token_blocks encoded))))"
proof -
  have "token_blocks encoded = map bytes_of_words (take k encoded) @ drop k (token_blocks encoded)"
  proof -
    have "take k (token_blocks encoded) = map bytes_of_words (take k encoded)" using assms by (simp add: token_blocks_def take_map)
    then show ?thesis using append_take_drop_id [of k "token_blocks encoded"] by simp
  qed
  then have "concat (map (padded 4 1) (token_blocks encoded)) =
      concat (map (padded 4 1) (map bytes_of_words (take k encoded))) @ concat (map (padded 4 1) (drop k (token_blocks encoded)))"
    by (metis concat_append map_append)
  then show ?thesis unfolding block_offset_def by (simp add: words_of_bytes_def drop_map)
qed

lemma scan_blocks:
  assumes ptr: "ptr = words_of_bytes (concat (map (padded 4 1) (token_blocks encoded)))"
    and enc: "\<forall>k < length encoded. encode_tokens (infos k) = Some (encoded ! k) \<and> infos k \<noteq> [] \<and> (\<forall>info \<in> set (infos k). scannable info)"
  shows "k \<le> length encoded \<Longrightarrow>
    scan_from ptr (block_offset encoded k) (block_offset encoded k) k = Some (concat (map (block_results infos encoded) [k..<length encoded]))"
proof (induction "length encoded - k" arbitrary: k)
  case 0
  then have k: "k = length encoded" by simp
  have "drop (block_offset encoded k) ptr = words_of_bytes (padded 4 1 (bytes_of_words [kTokenTerminationFlag]))"
    unfolding ptr using drop_blocks [of k encoded] k by (simp add: token_blocks_def)
  then obtain rest where d: "drop (block_offset encoded k) ptr = kTokenTerminationFlag # rest" by (simp add: padded_def)
  then have "block_offset encoded k < length ptr" by (metis drop_eq_Nil list.discI not_le)
  then have "read_byte ptr (block_offset encoded k) = Some kTokenTerminationFlag"
    using d by (metis read_byte_def hd_drop_conv_nth list.sel(1))
  then show ?case using k by (simp add: scan_from.simps [of ptr])
next
  case (Suc n)
  then have k: "k < length encoded" by simp
  note e = enc [rule_format, OF k]
  have l: "encode_token_list (infos k) [0..<length (infos k)] = Some (encoded ! k)"
    using e by (auto simp: encode_tokens_def bind_eq_Some_conv split: if_splits)
  have "drop k (token_blocks encoded) = bytes_of_words (encoded ! k) # drop (Suc k) (token_blocks encoded)"
    using k by (simp add: token_blocks_def Cons_nth_drop_Suc [symmetric] nth_append)
  then obtain rest where d: "drop (block_offset encoded k) ptr = encoded ! k @ rest"
    unfolding ptr using drop_blocks [of k encoded] k by (auto simp: padded_def)
  have off: "block_offset encoded k + max (length (encoded ! k)) 4 = block_offset encoded (Suc k)"
    using k by (simp add: block_offset_def take_Suc_conv_app_nth padded4_length del: One_nat_def)
  have "0 < length (infos k)" "\<forall>info \<in> set (infos k). scannable info" using e by auto
  from scan_tokens_of_key [OF l this d le_refl, of k]
  have "scan_from ptr (block_offset encoded k) (block_offset encoded k) k =
      map_option (\<lambda>rs. block_results infos encoded k @ rs)
        (scan_from ptr (block_offset encoded (Suc k)) (block_offset encoded (Suc k)) (Suc k))"
    by (simp add: off block_results_def)
  moreover have "[k..<length encoded] = k # [Suc k..<length encoded]" using k by (rule upt_conv_Cons)
  ultimately show ?case using Suc.hyps(1) [of "Suc k"] Suc.hyps(2) k by simp
qed

text \<open>The tokens behind every key id of an opened dictionary.\<close>

lemma stored_by_id:
  assumes d: "dict_input tokens" and s: "dict_stores h2k tokens sd"
  shows "\<exists>encoded infos. get_token_array_ptr sd 0 = Some (words_of_bytes (concat (map (padded 4 1) (token_blocks encoded)))) \<and>
    length encoded = card (key_words tokens) \<and>
    (\<forall>k < length encoded. encode_tokens (infos k) = Some (encoded ! k) \<and> infos k \<noteq> [] \<and> (\<forall>info \<in> set (infos k). scannable info)) \<and>
    (\<forall>key \<in> token_key ` set tokens. let k = key_id (key_words tokens) (encode_decode_key key) in
       k < length encoded \<and> (\<exists>frequent. infos_ok h2k (value_words h2k tokens) frequent None (infos k)) \<and>
       mset (map info_token (infos k)) = mset (filter (\<lambda>t. token_key t = key) tokens))"
proof -
  let ?W = "value_words h2k tokens" and ?K = "key_words tokens"
  let ?id = "\<lambda>key. key_id ?K (encode_decode_key key)"
  obtain frequent where fr: "dict_frequent_pos sd = frequent_pos_array frequent" "frequent_ok frequent"
    "token_store h2k tokens frequent (token_array sd)" using s unfolding dict_stores_def by blast
  obtain encoded infos where st: "length encoded = card ?K"
    "\<forall>i < length (token_blocks encoded). array_pointer (token_array sd) i = Some (concat (map (padded 4 1) (drop i (token_blocks encoded))))"
    "\<forall>key \<in> token_key ` set tokens. encode_tokens (infos key) = Some (encoded ! ?id key) \<and>
       infos_ok h2k ?W frequent None (infos key) \<and> mset (map info_token (infos key)) = mset (filter (\<lambda>t. token_key t = key) tokens)"
    using fr(3) unfolding token_store_def by blast
  have n: "length encoded = length (dict_keys tokens)" using st(1) key_words_card(1) [OF d] by simp
  have "inj_on ?id (token_key ` set tokens)"
  proof (rule inj_onI)
    fix x y assume xy: "x \<in> token_key ` set tokens" "y \<in> token_key ` set tokens" "?id x = ?id y"
    then have "trie_id ?K (encode_decode_key x) = trie_id ?K (encode_decode_key y)" using key_ids(1) [OF d] by simp
    then show "x = y" by (rule inj_onD [OF key_ids(3) [OF d] _ xy(1,2)])
  qed
  moreover have "?id ` token_key ` set tokens \<subseteq> {..<length encoded}" using key_ids(2) [OF d] n by auto
  moreover have "card (token_key ` set tokens) = length encoded" using n distinct_card [of "dict_keys tokens"] by simp
  ultimately have all: "?id ` token_key ` set tokens = {..<length encoded}" and inj: "inj_on ?id (token_key ` set tokens)"
    by (metis card_image card_lessThan card_subset_eq finite_lessThan)+
  define key_of where "key_of = the_inv_into (token_key ` set tokens) ?id"
  have ko: "key_of (?id key) = key" if "key \<in> token_key ` set tokens" for key
    unfolding key_of_def by (rule the_inv_into_f_f [OF inj that])
  have kk: "key_of k \<in> token_key ` set tokens \<and> ?id (key_of k) = k" if "k < length encoded" for k
  proof -
    have "k \<in> ?id ` token_key ` set tokens" using all that by simp
    then obtain key where "k = ?id key" "key \<in> token_key ` set tokens" by (rule imageE)
    then show ?thesis using ko by simp
  qed
  have len: "length tokens \<le> 0x3f0000" using d by (simp add: dict_input_def)
  have fin: "finite ?W" "card ?W \<le> 0x3f0000" using card_value_words [of h2k tokens] len by (auto simp: value_words_def)
  have one: "encode_tokens (infos key) = Some (encoded ! ?id key) \<and> infos key \<noteq> [] \<and> (\<forall>info \<in> set (infos key). scannable info)"
    if key: "key \<in> token_key ` set tokens" for key
  proof -
    note t = st(3) [rule_format, OF key]
    have m: "mset (map info_token (infos key)) = mset (filter (\<lambda>t. token_key t = key) tokens)" using t by blast
    have set: "info_token ` set (infos key) = {t \<in> set tokens. token_key t = key}" using mset_eq_setD [OF m] by simp
    then have ne: "infos key \<noteq> []" using key by auto
    have sub: "info_token ` set (infos key) \<subseteq> set tokens" using set by blast
    have ok: "infos_ok h2k ?W frequent None (infos key)" using t by blast
    have "scannable (infos key ! i)" if i: "i < length (infos key)" for i
      using stored_infos_encode [OF d fr(2) fin ok sub i] by (auto simp: scannable_def codable_def)
    then show ?thesis using t ne by (metis in_set_conv_nth)
  qed
  have p0: "get_token_array_ptr sd 0 = Some (words_of_bytes (concat (map (padded 4 1) (token_blocks encoded))))"
    using st(2) by (simp add: get_token_array_ptr_def token_blocks_def)
  have c1: "\<forall>k < length encoded. encode_tokens (infos (key_of k)) = Some (encoded ! k) \<and> infos (key_of k) \<noteq> [] \<and>
      (\<forall>info \<in> set (infos (key_of k)). scannable info)"
    using one kk by metis
  have c2: "\<forall>key \<in> token_key ` set tokens. let k = ?id key in
       k < length encoded \<and> (\<exists>frequent. infos_ok h2k ?W frequent None (infos (key_of k))) \<and>
       mset (map info_token (infos (key_of k))) = mset (filter (\<lambda>t. token_key t = key) tokens)"
  proof
    fix key assume key: "key \<in> token_key ` set tokens"
    have "?id key < length encoded" using key_ids(2) [OF d key] n by simp
    then show "let k = ?id key in k < length encoded \<and> (\<exists>frequent. infos_ok h2k ?W frequent None (infos (key_of k))) \<and>
       mset (map info_token (infos (key_of k))) = mset (filter (\<lambda>t. token_key t = key) tokens)"
      using st(3) [rule_format, OF key] unfolding Let_def ko [OF key] by blast
  qed
  show ?thesis using p0 st(1) c1 c2 by (intro exI [of _ encoded] exI [of _ "\<lambda>k. infos (key_of k)"]) blast
qed

text \<open>A value that is neither the key nor its katakana is found in the trie, at the first of its run of tokens.\<close>

lemma value_run_start:
  assumes ok: "infos_ok h2k W frequent None infos" and k: "\<forall>info \<in> set infos. token_key (info_token info) = key"
    and v: "v \<noteq> key" "v \<noteq> h2k key"
  shows "i < length infos \<Longrightarrow> token_value (info_token (infos ! i)) = v \<Longrightarrow>
    \<exists>info \<in> set infos. info_value_type info = DEFAULT_VALUE \<and> token_value (info_token info) = v"
proof (induction i)
  case 0
  then show ?case using infos_ok_nth [OF ok 0(1)] k v
    by (cases "info_value_type (infos ! 0)") (auto simp: info_ok_def value_ok_def Let_def intro!: bexI [of _ "infos ! 0"])
next
  case (Suc i)
  note o = infos_ok_nth [OF ok Suc.prems(1)]
  have m: "infos ! Suc i \<in> set infos" using Suc.prems(1) by simp
  show ?case
  proof (cases "info_value_type (infos ! Suc i)")
    case DEFAULT_VALUE
    then show ?thesis using m Suc.prems(2) by blast
  next
    case SAME_AS_PREV_VALUE
    then have "token_value (info_token (infos ! i)) = v" using o Suc.prems(2) by (simp add: info_ok_def value_ok_def Let_def)
    then show ?thesis using Suc.IH Suc.prems(1) by simp
  next
    case AS_IS_HIRAGANA
    then show ?thesis using o Suc.prems(2) v k m by (auto simp: info_ok_def value_ok_def Let_def)
  next
    case AS_IS_KATAKANA
    then show ?thesis using o Suc.prems(2) v k m by (auto simp: info_ok_def value_ok_def Let_def)
  qed
qed

lemma scan_built:
  assumes d: "dict_input tokens" and s: "dict_stores h2k tokens sd"
  shows "\<exists>rs. scan_tokens_all sd = Some rs \<and>
    (\<forall>w \<in> value_words h2k tokens. \<exists>r \<in> set rs. scan_value_id r = int (key_id (value_words h2k tokens) w))"
proof -
  let ?W = "value_words h2k tokens"
  obtain encoded infos where st: "get_token_array_ptr sd 0 = Some (words_of_bytes (concat (map (padded 4 1) (token_blocks encoded))))"
    "\<forall>k < length encoded. encode_tokens (infos k) = Some (encoded ! k) \<and> infos k \<noteq> [] \<and> (\<forall>info \<in> set (infos k). scannable info)"
    "\<forall>key \<in> token_key ` set tokens. let k = key_id (key_words tokens) (encode_decode_key key) in
       k < length encoded \<and> (\<exists>frequent. infos_ok h2k ?W frequent None (infos k)) \<and>
       mset (map info_token (infos k)) = mset (filter (\<lambda>t. token_key t = key) tokens)"
    using stored_by_id [OF d s] by blast
  define rs where "rs = concat (map (block_results infos encoded) [0..<length encoded])"
  have scan: "scan_tokens_all sd = Some rs"
    using scan_blocks [OF refl st(2), of 0] st(1) by (simp add: scan_tokens_all_def rs_def block_offset_def)
  have "\<exists>r \<in> set rs. scan_value_id r = int (key_id ?W w)" if w: "w \<in> ?W" for w
  proof -
    obtain t where t: "t \<in> set tokens" "get_value_type h2k t = DEFAULT_VALUE" "w = encode_value (token_value t)"
      using w by (auto simp: value_words_def)
    define k where "k = key_id (key_words tokens) (encode_decode_key (token_key t))"
    have "token_key t \<in> token_key ` set tokens" using t(1) by simp
    then obtain frequent where k: "k < length encoded" "infos_ok h2k ?W frequent None (infos k)"
      "mset (map info_token (infos k)) = mset (filter (\<lambda>t'. token_key t' = token_key t) tokens)"
      using st(3) unfolding Let_def k_def by blast
    have set: "info_token ` set (infos k) = {t' \<in> set tokens. token_key t' = token_key t}" using mset_eq_setD [OF k(3)] by simp
    then have "t \<in> info_token ` set (infos k)" using t(1) by simp
    then obtain i where i: "i < length (infos k)" "info_token (infos k ! i) = t" by (auto simp: in_set_conv_nth)
    have "\<forall>info \<in> set (infos k). token_key (info_token info) = token_key t" using set by blast
    then obtain info where info: "info \<in> set (infos k)" "info_value_type info = DEFAULT_VALUE" "token_value (info_token info) = token_value t"
      using value_run_start [OF k(2), of "token_key t" "token_value t" i] i t(2) get_value_type_cases(1) [of h2k t] by auto
    then obtain j where "j < length (infos k)" "infos k ! j = info" by (auto simp: in_set_conv_nth)
    then have "id_in_value_trie info = int (key_id ?W w)"
      using infos_ok_nth [OF k(2), of j] info(2,3) t(3) by (auto simp: info_ok_def value_ok_def Let_def)
    then have "\<exists>r \<in> set (block_results infos encoded k). scan_value_id r = int (key_id ?W w)"
      using info(1,2) by (force simp: block_results_def stored_value_id_def)
    moreover have "set (block_results infos encoded k) \<subseteq> set rs" using k(1) by (auto simp: rs_def)
    ultimately show ?thesis by blast
  qed
  then show ?thesis using scan by blast
qed

lemma prefix_ids:
  assumes t: "represents t W"
  shows "\<exists>id_set. add_key_ids_of_all_prefixes t key id_set0 = Some id_set \<and>
    set id_set \<subseteq> set id_set0 \<union> (\<lambda>w. int (key_id W w)) ` W"
proof -
  obtain calls where c: "prefix_search t key = Some calls" "map fst calls = filter (\<lambda>j. take j key \<in> W) [1..<Suc (length key)]"
    "\<forall>(j, m) \<in> set calls. key_id_of_terminal_node t m = Some (key_id W (take j key))"
    using prefix_search_represents [OF t, of key] by blast
  have "those (map (\<lambda>(n, node). key_id_of_terminal_node t node) calls) = Some (map (\<lambda>(j, m). key_id W (take j key)) calls)"
    using c(3) by (intro those_map_all) auto
  moreover have "take j key \<in> W" if "(j, m) \<in> set calls" for j m
  proof -
    have "j \<in> set (map fst calls)" using that by force
    then show ?thesis unfolding c(2) by simp
  qed
  ultimately show ?thesis using c(1)
    by (auto simp: add_key_ids_of_all_prefixes_def insert_ids_def)
qed

lemma ids_of_suffixes_total: "represents t W \<Longrightarrow> \<exists>id_set'. ids_of_suffixes t str id_set = Some id_set'"
proof (induction t str id_set rule: ids_of_suffixes.induct)
  case (1 t str id_set)
  show ?case
  proof (cases "str = []")
    case False
    then show ?thesis using 1 prefix_ids [OF 1(2), of "encode_value str" id_set] by (auto simp: ids_of_suffixes.simps [of t str id_set])
  qed (simp add: ids_of_suffixes.simps)
qed

lemma index_built:
  assumes d: "dict_input tokens" and s: "dict_stores h2k tokens sd" and ne: "value_words h2k tokens \<noteq> {}"
  shows "\<exists>index. new_reverse_lookup_index sd = Some index \<and>
    (\<forall>w \<in> value_words h2k tokens. int (key_id (value_words h2k tokens) w) < int (length index))"
proof -
  let ?W = "value_words h2k tokens"
  obtain rs where rs: "scan_tokens_all sd = Some rs" "\<forall>w \<in> ?W. \<exists>r \<in> set rs. scan_value_id r = int (key_id ?W w)"
    using scan_built [OF d s] by blast
  define top where "top = fold (\<lambda>r m. max m (scan_value_id r)) rs (-1)"
  define sizes where "sizes = count_results rs (replicate (nat (top + 1)) 0)"
  have le: "int (key_id ?W w) \<le> top" if "w \<in> ?W" for w
    using rs(2) that fold_max_scan [of rs "-1"] unfolding top_def by force
  obtain w where "w \<in> ?W" using ne by blast
  then have t: "\<not> top < 0" using le [of w] by linarith
  have "\<forall>r \<in> set rs. - 1 \<le> scan_value_id r" using rs(1) scan_ids_bound by (auto simp: scan_tokens_all_def bind_eq_Some_conv)
  moreover have "\<forall>r \<in> set rs. scan_value_id r < int (nat (top + 1))" using fold_max_scan [of rs "-1"] t unfolding top_def [symmetric] by fastforce
  ultimately have b: "\<forall>r \<in> set rs. - 1 \<le> scan_value_id r \<and> scan_value_id r < int (nat (top + 1))" by blast
  then have len: "length sizes = nat (top + 1)" using count_results_for [of rs "replicate (nat (top + 1)) 0"] by (simp add: sizes_def)
  have "length (fill_index rs index) = length index" for index
    by (induction rs arbitrary: index) (simp_all add: fill_index_def)
  then have "length (fill_index rs (map (\<lambda>n. replicate n no_result) sizes)) = nat (top + 1)" using len by simp
  moreover have "new_reverse_lookup_index sd = Some (fill_index rs (map (\<lambda>n. replicate n no_result) sizes))"
    using rs(1) t by (simp add: new_reverse_lookup_index_def Let_def top_def sizes_def)
  ultimately show ?thesis using le t by fastforce
qed

section \<open>Property of the reverse lookup\<close>

text \<open>
  C3: (reverse lookup) a built dictionary with at least one value in the value trie opens with and without the index for
  the reverse lookup; for every text \<open>LookupReverse\<close> makes the same calls with the index, with the cache that
  \<open>PopulateReverseLookupCache\<close> fills for any other text (which always succeeds), and by scanning the whole token array.
\<close>

theorem reverse_lookup_transparent:
  fixes cb :: "'s callback"
  assumes "dict_input tokens" "value_words h2k tokens \<noteq> {}"
  shows "\<exists>b secs sd sdi. build_from_tokens h2k n tokens new_dict_builder = Some b \<and> write_sections b = Some secs \<and>
    open_dictionary secs False = Some sd \<and> open_dictionary secs True = Some sdi \<and>
    (\<forall>str st. lookup_reverse h2k k2h sdi str cb st = lookup_reverse h2k k2h sd str cb st) \<and>
    (\<forall>str0. \<exists>sd'. populate_reverse_lookup_cache sd str0 = Some sd' \<and>
       (\<forall>str st. lookup_reverse h2k k2h sd' str cb st = lookup_reverse h2k k2h sd str cb st))"
proof -
  let ?W = "value_words h2k tokens"
  obtain b secs sd where b: "build_from_tokens h2k n tokens new_dict_builder = Some b" "write_sections b = Some secs"
    "open_dictionary secs False = Some sd" "dict_stores h2k tokens sd" using build_opens [OF assms(1)] by blast
  have plain: "reverse_lookup_index sd = None" "reverse_lookup_cache sd = None"
    using b(3) by (auto simp: open_dictionary_def Let_def bind_eq_Some_conv)
  obtain index where ix: "new_reverse_lookup_index sd = Some index" "\<forall>w \<in> ?W. int (key_id ?W w) < int (length index)"
    using index_built [OF assms(1) b(4) assms(2)] by blast
  have W: "represents (value_trie sd) ?W" using b(4) by (simp add: dict_stores_def)
  have "init_reverse_lookup_index sd = Some (sd\<lparr>reverse_lookup_index := Some index\<rparr>)"
    using ix(1) plain(1) by (simp add: init_reverse_lookup_index_def)
  then have i: "open_dictionary secs True = Some (sd\<lparr>reverse_lookup_index := Some index\<rparr>)"
    using b(3) by (auto simp: open_dictionary_def Let_def bind_eq_Some_conv)
  have pop: "\<exists>sd'. populate_reverse_lookup_cache sd str0 = Some sd'" for str0
    using ids_of_suffixes_total [OF W, of str0 "[]"] scan_built [OF assms(1) b(4)] plain(1)
    by (auto simp: populate_reverse_lookup_cache_def scan_tokens_def)
  have same: "lookup_reverse h2k k2h (sd\<lparr>reverse_lookup_index := Some index\<rparr>) str cb st = lookup_reverse h2k k2h sd str cb st \<and>
      lookup_reverse h2k k2h sd' str cb st = lookup_reverse h2k k2h sd str cb st"
    if "populate_reverse_lookup_cache sd str0 = Some sd'" for str0 sd' str st
  proof -
    obtain id_set where ids: "add_key_ids_of_all_prefixes (value_trie sd) (encode_value str) [] = Some id_set"
      "set id_set \<subseteq> (\<lambda>w. int (key_id ?W w)) ` ?W" using prefix_ids [OF W, of "encode_value str" "[]"] by auto
    have "\<forall>i \<in> set id_set. i < int (length index)" using ids(2) ix(2) by blast
    then show ?thesis by (rule reverse_lookup_same [OF plain ix(1) that ids(1)])
  qed
  show ?thesis using b(1-3) i pop same by meson
qed

theorem reverse_lookup_transparent_witness:
  "\<exists>secs sd sdi. open_dictionary secs False = Some sd \<and> open_dictionary secs True = Some sdi \<and>
     lookup_reverse id id sdi (utf8_text [0x4e9c]) take_values [] = lookup_reverse id id sd (utf8_text [0x4e9c]) take_values []"
proof -
  have "value_words id sample_tokens \<noteq> {}" by (simp add: sample_values)
  from reverse_lookup_transparent [OF sample_input this, of 0 id take_values] show ?thesis by blast
qed

section \<open>Tokens that look like the end\<close>

text \<open>
  C9: (large value ids) the scan tests the first byte of every token against the termination flag, \<open>EncodeTokens\<close>
  only the first byte of the list: a later token with a crammed value id of \<open>0x3f0000\<close> or more is encoded, and the scan ends in front of it.
\<close>

theorem scan_stops_at_large_id:
  "\<exists>bs. encode_tokens [flag_like_info\<lparr>id_in_value_trie := 0\<rparr>, flag_like_info] = Some bs \<and>
     decode_token (drop 6 bs) blank_info = Some (False, decoded flag_like_info blank_info, 6) \<and>
     scan_from (bs @ [kTokenTerminationFlag]) 0 0 0 = Some [\<lparr>scan_value_id = 0, scan_index = 0, scan_tokens_offset = 0\<rparr>]"
proof -
  let ?infos = "[flag_like_info\<lparr>id_in_value_trie := 0\<rparr>, flag_like_info]"
  let ?a = "[0x40, 3, 0, 1, 0, 0] :: byte list" and ?b = "[kTokenTerminationFlag, 3, 0, 1, 0, 0]"
  have e: "encode_token ?infos 0 = Some ?a" "encode_token ?infos 1 = Some ?b"
    by (simp_all add: encode_eval flag_like_info_def)
  have c: "codable (?infos ! 0)" "codable (?infos ! 1)" by (simp_all add: codable_def flag_like_info_def clear_info_def)
  have all: "encode_tokens ?infos = Some (?a @ ?b)"
  proof -
    have "[0..<length ?infos] = [0, 1]" by (simp add: upt_rec)
    moreover have "encode_token ?infos (Suc 0) = Some ?b" using e(2) by (simp only: One_nat_def)
    ultimately have "encode_token_list ?infos [0..<length ?infos] = Some (?a @ ?b)" using e(1) by simp
    then show ?thesis by (simp add: encode_tokens_def kTokenTerminationFlag_def)
  qed
  have d: "decode_token (drop 6 (?a @ ?b)) blank_info = Some (False, decoded flag_like_info blank_info, 6)"
    using token_round_trip(1) [OF e(2) c(2), of "[]" blank_info] by simp
  have r: "read_token_for_reverse_lookup (?a @ ?b @ [kTokenTerminationFlag]) = Some (True, 0, 6)"
    using token_round_trip(2) [OF e(1) c(1), of "?b @ [kTokenTerminationFlag]"] by (simp add: flag_like_info_def clear_info_def)
  have "scan_from (?a @ ?b @ [kTokenTerminationFlag]) 0 0 0 = Some [\<lparr>scan_value_id = 0, scan_index = 0, scan_tokens_offset = 0\<rparr>]"
    using r by (simp add: scan_from.simps [of _ 0] scan_from.simps [of _ 6] read_byte_def kTokenTerminationFlag_def Let_def)
  then show ?thesis using all d by simp
qed

end
