(* ===== verification/Spec2Isabelle.thy ===== *)
theory Spec2Isabelle
  imports Composition_Split Lru_Cache Existence_Filter Dictionary_File Dictionary_Reverse
begin

text \<open>
  A verification of the core of a Japanese input method: turning typed keys into a composition, and the storage and
  the lookups of its system dictionary.  All sources are under \<open>src/src\<close>.

  \<^bold>\<open>The program and its parts.\<close>  A key that the user types is a \<open>CompositionInput\<close>.  \<open>Composition::InsertInput\<close> finds or
  makes a \<open>CharChunk\<close> at the cursor and feeds the key to it; the chunk looks its pending text up in the romaji \<open>Table\<close>,
  which keeps its rules in a \<open>Trie\<close> and writes commands into rules as special keys; what is shown is the text of the
  chunks through their \<open>Transliterators\<close>.  \<open>TableManager\<close> caches the tables.  The kana that result are looked up in the
  \<open>SystemDictionary\<close>.  It reads an image that \<open>SystemDictionaryBuilder\<close> writes: keys and values in two \<open>LoudsTrie\<close>s and the
  tokens of every key in a \<open>BitVectorBasedArray\<close>, all encoded by \<open>SystemDictionaryCodec\<close>; below them are the LOUDS bit
  sequences with the rank and select index \<open>SimpleSuccinctBitVectorIndex\<close>, and \<open>BitStream\<close>.  \<open>DictionaryFileCodec\<close> joins the
  sections of the image in a file, under names hashed by \<open>LegacyFingerprint\<close>, and \<open>DictionaryFile\<close> finds them again.
  \<open>ExistenceFilter\<close> and \<open>LruCache\<close> serve other parts as a Bloom filter and as a cache.

  \<^bold>\<open>The theories.\<close>
  \<^item> \<open>Prelude\<close>: bytes, the search functions of \<open>std::string\<close>, lists.  \<open>Refinement\<close>: the simulation argument as a locale.
  \<^item> \<open>Utf8\<close>: \<open>base/strings/internal/utf8_internal\<close>, \<open>base/strings/unicode\<close>, and the code-point routines of
    \<open>base/util.cc\<close>.
  \<^item> \<open>Key_Trie\<close>: \<open>base/container/trie.h\<close>.  \<open>Special_Key\<close>: \<open>composer/special_key.cc\<close>.  \<open>Rule_Table\<close>:
    \<open>composer/table.cc\<close> (\<open>Table\<close>, \<open>TableManager\<close>).  \<open>Transliterators\<close>: \<open>composer/transliterators.cc\<close>.
  \<^item> \<open>Char_Chunk\<close>, \<open>Chunk_Input\<close>: \<open>composer/char_chunk.cc\<close> and what typing into a chunk guarantees.
    \<open>Composition_Chunks\<close>, \<open>Composition_Edit\<close>, \<open>Composition_Split\<close>: \<open>composer/composition.cc\<close>, insertion, deletion.
  \<^item> \<open>Bit_Stream\<close>, \<open>Bit_Vector\<close>, \<open>Louds\<close>, \<open>Louds_Trie\<close>, \<open>Louds_Builder\<close>, \<open>Bit_Vector_Array\<close>: the files of the same names
    in \<open>storage/louds\<close>.  \<open>Lru_Cache\<close>: \<open>storage/lru_cache.h\<close>, down to the pointers.
  \<^item> \<open>Key_Value_Codec\<close>, \<open>Token_Codec\<close>: \<open>dictionary/system/codec.cc\<close>.  \<open>Dictionary_Builder\<close>:
    \<open>system_dictionary_builder.cc\<close>; \<open>Dictionary_Store\<close>: what a build leaves behind.  \<open>System_Dictionary\<close>,
    \<open>Dictionary_Lookup\<close>, \<open>Dictionary_Predictive\<close>, \<open>Dictionary_Reverse\<close>: \<open>system_dictionary.cc\<close> with \<open>token_decode_iterator.h\<close>
    and \<open>key_expansion_table.h\<close>.
  \<^item> \<open>Base_Words\<close>: the stores of \<open>base/bits.h\<close> and the fingerprints of \<open>base/hash.cc\<close>.  \<open>Dictionary_File\<close>:
    \<open>dictionary/file/codec.cc\<close>, \<open>dictionary_file.cc\<close>, the end of \<open>WriteToStream\<close> and \<open>SystemDictionary::Builder::Build\<close> for an image.
    \<open>Existence_Filter\<close>: \<open>storage/existence_filter\<close>.

  \<^bold>\<open>How code became definitions.\<close>  A class is a record of its members, an enumeration a datatype, a method a function from
  the state to the new state and the answer, under the name it has in the code (in lower case with underscores; the constants
  keep their names).  A thrown exception, a failed \<open>CHECK\<close>, \<open>LOG(FATAL)\<close>, a read or write outside a buffer and a loop that
  does not end are all \<open>None\<close>; so a theorem that gives \<open>Some\<close> also says that none of them happens.  Strings are lists of
  \<open>char\<close>, which is unsigned in this build (\<open>-funsigned-char\<close>).  Integers that are packed, masked or shifted, and sizes whose
  wrap-around is observable, are words of their width; lengths, positions and ids are natural numbers or integers, with
  images and texts far below \<open>2 ^ 31\<close> bytes.  Pointers into an image are lists of bytes from the pointer on; the cells of the
  LRU cache live in an explicit heap; a shared table is an address with its table.

  \<^bold>\<open>What the properties say.\<close>
  \<^item> The dictionary: building any tokens in the ranges of the codec succeeds, the image opens, and \<open>HasKey\<close>, \<open>LookupExact\<close>,
    \<open>LookupPrefix\<close> and \<open>LookupPredictive\<close> call back for exactly the right keys with exactly their tokens, whatever the callback
    does; \<open>LookupReverse\<close> does not depend on the index or the cache it may use; the file written for the sections opens as exactly
    these sections (and a file with a negative section size is read for ever).  These rest on the round trips of the codec,
    on the trie images (an image built from any words is searched like the set of the words, with the same ids), on the
    array, and on rank and select being counts and positions.
  \<^item> Typing: \<open>AddInput\<close> and \<open>InsertInput\<close> return, and keep the invariants of chunks and compositions on tables that are
    \<open>quiet_table\<close>: no rule applies inside a pending text of a rule, and a rule for a whole pending text leaves a shorter one.  Its
    second part covers "www" of the shipped romaji table, whose pending text "ww" has a rule of its own; these rules and "ka" are
    loaded from lines of that file into the table \<open>romaji_excerpt\<close>, which is proved quiet and is the table of the examples.  The condition is not idle: the
    theorems of kind error show tables that are accepted by \<open>AddRule\<close> and make typing throw, loop or repeat text.  No typed byte
    is lost but special keys; only a rule with the attribute \<open>NO_TRANSLITERATION\<close> can empty a chunk, and sessions are on tables without
    such rules (\<open>audible_table\<close>).  \<open>DeleteAt\<close> removes one character; positions convert monotonically.
  \<^item> Tables: every sequence of operations keeps the invariant (with one condition on \<open>DeleteRule\<close>: it must not delete the rule of
    empty input of a table that has no other, whose entry would be freed and stay in the trie), an added rule is found, the loop
    check decides what it is for, and \<open>GetTable\<close> returns what a new table would be, unless settings served before collide
    with the requested ones in a hash function.  The trie is a partial function on code-point paths.
  \<^item> A Bloom filter has no false negatives, also after it was serialized and read; one of size 0 makes its reader run off the buffer.
  \<^item> The LRU cache answers every sequence of operations as a list in order of use does.
  \<^item> The two UTF-8 codecs invert themselves where they do, and the substring functions stay in their buffers.

  \<^bold>\<open>Interfaces.\<close>  Locales state the contracts between the parts and are interpreted on their models: the simulation of
  \<open>Refinement\<close> for the LRU cache, the index as rank and select for the LOUDS sequences and the array, the views of
  transliterators for splitting, and others in their theories.

  \<^bold>\<open>Bounds and fuel.\<close>  The words of a trie have less than \<open>2 ^ 28\<close> bytes together, so that the bit positions of the image fit
  32 bits; a dictionary has at most \<open>0x3f0000\<close> tokens, the largest value id that keeps the flag bits of a token apart.  Restoring
  a key writes into a buffer of \<open>kMaxDepth\<close> = 256 bytes, and lookups that restore assume keys and values that fit.  Chunk sizes of the
  index are powers of two from 4, as \<open>InitIndex\<close> checks, and image and chunk together have less than \<open>2 ^ 28\<close> bytes, so that its
  \<open>int\<close> counts of bits do not overflow.  The elements of an array and its padded data stay below \<open>2 ^ 30\<close> and \<open>2 ^ 31\<close> bytes, since \<open>Get\<close>
  computes the offset as an \<open>int\<close>; the sections of a dictionary file are smaller than \<open>2 ^ 31 - 3\<close> bytes, which \<open>RoundUp4\<close> rounds up without
  overflow.  The loops of the LRU cache take the number of cells as fuel, which no
  chain exceeds; its capacity is at most \<open>2 ^ 63\<close>, above which \<open>next_block_size_ << num_blocks\<close> in its constructor wraps around.  Loops that may not end are
  partial functions into options, and their theorems prove that they end.

  \<^bold>\<open>Parameters.\<close>  The character conversions of \<open>base/strings/japanese.cc\<close> (over generated double arrays) and of the character form
  manager, the hash functions \<open>absl::HashOf\<close> and \<open>CityFingerprint\<close> (about which nothing is assumed), the hash functions of the key of a filter, and the
  contents of table files are arguments of the definitions that use them.

  \<^bold>\<open>Not modelled.\<close>  The composer above the composition, the session, the converter with its lattice, prediction and rewriters
  work on protocol buffers, on user history and on generated data sets, and rank candidates by heuristics; the user
  dictionary, and the LRU storage are files and memory maps, as is opening a dictionary by its file name (the image that is mapped is modelled); client, IPC, renderer, GUI and the front
  ends of the platforms talk to the system.  Of \<open>base/util.cc\<close> the script tables and CSV routines, of \<open>unicode.h\<close> the iterator
  adapters are left out.  The cached length of a chunk, the test accessors of the LRU cache and the intermediate files of the dictionary builder
  are left out because nothing else depends on them.
\<close>

end
